(* ===== verification/Prelude.thy ===== *)
theory Prelude
  imports Main "HOL-Library.Word" "HOL-Library.Monad_Syntax"
begin

text \<open>
  Shared vocabulary of the development: the collections of rewrite rules the component
  theories add to, the machine types of the C sources, \<open>memmove\<close> on arrays modelled as
  lists, and the word and list lemmas used by more than one component.
\<close>

unbundle bit_operations_syntax

named_theorems list_store_simps \<open>unfolding rules of the pointer operations of list.h\<close>
named_theorems bitmap_defs \<open>definitions of the bitmap operations\<close>
named_theorems memblock_defs \<open>definitions of the memblock operations\<close>

section \<open>Machine types\<close>

text \<open>
  \<open>Algorithem/bitmap\<close> is built for a 64-bit \<open>unsigned long\<close>; the userspace memory
  allocators are built with \<^verbatim>\<open>-m32\<close>, where \<open>unsigned long\<close>, \<open>unsigned int\<close> and
  \<open>phys_addr_t\<close> are 32 bits wide.
\<close>

type_synonym ulong = "64 word"
type_synonym u32 = "32 word"
type_synonym u64 = "64 word"

section \<open>Arrays\<close>

text \<open>
  \<open>memmove\<close> inside one array: \<open>n\<close> elements from index \<open>src\<close> to index \<open>dst\<close>.
  The regions may overlap.
\<close>

definition memmove :: "'a list \<Rightarrow> nat \<Rightarrow> nat \<Rightarrow> nat \<Rightarrow> 'a list" where
  "memmove xs dst src n = take dst xs @ take n (drop src xs) @ drop (dst + n) xs"

lemma length_memmove [simp]:
  "dst + n \<le> length xs \<Longrightarrow> src + n \<le> length xs \<Longrightarrow> length (memmove xs dst src n) = length xs"
  by (simp add: memmove_def)

text \<open>Opening a gap at \<open>i\<close> and filling it inserts an element into the live prefix.\<close>

lemma take_memmove_insert:
  assumes "i \<le> c" and "c < length xs"
  shows "take (Suc c) ((memmove xs (Suc i) i (c - i))[i := x])
         = take i (take c xs) @ x # drop i (take c xs)"
proof -
  have "(memmove xs (Suc i) i (c - i))[i := x]
        = take i xs @ x # take (c - i) (drop i xs) @ drop (Suc c) xs"
    using assms by (simp add: memmove_def take_Suc_conv_app_nth list_update_append min_def)
  then show ?thesis
    using assms by (auto simp: min_def drop_take Suc_diff_le)
qed

text \<open>Closing the gap at \<open>i\<close> deletes the element at \<open>i\<close> from the live prefix.\<close>

lemma take_memmove_delete:
  assumes "i < c" and "c \<le> length xs"
  shows "take (c - 1) (memmove xs i (Suc i) (c - Suc i))
         = take i (take c xs) @ drop (Suc i) (take c xs)"
proof -
  have "length (take i xs @ take (c - Suc i) (drop (Suc i) xs)) = c - 1"
    using assms by simp
  then have "take (c - 1) (memmove xs i (Suc i) (c - Suc i))
             = take i xs @ take (c - Suc i) (drop (Suc i) xs)"
    by (metis append_assoc append_eq_conv_conj memmove_def)
  then show ?thesis
    using assms by (simp add: min_def drop_take)
qed

end
