(* ===== verification/Linked_List.thy ===== *)
theory Linked_List
  imports Prelude
begin

text \<open>
  The intrusive doubly linked list of \<open>Algorithem/list/bindirect-list/Basic/list.h\<close>.
  A \<open>struct list_head\<close> holds two pointers; the store keeps one function per field, so an
  assignment \<open>p->next = q\<close> is an update of \<open>nxt\<close> at \<open>p\<close>. The operations are
  translated assignment by assignment, in source order, because several of them read a field
  they have just written. \<open>dlist h head xs\<close> says that in store \<open>h\<close> the circular list
  anchored at \<open>head\<close> holds exactly the entries \<open>xs\<close>; the lemmas give the effect of
  every operation on \<open>xs\<close> and that lists on other nodes are untouched.
\<close>

section \<open>The store\<close>

datatype 'a lptr = LIST_POISON1 | LIST_POISON2 | Node 'a

record 'a list_heads =
  nxt :: "'a lptr \<Rightarrow> 'a lptr"
  prv :: "'a lptr \<Rightarrow> 'a lptr"

definition set_next :: "'a list_heads \<Rightarrow> 'a lptr \<Rightarrow> 'a lptr \<Rightarrow> 'a list_heads" where
  "set_next h p q = h\<lparr>nxt := (nxt h)(p := q)\<rparr>"

definition set_prev :: "'a list_heads \<Rightarrow> 'a lptr \<Rightarrow> 'a lptr \<Rightarrow> 'a list_heads" where
  "set_prev h p q = h\<lparr>prv := (prv h)(p := q)\<rparr>"

section \<open>Operations\<close>

definition INIT_LIST_HEAD :: "'a list_heads \<Rightarrow> 'a lptr \<Rightarrow> 'a list_heads" where
  "INIT_LIST_HEAD h l =
     (let h = set_next h l l in
      set_prev h l l)"

text \<open>The build without \<open>CONFIG_DEBUG_LIST\<close>: both validity checks answer true.\<close>

definition list_add_valid :: "'a list_heads \<Rightarrow> 'a lptr \<Rightarrow> 'a lptr \<Rightarrow> 'a lptr \<Rightarrow> bool" where
  "list_add_valid h new prev next' = True"

definition list_del_entry_valid :: "'a list_heads \<Rightarrow> 'a lptr \<Rightarrow> bool" where
  "list_del_entry_valid h entry = True"

definition raw_list_add :: "'a list_heads \<Rightarrow> 'a lptr \<Rightarrow> 'a lptr \<Rightarrow> 'a lptr \<Rightarrow> 'a list_heads" where
  "raw_list_add h new prev next' =
     (if \<not> list_add_valid h new prev next' then h else
      let h = set_prev h next' new;
          h = set_next h new next';
          h = set_prev h new prev
      in set_next h prev new)"

definition list_add :: "'a list_heads \<Rightarrow> 'a lptr \<Rightarrow> 'a lptr \<Rightarrow> 'a list_heads" where
  "list_add h new head = raw_list_add h new head (nxt h head)"

definition list_add_tail :: "'a list_heads \<Rightarrow> 'a lptr \<Rightarrow> 'a lptr \<Rightarrow> 'a list_heads" where
  "list_add_tail h new head = raw_list_add h new (prv h head) head"

definition raw_list_del :: "'a list_heads \<Rightarrow> 'a lptr \<Rightarrow> 'a lptr \<Rightarrow> 'a list_heads" where
  "raw_list_del h prev next' =
     (let h = set_prev h next' prev in
      set_next h prev next')"

definition raw_list_del_entry :: "'a list_heads \<Rightarrow> 'a lptr \<Rightarrow> 'a list_heads" where
  "raw_list_del_entry h entry =
     (if \<not> list_del_entry_valid h entry then h
      else raw_list_del h (prv h entry) (nxt h entry))"

definition list_del :: "'a list_heads \<Rightarrow> 'a lptr \<Rightarrow> 'a list_heads" where
  "list_del h entry =
     (let h = raw_list_del_entry h entry;
          h = set_next h entry LIST_POISON1
      in set_prev h entry LIST_POISON2)"

definition list_replace :: "'a list_heads \<Rightarrow> 'a lptr \<Rightarrow> 'a lptr \<Rightarrow> 'a list_heads" where
  "list_replace h old new =
     (let h = set_next h new (nxt h old);
          h = set_prev h (nxt h new) new;
          h = set_prev h new (prv h old)
      in set_next h (prv h new) new)"

definition list_replace_init :: "'a list_heads \<Rightarrow> 'a lptr \<Rightarrow> 'a lptr \<Rightarrow> 'a list_heads" where
  "list_replace_init h old new =
     (let h = list_replace h old new in
      INIT_LIST_HEAD h old)"

definition list_del_init :: "'a list_heads \<Rightarrow> 'a lptr \<Rightarrow> 'a list_heads" where
  "list_del_init h entry =
     (let h = raw_list_del_entry h entry in
      INIT_LIST_HEAD h entry)"

definition list_move :: "'a list_heads \<Rightarrow> 'a lptr \<Rightarrow> 'a lptr \<Rightarrow> 'a list_heads" where
  "list_move h l head =
     (let h = raw_list_del_entry h l in
      list_add h l head)"

definition list_move_tail :: "'a list_heads \<Rightarrow> 'a lptr \<Rightarrow> 'a lptr \<Rightarrow> 'a list_heads" where
  "list_move_tail h l head =
     (let h = raw_list_del_entry h l in
      list_add_tail h l head)"

definition list_bulk_move_tail ::
  "'a list_heads \<Rightarrow> 'a lptr \<Rightarrow> 'a lptr \<Rightarrow> 'a lptr \<Rightarrow> 'a list_heads" where
  "list_bulk_move_tail h head first last' =
     (let h = set_next h (prv h first) (nxt h last');
          h = set_prev h (nxt h last') (prv h first);
          h = set_next h (prv h head) first;
          h = set_prev h first (prv h head);
          h = set_next h last' head
      in set_prev h head last')"

definition list_is_last :: "'a list_heads \<Rightarrow> 'a lptr \<Rightarrow> 'a lptr \<Rightarrow> bool" where
  "list_is_last h l head \<longleftrightarrow> nxt h l = head"

definition list_empty :: "'a list_heads \<Rightarrow> 'a lptr \<Rightarrow> bool" where
  "list_empty h head \<longleftrightarrow> nxt h head = head"

definition list_empty_careful :: "'a list_heads \<Rightarrow> 'a lptr \<Rightarrow> bool" where
  "list_empty_careful h head \<longleftrightarrow>
     (let n = nxt h head in n = head \<and> n = prv h head)"

definition list_rotate_left :: "'a list_heads \<Rightarrow> 'a lptr \<Rightarrow> 'a list_heads" where
  "list_rotate_left h head =
     (if \<not> list_empty h head then
        (let first = nxt h head in list_move_tail h first head)
      else h)"

definition list_is_singular :: "'a list_heads \<Rightarrow> 'a lptr \<Rightarrow> bool" where
  "list_is_singular h head \<longleftrightarrow> \<not> list_empty h head \<and> nxt h head = prv h head"

definition raw_list_cut_position ::
  "'a list_heads \<Rightarrow> 'a lptr \<Rightarrow> 'a lptr \<Rightarrow> 'a lptr \<Rightarrow> 'a list_heads" where
  "raw_list_cut_position h l head entry =
     (let new_first = nxt h entry;
          h = set_next h l (nxt h head);
          h = set_prev h (nxt h l) l;
          h = set_prev h l entry;
          h = set_next h entry l;
          h = set_next h head new_first
      in set_prev h new_first head)"

definition list_cut_position ::
  "'a list_heads \<Rightarrow> 'a lptr \<Rightarrow> 'a lptr \<Rightarrow> 'a lptr \<Rightarrow> 'a list_heads" where
  "list_cut_position h l head entry =
     (if list_empty h head then h
      else if list_is_singular h head \<and> (nxt h head \<noteq> entry \<and> head \<noteq> entry) then h
      else if entry = head then INIT_LIST_HEAD h l
      else raw_list_cut_position h l head entry)"

definition list_cut_before ::
  "'a list_heads \<Rightarrow> 'a lptr \<Rightarrow> 'a lptr \<Rightarrow> 'a lptr \<Rightarrow> 'a list_heads" where
  "list_cut_before h l head entry =
     (if nxt h head = entry then INIT_LIST_HEAD h l
      else
        let h = set_next h l (nxt h head);
            h = set_prev h (nxt h l) l;
            h = set_prev h l (prv h entry);
            h = set_next h (prv h l) l;
            h = set_next h head entry
        in set_prev h entry head)"

definition raw_list_splice ::
  "'a list_heads \<Rightarrow> 'a lptr \<Rightarrow> 'a lptr \<Rightarrow> 'a lptr \<Rightarrow> 'a list_heads" where
  "raw_list_splice h l prev next' =
     (let first = nxt h l;
          last' = prv h l;
          h = set_prev h first prev;
          h = set_next h prev first;
          h = set_next h last' next'
      in set_prev h next' last')"

definition list_splice :: "'a list_heads \<Rightarrow> 'a lptr \<Rightarrow> 'a lptr \<Rightarrow> 'a list_heads" where
  "list_splice h l head =
     (if \<not> list_empty h l then raw_list_splice h l head (nxt h head) else h)"

definition list_splice_tail :: "'a list_heads \<Rightarrow> 'a lptr \<Rightarrow> 'a lptr \<Rightarrow> 'a list_heads" where
  "list_splice_tail h l head =
     (if \<not> list_empty h l then raw_list_splice h l (prv h head) head else h)"

definition list_splice_init :: "'a list_heads \<Rightarrow> 'a lptr \<Rightarrow> 'a lptr \<Rightarrow> 'a list_heads" where
  "list_splice_init h l head =
     (if \<not> list_empty h l then
        (let h = raw_list_splice h l head (nxt h head) in INIT_LIST_HEAD h l)
      else h)"

definition list_splice_tail_init :: "'a list_heads \<Rightarrow> 'a lptr \<Rightarrow> 'a lptr \<Rightarrow> 'a list_heads" where
  "list_splice_tail_init h l head =
     (if \<not> list_empty h l then
        (let h = raw_list_splice h l (prv h head) head in INIT_LIST_HEAD h l)
      else h)"

text \<open>
  \<open>list_entry\<close> is pointer arithmetic from the embedded node back to its container; with one
  list per container the node identifies the container, so the entry macros are the pointer
  they start from. \<open>None\<close> is \<open>NULL\<close>.
\<close>

definition list_first_entry :: "'a list_heads \<Rightarrow> 'a lptr \<Rightarrow> 'a lptr" where
  "list_first_entry h p = nxt h p"

definition list_last_entry :: "'a list_heads \<Rightarrow> 'a lptr \<Rightarrow> 'a lptr" where
  "list_last_entry h p = prv h p"

definition list_first_entry_or_null :: "'a list_heads \<Rightarrow> 'a lptr \<Rightarrow> 'a lptr option" where
  "list_first_entry_or_null h head =
     (let pos = nxt h head in if pos \<noteq> head then Some pos else None)"

text \<open>
  The traversals \<open>list_for_each\<close> and \<open>list_for_each_prev\<close>, collecting the cursor of every
  iteration. The loop is bounded by fuel; \<open>None\<close> means that the fuel ran out.
\<close>

fun list_for_each_from :: "nat \<Rightarrow> 'a list_heads \<Rightarrow> 'a lptr \<Rightarrow> 'a lptr \<Rightarrow> 'a lptr list option" where
  "list_for_each_from 0 h head pos = None"
| "list_for_each_from (Suc fuel) h head pos =
     (if pos \<noteq> head then map_option (Cons pos) (list_for_each_from fuel h head (nxt h pos))
      else Some [])"

definition list_for_each :: "nat \<Rightarrow> 'a list_heads \<Rightarrow> 'a lptr \<Rightarrow> 'a lptr list option" where
  "list_for_each fuel h head = list_for_each_from fuel h head (nxt h head)"

fun list_for_each_prev_from ::
  "nat \<Rightarrow> 'a list_heads \<Rightarrow> 'a lptr \<Rightarrow> 'a lptr \<Rightarrow> 'a lptr list option" where
  "list_for_each_prev_from 0 h head pos = None"
| "list_for_each_prev_from (Suc fuel) h head pos =
     (if pos \<noteq> head then map_option (Cons pos) (list_for_each_prev_from fuel h head (prv h pos))
      else Some [])"

definition list_for_each_prev :: "nat \<Rightarrow> 'a list_heads \<Rightarrow> 'a lptr \<Rightarrow> 'a lptr list option" where
  "list_for_each_prev fuel h head = list_for_each_prev_from fuel h head (prv h head)"

section \<open>Lists in the store\<close>

text \<open>
  \<open>lnk f a b\<close> is \<open>f a = b\<close>, kept folded so that the simplifier does not replace a node by
  the field that points to it. \<open>chain n p a bs\<close>: following \<open>n\<close> from \<open>a\<close> visits \<open>bs\<close>,
  and \<open>p\<close> leads back.
\<close>

definition lnk :: "('p \<Rightarrow> 'p) \<Rightarrow> 'p \<Rightarrow> 'p \<Rightarrow> bool" where
  "lnk f a b \<longleftrightarrow> f a = b"

primrec chain :: "('p \<Rightarrow> 'p) \<Rightarrow> ('p \<Rightarrow> 'p) \<Rightarrow> 'p \<Rightarrow> 'p list \<Rightarrow> bool" where
  "chain n p a [] = True"
| "chain n p a (b # bs) = (lnk n a b \<and> lnk p b a \<and> chain n p b bs)"

definition dlist :: "'a list_heads \<Rightarrow> 'a lptr \<Rightarrow> 'a lptr list \<Rightarrow> bool" where
  "dlist h head xs \<longleftrightarrow> distinct (head # xs) \<and> chain (nxt h) (prv h) head (xs @ [head])"

definition agree :: "'a lptr set \<Rightarrow> 'a list_heads \<Rightarrow> 'a list_heads \<Rightarrow> bool" where
  "agree A h h' \<longleftrightarrow> (\<forall>p\<in>A. nxt h' p = nxt h p \<and> prv h' p = prv h p)"

lemmas list_ops_defs =
  set_next_def set_prev_def list_add_valid_def list_del_entry_valid_def INIT_LIST_HEAD_def
  raw_list_add_def raw_list_del_def raw_list_del_entry_def list_replace_def
  raw_list_splice_def raw_list_cut_position_def Let_def

declare list_ops_defs [list_store_simps]

lemma lnk_upd [simp]: "lnk (f(x := v)) a b \<longleftrightarrow> (if a = x then v = b else lnk f a b)"
  by (simp add: lnk_def)

lemma chain_append: "chain n p a (xs @ ys) \<longleftrightarrow> chain n p a xs \<and> chain n p (last (a # xs)) ys"
  by (induction xs arbitrary: a) auto

lemma chain_split [simp]:
  "chain n p a (us @ y # w # ws) \<longleftrightarrow> chain n p a (us @ [y]) \<and> chain n p y (w # ws)"
  by (simp add: chain_append)

lemma chain_nxt [simp]:
  "x \<notin> set (butlast (a # xs)) \<Longrightarrow> chain (n(x := q)) p a xs = chain n p a xs"
  by (induction xs arbitrary: a) (auto split: if_splits)

lemma chain_prv [simp]:
  "x \<notin> set xs \<Longrightarrow> chain n (p(x := q)) a xs = chain n p a xs"
  by (induction xs arbitrary: a) auto

lemma chain_cong:
  assumes "agree (insert a (set xs)) h h'"
  shows "chain (nxt h') (prv h') a xs = chain (nxt h) (prv h) a xs"
  using assms by (induction xs arbitrary: a) (simp_all add: agree_def lnk_def)

lemma list_ends_cases:
  obtains (empty) "xs = []" | (single) x where "xs = [x]" | (ends) x ys y where "xs = x # ys @ [y]"
proof (cases xs)
  case (Cons x ys)
  then show thesis by (cases ys rule: rev_cases) (auto intro: single ends)
qed (rule empty)

text \<open>A list whose nodes an operation does not write is unchanged.\<close>

lemma dlist_cong:
  assumes "agree (insert head (set xs)) h h'"
  shows "dlist h' head xs = dlist h head xs"
proof -
  have "agree (insert head (set (xs @ [head]))) h h'" using assms by (simp add: agree_def)
  then show ?thesis unfolding dlist_def by (simp only: chain_cong)
qed

lemma dlist_distinct: "dlist h head xs \<Longrightarrow> distinct (head # xs)"
  by (simp add: dlist_def)

lemma dlist_nxt: "dlist h head (xs @ e # ys) \<Longrightarrow> nxt h e = hd (ys @ [head])"
  by (cases ys; force simp: dlist_def lnk_def)

lemma dlist_prv: "dlist h head (xs @ e # ys) \<Longrightarrow> prv h e = last (head # xs)"
  by (cases xs rule: rev_cases; force simp: dlist_def lnk_def)

lemma dlist_first: "dlist h head xs \<Longrightarrow> nxt h head = hd (xs @ [head])"
  by (cases xs; force simp: dlist_def lnk_def)

lemma dlist_last: "dlist h head xs \<Longrightarrow> prv h head = last (head # xs)"
  by (cases xs rule: rev_cases; force simp: dlist_def lnk_def)

section \<open>Effect of each operation\<close>

lemma dlist_INIT_LIST_HEAD: "dlist (INIT_LIST_HEAD h l) l []"
  by (simp add: dlist_def list_store_simps)

lemma dlist_raw_list_add:
  assumes "dlist h head (xs @ ys)" and "new \<notin> set (head # xs @ ys)"
  shows "dlist (raw_list_add h new (last (head # xs)) (hd (ys @ [head]))) head (xs @ new # ys)"
  using assms
  by (cases xs rule: rev_cases; cases ys; auto simp: dlist_def list_store_simps)

lemma dlist_raw_list_del:
  assumes "dlist h head (xs @ e # ys)"
  shows "dlist (raw_list_del h (last (head # xs)) (hd (ys @ [head]))) head (xs @ ys)"
  using assms
  by (cases xs rule: rev_cases; cases ys; auto simp: dlist_def list_store_simps)

lemma raw_list_del_entry_eq:
  assumes "dlist h head (xs @ e # ys)"
  shows "raw_list_del_entry h e = raw_list_del h (last (head # xs)) (hd (ys @ [head]))"
  using dlist_nxt [OF assms] dlist_prv [OF assms]
  by (simp add: raw_list_del_entry_def list_del_entry_valid_def)

lemma dlist_list_replace:
  assumes d: "dlist h head (xs @ old # ys)" and fresh: "new \<notin> set (head # xs @ old # ys)"
  shows "dlist (list_replace h old new) head (xs @ new # ys)"
proof -
  let ?p = "last (head # xs)" and ?n = "hd (ys @ [head])"
  have "?n \<noteq> old" using dlist_distinct [OF d] by (cases ys) auto
  then have "list_replace h old new =
      h\<lparr>nxt := (nxt h)(new := ?n, ?p := new), prv := (prv h)(?n := new, new := ?p)\<rparr>"
    using dlist_nxt [OF d] dlist_prv [OF d] fresh by (simp add: list_store_simps fun_eq_iff)
  then show ?thesis
    using assms by (cases xs rule: rev_cases; cases ys; auto simp: dlist_def)
qed

lemma list_bulk_move_tail_fields:
  assumes "prv h m = p" and "nxt h l = n" and "l \<noteq> p" and "((prv h)(n := p)) head = q"
  shows "list_bulk_move_tail h head m l =
     h\<lparr>nxt := (nxt h)(p := n, q := m, l := head), prv := (prv h)(n := p, m := q, head := l)\<rparr>"
  using assms
  by (simp add: list_bulk_move_tail_def set_next_def set_prev_def Let_def del: fun_upd_apply)
    (simp add: fun_eq_iff)

lemma dlist_bulk_move_tail:
  assumes d: "dlist h head (xs @ m # ms @ ys)"
  shows "dlist (list_bulk_move_tail h head m (last (m # ms))) head (xs @ ys @ m # ms)"
proof -
  let ?p = "last (head # xs)" and ?n = "hd (ys @ [head])" and ?l = "last (m # ms)"
  let ?q = "last (head # xs @ ys)"
  have p: "prv h m = ?p" using d by (rule dlist_prv)
  have n: "nxt h ?l = ?n"
    using dlist_nxt [of h head "xs @ butlast (m # ms)" ?l ys] d
    by (cases ms rule: rev_cases) simp_all
  have l: "?l \<noteq> ?p"
    using dlist_distinct [OF d] by (cases xs rule: rev_cases; cases ms rule: rev_cases) auto
  have q: "((prv h)(?n := ?p)) head = ?q"
    using dlist_distinct [OF d] dlist_last [OF d] by (cases ys) auto
  have "list_bulk_move_tail h head m ?l =
      h\<lparr>nxt := (nxt h)(?p := ?n, ?q := m, ?l := head),
        prv := (prv h)(?n := ?p, m := ?q, head := ?l)\<rparr>"
    using p n l q by (intro list_bulk_move_tail_fields) auto
  then show ?thesis
    using assms by (cases xs rule: rev_cases; cases ys rule: list_ends_cases;
      cases ms rule: rev_cases; auto simp: dlist_def)
qed

lemma dlist_list_cut_position:
  assumes d: "dlist h head (xs @ e # ys)" and fresh: "l \<notin> set (head # xs @ e # ys)"
  shows "dlist (list_cut_position h l head e) l (xs @ [e])"
    and "dlist (list_cut_position h l head e) head ys"
proof -
  let ?f = "hd (xs @ e # ys @ [head])" and ?n = "hd (ys @ [head])"
  have f: "nxt h head = ?f" using dlist_first [OF d] by simp
  have n: "nxt h e = ?n" using d by (rule dlist_nxt)
  have p: "prv h head = last (e # ys)" using dlist_last [OF d] by (simp add: last_append)
  have e: "e \<noteq> head" "?f \<noteq> head" "?f = last (e # ys) \<Longrightarrow> ?f = e"
    using dlist_distinct [OF d] by (cases xs; cases ys rule: rev_cases; auto)+
  have "list_cut_position h l head e = raw_list_cut_position h l head e"
    using e by (auto simp: list_cut_position_def list_empty_def list_is_singular_def f p)
  also have "\<dots> = h\<lparr>nxt := (nxt h)(l := ?f, e := l, head := ?n),
                    prv := (prv h)(?f := l, l := e, ?n := head)\<rparr>"
    by (simp add: list_store_simps f n fun_eq_iff)
  finally have eq: "list_cut_position h l head e = \<dots>" .
  show "dlist (list_cut_position h l head e) l (xs @ [e])"
    using assms by (simp only: eq, cases xs; cases ys; auto simp: dlist_def)
  show "dlist (list_cut_position h l head e) head ys"
    using assms by (simp only: eq, cases xs; cases ys; auto simp: dlist_def)
qed

lemma dlist_list_cut_before:
  assumes d: "dlist h head (xs @ ys)" and fresh: "l \<notin> set (head # xs @ ys)"
  shows "dlist (list_cut_before h l head (hd (ys @ [head]))) l xs"
    and "dlist (list_cut_before h l head (hd (ys @ [head]))) head ys"
proof -
  let ?n = "hd (ys @ [head])"
  have f: "nxt h head = hd (xs @ ys @ [head])" using dlist_first [OF d] by simp
  have p: "prv h ?n = last (head # xs)"
    using dlist_last [OF d] dlist_prv [of h head xs ?n "tl ys"] d by (cases ys) auto
  have "dlist (list_cut_before h l head ?n) l xs \<and> dlist (list_cut_before h l head ?n) head ys"
  proof (cases "xs = []")
    case True
    then have "list_cut_before h l head ?n = INIT_LIST_HEAD h l"
      using f by (simp add: list_cut_before_def)
    moreover have "agree (insert head (set ys)) h (INIT_LIST_HEAD h l)"
      using fresh True by (auto simp: agree_def list_store_simps)
    ultimately show ?thesis using True d by (simp add: dlist_INIT_LIST_HEAD dlist_cong)
  next
    case False
    let ?f = "hd xs" and ?p = "last xs"
    have ne: "?f \<noteq> ?n" "l \<noteq> ?n" "l \<noteq> ?p"
      using False fresh dlist_distinct [OF d] by (cases xs; cases xs rule: rev_cases; cases ys; auto)+
    have eq: "list_cut_before h l head ?n =
        h\<lparr>nxt := (nxt h)(l := ?f, ?p := l, head := ?n),
          prv := (prv h)(?f := l, l := ?p, ?n := head)\<rparr>"
      using False f p ne by (simp add: list_cut_before_def list_store_simps fun_eq_iff)
    show ?thesis
      using False assms
      by (simp only: eq) (cases xs rule: list_ends_cases; cases ys; auto simp: dlist_def)
  qed
  then show "dlist (list_cut_before h l head (hd (ys @ [head]))) l xs"
    and "dlist (list_cut_before h l head (hd (ys @ [head]))) head ys" by auto
qed

lemma dlist_raw_list_splice:
  assumes dl: "dlist h l xs" and d: "dlist h head (as @ bs)"
    and disj: "set (l # xs) \<inter> set (head # as @ bs) = {}" and ne: "xs \<noteq> []"
  shows "dlist (raw_list_splice h l (last (head # as)) (hd (bs @ [head]))) head (as @ xs @ bs)"
proof -
  let ?p = "last (head # as)" and ?n = "hd (bs @ [head])"
  have "raw_list_splice h l ?p ?n =
      h\<lparr>nxt := (nxt h)(?p := hd xs, last xs := ?n), prv := (prv h)(hd xs := ?p, ?n := last xs)\<rparr>"
    using dlist_first [OF dl] dlist_last [OF dl] ne by (simp add: list_store_simps)
  then show ?thesis
    using assms
    by (cases xs rule: list_ends_cases; cases as rule: rev_cases; cases bs; auto simp: dlist_def)
qed

text \<open>The public operations, from the internal ones.\<close>

lemma dlist_list_add:
  assumes "dlist h head xs" and "new \<notin> set (head # xs)"
  shows "dlist (list_add h new head) head (new # xs)"
  using dlist_raw_list_add [of h head "[]" xs new] assms
  by (simp add: list_add_def dlist_first)

lemma dlist_list_add_tail:
  assumes "dlist h head xs" and "new \<notin> set (head # xs)"
  shows "dlist (list_add_tail h new head) head (xs @ [new])"
  using dlist_raw_list_add [of h head xs "[]" new] assms
  by (simp add: list_add_tail_def dlist_last)

lemma dlist_raw_list_del_entry:
  "dlist h head (xs @ e # ys) \<Longrightarrow> dlist (raw_list_del_entry h e) head (xs @ ys)"
  by (simp only: raw_list_del_entry_eq dlist_raw_list_del)

lemma dlist_set_other:
  assumes "dlist h head xs" and "p \<notin> set (head # xs)"
  shows "dlist (set_next h p q) head xs" and "dlist (set_prev h p q) head xs"
  using assms by (simp_all add: dlist_def set_next_def set_prev_def butlast_append)

lemma dlist_list_del:
  assumes "dlist h head (xs @ e # ys)"
  shows "dlist (list_del h e) head (xs @ ys)"
  using dlist_distinct [OF assms] dlist_raw_list_del_entry [OF assms]
  by (auto simp: list_del_def dlist_set_other)

lemma dlist_list_del_init:
  assumes "dlist h head (xs @ e # ys)"
  shows "dlist (list_del_init h e) head (xs @ ys)" and "dlist (list_del_init h e) e []"
  using dlist_distinct [OF assms] dlist_raw_list_del_entry [OF assms]
  by (simp_all add: list_del_init_def dlist_INIT_LIST_HEAD)
     (auto simp: INIT_LIST_HEAD_def dlist_set_other)

lemma dlist_list_replace_init:
  assumes "dlist h head (xs @ old # ys)" and "new \<notin> set (head # xs @ old # ys)"
  shows "dlist (list_replace_init h old new) head (xs @ new # ys)"
    and "dlist (list_replace_init h old new) old []"
  using dlist_distinct [OF assms(1)] dlist_list_replace [OF assms] assms(2)
  by (simp_all add: list_replace_init_def dlist_INIT_LIST_HEAD)
     (auto simp: INIT_LIST_HEAD_def dlist_set_other)

text \<open>Moving within one list; the list operations of \<open>list_move\<close> between two lists follow below.\<close>

lemma dlist_list_move_same:
  assumes "dlist h head (xs @ e # ys)"
  shows "dlist (list_move h e head) head (e # xs @ ys)"
    and "dlist (list_move_tail h e head) head (xs @ ys @ [e])"
proof -
  have "dlist (raw_list_del_entry h e) head (xs @ ys)" "e \<notin> set (head # xs @ ys)"
    using dlist_raw_list_del_entry [OF assms] dlist_distinct [OF assms] by auto
  then show "dlist (list_move h e head) head (e # xs @ ys)"
    and "dlist (list_move_tail h e head) head (xs @ ys @ [e])"
    using dlist_list_add dlist_list_add_tail
    by (fastforce simp: list_move_def list_move_tail_def)+
qed

lemma dlist_list_empty: "dlist h head xs \<Longrightarrow> list_empty h head \<longleftrightarrow> xs = []"
  using dlist_distinct [of h head xs] dlist_first [of h head xs]
  by (cases xs) (auto simp: list_empty_def)

lemma dlist_list_empty_careful: "dlist h head xs \<Longrightarrow> list_empty_careful h head \<longleftrightarrow> xs = []"
  using dlist_distinct [of h head xs] dlist_first [of h head xs] dlist_last [of h head xs]
  by (cases xs) (auto simp: list_empty_careful_def Let_def)

lemma dlist_list_is_singular: "dlist h head xs \<Longrightarrow> list_is_singular h head \<longleftrightarrow> length xs = 1"
  using dlist_distinct [of h head xs] dlist_first [of h head xs] dlist_last [of h head xs]
  by (cases xs rule: list_ends_cases) (auto simp: list_is_singular_def dlist_list_empty)

lemma dlist_list_is_last: "dlist h head (xs @ e # ys) \<Longrightarrow> list_is_last h e head \<longleftrightarrow> ys = []"
  using dlist_distinct [of h head "xs @ e # ys"] dlist_nxt [of h head xs e ys]
  by (cases ys) (auto simp: list_is_last_def)

lemma dlist_list_rotate_left:
  "dlist h head xs \<Longrightarrow> dlist (list_rotate_left h head) head (rotate1 xs)"
  using dlist_list_move_same(2) [of h head "[]" "hd xs" "tl xs"]
  by (cases xs) (simp_all add: list_rotate_left_def dlist_list_empty dlist_first Let_def)

lemma dlist_first_entry_or_null:
  "dlist h head xs \<Longrightarrow>
     list_first_entry_or_null h head = (case xs of [] \<Rightarrow> None | x # _ \<Rightarrow> Some x)"
  using dlist_distinct [of h head xs] dlist_first [of h head xs]
  by (cases xs) (auto simp: list_first_entry_or_null_def Let_def)

lemma dlist_list_splice:
  assumes "dlist h l xs" and "dlist h head ys" and "set (l # xs) \<inter> set (head # ys) = {}"
  shows "dlist (list_splice h l head) head (xs @ ys)"
    and "dlist (list_splice_tail h l head) head (ys @ xs)"
proof -
  show "dlist (list_splice h l head) head (xs @ ys)"
    using dlist_raw_list_splice [of h l xs head "[]" ys] assms
    by (cases "xs = []") (simp_all add: list_splice_def dlist_list_empty dlist_first)
  show "dlist (list_splice_tail h l head) head (ys @ xs)"
    using dlist_raw_list_splice [of h l xs head ys "[]"] assms
    by (cases "xs = []") (simp_all add: list_splice_tail_def dlist_list_empty dlist_last)
qed

lemma dlist_list_splice_init:
  assumes "dlist h l xs" and "dlist h head ys" and "set (l # xs) \<inter> set (head # ys) = {}"
  shows "dlist (list_splice_init h l head) head (xs @ ys)"
    and "dlist (list_splice_init h l head) l []"
    and "dlist (list_splice_tail_init h l head) head (ys @ xs)"
    and "dlist (list_splice_tail_init h l head) l []"
proof -
  have l: "l \<notin> set (head # xs @ ys)" using assms dlist_distinct [OF assms(1)] by auto
  have *: "dlist (list_splice_init h l head) head (xs @ ys) \<and> dlist (list_splice_init h l head) l []"
    using dlist_list_splice(1) [OF assms] l assms
    by (cases "xs = []")
      (auto simp: list_splice_init_def list_splice_def dlist_list_empty Let_def
        dlist_INIT_LIST_HEAD, auto simp: INIT_LIST_HEAD_def dlist_set_other)
  have **: "dlist (list_splice_tail_init h l head) head (ys @ xs) \<and>
      dlist (list_splice_tail_init h l head) l []"
    using dlist_list_splice(2) [OF assms] l assms
    by (cases "xs = []")
      (auto simp: list_splice_tail_init_def list_splice_tail_def dlist_list_empty Let_def
        dlist_INIT_LIST_HEAD, auto simp: INIT_LIST_HEAD_def dlist_set_other)
  show "dlist (list_splice_init h l head) head (xs @ ys)"
    and "dlist (list_splice_init h l head) l []"
    and "dlist (list_splice_tail_init h l head) head (ys @ xs)"
    and "dlist (list_splice_tail_init h l head) l []"
    using * ** by auto
qed

text \<open>Traversals: fuel above the length visits every entry once, in order, and stops.\<close>

lemma list_for_each_from_visits:
  "dlist h head (xs @ ys) \<Longrightarrow> length ys < fuel \<Longrightarrow>
     list_for_each_from fuel h head (hd (ys @ [head])) = Some ys"
proof (induction ys arbitrary: xs fuel)
  case Nil
  then show ?case by (cases fuel) auto
next
  case (Cons y ys)
  then obtain n where n: "fuel = Suc n" by (cases fuel) auto
  have "y \<noteq> head" using dlist_distinct [OF Cons.prems(1)] by auto
  moreover have "nxt h y = hd (ys @ [head])" using Cons.prems(1) by (rule dlist_nxt)
  moreover have "list_for_each_from n h head (hd (ys @ [head])) = Some ys"
    using Cons.IH [of "xs @ [y]" n] Cons.prems n by simp
  ultimately show ?case using n by simp
qed

lemma list_for_each_prev_from_visits:
  "dlist h head (xs @ ys) \<Longrightarrow> length xs < fuel \<Longrightarrow>
     list_for_each_prev_from fuel h head (last (head # xs)) = Some (rev xs)"
proof (induction xs arbitrary: ys fuel rule: rev_induct)
  case Nil
  then show ?case by (cases fuel) auto
next
  case (snoc x xs)
  then obtain n where n: "fuel = Suc n" by (cases fuel) auto
  have d: "dlist h head (xs @ x # ys)" using snoc.prems(1) by simp
  have "x \<noteq> head" using dlist_distinct [OF d] by auto
  moreover have "prv h x = last (head # xs)" using d by (rule dlist_prv)
  moreover have "list_for_each_prev_from n h head (last (head # xs)) = Some (rev xs)"
    using snoc.IH [of "x # ys" n] snoc.prems n by simp
  ultimately show ?case using n by simp
qed

section \<open>Frame: lists on other nodes\<close>

lemma agree_list_add:
  assumes "dlist h head xs" shows "agree (- set (new # head # xs)) h (list_add h new head)"
  using dlist_first [OF assms]
  by (cases xs) (auto simp: agree_def list_add_def list_store_simps)

lemma agree_list_add_tail:
  assumes "dlist h head xs" shows "agree (- set (new # head # xs)) h (list_add_tail h new head)"
  using dlist_last [OF assms]
  by (cases xs rule: rev_cases) (auto simp: agree_def list_add_tail_def list_store_simps)

lemma agree_raw_list_del_entry:
  assumes "dlist h head (xs @ e # ys)"
  shows "agree (- set (head # xs @ ys)) h (raw_list_del_entry h e)"
  unfolding raw_list_del_entry_eq [OF assms]
  by (cases xs rule: rev_cases; cases ys) (auto simp: agree_def list_store_simps)

lemma agree_list_del:
  assumes "dlist h head (xs @ e # ys)"
  shows "agree (- set (head # xs @ e # ys)) h (list_del h e)"
  using agree_raw_list_del_entry [OF assms]
  by (auto simp: agree_def list_del_def set_next_def set_prev_def Let_def)

lemma dlist_frame:
  assumes "agree (- A) h h'" and "set (g # ys) \<inter> A = {}"
  shows "dlist h' g ys = dlist h g ys"
proof (rule dlist_cong)
  show "agree (insert g (set ys)) h h'" using assms by (auto simp: agree_def)
qed

lemma dlist_list_move_other:
  assumes d: "dlist h a (xs @ e # ys)" and d': "dlist h b zs"
    and disj: "set (a # xs @ e # ys) \<inter> set (b # zs) = {}"
  shows "dlist (list_move h e b) a (xs @ ys)" and "dlist (list_move h e b) b (e # zs)"
    and "dlist (list_move_tail h e b) a (xs @ ys)" and "dlist (list_move_tail h e b) b (zs @ [e])"
proof -
  let ?h = "raw_list_del_entry h e"
  have a: "dlist ?h a (xs @ ys)" and b: "dlist ?h b zs" and e: "e \<notin> set (a # xs @ ys)"
    using dlist_raw_list_del_entry [OF d] dlist_distinct [OF d] disj
      dlist_frame [OF agree_raw_list_del_entry [OF d], of b zs] d' by auto
  have "set (a # xs @ ys) \<inter> set (e # b # zs) = {}" using e disj by auto
  then show "dlist (list_move h e b) a (xs @ ys)" and "dlist (list_move_tail h e b) a (xs @ ys)"
    using a dlist_frame [OF agree_list_add [OF b], of a "xs @ ys" e]
      dlist_frame [OF agree_list_add_tail [OF b], of a "xs @ ys" e]
    by (auto simp: list_move_def list_move_tail_def)
  have "e \<notin> set (b # zs)" using disj by auto
  then show "dlist (list_move h e b) b (e # zs)" and "dlist (list_move_tail h e b) b (zs @ [e])"
    using b by (simp_all add: list_move_def list_move_tail_def dlist_list_add dlist_list_add_tail)
qed

section \<open>The interface the allocators rely on\<close>

text \<open>
  What a client of the list may assume: a representation relation, the two insertions, the
  deletion, and that each leaves every list on other nodes alone. \<open>family rep h I H L\<close> is a set
  of pairwise disjoint lists, such as the free lists of an allocator.
\<close>

definition family ::
  "('h \<Rightarrow> 'n \<Rightarrow> 'n list \<Rightarrow> bool) \<Rightarrow> 'h \<Rightarrow> 'i set \<Rightarrow> ('i \<Rightarrow> 'n) \<Rightarrow> ('i \<Rightarrow> 'n list) \<Rightarrow> bool" where
  "family rep h I H L \<longleftrightarrow>
     (\<forall>i\<in>I. rep h (H i) (L i)) \<and>
     (\<forall>i\<in>I. \<forall>j\<in>I. i \<noteq> j \<longrightarrow> set (H i # L i) \<inter> set (H j # L j) = {})"

lemma family_disjoint:
  "family rep h I H L \<Longrightarrow> i \<in> I \<Longrightarrow> j \<in> I \<Longrightarrow> i \<noteq> j \<Longrightarrow> set (H i # L i) \<inter> set (H j # L j) = {}"
  by (simp add: family_def)

lemma family_rep: "family rep h I H L \<Longrightarrow> i \<in> I \<Longrightarrow> rep h (H i) (L i)"
  by (simp add: family_def)

text \<open>Changing one list of a family, where the new contents avoid the other lists.\<close>

lemma family_upd:
  assumes f: "family rep h I H L" and i: "i \<in> I"
    and r: "\<And>j. j \<in> I \<Longrightarrow> rep h' (H j) ((L(i := xs)) j)"
    and d: "\<And>j. j \<in> I \<Longrightarrow> j \<noteq> i \<Longrightarrow> set xs \<inter> set (H j # L j) = {}"
  shows "family rep h' I H (L(i := xs))"
proof -
  have "set (H j # (L(i := xs)) j) \<inter> set (H k # (L(i := xs)) k) = {}"
    if "j \<in> I" "k \<in> I" "j \<noteq> k" for j k
    using that d [of j] d [of k] family_disjoint [OF f, of j k] by (auto split: if_splits)
  with r show ?thesis unfolding family_def by blast
qed

locale intrusive_list =
  fixes rep :: "'h \<Rightarrow> 'n \<Rightarrow> 'n list \<Rightarrow> bool"
    and add :: "'h \<Rightarrow> 'n \<Rightarrow> 'n \<Rightarrow> 'h"
    and add_tail :: "'h \<Rightarrow> 'n \<Rightarrow> 'n \<Rightarrow> 'h"
    and del :: "'h \<Rightarrow> 'n \<Rightarrow> 'h"
    and first :: "'h \<Rightarrow> 'n \<Rightarrow> 'n option"
  assumes rep_distinct: "rep h hd' xs \<Longrightarrow> distinct (hd' # xs)"
    and rep_first: "rep h hd' xs \<Longrightarrow> first h hd' = (case xs of [] \<Rightarrow> None | x # _ \<Rightarrow> Some x)"
    and rep_add: "rep h hd' xs \<Longrightarrow> n \<notin> set (hd' # xs) \<Longrightarrow> rep (add h n hd') hd' (n # xs)"
    and rep_add_tail:
      "rep h hd' xs \<Longrightarrow> n \<notin> set (hd' # xs) \<Longrightarrow> rep (add_tail h n hd') hd' (xs @ [n])"
    and rep_del: "rep h hd' (xs @ e # ys) \<Longrightarrow> rep (del h e) hd' (xs @ ys)"
    and frame_add: "rep h hd' xs \<Longrightarrow> set (g # zs) \<inter> set (n # hd' # xs) = {} \<Longrightarrow>
      rep (add h n hd') g zs = rep h g zs"
    and frame_add_tail: "rep h hd' xs \<Longrightarrow> set (g # zs) \<inter> set (n # hd' # xs) = {} \<Longrightarrow>
      rep (add_tail h n hd') g zs = rep h g zs"
    and frame_del: "rep h hd' (xs @ e # ys) \<Longrightarrow> set (g # zs) \<inter> set (hd' # xs @ e # ys) = {} \<Longrightarrow>
      rep (del h e) g zs = rep h g zs"
begin

lemma family_add:
  assumes f: "family rep h I H L" and i: "i \<in> I" and n: "\<forall>j\<in>I. n \<notin> set (H j # L j)"
  shows "family rep (add h n (H i)) I H (L(i := n # L i))"
proof (rule family_upd [OF f i])
  fix j assume j: "j \<in> I"
  show "rep (add h n (H i)) (H j) ((L(i := n # L i)) j)"
    using f i j n rep_add [of h "H i" "L i" n] frame_add [of h "H i" "L i" "H j" "L j" n]
      family_disjoint [OF f j i] family_rep [OF f]
    by (cases "j = i") auto
next
  fix j assume "j \<in> I" "j \<noteq> i"
  then show "set (n # L i) \<inter> set (H j # L j) = {}"
    using n family_disjoint [OF f i] by auto
qed

lemma family_add_tail:
  assumes f: "family rep h I H L" and i: "i \<in> I" and n: "\<forall>j\<in>I. n \<notin> set (H j # L j)"
  shows "family rep (add_tail h n (H i)) I H (L(i := L i @ [n]))"
proof (rule family_upd [OF f i])
  fix j assume j: "j \<in> I"
  show "rep (add_tail h n (H i)) (H j) ((L(i := L i @ [n])) j)"
    using f i j n rep_add_tail [of h "H i" "L i" n] frame_add_tail [of h "H i" "L i" "H j" "L j" n]
      family_disjoint [OF f j i] family_rep [OF f]
    by (cases "j = i") auto
next
  fix j assume "j \<in> I" "j \<noteq> i"
  then show "set (L i @ [n]) \<inter> set (H j # L j) = {}"
    using n family_disjoint [OF f i] by auto
qed

lemma family_del:
  assumes f: "family rep h I H L" and i: "i \<in> I" and e: "L i = xs @ e # ys"
  shows "family rep (del h e) I H (L(i := xs @ ys))"
proof (rule family_upd [OF f i])
  fix j assume j: "j \<in> I"
  show "rep (del h e) (H j) ((L(i := xs @ ys)) j)"
    using e rep_del [of h "H i" xs e ys] frame_del [of h "H i" xs e ys "H j" "L j"]
      family_disjoint [OF f j i] family_rep [OF f i] family_rep [OF f j]
    by (cases "j = i") auto
next
  fix j assume "j \<in> I" "j \<noteq> i"
  then show "set (xs @ ys) \<inter> set (H j # L j) = {}"
    using e family_disjoint [OF f i] by auto
qed

end

interpretation ll: intrusive_list dlist list_add list_add_tail list_del list_first_entry_or_null
proof (unfold_locales, goal_cases)
  case (1 h hd' xs) then show ?case by (rule dlist_distinct)
next
  case (2 h hd' xs) then show ?case by (rule dlist_first_entry_or_null)
next
  case (3 h hd' xs n) then show ?case by (rule dlist_list_add)
next
  case (4 h hd' xs n) then show ?case by (rule dlist_list_add_tail)
next
  case (5 h hd' xs e ys) then show ?case by (rule dlist_list_del)
next
  case (6 h hd' xs g zs n) then show ?case by (intro dlist_frame [OF agree_list_add]) auto
next
  case (7 h hd' xs g zs n) then show ?case by (intro dlist_frame [OF agree_list_add_tail]) auto
next
  case (8 h hd' xs e ys g zs) then show ?case by (intro dlist_frame [OF agree_list_del]) auto
qed

section \<open>Properties\<close>

text \<open>
  Client programs: sequences of operations on one list, run on the store, and the same
  sequence on a HOL list. The specification is \<open>None\<close> where the client breaks the
  precondition of an operation (inserting a node that is already linked, deleting one that is not).
\<close>

datatype 'a list_op =
    Add "'a lptr" | Add_tail "'a lptr" | Del "'a lptr" | Del_init "'a lptr"
  | Replace "'a lptr" "'a lptr" | Move "'a lptr" | Move_tail "'a lptr" | Rotate_left

fun list_op_run :: "'a lptr \<Rightarrow> 'a list_op \<Rightarrow> 'a list_heads \<Rightarrow> 'a list_heads" where
  "list_op_run head (Add n) h = list_add h n head"
| "list_op_run head (Add_tail n) h = list_add_tail h n head"
| "list_op_run head (Del e) h = list_del h e"
| "list_op_run head (Del_init e) h = list_del_init h e"
| "list_op_run head (Replace e n) h = list_replace h e n"
| "list_op_run head (Move e) h = list_move h e head"
| "list_op_run head (Move_tail e) h = list_move_tail h e head"
| "list_op_run head Rotate_left h = list_rotate_left h head"

fun list_op_spec :: "'a lptr \<Rightarrow> 'a list_op \<Rightarrow> 'a lptr list \<Rightarrow> 'a lptr list option" where
  "list_op_spec head (Add n) xs = (if n \<in> set (head # xs) then None else Some (n # xs))"
| "list_op_spec head (Add_tail n) xs = (if n \<in> set (head # xs) then None else Some (xs @ [n]))"
| "list_op_spec head (Del e) xs = (if e \<in> set xs then Some (remove1 e xs) else None)"
| "list_op_spec head (Del_init e) xs = (if e \<in> set xs then Some (remove1 e xs) else None)"
| "list_op_spec head (Replace e n) xs =
     (if e \<in> set xs \<and> n \<notin> set (head # xs) then Some (map (\<lambda>x. if x = e then n else x) xs) else None)"
| "list_op_spec head (Move e) xs = (if e \<in> set xs then Some (e # remove1 e xs) else None)"
| "list_op_spec head (Move_tail e) xs = (if e \<in> set xs then Some (remove1 e xs @ [e]) else None)"
| "list_op_spec head Rotate_left xs = Some (rotate1 xs)"

primrec list_ops_run :: "'a lptr \<Rightarrow> 'a list_op list \<Rightarrow> 'a list_heads \<Rightarrow> 'a list_heads" where
  "list_ops_run head [] h = h"
| "list_ops_run head (c # cs) h = list_ops_run head cs (list_op_run head c h)"

primrec list_ops_spec :: "'a lptr \<Rightarrow> 'a list_op list \<Rightarrow> 'a lptr list \<Rightarrow> 'a lptr list option" where
  "list_ops_spec head [] xs = Some xs"
| "list_ops_spec head (c # cs) xs = Option.bind (list_op_spec head c xs) (list_ops_spec head cs)"

lemma list_entry_op_refines:
  assumes d: "dlist h head (as @ e # bs)"
    and c: "c \<in> {Del e, Del_init e, Move e, Move_tail e} \<or> (\<exists>n. c = Replace e n)"
    and s: "list_op_spec head c (as @ e # bs) = Some ys"
  shows "dlist (list_op_run head c h) head ys"
proof -
  have notin: "e \<notin> set as" "e \<notin> set bs" using dlist_distinct [OF d] by auto
  have "map (\<lambda>x. if x = e then n else x) (as @ e # bs) = as @ n # bs" for n
    using notin by (auto intro!: map_idI)
  then show ?thesis
    using c s notin dlist_list_del [OF d] dlist_list_del_init [OF d] dlist_list_move_same [OF d]
      dlist_list_replace [OF d] by (auto simp: remove1_append split: if_splits)
qed

lemma list_op_refines:
  assumes d: "dlist h head xs" and s: "list_op_spec head c xs = Some ys"
  shows "dlist (list_op_run head c h) head ys"
proof -
  have *: "dlist (list_op_run head c h) head ys"
    if "e \<in> set xs" "c \<in> {Del e, Del_init e, Move e, Move_tail e} \<or> (\<exists>n. c = Replace e n)" for e
    using that d s list_entry_op_refines [of h head _ e _ c ys] by (metis split_list)
  show ?thesis
    using d s * by (cases c)
      (auto simp: dlist_list_add dlist_list_add_tail dlist_list_rotate_left split: if_splits)
qed

text \<open>
  C1: any sequence of list operations whose preconditions hold, run on the pointer store,
  leaves a well-formed circular list holding exactly the entries the same sequence of
  operations on a HOL list gives.
\<close>

theorem list_ops_refine:
  assumes "dlist h head xs" and "list_ops_spec head cs xs = Some ys"
  shows "dlist (list_ops_run head cs h) head ys"
  using assms
proof (induction cs arbitrary: h xs)
  case Nil
  then show ?case by simp
next
  case (Cons c cs)
  then obtain zs where "list_op_spec head c xs = Some zs" and "list_ops_spec head cs zs = Some ys"
    by (auto simp: bind_eq_Some_conv)
  with Cons show ?case by (auto intro: list_op_refines)
qed

definition empty_store :: "nat list_heads" where
  "empty_store = \<lparr>nxt = (\<lambda>p. p), prv = (\<lambda>p. p)\<rparr>"

theorem list_ops_refine_witness:
  "dlist (list_ops_run (Node 0) [Add (Node 1), Add_tail (Node 2), Replace (Node 1) (Node 3), Rotate_left]
     empty_store) (Node 0) [Node 2, Node 3]"
  by (rule list_ops_refine [of _ _ "[]"]) (simp_all add: dlist_def lnk_def empty_store_def)

text \<open>
  C10: the traversals \<open>list_for_each\<close> and \<open>list_for_each_prev\<close> terminate on a well-formed list
  and visit exactly its entries, once each, in order and in reverse order.
\<close>

theorem list_for_each_visits:
  assumes "dlist h head xs" and "length xs < fuel"
  shows "list_for_each fuel h head = Some xs \<and> list_for_each_prev fuel h head = Some (rev xs)"
  using list_for_each_from_visits [of h head "[]" xs fuel]
    list_for_each_prev_from_visits [of h head xs "[]" fuel] assms
  by (simp add: list_for_each_def list_for_each_prev_def dlist_first dlist_last)

theorem list_for_each_visits_witness:
  "list_for_each 3 (list_add (list_add empty_store (Node 1) (Node 0)) (Node 2) (Node 0)) (Node 0)
     = Some [Node 2, Node 1]"
proof -
  have "dlist empty_store (Node 0) []" by (simp add: dlist_def lnk_def empty_store_def)
  then have "dlist (list_add (list_add empty_store (Node 1) (Node 0)) (Node 2) (Node 0)) (Node 0) [Node 2, Node 1]"
    by (intro dlist_list_add) simp_all
  from list_for_each_visits [OF this, of 3] show ?thesis by simp
qed

text \<open>
  Cutting a list after any of its entries into an unused list head and splicing the cut
  part back at the front restores the list; the source of the splice is left empty.
\<close>

theorem list_cut_splice_roundtrip:
  assumes d: "dlist h head (xs @ e # ys)" and l: "l \<notin> set (head # xs @ e # ys)"
  shows "dlist (list_splice_init (list_cut_position h l head e) l head) head (xs @ e # ys)
       \<and> dlist (list_splice_init (list_cut_position h l head e) l head) l []"
proof -
  let ?h = "list_cut_position h l head e"
  have "set (l # xs @ [e]) \<inter> set (head # ys) = {}" using l dlist_distinct [OF d] by auto
  from dlist_list_splice_init [OF dlist_list_cut_position [OF d l] this] show ?thesis by simp
qed

theorem list_cut_splice_roundtrip_witness:
  "\<exists>h :: nat list_heads. dlist h (Node 0) [Node 1, Node 2]
     \<and> dlist (list_splice_init (list_cut_position h (Node 9) (Node 0) (Node 1)) (Node 9) (Node 0)) (Node 0) [Node 1, Node 2]"
proof -
  let ?h = "list_add (list_add empty_store (Node 2) (Node 0)) (Node 1) (Node 0)"
  have "dlist empty_store (Node 0) []" by (simp add: dlist_def lnk_def empty_store_def)
  then have d: "dlist ?h (Node 0) ([] @ Node 1 # [Node 2])"
    by (simp add: dlist_list_add)
  from list_cut_splice_roundtrip [OF d, of "Node 9"] d show ?thesis by auto
qed

end
