(* ===== verification/Bitops.thy ===== *)
theory Bitops
  imports Prelude
begin

text \<open>
  Single-word and single-bit operations of \<open>Algorithem/bitmap/Basic/bitmap.h\<close> with
  \<open>BITS_PER_LONG = 64\<close>: population count, bit scans, word masks, and the non-atomic bit
  operations on an array of \<open>unsigned long\<close>, modelled as a list of 64-bit words. Bit
  numbers and sizes are natural numbers. \<open>bm_test m i\<close> reads bit \<open>i\<close> of the array and is
  the abstraction the specifications are written in.
\<close>

unbundle bit_operations_syntax

section \<open>Definitions\<close>

abbreviation (input) BITS_PER_LONG :: nat where
  "BITS_PER_LONG \<equiv> 64"

definition BITS_TO_LONGS :: "nat \<Rightarrow> nat" where
  "BITS_TO_LONGS nr = (nr + BITS_PER_LONG - 1) div BITS_PER_LONG"

definition BITMAP_FIRST_WORD_MASK :: "nat \<Rightarrow> ulong" where
  "BITMAP_FIRST_WORD_MASK start = push_bit (start AND (BITS_PER_LONG - 1)) (NOT 0)"

text \<open>The shift count is \<open>-(nbits) & (BITS_PER_LONG - 1)\<close> on \<open>unsigned int\<close>.\<close>

definition BITMAP_LAST_WORD_MASK :: "nat \<Rightarrow> ulong" where
  "BITMAP_LAST_WORD_MASK nbits =
     drop_bit (unat ((- (of_nat nbits :: u32)) AND (of_nat BITS_PER_LONG - 1))) (NOT 0)"

definition BIT_MASK :: "nat \<Rightarrow> ulong" where
  "BIT_MASK nr = push_bit (nr mod BITS_PER_LONG) 1"

definition BIT_WORD :: "nat \<Rightarrow> nat" where
  "BIT_WORD nr = nr div BITS_PER_LONG"

text \<open>\<open>GENMASK(h, l)\<close>: bits \<open>l\<close> to \<open>h\<close>, by the subtraction and shift of the source.\<close>

definition GENMASK :: "nat \<Rightarrow> nat \<Rightarrow> ulong" where
  "GENMASK h l = ((NOT 0) - push_bit l 1 + 1) AND drop_bit (BITS_PER_LONG - 1 - h) (NOT 0)"

definition const_hweight8 :: "ulong \<Rightarrow> nat" where
  "const_hweight8 w =
     of_bool (w AND push_bit 0 1 \<noteq> 0) + of_bool (w AND push_bit 1 1 \<noteq> 0) +
     of_bool (w AND push_bit 2 1 \<noteq> 0) + of_bool (w AND push_bit 3 1 \<noteq> 0) +
     of_bool (w AND push_bit 4 1 \<noteq> 0) + of_bool (w AND push_bit 5 1 \<noteq> 0) +
     of_bool (w AND push_bit 6 1 \<noteq> 0) + of_bool (w AND push_bit 7 1 \<noteq> 0)"

definition const_hweight16 :: "ulong \<Rightarrow> nat" where
  "const_hweight16 w = const_hweight8 w + const_hweight8 (drop_bit 8 w)"

definition const_hweight32 :: "ulong \<Rightarrow> nat" where
  "const_hweight32 w = const_hweight16 w + const_hweight16 (drop_bit 16 w)"

definition const_hweight64 :: "ulong \<Rightarrow> nat" where
  "const_hweight64 w = const_hweight32 w + const_hweight32 (drop_bit 32 w)"

definition hweight_long :: "ulong \<Rightarrow> nat" where
  "hweight_long w = const_hweight64 w"

text \<open>
  The compiler's \<open>__builtin_ctzl\<close> and \<open>__builtin_clz(l)\<close>: zero bits below the lowest and
  above the highest set bit. On zero, where the builtins are undefined, the scan runs to the width.
\<close>

definition builtin_ctz :: "'a::len word \<Rightarrow> nat" where
  "builtin_ctz w = length (takeWhile (\<lambda>i. \<not> bit w i) [0..<LENGTH('a)])"

definition builtin_clz :: "'a::len word \<Rightarrow> nat" where
  "builtin_clz w = length (takeWhile (\<lambda>i. \<not> bit w (LENGTH('a) - 1 - i)) [0..<LENGTH('a)])"

definition raw_ffs :: "ulong \<Rightarrow> nat" where
  "raw_ffs word = builtin_ctz word"

definition ffs :: "u32 \<Rightarrow> nat" where
  "ffs x = (if x = 0 then 0 else builtin_ctz x + 1)"

definition fls :: "u32 \<Rightarrow> nat" where
  "fls x = (if x \<noteq> 0 then 4 * 8 - builtin_clz x else 0)"

definition raw_fls :: "ulong \<Rightarrow> nat" where
  "raw_fls word = 8 * 8 - 1 - builtin_clz word"

definition ffz :: "ulong \<Rightarrow> nat" where
  "ffz x = raw_ffs (NOT x)"

definition raw_set_bit :: "nat \<Rightarrow> ulong list \<Rightarrow> ulong list" where
  "raw_set_bit nr addr =
     (let mask = BIT_MASK nr; p = BIT_WORD nr in addr[p := addr ! p OR mask])"

definition raw_clear_bit :: "nat \<Rightarrow> ulong list \<Rightarrow> ulong list" where
  "raw_clear_bit nr addr =
     (let mask = BIT_MASK nr; p = BIT_WORD nr in addr[p := addr ! p AND NOT mask])"

definition raw_change_bit :: "nat \<Rightarrow> ulong list \<Rightarrow> ulong list" where
  "raw_change_bit nr addr =
     (let mask = BIT_MASK nr; p = BIT_WORD nr in addr[p := addr ! p XOR mask])"

definition raw_test_and_set_bit :: "nat \<Rightarrow> ulong list \<Rightarrow> bool \<times> ulong list" where
  "raw_test_and_set_bit nr addr =
     (let mask = BIT_MASK nr; p = BIT_WORD nr; old = addr ! p
      in (old AND mask \<noteq> 0, addr[p := old OR mask]))"

definition raw_test_and_clear_bit :: "nat \<Rightarrow> ulong list \<Rightarrow> bool \<times> ulong list" where
  "raw_test_and_clear_bit nr addr =
     (let mask = BIT_MASK nr; p = BIT_WORD nr; old = addr ! p
      in (old AND mask \<noteq> 0, addr[p := old AND NOT mask]))"

definition raw_test_and_change_bit :: "nat \<Rightarrow> ulong list \<Rightarrow> bool \<times> ulong list" where
  "raw_test_and_change_bit nr addr =
     (let mask = BIT_MASK nr; p = BIT_WORD nr; old = addr ! p
      in (old AND mask \<noteq> 0, addr[p := old XOR mask]))"

definition test_bit :: "nat \<Rightarrow> ulong list \<Rightarrow> ulong" where
  "test_bit nr addr = 1 AND drop_bit (nr AND (BITS_PER_LONG - 1)) (addr ! BIT_WORD nr)"

definition bm_test :: "ulong list \<Rightarrow> nat \<Rightarrow> bool" where
  "bm_test m i = bit (m ! (i div 64)) (i mod 64)"

section \<open>Words\<close>

lemma nat_and_63: "(n::nat) AND 63 = n mod 64"
proof -
  have "n AND mask 6 = take_bit 6 n" by (simp only: take_bit_eq_mask)
  then show ?thesis by (simp add: mask_eq_exp_minus_1 take_bit_eq_mod)
qed

lemma bit_FIRST_WORD_MASK: "bit (BITMAP_FIRST_WORD_MASK s) i \<longleftrightarrow> s mod 64 \<le> i \<and> i < 64"
  by (auto simp: BITMAP_FIRST_WORD_MASK_def nat_and_63 bit_simps)

lemma last_mask_shift:
  "unat ((- (of_nat n :: u32)) AND (of_nat 64 - 1)) = (64 - n mod 64) mod 64"
proof -
  let ?w = "- (of_nat n :: u32)"
  have "(of_nat 64 - 1 :: u32) = mask 6" by (simp add: mask_eq_exp_minus_1)
  then have "?w AND (of_nat 64 - 1) = take_bit 6 ?w" by (simp only: take_bit_eq_mask)
  moreover have "uint (take_bit 6 ?w) = take_bit 6 (uint ?w)" by (rule unsigned_take_bit_eq)
  moreover have "uint ?w = (- int n) mod 2 ^ 32"
    by (simp add: uint_word_ariths unsigned_of_nat take_bit_eq_mod of_nat_mod mod_minus_eq)
  ultimately have "uint (?w AND (of_nat 64 - 1)) = (- int n) mod 64"
    by (simp add: take_bit_eq_mod mod_mod_cancel)
  moreover have "(- int n) mod 64 = int ((64 - n mod 64) mod 64)"
    by (simp add: zmod_zminus1_eq_if zmod_int of_nat_diff)
  ultimately show ?thesis by (simp add: unat_eq_nat_uint)
qed

lemma bit_LAST_WORD_MASK:
  "bit (BITMAP_LAST_WORD_MASK n) i \<longleftrightarrow> i < (if n mod 64 = 0 then 64 else n mod 64)"
  unfolding BITMAP_LAST_WORD_MASK_def last_mask_shift
  by (auto simp: bit_simps)

lemma bit_BIT_MASK: "bit (BIT_MASK nr) i \<longleftrightarrow> i = nr mod 64"
  by (auto simp: BIT_MASK_def bit_simps)

lemma word_nonzero_iff: "(w :: 'a::len word) \<noteq> 0 \<longleftrightarrow> (\<exists>i < LENGTH('a). bit w i)"
proof -
  have "(\<forall>i < LENGTH('a). \<not> bit w i) \<Longrightarrow> w = 0" by (rule bit_word_eqI) simp
  then show ?thesis by auto
qed

lemma word_and_BIT_MASK: "w AND BIT_MASK nr \<noteq> 0 \<longleftrightarrow> bit w (nr mod 64)"
  by (auto simp: word_nonzero_iff bit_and_iff bit_BIT_MASK)

lemma test_bit_bm_test: "test_bit nr addr = of_bool (bm_test addr nr)"
  by (rule bit_word_eqI) (auto simp: test_bit_def bm_test_def BIT_WORD_def nat_and_63 bit_simps)

text \<open>Scans.\<close>

lemma length_takeWhile_upt:
  "length (takeWhile (\<lambda>i. \<not> P i) [0..<n]) = (if \<exists>i<n. P i then (LEAST i. P i) else n)"
proof (cases "\<exists>i<n. P i")
  case True
  then obtain i where i: "i < n" "P i" by auto
  define k where "k = (LEAST i. P i)"
  have k: "P k" unfolding k_def using i(2) by (rule LeastI)
  have le: "k \<le> i" unfolding k_def using i(2) by (rule Least_le)
  have less: "\<not> P j" if "j < k" for j using that unfolding k_def by (rule not_less_Least)
  have "takeWhile (\<lambda>i. \<not> P i) [0..<n] = take k [0..<n]"
  proof (intro takeWhile_eq_take_P_nth)
    show "\<not> P ([0..<n] ! j)" if "j < k" "j < length [0..<n]" for j using less that by simp
    show "\<not> \<not> P ([0..<n] ! k)" if "k < length [0..<n]" using k that by simp
  qed
  then show ?thesis using True le i by (simp add: k_def)
next
  case False
  then have "takeWhile (\<lambda>i. \<not> P i) [0..<n] = [0..<n]" by (auto simp: takeWhile_eq_all_conv)
  then have "length (takeWhile (\<lambda>i. \<not> P i) [0..<n]) = length [0..<n]" by (rule arg_cong)
  then show ?thesis unfolding if_not_P [OF False] by simp
qed

lemma builtin_ctz_nonzero:
  fixes w :: "'a::len word"
  assumes "w \<noteq> 0"
  shows "bit w (builtin_ctz w)" and "\<And>i. i < builtin_ctz w \<Longrightarrow> \<not> bit w i" and "builtin_ctz w < LENGTH('a)"
proof -
  from assms obtain i where i: "i < LENGTH('a)" "bit w i" by (auto simp: word_nonzero_iff)
  then have eq: "builtin_ctz w = (LEAST i. bit w i)"
    by (auto simp: builtin_ctz_def length_takeWhile_upt)
  show "bit w (builtin_ctz w)" using i eq by (metis LeastI)
  then show "builtin_ctz w < LENGTH('a)" by (simp add: bit_imp_le_length)
  show "\<And>i. i < builtin_ctz w \<Longrightarrow> \<not> bit w i" using eq not_less_Least by auto
qed

lemma builtin_clz_nonzero:
  fixes w :: "'a::len word"
  assumes "w \<noteq> 0"
  shows "bit w (LENGTH('a) - 1 - builtin_clz w)"
    and "\<And>i. LENGTH('a) - 1 - builtin_clz w < i \<Longrightarrow> \<not> bit w i"
    and "builtin_clz w < LENGTH('a)"
proof -
  let ?P = "\<lambda>i. bit w (LENGTH('a) - 1 - i)"
  from assms obtain j where j: "j < LENGTH('a)" "bit w j" by (auto simp: word_nonzero_iff)
  then have "?P (LENGTH('a) - 1 - j)" "LENGTH('a) - 1 - j < LENGTH('a)" by auto
  then have eq: "builtin_clz w = (LEAST i. ?P i)" and ex: "\<exists>i. ?P i"
    and lt: "(LEAST i. ?P i) \<le> LENGTH('a) - 1 - j"
    by (auto simp: builtin_clz_def length_takeWhile_upt intro: Least_le simp del: bit_imp_le_length)
  show "bit w (LENGTH('a) - 1 - builtin_clz w)" using ex eq LeastI_ex [of ?P] by simp
  show lt': "builtin_clz w < LENGTH('a)" using lt eq len_gt_0 [where 'a='a] by linarith
  fix i assume i: "LENGTH('a) - 1 - builtin_clz w < i"
  show "\<not> bit w i"
  proof
    assume b: "bit w i"
    then have il: "i < LENGTH('a)" by (rule bit_imp_le_length)
    then have "LENGTH('a) - 1 - i < builtin_clz w" using i lt' by linarith
    then have "\<not> ?P (LENGTH('a) - 1 - i)" using eq not_less_Least by auto
    then show False using b il by simp
  qed
qed

lemma raw_ffs_nonzero:
  assumes "w \<noteq> 0"
  shows "bit w (raw_ffs w)" and "\<And>i. i < raw_ffs w \<Longrightarrow> \<not> bit w i" and "raw_ffs w < 64"
  using builtin_ctz_nonzero [OF assms] by (auto simp: raw_ffs_def)

lemma raw_fls_nonzero:
  assumes "w \<noteq> 0"
  shows "bit w (raw_fls w)" and "\<And>i. raw_fls w < i \<Longrightarrow> \<not> bit w i" and "raw_fls w < 64"
  using builtin_clz_nonzero [OF assms] by (auto simp: raw_fls_def)

lemma ffz_not_full:
  assumes "w \<noteq> NOT 0"
  shows "\<not> bit w (ffz w)" and "\<And>i. i < ffz w \<Longrightarrow> bit w i" and "ffz w < 64"
proof -
  have "NOT w \<noteq> 0" using assms by (metis bit.double_compl)
  note n = raw_ffs_nonzero [OF this]
  show "ffz w < 64" using n(3) by (simp add: ffz_def)
  then show "\<And>i. i < ffz w \<Longrightarrow> bit w i" using n(2) by (force simp: ffz_def bit_not_iff)
  show "\<not> bit w (ffz w)" using n(1) by (simp add: ffz_def bit_not_iff)
qed

text \<open>Population count.\<close>

lemma word_and_push_bit_1: "i < 64 \<Longrightarrow> (w :: ulong) AND push_bit i 1 \<noteq> 0 \<longleftrightarrow> bit w i"
  by (auto simp: word_nonzero_iff bit_simps)

primrec count_bits :: "ulong \<Rightarrow> nat \<Rightarrow> nat \<Rightarrow> nat" where
  "count_bits w l 0 = 0"
| "count_bits w l (Suc n) = of_bool (bit w l) + count_bits w (Suc l) n"

lemma count_bits_add: "count_bits w l (m + n) = count_bits w l m + count_bits w (l + m) n"
  by (induction m arbitrary: l) auto

lemma count_bits_card: "count_bits w l n = card {i. l \<le> i \<and> i < l + n \<and> bit w i}"
proof (induction n arbitrary: l)
  case (Suc n)
  have "{i. l \<le> i \<and> i < l + Suc n \<and> bit w i}
        = (if bit w l then {l} else {}) \<union> {i. Suc l \<le> i \<and> i < Suc l + n \<and> bit w i}"
    by (auto simp: Suc_le_eq le_less)
  then show ?case using Suc by (simp add: card_insert_if)
qed simp

lemma const_hweight8_count: "l + 8 \<le> 64 \<Longrightarrow> const_hweight8 (drop_bit l w) = count_bits w l 8"
  unfolding const_hweight8_def
  using word_and_push_bit_1 [of 0 "drop_bit l w"]
  by (simp add: word_and_push_bit_1 bit_drop_bit_eq eval_nat_numeral
      del: push_bit_of_1 push_bit_numeral push_bit_Suc)

lemma const_hweight16_count: "l + 16 \<le> 64 \<Longrightarrow> const_hweight16 (drop_bit l w) = count_bits w l 16"
  using const_hweight8_count [of l w] const_hweight8_count [of "l + 8" w] count_bits_add [of w l 8 8]
  by (simp add: const_hweight16_def drop_bit_drop_bit add.commute)

lemma const_hweight32_count: "l + 32 \<le> 64 \<Longrightarrow> const_hweight32 (drop_bit l w) = count_bits w l 32"
  using const_hweight16_count [of l w] const_hweight16_count [of "l + 16" w] count_bits_add [of w l 16 16]
  by (simp add: const_hweight32_def drop_bit_drop_bit add.commute)

lemma hweight_long_card: "hweight_long w = card {i. i < 64 \<and> bit w i}"
proof -
  have "hweight_long w = count_bits w 0 64"
    using const_hweight32_count [of 0 w] const_hweight32_count [of 32 w] count_bits_add [of w 0 32 32]
    by (simp add: hweight_long_def const_hweight64_def)
  then show ?thesis by (simp add: count_bits_card)
qed

text \<open>Bit operations on the array.\<close>

lemma div_mod_64_eq: "i div 64 = j div 64 \<Longrightarrow> i mod 64 = j mod 64 \<Longrightarrow> i = (j::nat)"
  by (metis div_mult_mod_eq)

lemma bm_test_upd:
  assumes "k < length m"
  shows "bm_test (m[k := w]) i = (if i div 64 = k then bit w (i mod 64) else bm_test m i)"
  using assms by (simp add: bm_test_def nth_list_update)

lemma bm_test_bit_ops:
  assumes "nr < 64 * length m"
  shows "bm_test (raw_set_bit nr m) i = (i = nr \<or> bm_test m i)"
    and "bm_test (raw_clear_bit nr m) i = (i \<noteq> nr \<and> bm_test m i)"
    and "bm_test (raw_change_bit nr m) i = (if i = nr then \<not> bm_test m i else bm_test m i)"
proof -
  have k: "nr div 64 < length m" using assms by (simp add: less_mult_imp_div_less mult.commute)
  have eq: "i div 64 = nr div 64 \<Longrightarrow> i mod 64 = nr mod 64 \<longleftrightarrow> i = nr"
    using div_mod_64_eq by blast
  show "bm_test (raw_set_bit nr m) i = (i = nr \<or> bm_test m i)"
    using eq by (auto simp: raw_set_bit_def nth_list_update k bit_or_iff bit_BIT_MASK BIT_WORD_def bm_test_def Let_def)
  show "bm_test (raw_clear_bit nr m) i = (i \<noteq> nr \<and> bm_test m i)"
    using eq by (auto simp: raw_clear_bit_def nth_list_update k bit_and_iff bit_not_iff bit_BIT_MASK BIT_WORD_def bm_test_def Let_def)
  show "bm_test (raw_change_bit nr m) i = (if i = nr then \<not> bm_test m i else bm_test m i)"
    using eq by (auto simp: raw_change_bit_def nth_list_update k bit_xor_iff bit_BIT_MASK BIT_WORD_def bm_test_def Let_def)
qed

lemma raw_test_and_ops:
  "raw_test_and_set_bit nr m = (bm_test m nr, raw_set_bit nr m)"
  "raw_test_and_clear_bit nr m = (bm_test m nr, raw_clear_bit nr m)"
  "raw_test_and_change_bit nr m = (bm_test m nr, raw_change_bit nr m)"
  by (simp_all add: raw_test_and_set_bit_def raw_test_and_clear_bit_def raw_test_and_change_bit_def
      raw_set_bit_def raw_clear_bit_def raw_change_bit_def word_and_BIT_MASK bm_test_def BIT_WORD_def Let_def)

end
