(* ===== verification/Bitmap.thy ===== *)
theory Bitmap
  imports Bitops
begin

text \<open>
  The multi-word operations of \<open>Algorithem/bitmap/Basic/bitmap.c\<close> and the inline wrappers of
  \<open>bitmap.h\<close>. A bitmap is the array of words that holds it; functions that write a
  destination take the array and return it updated. A loop
  \<open>for (k = 0; k < n; k++)\<close> is a \<open>fold\<close> over \<open>[0..<n]\<close>, and a loop that only returns early
  is a \<open>list_ex\<close> over the same range. The wrappers test \<open>__builtin_constant_p(nbits)\<close>, a
  question about the compiler: it is the boolean argument \<open>const\<close>, and the lemmas hold for
  both answers. Every operation is specified by the bits of its result.
\<close>

unbundle bit_operations_syntax

section \<open>Definitions\<close>

definition upd_words :: "nat \<Rightarrow> (nat \<Rightarrow> ulong) \<Rightarrow> ulong list \<Rightarrow> ulong list" where
  "upd_words n f dst = fold (\<lambda>k d. d[k := f k]) [0..<n] dst"

definition bitmap_zero :: "ulong list \<Rightarrow> nat \<Rightarrow> ulong list" where
  "bitmap_zero dst nbits = upd_words (BITS_TO_LONGS nbits) (\<lambda>k. 0) dst"

definition bitmap_fill :: "ulong list \<Rightarrow> nat \<Rightarrow> ulong list" where
  "bitmap_fill dst nbits = upd_words (BITS_TO_LONGS nbits) (\<lambda>k. NOT 0) dst"

definition bitmap_copy :: "ulong list \<Rightarrow> ulong list \<Rightarrow> nat \<Rightarrow> ulong list" where
  "bitmap_copy dst src nbits = upd_words (BITS_TO_LONGS nbits) (\<lambda>k. src ! k) dst"

definition bitmap_copy_clear_tail :: "ulong list \<Rightarrow> ulong list \<Rightarrow> nat \<Rightarrow> ulong list" where
  "bitmap_copy_clear_tail dst src nbits =
     (let dst = bitmap_copy dst src nbits in
      if nbits mod BITS_PER_LONG \<noteq> 0 then
        dst[nbits div BITS_PER_LONG :=
              dst ! (nbits div BITS_PER_LONG) AND BITMAP_LAST_WORD_MASK nbits]
      else dst)"

definition raw_bitmap_equal :: "ulong list \<Rightarrow> ulong list \<Rightarrow> nat \<Rightarrow> bool" where
  "raw_bitmap_equal bitmap1 bitmap2 bits =
     (let lim = bits div BITS_PER_LONG in
      if list_ex (\<lambda>k. bitmap1 ! k \<noteq> bitmap2 ! k) [0..<lim] then False
      else if bits mod BITS_PER_LONG \<noteq> 0 \<and>
        (bitmap1 ! lim XOR bitmap2 ! lim) AND BITMAP_LAST_WORD_MASK bits \<noteq> 0 then False
      else True)"

definition raw_bitmap_complement :: "ulong list \<Rightarrow> ulong list \<Rightarrow> nat \<Rightarrow> ulong list" where
  "raw_bitmap_complement dst src bits = upd_words (BITS_TO_LONGS bits) (\<lambda>k. NOT (src ! k)) dst"

text \<open>
  The shifts may be called with \<open>dst\<close> and \<open>src\<close> the same array (\<open>__bitmap_parse\<close> does):
  with \<open>in_place\<close>, every read goes to the array being written.
\<close>

definition raw_bitmap_shift_right ::
  "bool \<Rightarrow> ulong list \<Rightarrow> ulong list \<Rightarrow> nat \<Rightarrow> nat \<Rightarrow> ulong list" where
  "raw_bitmap_shift_right in_place dst src shift nbits =
     (let lim = BITS_TO_LONGS nbits;
          off = shift div BITS_PER_LONG;
          rem = shift mod BITS_PER_LONG;
          mask = BITMAP_LAST_WORD_MASK nbits;
          dst = fold (\<lambda>k d.
            let s = (if in_place then d else src);
                upper = (if rem = 0 \<or> off + k + 1 \<ge> lim then 0
                  else
                    let upper = s ! (off + k + 1);
                        upper = (if off + k + 1 = lim - 1 then upper AND mask else upper)
                    in push_bit (BITS_PER_LONG - rem) upper);
                lower = s ! (off + k);
                lower = (if off + k = lim - 1 then lower AND mask else lower);
                lower = drop_bit rem lower
            in d[k := lower OR upper]) [0..<lim - off] dst
      in if off \<noteq> 0 then fold (\<lambda>k d. d[k := 0]) [lim - off..<lim] dst else dst)"

definition raw_bitmap_shift_left ::
  "bool \<Rightarrow> ulong list \<Rightarrow> ulong list \<Rightarrow> nat \<Rightarrow> nat \<Rightarrow> ulong list" where
  "raw_bitmap_shift_left in_place dst src shift nbits =
     (let lim = BITS_TO_LONGS nbits;
          off = shift div BITS_PER_LONG;
          rem = shift mod BITS_PER_LONG;
          dst = fold (\<lambda>k d.
            let s = (if in_place then d else src);
                lower = (if rem \<noteq> 0 \<and> k > 0 then drop_bit (BITS_PER_LONG - rem) (s ! (k - 1)) else 0);
                upper = push_bit rem (s ! k)
            in d[k + off := lower OR upper]) (rev [0..<lim - off]) dst
      in if off \<noteq> 0 then fold (\<lambda>k d. d[k := 0]) [0..<off] dst else dst)"

definition raw_bitmap_and ::
  "ulong list \<Rightarrow> ulong list \<Rightarrow> ulong list \<Rightarrow> nat \<Rightarrow> bool \<times> ulong list" where
  "raw_bitmap_and dst bitmap1 bitmap2 bits =
     (let lim = bits div BITS_PER_LONG;
          (result, dst) = fold (\<lambda>k (result, d).
             let v = bitmap1 ! k AND bitmap2 ! k in (result OR v, d[k := v])) [0..<lim] (0, dst);
          (result, dst) = (if bits mod BITS_PER_LONG \<noteq> 0 then
             (let v = (bitmap1 ! lim AND bitmap2 ! lim) AND BITMAP_LAST_WORD_MASK bits
              in (result OR v, dst[lim := v])) else (result, dst))
      in (result \<noteq> 0, dst))"

definition raw_bitmap_or :: "ulong list \<Rightarrow> ulong list \<Rightarrow> ulong list \<Rightarrow> nat \<Rightarrow> ulong list" where
  "raw_bitmap_or dst bitmap1 bitmap2 bits =
     upd_words (BITS_TO_LONGS bits) (\<lambda>k. bitmap1 ! k OR bitmap2 ! k) dst"

definition raw_bitmap_xor :: "ulong list \<Rightarrow> ulong list \<Rightarrow> ulong list \<Rightarrow> nat \<Rightarrow> ulong list" where
  "raw_bitmap_xor dst bitmap1 bitmap2 bits =
     upd_words (BITS_TO_LONGS bits) (\<lambda>k. bitmap1 ! k XOR bitmap2 ! k) dst"

definition raw_bitmap_andnot ::
  "ulong list \<Rightarrow> ulong list \<Rightarrow> ulong list \<Rightarrow> nat \<Rightarrow> bool \<times> ulong list" where
  "raw_bitmap_andnot dst bitmap1 bitmap2 bits =
     (let lim = bits div BITS_PER_LONG;
          (result, dst) = fold (\<lambda>k (result, d).
             let v = bitmap1 ! k AND NOT (bitmap2 ! k) in (result OR v, d[k := v])) [0..<lim] (0, dst);
          (result, dst) = (if bits mod BITS_PER_LONG \<noteq> 0 then
             (let v = (bitmap1 ! lim AND NOT (bitmap2 ! lim)) AND BITMAP_LAST_WORD_MASK bits
              in (result OR v, dst[lim := v])) else (result, dst))
      in (result \<noteq> 0, dst))"

definition raw_bitmap_intersects :: "ulong list \<Rightarrow> ulong list \<Rightarrow> nat \<Rightarrow> bool" where
  "raw_bitmap_intersects bitmap1 bitmap2 bits =
     (let lim = bits div BITS_PER_LONG in
      if list_ex (\<lambda>k. bitmap1 ! k AND bitmap2 ! k \<noteq> 0) [0..<lim] then True
      else if bits mod BITS_PER_LONG \<noteq> 0 \<and>
        (bitmap1 ! lim AND bitmap2 ! lim) AND BITMAP_LAST_WORD_MASK bits \<noteq> 0 then True
      else False)"

definition raw_bitmap_subset :: "ulong list \<Rightarrow> ulong list \<Rightarrow> nat \<Rightarrow> bool" where
  "raw_bitmap_subset bitmap1 bitmap2 bits =
     (let lim = bits div BITS_PER_LONG in
      if list_ex (\<lambda>k. bitmap1 ! k AND NOT (bitmap2 ! k) \<noteq> 0) [0..<lim] then False
      else if bits mod BITS_PER_LONG \<noteq> 0 \<and>
        (bitmap1 ! lim AND NOT (bitmap2 ! lim)) AND BITMAP_LAST_WORD_MASK bits \<noteq> 0 then False
      else True)"

text \<open>The weight is counted in an \<open>int\<close>, a word of 32 bits that is read as signed at the end.\<close>

definition raw_bitmap_weight :: "ulong list \<Rightarrow> nat \<Rightarrow> int" where
  "raw_bitmap_weight bitmap bits =
     (let lim = bits div BITS_PER_LONG;
          w = fold (\<lambda>k w. w + word_of_nat (hweight_long (bitmap ! k))) [0..<lim] (0 :: 32 word);
          w = (if bits mod BITS_PER_LONG \<noteq> 0
               then w + word_of_nat (hweight_long (bitmap ! lim AND BITMAP_LAST_WORD_MASK bits)) else w)
      in sint w)"

text \<open>
  The \<open>while\<close> loops of \<open>__bitmap_set\<close> and \<open>__bitmap_clear\<close>. \<open>bits_to_set\<close> is never zero
  (it starts as \<open>64 - start % 64\<close> and is 64 from then on); the guard repeats that for termination.
\<close>

function bitmap_set_loop :: "nat \<Rightarrow> nat \<Rightarrow> nat \<Rightarrow> nat \<Rightarrow> ulong \<Rightarrow> ulong list \<Rightarrow> ulong list" where
  "bitmap_set_loop sz p len bits_to_set mask_to_set m =
     (if bits_to_set \<le> len \<and> bits_to_set \<noteq> 0 then
        bitmap_set_loop sz (p + 1) (len - bits_to_set) BITS_PER_LONG (NOT 0)
          (m[p := m ! p OR mask_to_set])
      else if len \<noteq> 0 then
        m[p := m ! p OR (mask_to_set AND BITMAP_LAST_WORD_MASK sz)]
      else m)"
  by pat_completeness auto
termination
  by (relation "measure (\<lambda>(sz, p, len, bits, mask, m). len)") auto

definition raw_bitmap_set :: "ulong list \<Rightarrow> nat \<Rightarrow> nat \<Rightarrow> ulong list" where
  "raw_bitmap_set m start len =
     bitmap_set_loop (start + len) (BIT_WORD start) len
       (BITS_PER_LONG - start mod BITS_PER_LONG) (BITMAP_FIRST_WORD_MASK start) m"

function bitmap_clear_loop :: "nat \<Rightarrow> nat \<Rightarrow> nat \<Rightarrow> nat \<Rightarrow> ulong \<Rightarrow> ulong list \<Rightarrow> ulong list" where
  "bitmap_clear_loop sz p len bits_to_clear mask_to_clear m =
     (if bits_to_clear \<le> len \<and> bits_to_clear \<noteq> 0 then
        bitmap_clear_loop sz (p + 1) (len - bits_to_clear) BITS_PER_LONG (NOT 0)
          (m[p := m ! p AND NOT mask_to_clear])
      else if len \<noteq> 0 then
        m[p := m ! p AND NOT (mask_to_clear AND BITMAP_LAST_WORD_MASK sz)]
      else m)"
  by pat_completeness auto
termination
  by (relation "measure (\<lambda>(sz, p, len, bits, mask, m). len)") auto

definition raw_bitmap_clear :: "ulong list \<Rightarrow> nat \<Rightarrow> nat \<Rightarrow> ulong list" where
  "raw_bitmap_clear m start len =
     bitmap_clear_loop (start + len) (BIT_WORD start) len
       (BITS_PER_LONG - start mod BITS_PER_LONG) (BITMAP_FIRST_WORD_MASK start) m"

declare bitmap_set_loop.simps [simp del] bitmap_clear_loop.simps [simp del]

definition bitmap_pos_to_ord :: "ulong list \<Rightarrow> nat \<Rightarrow> nat \<Rightarrow> int" where
  "bitmap_pos_to_ord buf pos nbits =
     (if pos \<ge> nbits \<or> test_bit pos buf = 0 then - 1 else raw_bitmap_weight buf pos)"

text \<open>
  \<open>DIV_ROUND_UP(nbits, 32)\<close> and \<open>halfwords - 1\<close> on \<open>unsigned int\<close>, with their wrap-around.
\<close>

definition arr32_halfwords :: "nat \<Rightarrow> nat" where
  "arr32_halfwords nbits = (nbits + 32 - 1) mod 2 ^ 32 div 32"

definition arr32_last :: "nat \<Rightarrow> nat" where
  "arr32_last halfwords = (halfwords + 2 ^ 32 - 1) mod 2 ^ 32"

function from_arr32_loop :: "nat \<Rightarrow> nat \<Rightarrow> u32 list \<Rightarrow> ulong list \<Rightarrow> ulong list" where
  "from_arr32_loop i halfwords buf bitmap =
     (if i < halfwords then
        let bitmap = bitmap[i div 2 := ucast (buf ! i)];
            i = i + 1;
            bitmap = (if i < halfwords
              then bitmap[i div 2 := bitmap ! (i div 2) OR push_bit 32 (ucast (buf ! i))]
              else bitmap)
        in from_arr32_loop (i + 1) halfwords buf bitmap
      else bitmap)"
  by pat_completeness auto
termination
  by (relation "measure (\<lambda>(i, halfwords, buf, bitmap). halfwords - i)") auto

definition bitmap_from_arr32 :: "ulong list \<Rightarrow> u32 list \<Rightarrow> nat \<Rightarrow> ulong list" where
  "bitmap_from_arr32 bitmap buf nbits =
     (let halfwords = arr32_halfwords nbits;
          bitmap = from_arr32_loop 0 halfwords buf bitmap
      in if nbits mod BITS_PER_LONG \<noteq> 0 then
           bitmap[arr32_last halfwords div 2 :=
             bitmap ! (arr32_last halfwords div 2) AND BITMAP_LAST_WORD_MASK nbits]
         else bitmap)"

function to_arr32_loop :: "nat \<Rightarrow> nat \<Rightarrow> ulong list \<Rightarrow> u32 list \<Rightarrow> u32 list" where
  "to_arr32_loop i halfwords bitmap buf =
     (if i < halfwords then
        let buf = buf[i := ucast (bitmap ! (i div 2) AND ucast (NOT 0 :: u32))];
            i = i + 1;
            buf = (if i < halfwords then buf[i := ucast (drop_bit 32 (bitmap ! (i div 2)))] else buf)
        in to_arr32_loop (i + 1) halfwords bitmap buf
      else buf)"
  by pat_completeness auto
termination
  by (relation "measure (\<lambda>(i, halfwords, bitmap, buf). halfwords - i)") auto

definition bitmap_to_arr32 :: "u32 list \<Rightarrow> ulong list \<Rightarrow> nat \<Rightarrow> u32 list" where
  "bitmap_to_arr32 buf bitmap nbits =
     (let halfwords = arr32_halfwords nbits;
          buf = to_arr32_loop 0 halfwords bitmap buf
      in if nbits mod BITS_PER_LONG \<noteq> 0 then
           buf[arr32_last halfwords := buf ! arr32_last halfwords AND
             drop_bit (unat ((- (of_nat nbits :: u32)) AND 31)) (NOT 0)]
         else buf)"

declare from_arr32_loop.simps [simp del] to_arr32_loop.simps [simp del]

section \<open>Words of an array\<close>

lemma length_upd_words [simp]: "length (upd_words n f dst) = length dst"
  by (induction n) (simp_all add: upd_words_def)

lemma nth_upd_words: "n \<le> length dst \<Longrightarrow> upd_words n f dst ! k = (if k < n then f k else dst ! k)"
proof (induction n)
  case (Suc n)
  have "upd_words (Suc n) f dst = (upd_words n f dst)[n := f n]" by (simp add: upd_words_def)
  then show ?case using Suc by (auto simp: nth_list_update)
qed (simp add: upd_words_def)

lemma bm_test_upd_words:
  "n \<le> length dst \<Longrightarrow>
   bm_test (upd_words n f dst) i = (if i < 64 * n then bit (f (i div 64)) (i mod 64) else bm_test dst i)"
  by (auto simp: bm_test_def nth_upd_words less_mult_imp_div_less mult.commute div_less_iff_less_mult)

lemma less_BITS_TO_LONGS: "i < n \<Longrightarrow> i < 64 * BITS_TO_LONGS n"
  unfolding BITS_TO_LONGS_def by linarith

lemma div_less_BITS_TO_LONGS: "i < n \<Longrightarrow> i div 64 < BITS_TO_LONGS n"
  using less_BITS_TO_LONGS by (metis less_mult_imp_div_less mult.commute)

lemma div_mod_64_unique:
  assumes "r < 64" and "(n::nat) = 64 * q + r"
  shows "n div 64 = q" and "n mod 64 = r"
  using assms by simp_all

lemma BITS_TO_LONGS_alt: "BITS_TO_LONGS n = n div 64 + of_bool (n mod 64 \<noteq> 0)"
proof -
  have "(n + 63) div 64 = n div 64 + (n mod 64 + 63) div 64" using div_add1_eq [of n 63 64] by simp
  moreover have "(n mod 64 + 63) div 64 = of_bool (n mod 64 \<noteq> 0)"
  proof (cases "n mod 64 = 0")
    case False
    have "n mod 64 < 64" by simp
    then have "(n mod 64 + 63) div 64 = 1" using False by (intro div_mod_64_unique(1) [of "n mod 64 - 1"]) auto
    then show ?thesis using False by simp
  qed simp
  ultimately show ?thesis unfolding BITS_TO_LONGS_def by simp
qed

lemma less_iff_div_mod_64:
  "(i::nat) < n \<longleftrightarrow> i div 64 < n div 64 \<or> i div 64 = n div 64 \<and> i mod 64 < n mod 64"
proof (cases "i div 64" "n div 64" rule: linorder_cases)
  case equal
  then show ?thesis using div_mult_mod_eq [of i 64] div_mult_mod_eq [of n 64] by linarith
qed (linarith+)

lemma ex_bits_split:
  "(\<exists>i < n. Q (i div 64) (i mod 64)) \<longleftrightarrow>
   (\<exists>k < n div 64. \<exists>j < 64. Q k j) \<or> (\<exists>j < n mod 64. Q (n div 64) (j::nat))" (is "?L \<longleftrightarrow> ?R")
proof
  assume ?L
  then obtain i where i: "i < n" "Q (i div 64) (i mod 64)" by auto
  show ?R
  proof (cases "i div 64 < n div 64")
    case False
    then have "i div 64 = n div 64" using i(1) by (meson div_le_mono le_antisym less_imp_le_nat not_less)
    moreover from this have "i mod 64 < n mod 64" using i(1) by (metis add_less_cancel_left div_mult_mod_eq)
    ultimately show ?thesis using i by auto
  qed (use i in auto)
next
  assume ?R
  then show ?L
  proof (elim disjE exE conjE)
    fix k j assume h: "k < n div 64" "j < 64" "Q k j"
    then have "k * 64 + j < n" by linarith
    with h show ?L by (intro exI [of _ "k * 64 + j"]) auto
  next
    fix j assume h: "j < n mod 64" "Q (n div 64) j"
    then have "n div 64 * 64 + j < n" using div_mult_mod_eq [of n 64] by linarith
    moreover have "j < 64" using h(1) by linarith
    ultimately show ?L using h by (intro exI [of _ "n div 64 * 64 + j"]) auto
  qed
qed

text \<open>The pattern of every scan: whole words, then the last word under its mask.\<close>

lemma bits_scan_nonzero:
  "(list_ex (\<lambda>k. f k \<noteq> 0) [0..<n div 64] \<or> (n mod 64 \<noteq> 0 \<and> f (n div 64) AND BITMAP_LAST_WORD_MASK n \<noteq> 0))
   \<longleftrightarrow> (\<exists>i < n. bit (f (i div 64)) (i mod 64))"
proof -
  have "(n mod 64 \<noteq> 0 \<and> f (n div 64) AND BITMAP_LAST_WORD_MASK n \<noteq> 0) \<longleftrightarrow> (\<exists>j < n mod 64. bit (f (n div 64)) j)"
    by (force simp: word_nonzero_iff bit_and_iff bit_LAST_WORD_MASK dest: bit_imp_le_length)
  moreover have "list_ex (\<lambda>k. f k \<noteq> 0) [0..<n div 64] \<longleftrightarrow> (\<exists>k < n div 64. \<exists>j < 64. bit (f k) j)"
    by (auto simp: list_ex_iff word_nonzero_iff)
  ultimately show ?thesis by (simp only: ex_bits_split [of n "\<lambda>k. bit (f k)"])
qed

lemma fold_result_words:
  "fold (\<lambda>k (result, d). let v = f k in (result OR v, d[k := v])) [0..<n] (r, dst)
   = (fold (\<lambda>k result. result OR f k) [0..<n] r, upd_words n f dst)"
  by (induction n) (simp_all add: upd_words_def Let_def)

lemma fold_or_nonzero:
  "fold (\<lambda>k result. result OR f k) [0..<n] r \<noteq> 0 \<longleftrightarrow> r \<noteq> (0 :: ulong) \<or> list_ex (\<lambda>k. f k \<noteq> 0) [0..<n]"
  by (induction n) (auto simp: or_eq_0_iff)

section \<open>Comparisons and counting\<close>

lemma word_xor_eq_0: "(v :: ulong) XOR w = 0 \<longleftrightarrow> v = w"
proof -
  have "v = w" if "v XOR w = 0"
  proof (rule bit_word_eqI)
    fix n :: nat
    have "bit (v XOR w) n = bit (0 :: ulong) n" using that by simp
    then show "bit v n = bit w n" by (simp add: bit_xor_iff)
  qed
  then show ?thesis by auto
qed

lemma early_return:
  "(if P then False else if Q then False else True) \<longleftrightarrow> \<not> (P \<or> Q)"
  "(if P then True else if Q then True else False) \<longleftrightarrow> P \<or> Q"
  by simp_all

lemma raw_bitmap_equal_iff: "raw_bitmap_equal a b n \<longleftrightarrow> (\<forall>i < n. bm_test a i = bm_test b i)"
  using bits_scan_nonzero [of "\<lambda>k. a ! k XOR b ! k" n]
  unfolding raw_bitmap_equal_def Let_def early_return word_xor_eq_0 by (simp add: bit_xor_iff bm_test_def)

lemma raw_bitmap_intersects_iff: "raw_bitmap_intersects a b n \<longleftrightarrow> (\<exists>i < n. bm_test a i \<and> bm_test b i)"
  unfolding raw_bitmap_intersects_def Let_def early_return
    bits_scan_nonzero [of "\<lambda>k. a ! k AND b ! k" n] by (simp add: bit_and_iff bm_test_def)

lemma raw_bitmap_subset_iff: "raw_bitmap_subset a b n \<longleftrightarrow> (\<forall>i < n. bm_test a i \<longrightarrow> bm_test b i)"
  unfolding raw_bitmap_subset_def Let_def early_return
    bits_scan_nonzero [of "\<lambda>k. a ! k AND NOT (b ! k)" n] by (auto simp: bit_and_iff bit_not_iff bm_test_def)

lemma bits_card_step:
  assumes "r \<le> 64"
  shows "card {i. i < 64 * k + r \<and> bm_test m i} = card {i. i < 64 * k \<and> bm_test m i} + card {j. j < r \<and> bit (m ! k) j}"
proof -
  have "{i. i < 64 * k + r \<and> bm_test m i}
        = {i. i < 64 * k \<and> bm_test m i} \<union> (\<lambda>j. 64 * k + j) ` {j. j < r \<and> bit (m ! k) j}" (is "?A = ?B \<union> ?C")
  proof (intro set_eqI iffI)
    fix i assume i: "i \<in> ?A"
    show "i \<in> ?B \<union> ?C"
    proof (cases "i < 64 * k")
      case False
      then have j: "i = 64 * k + (i - 64 * k)" "i - 64 * k < r" using i by auto
      then have "i div 64 = k" "i mod 64 = i - 64 * k" using assms
        by (metis add.commute div_mult_self2 div_less less_le_trans add_0 zero_neq_numeral,
            metis mod_mult_self2 add.commute mod_less less_le_trans assms)
      then show ?thesis using i j by (auto simp: bm_test_def intro!: image_eqI [of _ _ "i - 64 * k"])
    qed (use i in auto)
  next
    fix i assume "i \<in> ?B \<union> ?C"
    then show "i \<in> ?A" using assms by (auto simp: bm_test_def)
  qed
  moreover have "card (?B \<union> ?C) = card ?B + card ?C" by (rule card_Un_disjoint) auto
  moreover have "card ?C = card {j. j < r \<and> bit (m ! k) j}" by (rule card_image) (simp add: inj_on_def)
  ultimately show ?thesis by simp
qed

lemma raw_bitmap_weight_card: "raw_bitmap_weight m n = sint (word_of_nat (card {i. i < n \<and> bm_test m i}) :: 32 word)"
proof -
  have words: "fold (\<lambda>k w. w + word_of_nat (hweight_long (m ! k))) [0..<l] (0 :: 32 word) =
    word_of_nat (card {i. i < 64 * l \<and> bm_test m i})" for l
    by (induction l) (use bits_card_step [of 64 _ m] in \<open>auto simp: hweight_long_card add.commute\<close>)
  have n: "64 * (n div 64) + n mod 64 = n" by simp
  have "hweight_long (m ! (n div 64) AND BITMAP_LAST_WORD_MASK n) = card {j. j < n mod 64 \<and> bit (m ! (n div 64)) j}"
    if "n mod 64 \<noteq> 0"
    unfolding hweight_long_card
    by (rule arg_cong [where f = card]) (use that in \<open>auto simp: bit_and_iff bit_LAST_WORD_MASK dest: bit_imp_le_length\<close>)
  then show ?thesis
    using bits_card_step [of "n mod 64" "n div 64" m] n words [of "n div 64"]
    by (auto simp: raw_bitmap_weight_def Let_def)
qed

lemma sint_count: "c < 2 ^ 31 \<Longrightarrow> sint (word_of_nat c :: 32 word) = int c"
  by (simp add: signed_of_nat signed_take_bit_int_eq_self)

section \<open>Logical operations\<close>

lemma raw_bitmap_or_bits:
  "BITS_TO_LONGS n \<le> length d \<Longrightarrow> i < n \<Longrightarrow> bm_test (raw_bitmap_or d a b n) i \<longleftrightarrow> bm_test a i \<or> bm_test b i"
  by (simp add: raw_bitmap_or_def bm_test_upd_words less_BITS_TO_LONGS bit_or_iff) (simp add: bm_test_def)

lemma raw_bitmap_xor_bits:
  "BITS_TO_LONGS n \<le> length d \<Longrightarrow> i < n \<Longrightarrow> bm_test (raw_bitmap_xor d a b n) i \<longleftrightarrow> bm_test a i \<noteq> bm_test b i"
  by (simp add: raw_bitmap_xor_def bm_test_upd_words less_BITS_TO_LONGS bit_xor_iff) (simp add: bm_test_def)

lemma raw_bitmap_complement_bits:
  "BITS_TO_LONGS n \<le> length d \<Longrightarrow> i < n \<Longrightarrow> bm_test (raw_bitmap_complement d a n) i \<longleftrightarrow> \<not> bm_test a i"
  by (simp add: raw_bitmap_complement_def bm_test_upd_words less_BITS_TO_LONGS bit_not_iff) (simp add: bm_test_def)

lemma and_result_words:
  fixes f :: "nat \<Rightarrow> ulong"
  assumes "BITS_TO_LONGS n \<le> length dst"
  defines "lim \<equiv> n div 64"
  defines "g \<equiv> \<lambda>k. if k < lim then f k else f k AND BITMAP_LAST_WORD_MASK n"
  shows "(let (result, dst) = fold (\<lambda>k (result, d). let v = f k in (result OR v, d[k := v])) [0..<lim] (0, dst);
             (result, dst) = (if n mod 64 \<noteq> 0 then
               (let v = f lim AND BITMAP_LAST_WORD_MASK n in (result OR v, dst[lim := v])) else (result, dst))
          in (result \<noteq> 0, dst)) = (\<exists>i < n. bit (f (i div 64)) (i mod 64), upd_words (BITS_TO_LONGS n) g dst)"
proof -
  have "upd_words (BITS_TO_LONGS n) g dst
    = (if n mod 64 \<noteq> 0 then (upd_words lim f dst)[lim := f lim AND BITMAP_LAST_WORD_MASK n] else upd_words lim f dst)"
    using assms(1) by (intro nth_equalityI)
      (auto simp: nth_upd_words nth_list_update BITS_TO_LONGS_alt lim_def g_def less_Suc_eq)
  moreover have "fold (\<lambda>k result. result OR f k) [0..<lim] 0 \<noteq> 0 \<or> n mod 64 \<noteq> 0 \<and> f lim AND BITMAP_LAST_WORD_MASK n \<noteq> 0
    \<longleftrightarrow> (\<exists>i < n. bit (f (i div 64)) (i mod 64))"
    using bits_scan_nonzero [of f n] by (simp add: fold_or_nonzero lim_def)
  ultimately show ?thesis
    unfolding fold_result_words by (auto simp: Let_def or_eq_0_iff)
qed

lemma last_word_bit:
  assumes "i < 64 * BITS_TO_LONGS n"
  shows "i < n \<longleftrightarrow> i div 64 < n div 64 \<or> bit (BITMAP_LAST_WORD_MASK n) (i mod 64)"
proof (cases "n mod 64 = 0")
  case True
  then show ?thesis using assms by (auto simp: BITS_TO_LONGS_alt bit_LAST_WORD_MASK)
next
  case False
  then show ?thesis using assms less_iff_div_mod_64 [of i n] unfolding BITS_TO_LONGS_alt bit_LAST_WORD_MASK
    by (auto simp: div_less_iff_less_mult less_Suc_eq mult.commute)
qed

lemma raw_bitmap_and_bits:
  assumes "BITS_TO_LONGS n \<le> length d"
  shows "fst (raw_bitmap_and d a b n) \<longleftrightarrow> (\<exists>i < n. bm_test a i \<and> bm_test b i)"
    and "i < 64 * BITS_TO_LONGS n \<Longrightarrow> bm_test (snd (raw_bitmap_and d a b n)) i \<longleftrightarrow> i < n \<and> bm_test a i \<and> bm_test b i"
    and "length (snd (raw_bitmap_and d a b n)) = length d"
proof -
  note eq = and_result_words [OF assms, of "\<lambda>k. a ! k AND b ! k"]
  have eq': "raw_bitmap_and d a b n = (\<exists>i < n. bm_test a i \<and> bm_test b i, upd_words (BITS_TO_LONGS n)
    (\<lambda>k. if k < n div 64 then a ! k AND b ! k else (a ! k AND b ! k) AND BITMAP_LAST_WORD_MASK n) d)"
    unfolding raw_bitmap_and_def Let_def [of "n div 64"] eq by (simp add: bit_and_iff bm_test_def)
  show "fst (raw_bitmap_and d a b n) \<longleftrightarrow> (\<exists>i < n. bm_test a i \<and> bm_test b i)"
    "length (snd (raw_bitmap_and d a b n)) = length d"
    by (simp_all add: eq')
  show "bm_test (snd (raw_bitmap_and d a b n)) i \<longleftrightarrow> i < n \<and> bm_test a i \<and> bm_test b i"
    if "i < 64 * BITS_TO_LONGS n"
    using that assms last_word_bit [OF that] by (auto simp: eq' bm_test_upd_words bit_and_iff) (simp_all add: bm_test_def)
qed

lemma raw_bitmap_andnot_bits:
  assumes "BITS_TO_LONGS n \<le> length d"
  shows "fst (raw_bitmap_andnot d a b n) \<longleftrightarrow> (\<exists>i < n. bm_test a i \<and> \<not> bm_test b i)"
    and "i < 64 * BITS_TO_LONGS n \<Longrightarrow> bm_test (snd (raw_bitmap_andnot d a b n)) i \<longleftrightarrow> i < n \<and> bm_test a i \<and> \<not> bm_test b i"
    and "length (snd (raw_bitmap_andnot d a b n)) = length d"
proof -
  note eq = and_result_words [OF assms, of "\<lambda>k. a ! k AND NOT (b ! k)"]
  have eq': "raw_bitmap_andnot d a b n = (\<exists>i < n. bm_test a i \<and> \<not> bm_test b i, upd_words (BITS_TO_LONGS n)
    (\<lambda>k. if k < n div 64 then a ! k AND NOT (b ! k) else (a ! k AND NOT (b ! k)) AND BITMAP_LAST_WORD_MASK n) d)"
    unfolding raw_bitmap_andnot_def Let_def [of "n div 64"] eq by (auto simp: bit_and_iff bit_not_iff bm_test_def)
  show "fst (raw_bitmap_andnot d a b n) \<longleftrightarrow> (\<exists>i < n. bm_test a i \<and> \<not> bm_test b i)"
    "length (snd (raw_bitmap_andnot d a b n)) = length d"
    by (simp_all add: eq')
  show "bm_test (snd (raw_bitmap_andnot d a b n)) i \<longleftrightarrow> i < n \<and> bm_test a i \<and> \<not> bm_test b i"
    if "i < 64 * BITS_TO_LONGS n"
    using that assms last_word_bit [OF that] by (auto simp: eq' bm_test_upd_words bit_and_iff bit_not_iff) (simp_all add: bm_test_def)
qed

section \<open>Ranges\<close>

text \<open>
  Both loops keep the invariant that \<open>p\<close> is the word of the next bit to change, that the mask
  selects from that bit to the end of its word, and that \<open>sz\<close> is the end of the range.
\<close>

lemma bitmap_set_loop_bits:
  assumes "len > 0 \<Longrightarrow> s + len \<le> 64 * length m"
  shows "bm_test (bitmap_set_loop (s + len) (s div 64) len (64 - s mod 64) (BITMAP_FIRST_WORD_MASK s) m) i
    \<longleftrightarrow> bm_test m i \<or> s \<le> i \<and> i < s + len"
  using assms
proof (induction len arbitrary: s m rule: less_induct)
  case (less len)
  let ?b = "64 - s mod 64"
  show ?case
  proof (cases "?b \<le> len")
    case True
    define s' where "s' = s + ?b"
    have b: "?b > 0" by simp
    have e: "s' = 64 * (s div 64) + 64"
      using div_mult_mod_eq [of s 64] b unfolding s'_def by linarith
    have s': "s' mod 64 = 0" "s' div 64 = s div 64 + 1" "s' = 64 * (s div 64) + 64"
      using div_mod_64_unique [of 0 s' "s div 64 + 1"] e by auto
    have k: "s div 64 < length m" using less.prems True b by (simp add: div_less_iff_less_mult mult.commute)
    let ?m = "m[s div 64 := m ! (s div 64) OR BITMAP_FIRST_WORD_MASK s]"
    have mask: "BITMAP_FIRST_WORD_MASK s' = NOT 0"
      by (rule bit_word_eqI) (simp add: bit_FIRST_WORD_MASK s'(1))
    have "bitmap_set_loop (s + len) (s div 64) len ?b (BITMAP_FIRST_WORD_MASK s) m
      = bitmap_set_loop (s' + (len - ?b)) (s' div 64) (len - ?b) (64 - s' mod 64) (BITMAP_FIRST_WORD_MASK s') ?m"
      by (subst bitmap_set_loop.simps) (use True b in \<open>simp only: mask s'(1,2) if_True simp_thms not_gr_zero [symmetric]\<close>, simp add: s'_def)
    moreover have "bm_test (bitmap_set_loop (s' + (len - ?b)) (s' div 64) (len - ?b) (64 - s' mod 64) (BITMAP_FIRST_WORD_MASK s') ?m) i
      \<longleftrightarrow> bm_test ?m i \<or> s' \<le> i \<and> i < s' + (len - ?b)"
      by (rule less.IH) (use True less.prems s'_def in auto)
    moreover have "bm_test ?m i \<longleftrightarrow> bm_test m i \<or> s \<le> i \<and> i < s'"
    proof (cases "i div 64 = s div 64")
      case True
      then have "s mod 64 \<le> i mod 64 \<longleftrightarrow> s \<le> i" "i < s'"
        unfolding s'(3) using less_iff_div_mod_64 [of i s] by linarith+
      then show ?thesis using k True by (auto simp: bm_test_upd bit_or_iff bit_FIRST_WORD_MASK bm_test_def)
    next
      case False
      then have "\<not> (s \<le> i \<and> i < s')" unfolding s'(3) by linarith
      then show ?thesis using k False by (auto simp: bm_test_upd)
    qed
    ultimately show ?thesis using True s'_def by auto
  next
    case False
    show ?thesis
    proof (cases "len = 0")
      case True
      then show ?thesis by (subst bitmap_set_loop.simps) auto
    next
      case len: False
      let ?e = "s + len"
      have e: "?e mod 64 = s mod 64 + len" "?e div 64 = s div 64"
        using False len div_mod_64_unique [of "s mod 64 + len" ?e "s div 64"] by auto
      have k: "s div 64 < length m" using less.prems len by (simp add: div_less_iff_less_mult mult.commute)
      have eq: "bitmap_set_loop ?e (s div 64) len ?b (BITMAP_FIRST_WORD_MASK s) m
        = m[s div 64 := m ! (s div 64) OR (BITMAP_FIRST_WORD_MASK s AND BITMAP_LAST_WORD_MASK ?e)]"
        by (subst bitmap_set_loop.simps) (use False len in simp)
      show ?thesis
      proof (cases "i div 64 = s div 64")
        case True
        then have "s mod 64 \<le> i mod 64 \<longleftrightarrow> s \<le> i" "i mod 64 < s mod 64 + len \<longleftrightarrow> i < ?e"
          using less_iff_div_mod_64 [of i s] less_iff_div_mod_64 [of i ?e] e by auto
        then show ?thesis unfolding eq using k True len
          by (auto simp: bm_test_upd bit_or_iff bit_and_iff bit_FIRST_WORD_MASK bit_LAST_WORD_MASK bm_test_def e)
      next
        case F: False
        have "i div 64 = s div 64" if "s \<le> i \<and> i < ?e"
          using that e(2) div_le_mono [of s i 64] div_le_mono [of i ?e 64] by simp
        then have "\<not> (s \<le> i \<and> i < ?e)" using F by blast
        then show ?thesis unfolding eq using k F by (auto simp: bm_test_upd)
      qed
    qed
  qed
qed

lemma raw_bitmap_set_bits:
  assumes "start + len \<le> 64 * length m"
  shows "bm_test (raw_bitmap_set m start len) i \<longleftrightarrow> bm_test m i \<or> start \<le> i \<and> i < start + len"
  unfolding raw_bitmap_set_def BIT_WORD_def using assms by (rule bitmap_set_loop_bits)

lemma length_bitmap_set_loop [simp]: "length (bitmap_set_loop sz p len b w m) = length m"
  by (induction sz p len b w m rule: bitmap_set_loop.induct) (subst bitmap_set_loop.simps, simp)

text \<open>Clearing is setting in the complement, so its bits follow from those of \<open>__bitmap_set\<close>.\<close>

lemma map_NOT_update:
  "(map NOT m)[p := (map NOT m) ! p OR w] = map NOT (m[p := (m ! p :: ulong) AND NOT w])"
  by (cases "p < length m") (simp_all add: map_update list_update_beyond)

lemma bitmap_clear_loop_set:
  "map NOT (bitmap_clear_loop sz p len b w m) = bitmap_set_loop sz p len b w (map NOT m)"
proof (induction sz p len b w m rule: bitmap_clear_loop.induct)
  case (1 sz p len b w m)
  then show ?case
    by (subst bitmap_clear_loop.simps, subst bitmap_set_loop.simps)
      (auto simp: map_NOT_update simp del: map_update)
qed

lemma map_NOT_NOT [simp]: "map NOT (map NOT (m :: ulong list)) = m"
  by (simp add: comp_def)

lemma bm_test_map_NOT: "i < 64 * length m \<Longrightarrow> bm_test (map NOT m) i \<longleftrightarrow> \<not> bm_test m i"
  by (simp add: bm_test_def bit_not_iff less_mult_imp_div_less mult.commute)

lemma length_raw_bitmap_set [simp]: "length (raw_bitmap_set m start len) = length m"
  by (simp add: raw_bitmap_set_def)

lemma raw_bitmap_clear_set: "raw_bitmap_clear m start len = map NOT (raw_bitmap_set (map NOT m) start len)"
  unfolding raw_bitmap_clear_def raw_bitmap_set_def bitmap_clear_loop_set [symmetric] by (rule map_NOT_NOT [symmetric])

lemma length_raw_bitmap_clear [simp]: "length (raw_bitmap_clear m start len) = length m"
  by (simp add: raw_bitmap_clear_set)

lemma raw_bitmap_clear_bits:
  assumes "start + len \<le> 64 * length m" and "i < 64 * length m"
  shows "bm_test (raw_bitmap_clear m start len) i \<longleftrightarrow> bm_test m i \<and> \<not> (start \<le> i \<and> i < start + len)"
  unfolding raw_bitmap_clear_set using assms
  by (simp add: bm_test_map_NOT raw_bitmap_set_bits del: map_map)

section \<open>Shifts\<close>

text \<open>
  One step of the right shift, on whole words: the word at \<open>k\<close> of the result combines two
  adjacent source words, the last of which is read under the mask.
\<close>

definition masked :: "ulong list \<Rightarrow> nat \<Rightarrow> nat \<Rightarrow> ulong" where
  "masked s n k = (if k = BITS_TO_LONGS n - 1 then s ! k AND BITMAP_LAST_WORD_MASK n else s ! k)"

definition shr_word :: "ulong list \<Rightarrow> nat \<Rightarrow> nat \<Rightarrow> nat \<Rightarrow> ulong" where
  "shr_word s shift n k =
     drop_bit (shift mod 64) (masked s n (shift div 64 + k)) OR
     (if shift mod 64 = 0 \<or> shift div 64 + k + 1 \<ge> BITS_TO_LONGS n then 0
      else push_bit (64 - shift mod 64) (masked s n (shift div 64 + k + 1)))"

lemma bit_masked:
  assumes "k < BITS_TO_LONGS n" and "j < 64"
  shows "bit (masked s n k) j \<longleftrightarrow> 64 * k + j < n \<and> bit (s ! k) j"
proof -
  have "64 * k + j < 64 * BITS_TO_LONGS n" using assms by simp
  moreover have "(64 * k + j) div 64 = k" "(64 * k + j) mod 64 = j" using assms by simp_all
  ultimately have "64 * k + j < n \<longleftrightarrow> k < n div 64 \<or> bit (BITMAP_LAST_WORD_MASK n) j"
    using last_word_bit [of "64 * k + j" n] by simp
  moreover have "k = BITS_TO_LONGS n - 1" if "\<not> k < n div 64" using that assms by (auto simp: BITS_TO_LONGS_alt split: if_splits)
  moreover have "n mod 64 \<noteq> 0 \<or> bit (BITMAP_LAST_WORD_MASK n) j" using assms by (auto simp: bit_LAST_WORD_MASK)
  moreover have "n mod 64 = 0" if "k < n div 64" "k = BITS_TO_LONGS n - 1"
    using that by (cases "n mod 64 = 0") (simp_all add: BITS_TO_LONGS_alt)
  ultimately show ?thesis by (cases "k = BITS_TO_LONGS n - 1") (auto simp: masked_def bit_and_iff)
qed

lemma bit_shr_word:
  assumes "shift div 64 + k < BITS_TO_LONGS n" and "j < 64"
  shows "bit (shr_word s shift n k) j \<longleftrightarrow> 64 * k + j + shift < n \<and> bm_test s (64 * k + j + shift)"
proof -
  let ?off = "shift div 64" and ?rem = "shift mod 64"
  have sh: "64 * k + j + shift = 64 * (?off + k) + (j + ?rem)" by simp
  show ?thesis
  proof (cases "j + ?rem < 64")
    case True
    then have "\<not> (64 - ?rem \<le> j)" by simp
    moreover have "(64 * k + j + shift) div 64 = ?off + k" "(64 * k + j + shift) mod 64 = j + ?rem"
      using True div_mod_64_unique [OF True sh] by auto
    ultimately show ?thesis
      using True assms bit_masked [OF assms(1) True] unfolding bm_test_def sh
      by (auto simp: shr_word_def bit_simps add.commute)
  next
    case False
    have r: "j + ?rem - 64 < 64" "64 * k + j + shift = 64 * (?off + k + 1) + (j + ?rem - 64)"
      using assms False sh by auto
    have d: "(64 * k + j + shift) div 64 = ?off + k + 1" "(64 * k + j + shift) mod 64 = j + ?rem - 64"
      using div_mod_64_unique [OF r] by auto
    have rem: "?rem \<noteq> 0" using False assms by auto
    have jj: "j - (64 - ?rem) = j + ?rem - 64" by simp
    show ?thesis
    proof (cases "?off + k + 1 < BITS_TO_LONGS n")
      case True
      have "\<not> bit (masked s n (?off + k)) (?rem + j)" using False by (auto dest!: bit_imp_le_length)
      then have "bit (shr_word s shift n k) j \<longleftrightarrow> bit (masked s n (?off + k + 1)) (j + ?rem - 64)"
        using True le_diff_conv [of 64 ?rem j] False assms(2) rem jj
        by (simp add: shr_word_def bit_or_iff bit_drop_bit_eq bit_push_bit_iff)
      then show ?thesis
        unfolding bm_test_def d bit_masked [OF True r(1), of s] r(2) [symmetric] .
    next
      case F: False
      then have "\<not> 64 * k + j + shift < n"
        using div_less_BITS_TO_LONGS [of "64 * k + j + shift" n] unfolding d(1) by blast
      then show ?thesis using F False assms
        by (auto simp: shr_word_def bit_simps dest: bit_imp_le_length)
    qed
  qed
qed

lemma fold_upd_forward:
  assumes "\<And>k d. k < n \<Longrightarrow> (\<And>l. k \<le> l \<Longrightarrow> d ! l = dst ! l) \<Longrightarrow> g k d = f k"
    and "n \<le> length dst"
  shows "fold (\<lambda>k d. d[k := g k d]) [0..<n] dst = upd_words n f dst"
  using assms
proof (induction n)
  case (Suc n)
  then have "fold (\<lambda>k d. d[k := g k d]) [0..<n] dst = upd_words n f dst" by simp
  moreover have "g n (upd_words n f dst) = f n" using Suc.prems by (auto simp: nth_upd_words)
  ultimately show ?case by (simp add: upd_words_def)
qed (simp add: upd_words_def)

lemma fold_upd_range:
  assumes "b \<le> length d" and "a \<le> b"
  shows "length (fold (\<lambda>k d. d[k := f k]) [a..<b] d) = length d"
    and "fold (\<lambda>k d. d[k := f k]) [a..<b] d ! k = (if a \<le> k \<and> k < b then f k else d ! k)"
proof -
  have "length (fold (\<lambda>k d. d[k := f k]) [a..<b] d) = length d \<and>
    (\<forall>k. fold (\<lambda>k d. d[k := f k]) [a..<b] d ! k = (if a \<le> k \<and> k < b then f k else d ! k))"
    using assms(2,1) by (induction b rule: dec_induct) (auto simp: nth_list_update)
  then show "length (fold (\<lambda>k d. d[k := f k]) [a..<b] d) = length d"
    and "fold (\<lambda>k d. d[k := f k]) [a..<b] d ! k = (if a \<le> k \<and> k < b then f k else d ! k)"
    by auto
qed

lemmas fold_zero_range = fold_upd_range [where f = "\<lambda>_. 0"]

text \<open>
  With \<open>in_place\<close> the word written at \<open>k\<close> is never read again, so the loop may shift in place.
\<close>

lemma raw_bitmap_shift_right_words:
  assumes "BITS_TO_LONGS n \<le> length dst" and "shift div 64 \<le> BITS_TO_LONGS n" and "in_place \<Longrightarrow> dst = src"
  shows "raw_bitmap_shift_right in_place dst src shift n
    = upd_words (BITS_TO_LONGS n) (\<lambda>k. if shift div 64 + k < BITS_TO_LONGS n then shr_word src shift n k else 0) dst"
    (is "_ = upd_words ?lim ?f dst")
proof -
  let ?off = "shift div 64"
  define g where "g k d = (let s = (if in_place then d else src) in shr_word s shift n k)" for k d
  have loop: "fold (\<lambda>k d. d[k := g k d]) [0..<?lim - ?off] dst = upd_words (?lim - ?off) (shr_word src shift n) dst"
    by (rule fold_upd_forward) (use assms in \<open>auto simp: g_def shr_word_def masked_def\<close>)
  have body: "raw_bitmap_shift_right in_place dst src shift n =
    (let d = fold (\<lambda>k d. d[k := g k d]) [0..<?lim - ?off] dst
     in if ?off \<noteq> 0 then fold (\<lambda>k d. d[k := 0]) [?lim - ?off..<?lim] d else d)"
    unfolding raw_bitmap_shift_right_def g_def shr_word_def masked_def Let_def
    by (simp cong: if_cong)
  show ?thesis
  proof (rule nth_equalityI)
    show "length (raw_bitmap_shift_right in_place dst src shift n) = length (upd_words ?lim ?f dst)"
      unfolding body loop Let_def using assms by (simp add: fold_zero_range)
    fix k
    show "raw_bitmap_shift_right in_place dst src shift n ! k = upd_words ?lim ?f dst ! k"
      unfolding body loop Let_def using assms by (auto simp: fold_zero_range nth_upd_words)
  qed
qed

lemma raw_bitmap_shift_right_bits:
  assumes "BITS_TO_LONGS n \<le> length dst" and "shift div 64 \<le> BITS_TO_LONGS n" and "in_place \<Longrightarrow> dst = src"
    and "i < 64 * BITS_TO_LONGS n"
  shows "bm_test (raw_bitmap_shift_right in_place dst src shift n) i \<longleftrightarrow> i + shift < n \<and> bm_test src (i + shift)"
proof -
  have i: "64 * (i div 64) + i mod 64 = i" by simp
  have "\<not> i + shift < n" if "\<not> shift div 64 + i div 64 < BITS_TO_LONGS n"
  proof
    assume "i + shift < n"
    then have "(i + shift) div 64 < BITS_TO_LONGS n" by (rule div_less_BITS_TO_LONGS)
    moreover have "i div 64 + shift div 64 \<le> (i + shift) div 64" using div_add1_eq [of i shift 64] by linarith
    ultimately show False using that by simp
  qed
  then show ?thesis
    using assms bit_shr_word [of shift "i div 64" n "i mod 64" src]
    by (auto simp: raw_bitmap_shift_right_words bm_test_upd_words i)
qed

lemma fold_upd_backward:
  assumes "\<And>k d. k < n \<Longrightarrow> (\<And>l. l \<le> k \<Longrightarrow> d ! l = src ! l) \<Longrightarrow> g k d = f k"
    and "n + off \<le> length dst" and "\<And>l. l < n \<Longrightarrow> inp \<Longrightarrow> dst ! l = src ! l"
    and "\<not> inp \<Longrightarrow> (\<And>k d. k < n \<Longrightarrow> g k d = f k)"
  shows "length (fold (\<lambda>k d. d[k + off := g k d]) (rev [0..<n]) dst) = length dst"
    and "fold (\<lambda>k d. d[k + off := g k d]) (rev [0..<n]) dst ! t
      = (if off \<le> t \<and> t < n + off then f (t - off) else dst ! t)"
  using assms
proof (induction n arbitrary: dst)
  case (Suc n)
  { case 1 then show ?case using Suc(1) [of "dst[n + off := g n dst]"] by simp }
  { case 2
    have "g n dst = f n" using 2(1,3,4) by (cases inp) auto
    then show ?case using Suc(2) [of "dst[n + off := g n dst]"] 2 by (auto simp: nth_list_update) }
qed auto

definition shl_word :: "ulong list \<Rightarrow> nat \<Rightarrow> nat \<Rightarrow> ulong" where
  "shl_word s shift k =
     (if shift mod 64 \<noteq> 0 \<and> k > 0 then drop_bit (64 - shift mod 64) (s ! (k - 1)) else 0)
     OR push_bit (shift mod 64) (s ! k)"

lemma raw_bitmap_shift_left_words:
  assumes "BITS_TO_LONGS n \<le> length dst" and "shift div 64 \<le> BITS_TO_LONGS n" and "in_place \<Longrightarrow> dst = src"
  shows "raw_bitmap_shift_left in_place dst src shift n
    = upd_words (BITS_TO_LONGS n) (\<lambda>k. if shift div 64 \<le> k then shl_word src shift (k - shift div 64) else 0) dst"
    (is "_ = upd_words ?lim ?f dst")
proof -
  let ?off = "shift div 64"
  define g where "g k d = shl_word (if in_place then d else src) shift k" for k d
  define D where "D = fold (\<lambda>k d. d[k + ?off := g k d]) (rev [0..<?lim - ?off]) dst"
  have body: "raw_bitmap_shift_left in_place dst src shift n
    = (if ?off \<noteq> 0 then fold (\<lambda>k d. d[k := 0]) [0..<?off] D else D)"
    unfolding raw_bitmap_shift_left_def D_def g_def shl_word_def Let_def by (simp cong: if_cong)
  have loop: "length D = length dst"
    "D ! t = (if ?off \<le> t \<and> t < ?lim - ?off + ?off then shl_word src shift (t - ?off) else dst ! t)" for t
    unfolding D_def
    by (rule fold_upd_backward [where src = src and inp = in_place]; use assms in \<open>auto simp: g_def shl_word_def\<close>)+
  show ?thesis
  proof (rule nth_equalityI)
    show "length (raw_bitmap_shift_left in_place dst src shift n) = length (upd_words ?lim ?f dst)"
      unfolding body using assms by (simp add: fold_zero_range loop)
    fix k
    show "raw_bitmap_shift_left in_place dst src shift n ! k = upd_words ?lim ?f dst ! k"
      unfolding body using assms by (auto simp: fold_zero_range nth_upd_words loop)
  qed
qed

lemma bit_shl_word:
  assumes "j < 64"
  shows "bit (shl_word s shift k) j \<longleftrightarrow> shift mod 64 \<le> 64 * k + j \<and> bm_test s (64 * k + j - shift mod 64)"
proof (cases "shift mod 64 \<le> j")
  case True
  then have "64 * k + j - shift mod 64 = 64 * k + (j - shift mod 64)" by simp
  moreover have "j - shift mod 64 < 64" using assms by (rule less_imp_diff_less)
  ultimately have "(64 * k + j - shift mod 64) div 64 = k" "(64 * k + j - shift mod 64) mod 64 = j - shift mod 64"
    by (simp_all only: div_mod_64_unique)
  moreover have "\<not> bit (s ! (k - 1)) (64 - shift mod 64 + j)" using True
    by (auto dest!: bit_imp_le_length)
  ultimately show ?thesis using True assms
    by (auto simp: shl_word_def bm_test_def bit_or_iff bit_drop_bit_eq bit_push_bit_iff)
next
  case False
  show ?thesis
  proof (cases k)
    case 0
    then show ?thesis using False by (simp add: shl_word_def bit_push_bit_iff)
  next
    case (Suc l)
    let ?r = "64 - shift mod 64 + j"
    have r: "?r < 64" using False by simp
    have "64 * k + j - shift mod 64 = 64 * l + ?r" using Suc False by simp
    then have "(64 * k + j - shift mod 64) div 64 = l" "(64 * k + j - shift mod 64) mod 64 = ?r"
      by (simp_all only: div_mod_64_unique [OF r])
    moreover have "shift mod 64 \<le> 64 * k + j" using Suc by (simp add: le_SucI trans_le_add1 less_imp_le_nat)
    ultimately show ?thesis using False Suc
      by (auto simp: shl_word_def bm_test_def bit_or_iff bit_drop_bit_eq bit_push_bit_iff)
  qed
qed

lemma raw_bitmap_shift_left_bits:
  assumes "BITS_TO_LONGS n \<le> length dst" and "shift div 64 \<le> BITS_TO_LONGS n" and "in_place \<Longrightarrow> dst = src"
    and "i < 64 * BITS_TO_LONGS n"
  shows "bm_test (raw_bitmap_shift_left in_place dst src shift n) i \<longleftrightarrow> shift \<le> i \<and> bm_test src (i - shift)"
proof (cases "shift div 64 \<le> i div 64")
  case True
  have "64 * (i div 64 - shift div 64) + i mod 64 + 64 * (shift div 64) = i"
    using True by (simp add: diff_mult_distrib2)
  then have "shift mod 64 \<le> 64 * (i div 64 - shift div 64) + i mod 64 \<longleftrightarrow> shift \<le> i"
    "64 * (i div 64 - shift div 64) + i mod 64 - shift mod 64 = i - shift"
    using div_mult_mod_eq [of shift 64] by linarith+
  then show ?thesis
    using assms True bit_shl_word [of "i mod 64" src shift "i div 64 - shift div 64"]
    by (simp add: raw_bitmap_shift_left_words bm_test_upd_words)
next
  case False
  then have "\<not> shift \<le> i" by (meson div_le_mono)
  then show ?thesis using assms False by (simp add: raw_bitmap_shift_left_words bm_test_upd_words)
qed

end
