(* ===== verification/Find_Bit.thy ===== *)
theory Find_Bit
  imports Bitmap
begin

text \<open>
  The bit searches of \<open>Algorithem/bitmap/Basic/bitmap.c\<close> and the iteration macros of
  \<open>bitmap.h\<close>. What a search promises is the locale \<open>bit_search\<close>: its result is the first
  position with the property, or the size. The iteration macros and the search for a zero area
  are verified once from that contract.
\<close>

unbundle bit_operations_syntax

section \<open>Definitions\<close>

text \<open>\<open>round_down(x, y)\<close> is \<open>x & ~(y - 1)\<close> and \<open>__ALIGN_MASK(x, m)\<close> is \<open>(x + m) & ~m\<close>, whose sum
  wraps around at 64 bits, as do the sums and differences of the search for a zero area.\<close>

definition round_down :: "nat \<Rightarrow> nat \<Rightarrow> nat" where
  "round_down x y = nat (int x AND NOT (int y - 1))"

definition raw_ALIGN_MASK :: "nat \<Rightarrow> nat \<Rightarrow> nat" where
  "raw_ALIGN_MASK x m = nat (((int x + int m) mod 2 ^ 64) AND NOT (int m))"

definition ulong_add :: "nat \<Rightarrow> nat \<Rightarrow> nat" where
  "ulong_add x y = (x + y) mod 2 ^ 64"

definition ulong_sub :: "nat \<Rightarrow> nat \<Rightarrow> nat" where
  "ulong_sub x y = (x + (2 ^ 64 - y)) mod 2 ^ 64"

definition fetch_word :: "ulong list \<Rightarrow> ulong list option \<Rightarrow> ulong \<Rightarrow> nat \<Rightarrow> ulong" where
  "fetch_word addr1 addr2 invert start =
     (let tmp = addr1 ! (start div BITS_PER_LONG);
          tmp = (case addr2 of None \<Rightarrow> tmp | Some addr2 \<Rightarrow> tmp AND addr2 ! (start div BITS_PER_LONG))
      in tmp XOR invert)"

function find_next_bit_loop ::
  "ulong list \<Rightarrow> ulong list option \<Rightarrow> nat \<Rightarrow> ulong \<Rightarrow> nat \<Rightarrow> ulong \<Rightarrow> nat" where
  "find_next_bit_loop addr1 addr2 nbits invert start tmp =
     (if tmp = 0 then
        (let start = start + BITS_PER_LONG in
         if start \<ge> nbits then nbits
         else find_next_bit_loop addr1 addr2 nbits invert start (fetch_word addr1 addr2 invert start))
      else min (start + raw_ffs tmp) nbits)"
  by pat_completeness auto
termination
  by (relation "measure (\<lambda>(addr1, addr2, nbits, invert, start, tmp). nbits - start)") auto

declare find_next_bit_loop.simps [simp del]

definition raw_find_next_bit ::
  "ulong list \<Rightarrow> ulong list option \<Rightarrow> nat \<Rightarrow> nat \<Rightarrow> ulong \<Rightarrow> nat" where
  "raw_find_next_bit addr1 addr2 nbits start invert =
     (if start \<ge> nbits then nbits
      else
        let tmp = fetch_word addr1 addr2 invert start;
            tmp = tmp AND BITMAP_FIRST_WORD_MASK start;
            start = round_down start BITS_PER_LONG
        in find_next_bit_loop addr1 addr2 nbits invert start tmp)"

definition find_next_zero_bit :: "ulong list \<Rightarrow> nat \<Rightarrow> nat \<Rightarrow> nat" where
  "find_next_zero_bit addr sz offset = raw_find_next_bit addr None sz offset (NOT 0)"

definition find_next_bit :: "ulong list \<Rightarrow> nat \<Rightarrow> nat \<Rightarrow> nat" where
  "find_next_bit addr sz offset = raw_find_next_bit addr None sz offset 0"

definition find_next_and_bit :: "ulong list \<Rightarrow> ulong list \<Rightarrow> nat \<Rightarrow> nat \<Rightarrow> nat" where
  "find_next_and_bit addr1 addr2 sz offset = raw_find_next_bit addr1 (Some addr2) sz offset 0"

function find_first_bit_loop :: "ulong list \<Rightarrow> nat \<Rightarrow> nat \<Rightarrow> nat" where
  "find_first_bit_loop addr sz idx =
     (if idx * BITS_PER_LONG < sz then
        if addr ! idx \<noteq> 0 then min (idx * BITS_PER_LONG + raw_ffs (addr ! idx)) sz
        else find_first_bit_loop addr sz (idx + 1)
      else sz)"
  by pat_completeness auto
termination
  by (relation "measure (\<lambda>(addr, sz, idx). sz - idx)") auto

definition find_first_bit :: "ulong list \<Rightarrow> nat \<Rightarrow> nat" where
  "find_first_bit addr sz = find_first_bit_loop addr sz 0"

function find_first_zero_bit_loop :: "ulong list \<Rightarrow> nat \<Rightarrow> nat \<Rightarrow> nat" where
  "find_first_zero_bit_loop addr sz idx =
     (if idx * BITS_PER_LONG < sz then
        if addr ! idx \<noteq> NOT 0 then min (idx * BITS_PER_LONG + ffz (addr ! idx)) sz
        else find_first_zero_bit_loop addr sz (idx + 1)
      else sz)"
  by pat_completeness auto
termination
  by (relation "measure (\<lambda>(addr, sz, idx). sz - idx)") auto

definition find_first_zero_bit :: "ulong list \<Rightarrow> nat \<Rightarrow> nat" where
  "find_first_zero_bit addr sz = find_first_zero_bit_loop addr sz 0"

declare find_first_bit_loop.simps [simp del] find_first_zero_bit_loop.simps [simp del]

text \<open>The \<open>do ... while (idx--)\<close> loop leaves after the round with \<open>idx = 0\<close>.\<close>

fun find_last_bit_loop :: "ulong list \<Rightarrow> nat \<Rightarrow> nat \<Rightarrow> ulong \<Rightarrow> nat" where
  "find_last_bit_loop addr sz idx val =
     (let val = val AND addr ! idx in
      if val \<noteq> 0 then idx * BITS_PER_LONG + raw_fls val
      else case idx of 0 \<Rightarrow> sz | Suc idx' \<Rightarrow> find_last_bit_loop addr sz idx' (NOT 0))"

declare find_last_bit_loop.simps [simp del]

definition find_last_bit :: "ulong list \<Rightarrow> nat \<Rightarrow> nat" where
  "find_last_bit addr sz =
     (if sz \<noteq> 0 then
        find_last_bit_loop addr sz ((sz - 1) div BITS_PER_LONG) (BITMAP_LAST_WORD_MASK sz)
      else sz)"

text \<open>
  \<open>for (bit = first; bit < size; bit = next(bit + 1))\<close>, collecting the bits the body sees.
  The fuel bounds the number of rounds; \<open>None\<close> says it did not suffice.
\<close>

fun for_each_loop :: "nat \<Rightarrow> (nat \<Rightarrow> nat) \<Rightarrow> nat \<Rightarrow> nat \<Rightarrow> nat list option" where
  "for_each_loop 0 next_bit sz b = None"
| "for_each_loop (Suc fuel) next_bit sz b =
     (if b < sz then map_option ((#) b) (for_each_loop fuel next_bit sz (next_bit (b + 1))) else Some [])"

definition for_each_set_bit :: "nat \<Rightarrow> ulong list \<Rightarrow> nat \<Rightarrow> nat list option" where
  "for_each_set_bit fuel addr sz = for_each_loop fuel (find_next_bit addr sz) sz (find_first_bit addr sz)"

definition for_each_set_bit_from :: "nat \<Rightarrow> ulong list \<Rightarrow> nat \<Rightarrow> nat \<Rightarrow> nat list option" where
  "for_each_set_bit_from fuel addr sz b = for_each_loop fuel (find_next_bit addr sz) sz (find_next_bit addr sz b)"

definition for_each_clear_bit :: "nat \<Rightarrow> ulong list \<Rightarrow> nat \<Rightarrow> nat list option" where
  "for_each_clear_bit fuel addr sz =
     for_each_loop fuel (find_next_zero_bit addr sz) sz (find_first_zero_bit addr sz)"

definition for_each_clear_bit_from :: "nat \<Rightarrow> ulong list \<Rightarrow> nat \<Rightarrow> nat \<Rightarrow> nat list option" where
  "for_each_clear_bit_from fuel addr sz b =
     for_each_loop fuel (find_next_zero_bit addr sz) sz (find_next_zero_bit addr sz b)"

section \<open>The contract of a search\<close>

definition first_match :: "(nat \<Rightarrow> bool) \<Rightarrow> nat \<Rightarrow> nat \<Rightarrow> nat \<Rightarrow> bool" where
  "first_match P sz offset r \<longleftrightarrow>
     r \<le> sz \<and> (r < sz \<longrightarrow> offset \<le> r \<and> P r) \<and> (\<forall>i. offset \<le> i \<longrightarrow> i < r \<longrightarrow> \<not> P i)"

locale bit_search =
  fixes find_next :: "nat \<Rightarrow> nat \<Rightarrow> nat" and P :: "nat \<Rightarrow> bool"
  assumes first: "first_match P sz offset (find_next sz offset)"
begin

lemma for_each_filter:
  assumes "sz - b < fuel" and "first_match P sz b r"
  shows "for_each_loop fuel (find_next sz) sz r = Some (filter P [b..<sz])"
  using assms
proof (induction fuel arbitrary: b r)
  case (Suc fuel)
  show ?case
  proof (cases "r < sz")
    case True
    then have r: "b \<le> r" "P r" "\<forall>i. b \<le> i \<longrightarrow> i < r \<longrightarrow> \<not> P i"
      using Suc.prems(2) by (auto simp: first_match_def)
    have "[b..<sz] = [b..<r] @ r # [r + 1..<sz]" using True r(1) upt_conv_Cons upt_add_eq_append [of b r "sz - r"] by simp
    moreover have "filter P [b..<r] = []" using r(3) by (auto simp: filter_empty_conv)
    moreover have "for_each_loop fuel (find_next sz) sz (find_next sz (r + 1)) = Some (filter P [r + 1..<sz])"
      by (rule Suc.IH) (use Suc.prems(1) True r(1) first in auto)
    ultimately show ?thesis using True r(2) by simp
  next
    case False
    then have "filter P [b..<sz] = []" using Suc.prems(2) by (auto simp: filter_empty_conv first_match_def)
    then show ?thesis using False by simp
  qed
qed simp

end

section \<open>Forward searches\<close>

lemma int_and_not_mask: "int x AND NOT (mask k) = int (x div 2 ^ k * 2 ^ k)"
proof -
  have "int x AND NOT (mask k) = push_bit k (drop_bit k (int x))"
    by (rule bit_eqI) (auto simp: bit_simps)
  then show ?thesis by (simp add: push_bit_eq_mult drop_bit_eq_div zdiv_int)
qed

lemma round_down_64: "round_down x 64 = x div 64 * 64"
  using int_and_not_mask [of x 6] by (simp add: round_down_def mask_eq_exp_minus_1)

text \<open>The positions a call of \<open>_find_next_bit\<close> looks for.\<close>

definition wanted :: "ulong list \<Rightarrow> ulong list option \<Rightarrow> ulong \<Rightarrow> nat \<Rightarrow> bool" where
  "wanted addr1 addr2 invert i \<longleftrightarrow> bit (fetch_word addr1 addr2 invert i) (i mod 64)"

lemma fetch_word_same: "i div 64 = j div 64 \<Longrightarrow> fetch_word a1 a2 iv i = fetch_word a1 a2 iv j"
  unfolding fetch_word_def by (simp only:)

text \<open>
  Loop invariant: \<open>start\<close> is a word boundary and \<open>tmp\<close> holds the wanted positions of that word
  that are not below \<open>offset\<close>, and none lies between \<open>offset\<close> and \<open>start\<close>.
\<close>

lemma find_next_bit_loop_first:
  assumes "start mod 64 = 0" and "start < nbits" and "offset < start + 64"
    and "\<And>j. j < 64 \<Longrightarrow> bit tmp j \<longleftrightarrow> offset \<le> start + j \<and> wanted a1 a2 iv (start + j)"
    and "\<And>i. offset \<le> i \<Longrightarrow> i < start \<Longrightarrow> \<not> wanted a1 a2 iv i"
  shows "first_match (wanted a1 a2 iv) nbits offset (find_next_bit_loop a1 a2 nbits iv start tmp)"
  using assms
proof (induction a1 a2 nbits iv start tmp rule: find_next_bit_loop.induct)
  case (1 a1 a2 nbits iv start tmp)
  show ?case
  proof (cases "tmp = 0")
    case False
    note f = raw_ffs_nonzero [OF False]
    have hit: "offset \<le> start + raw_ffs tmp" "wanted a1 a2 iv (start + raw_ffs tmp)" using f 1(5) by auto
    have below: "\<not> wanted a1 a2 iv i" if "offset \<le> i" "i < start + raw_ffs tmp" for i
    proof (cases "i < start")
      case False
      then have "\<not> bit tmp (i - start)" using f(2) that by simp
      then show ?thesis using 1(5) [of "i - start"] False that f(3) by auto
    qed (use 1(6) that in auto)
    show ?thesis
      by (subst find_next_bit_loop.simps) (use False hit below in \<open>auto simp: first_match_def min_def\<close>)
  next
    case True
    have none: "\<not> wanted a1 a2 iv i" if "offset \<le> i" "i < start + 64" for i
      using 1(5) [of "i - start"] 1(6) [of i] that True by (cases "i < start") auto
    show ?thesis
    proof (cases "start + 64 \<ge> nbits")
      case T: True
      then show ?thesis
        by (subst find_next_bit_loop.simps) (use none True in \<open>auto simp: first_match_def\<close>)
    next
      case F: False
      have "first_match (wanted a1 a2 iv) nbits offset
        (find_next_bit_loop a1 a2 nbits iv (start + 64) (fetch_word a1 a2 iv (start + 64)))"
      proof (rule 1(1) [OF True refl F])
        fix j :: nat assume "j < 64"
        moreover from this have "(start + 64 + j) div 64 = (start + 64) div 64" "(start + 64 + j) mod 64 = j"
          using 1(2) div_mod_64_unique [of j "start + 64 + j" "start div 64 + 1"] by auto
        ultimately show "bit (fetch_word a1 a2 iv (start + 64)) j \<longleftrightarrow>
          offset \<le> start + 64 + j \<and> wanted a1 a2 iv (start + 64 + j)"
          using 1(4) fetch_word_same [of "start + 64 + j" "start + 64" a1 a2 iv] by (simp add: wanted_def)
      qed (use 1 F none in auto)
      then show ?thesis by (subst find_next_bit_loop.simps) (use True F in \<open>simp add: Let_def\<close>)
    qed
  qed
qed

lemma raw_find_next_bit_first:
  "first_match (wanted a1 a2 iv) nbits start (raw_find_next_bit a1 a2 nbits start iv)"
proof (cases "start \<ge> nbits")
  case False
  let ?s = "start div 64 * 64"
  have s: "start = ?s + start mod 64" "start mod 64 < 64" by simp_all
  have "first_match (wanted a1 a2 iv) nbits start
    (find_next_bit_loop a1 a2 nbits iv ?s (fetch_word a1 a2 iv start AND BITMAP_FIRST_WORD_MASK start))"
  proof (rule find_next_bit_loop_first)
    fix j :: nat assume j: "j < 64"
    then have "fetch_word a1 a2 iv (?s + j) = fetch_word a1 a2 iv start" by (intro fetch_word_same) simp
    moreover have "start mod 64 \<le> j \<longleftrightarrow> start \<le> ?s + j" using s by linarith
    ultimately show "bit (fetch_word a1 a2 iv start AND BITMAP_FIRST_WORD_MASK start) j \<longleftrightarrow>
      start \<le> ?s + j \<and> wanted a1 a2 iv (?s + j)"
      using j by (auto simp: bit_and_iff bit_FIRST_WORD_MASK wanted_def)
  next
    show "?s < nbits" using s(1) False by linarith
    show "start < ?s + 64" using s by linarith
    show "\<not> wanted a1 a2 iv i" if "start \<le> i" "i < ?s" for i using that s(1) by linarith
  qed simp
  then show ?thesis using False by (simp add: raw_find_next_bit_def round_down_64 Let_def)
qed (simp add: raw_find_next_bit_def first_match_def)

lemma wanted_set: "wanted addr None 0 = bm_test addr"
  by (rule ext) (simp add: wanted_def fetch_word_def bm_test_def)

lemma wanted_clear: "wanted addr None (NOT 0) = (\<lambda>i. \<not> bm_test addr i)"
  by (rule ext) (simp add: wanted_def fetch_word_def bm_test_def bit_simps)

lemma wanted_and: "wanted a1 (Some a2) 0 = (\<lambda>i. bm_test a1 i \<and> bm_test a2 i)"
  by (rule ext) (simp add: wanted_def fetch_word_def bm_test_def bit_simps)

interpretation set_bits: bit_search "find_next_bit addr" "bm_test addr" for addr
  by unfold_locales (simp add: find_next_bit_def raw_find_next_bit_first flip: wanted_set)

interpretation clear_bits: bit_search "find_next_zero_bit addr" "\<lambda>i. \<not> bm_test addr i" for addr
  by unfold_locales (simp add: find_next_zero_bit_def raw_find_next_bit_first flip: wanted_clear)

interpretation and_bits: bit_search "find_next_and_bit a1 a2" "\<lambda>i. bm_test a1 i \<and> bm_test a2 i" for a1 a2
  by unfold_locales (simp add: find_next_and_bit_def raw_find_next_bit_first flip: wanted_and)

section \<open>Searches from the first and the last word\<close>

lemma find_first_bit_loop_first:
  "(\<And>i. i < 64 * idx \<Longrightarrow> \<not> bm_test addr i) \<Longrightarrow> first_match (bm_test addr) sz 0 (find_first_bit_loop addr sz idx)"
proof (induction addr sz idx rule: find_first_bit_loop.induct)
  case (1 addr sz idx)
  show ?case
  proof (cases "idx * 64 < sz \<and> addr ! idx = 0")
    case True
    have "\<not> bm_test addr i" if "i < 64 * (idx + 1)" for i
    proof (cases "i < 64 * idx")
      case False
      then have "i div 64 = idx" using that div_mod_64_unique [of "i - 64 * idx" i idx] by auto
      then show ?thesis using True by (simp add: bm_test_def)
    qed (use 1(2) in auto)
    then have "first_match (bm_test addr) sz 0 (find_first_bit_loop addr sz (idx + 1))" using 1(1) True by auto
    then show ?thesis by (subst find_first_bit_loop.simps) (use True in simp)
  next
    case False
    show ?thesis
    proof (cases "idx * 64 < sz")
      case True
      then have nz: "addr ! idx \<noteq> 0" using False by simp
      note f = raw_ffs_nonzero [OF nz]
      have at: "bm_test addr (idx * 64 + j) \<longleftrightarrow> bit (addr ! idx) j" if "j < 64" for j
        using div_mod_64_unique [of j "idx * 64 + j" idx] that by (simp add: bm_test_def)
      have "\<not> bm_test addr i" if "i < idx * 64 + raw_ffs (addr ! idx)" for i
        using 1(2) [of i] at [of "i - idx * 64"] f(2) [of "i - idx * 64"] f(3) that by (cases "i < 64 * idx") auto
      then show ?thesis
        by (subst find_first_bit_loop.simps) (use True nz f at in \<open>auto simp: first_match_def min_def\<close>)
    next
      case F: False
      then show ?thesis
        by (subst find_first_bit_loop.simps) (use 1(2) in \<open>auto simp: first_match_def\<close>)
    qed
  qed
qed

lemma find_first_bit_first: "first_match (bm_test addr) sz 0 (find_first_bit addr sz)"
  unfolding find_first_bit_def by (rule find_first_bit_loop_first) simp

text \<open>The search for a zero bit is the search for a set bit in the complement.\<close>

lemma find_first_zero_bit_loop_NOT:
  "sz \<le> 64 * length addr \<Longrightarrow> find_first_zero_bit_loop addr sz idx = find_first_bit_loop (map NOT addr) sz idx"
proof (induction addr sz idx rule: find_first_zero_bit_loop.induct)
  case (1 addr sz idx)
  have "NOT (addr ! idx) \<noteq> 0 \<longleftrightarrow> addr ! idx \<noteq> NOT 0" by (metis bit.double_compl)
  then show ?case using 1
    by (subst find_first_zero_bit_loop.simps, subst find_first_bit_loop.simps) (auto simp: ffz_def)
qed

lemma find_first_zero_bit_first:
  assumes "sz \<le> 64 * length addr"
  shows "first_match (\<lambda>i. \<not> bm_test addr i) sz 0 (find_first_zero_bit addr sz)"
proof -
  have "first_match (bm_test (map NOT addr)) sz 0 (find_first_bit (map NOT addr) sz)" by (rule find_first_bit_first)
  moreover have "bm_test (map NOT addr) i \<longleftrightarrow> \<not> bm_test addr i" if "i < sz" for i
    using assms that by (simp add: bm_test_map_NOT)
  ultimately have "first_match (\<lambda>i. \<not> bm_test addr i) sz 0 (find_first_bit (map NOT addr) sz)"
    unfolding first_match_def by (meson less_le_trans)
  then show ?thesis using assms
    by (simp add: find_first_bit_def find_first_zero_bit_def find_first_zero_bit_loop_NOT)
qed

lemma find_last_bit_loop_last:
  assumes "\<And>i. idx * 64 \<le> i \<Longrightarrow> i < sz \<Longrightarrow> bm_test addr i \<longleftrightarrow> i < idx * 64 + 64 \<and> bit (val AND addr ! idx) (i mod 64)"
    and "\<And>j. bit (val AND addr ! idx) j \<Longrightarrow> idx * 64 + j < sz" and "idx * 64 < sz"
  defines "r \<equiv> find_last_bit_loop addr sz idx val"
  shows "r = sz \<and> (\<forall>i < sz. \<not> bm_test addr i) \<or> r < sz \<and> bm_test addr r \<and> (\<forall>i. r < i \<longrightarrow> i < sz \<longrightarrow> \<not> bm_test addr i)"
  using assms(1-3) unfolding r_def
proof (induction idx arbitrary: val)
  case 0
  show ?case
  proof (cases "val AND addr ! 0 = 0")
    case True
    then show ?thesis using 0(1) by (subst (1) find_last_bit_loop.simps) auto
  next
    case False
    note f = raw_fls_nonzero [OF False]
    have "find_last_bit_loop addr sz 0 val = raw_fls (val AND addr ! 0)" (is "_ = ?r")
      by (subst find_last_bit_loop.simps) (use False in \<open>simp add: Let_def\<close>)
    moreover have "?r < sz" "?r < 64" using 0(2) f by auto
    moreover have "\<not> bm_test addr i" if "?r < i" "i < sz" for i
      using 0(1) [of i] f(2) [of i] that by auto
    moreover have "bm_test addr ?r" using 0(1) [of ?r] f calculation(2) by auto
    ultimately show ?thesis by simp
  qed
next
  case (Suc idx)
  let ?b = "Suc idx * 64"
  show ?case
  proof (cases "val AND addr ! Suc idx = 0")
    case True
    then have none: "\<not> bm_test addr i" if "?b \<le> i" "i < sz" for i using Suc(2) that by auto
    have eq: "find_last_bit_loop addr sz (Suc idx) val = find_last_bit_loop addr sz idx (NOT 0)"
      by (subst find_last_bit_loop.simps) (use True in \<open>simp add: Let_def\<close>)
    show ?thesis unfolding eq
    proof (rule Suc.IH)
      fix i assume i: "idx * 64 \<le> i" "i < sz"
      have "i div 64 = idx" if "i < ?b" using i(1) that div_mod_64_unique [of "i - idx * 64" i idx] by auto
      then show "bm_test addr i \<longleftrightarrow> i < idx * 64 + 64 \<and> bit (NOT 0 AND addr ! idx) (i mod 64)"
        using i none [of i] by (cases "i < ?b") (auto simp: bm_test_def)
    next
      fix j assume "bit (NOT 0 AND addr ! idx) j"
      then have "j < 64" by (auto dest: bit_imp_le_length)
      then show "idx * 64 + j < sz" using Suc.prems(3) by simp
    qed (use Suc.prems in simp)
  next
    case False
    note f = raw_fls_nonzero [OF False]
    have eq: "find_last_bit_loop addr sz (Suc idx) val = ?b + raw_fls (val AND addr ! Suc idx)" (is "_ = ?b + ?r")
      by (subst find_last_bit_loop.simps) (use False in \<open>simp add: Let_def\<close>)
    have lt: "?b + ?r < sz" using Suc.prems(2) f(1) .
    moreover have m: "(?b + j) mod 64 = j" if "j < 64" for j
      using that div_mod_64_unique(2) [of j "?b + j" "Suc idx"] by simp
    moreover have "bm_test addr (?b + ?r)" using Suc.prems(1) [of "?b + ?r"] f lt m [of ?r] by simp
    moreover have "\<not> bm_test addr i" if "?b + ?r < i" "i < sz" for i
    proof
      assume "bm_test addr i"
      then have b: "i < ?b + 64" "bit (val AND addr ! Suc idx) (i mod 64)" using Suc.prems(1) [of i] that by auto
      then have "i mod 64 = i - ?b" using m [of "i - ?b"] that by simp
      moreover have "?r < i - ?b" using that(1) by linarith
      ultimately show False using b(2) f(2) [of "i - ?b"] by simp
    qed
    ultimately show ?thesis unfolding eq by blast
  qed
qed

lemma find_last_bit_last:
  defines "r \<equiv> \<lambda>addr sz. find_last_bit addr sz"
  shows "r addr sz = sz \<and> (\<forall>i < sz. \<not> bm_test addr i) \<or>
    r addr sz < sz \<and> bm_test addr (r addr sz) \<and> (\<forall>i. r addr sz < i \<longrightarrow> i < sz \<longrightarrow> \<not> bm_test addr i)"
proof (cases sz)
  case (Suc n)
  have last: "i < sz \<longleftrightarrow> bit (BITMAP_LAST_WORD_MASK sz) (i mod 64)" if "i div 64 = n div 64" for i
  proof (cases "sz mod 64 = 0")
    case True
    then have "n mod 64 = 63" "n div 64 * 64 + n mod 64 = n" using Suc by (auto simp: mod_Suc split: if_splits)
    then have "i < sz" using Suc that mod_less_divisor [of 64 i] div_mult_mod_eq [of i 64] by linarith
    then show ?thesis using True by (simp add: bit_LAST_WORD_MASK)
  next
    case False
    then have "sz div 64 = n div 64" using Suc by (simp add: div_Suc split: if_splits)
    then show ?thesis using False that less_iff_div_mod_64 [of i sz] by (simp add: bit_LAST_WORD_MASK)
  qed
  have "find_last_bit addr sz = find_last_bit_loop addr sz (n div 64) (BITMAP_LAST_WORD_MASK sz)"
    using Suc by (simp add: find_last_bit_def)
  moreover have "find_last_bit_loop addr sz (n div 64) (BITMAP_LAST_WORD_MASK sz) = sz \<and> (\<forall>i < sz. \<not> bm_test addr i) \<or>
    find_last_bit_loop addr sz (n div 64) (BITMAP_LAST_WORD_MASK sz) < sz \<and>
    bm_test addr (find_last_bit_loop addr sz (n div 64) (BITMAP_LAST_WORD_MASK sz)) \<and>
    (\<forall>i. find_last_bit_loop addr sz (n div 64) (BITMAP_LAST_WORD_MASK sz) < i \<longrightarrow> i < sz \<longrightarrow> \<not> bm_test addr i)"
  proof (rule find_last_bit_loop_last)
    fix i assume i: "n div 64 * 64 \<le> i" "i < sz"
    then have d: "i div 64 = n div 64" using Suc div_le_mono [of "n div 64 * 64" i 64] div_le_mono [of i n 64] by simp
    then have "i < n div 64 * 64 + 64" using div_mult_mod_eq [of i 64] mod_less_divisor [of 64 i] by linarith
    then show "bm_test addr i \<longleftrightarrow> i < n div 64 * 64 + 64 \<and> bit (BITMAP_LAST_WORD_MASK sz AND addr ! (n div 64)) (i mod 64)"
      using last [OF d] i d by (simp add: bit_and_iff bm_test_def)
  next
    fix j assume j: "bit (BITMAP_LAST_WORD_MASK sz AND addr ! (n div 64)) j"
    then have "j < 64" by (auto dest: bit_imp_le_length)
    then have "(n div 64 * 64 + j) div 64 = n div 64" "(n div 64 * 64 + j) mod 64 = j" by simp_all
    then show "n div 64 * 64 + j < sz" using last [of "n div 64 * 64 + j"] j by (simp add: bit_and_iff)
  qed (use Suc in \<open>simp add: le_imp_less_Suc\<close>)
  ultimately show ?thesis by (simp add: r_def)
qed (simp add: r_def find_last_bit_def)

section \<open>Aligned zero areas\<close>

lemma int_and_not_diff: "(a :: int) AND NOT b = a - (a AND b)"
proof -
  have "a AND NOT b = a AND NOT (a AND b)" by (rule bit_eqI) (auto simp: bit_simps)
  also have "\<dots> = a - (a AND b)"
    by (rule disjunctive_diff_eq_and_not [symmetric]) (rule bit_eqI, simp add: bit_simps)
  finally show ?thesis .
qed

lemma raw_ALIGN_MASK_exact:
  assumes "x + m < 2 ^ 64"
  shows "raw_ALIGN_MASK x m = nat ((int x + int m) AND NOT (int m))"
proof -
  have "int x + int m < 2 ^ 64"
    using assms by (metis of_nat_add of_nat_less_numeral_power_cancel_iff)
  then have "(int x + int m) mod 2 ^ 64 = int x + int m"
    by (intro mod_pos_pos_trivial) simp_all
  then show ?thesis
    by (simp only: raw_ALIGN_MASK_def)
qed

lemma raw_ALIGN_MASK_bounds:
  assumes "x + m < 2 ^ 64"
  shows "x \<le> raw_ALIGN_MASK x m" and "raw_ALIGN_MASK x m \<le> x + m"
proof -
  have "(int x + int m) AND int m \<le> int m" "0 \<le> (int x + int m) AND int m"
    by (rule AND_upper2) simp_all
  then show "x \<le> raw_ALIGN_MASK x m" "raw_ALIGN_MASK x m \<le> x + m"
    unfolding raw_ALIGN_MASK_exact [OF assms] int_and_not_diff by linarith+
qed

text \<open>For a mask \<open>2 ^ k - 1\<close> it is the least multiple of \<open>2 ^ k\<close> not below \<open>x\<close>.\<close>

lemma raw_ALIGN_MASK_multiple:
  assumes "x + (2 ^ k - 1) < 2 ^ 64"
  shows "raw_ALIGN_MASK x (2 ^ k - 1) = (x + 2 ^ k - 1) div 2 ^ k * 2 ^ k"
proof -
  have "(1::nat) \<le> 2 ^ k" by simp
  then have "int x + int (2 ^ k - 1) = int (x + 2 ^ k - 1)" by linarith
  moreover have "int (2 ^ k - 1) = mask k" by (simp add: mask_eq_exp_minus_1 of_nat_diff)
  ultimately show ?thesis unfolding raw_ALIGN_MASK_exact [OF assms] by (simp only: int_and_not_mask nat_int)
qed

lemma raw_ALIGN_MASK_least:
  assumes "x + (2 ^ k - 1) < 2 ^ 64" "x \<le> y" "2 ^ k dvd y"
  shows "raw_ALIGN_MASK x (2 ^ k - 1) \<le> y"
proof -
  obtain q where y: "y = 2 ^ k * q" using assms(3) by (auto elim: dvdE)
  have "(0::nat) < 2 ^ k" by simp
  moreover have "(q + 1) * 2 ^ k = y + 2 ^ k" using y by (simp add: algebra_simps)
  ultimately have "x + 2 ^ k - 1 < (q + 1) * 2 ^ k" using \<open>x \<le> y\<close> by linarith
  then have "(x + 2 ^ k - 1) div 2 ^ k < q + 1" by (rule less_mult_imp_div_less)
  then show ?thesis unfolding raw_ALIGN_MASK_multiple [OF assms(1)] y by (simp add: mult.commute)
qed

text \<open>
  The body of \<open>bitmap_find_next_zero_area_off\<close>; \<open>goto again\<close> is the recursive call. A sum that
  wraps around can send the search back to where it was, for ever; the result is then \<open>None\<close>.
\<close>

partial_function (option) bitmap_find_next_zero_area_off ::
  "ulong list \<Rightarrow> nat \<Rightarrow> nat \<Rightarrow> nat \<Rightarrow> nat \<Rightarrow> nat \<Rightarrow> nat option" where [code]:
  "bitmap_find_next_zero_area_off m sz start nr align_mask align_offset =
     (let index = find_next_zero_bit m sz start;
          index = ulong_sub (raw_ALIGN_MASK (ulong_add index align_offset) align_mask) align_offset;
          fin = ulong_add index nr
      in if fin > sz then Some fin
         else
           let i = find_next_bit m fin index in
           if i < fin then bitmap_find_next_zero_area_off m sz (ulong_add i 1) nr align_mask align_offset
           else Some index)"

definition zero_area :: "ulong list \<Rightarrow> nat \<Rightarrow> nat \<Rightarrow> nat \<Rightarrow> nat \<Rightarrow> nat \<Rightarrow> bool" where
  "zero_area m sz nr k align_offset j \<longleftrightarrow>
     2 ^ k dvd j + align_offset \<and> j + nr \<le> sz \<and> (\<forall>i. j \<le> i \<longrightarrow> i < j + nr \<longrightarrow> \<not> bm_test m i)"

text \<open>What the search returns: the lowest area from \<open>start\<close> on, or a value above the size.\<close>

definition lowest_area :: "ulong list \<Rightarrow> nat \<Rightarrow> nat \<Rightarrow> nat \<Rightarrow> nat \<Rightarrow> nat \<Rightarrow> nat \<Rightarrow> bool" where
  "lowest_area m sz start nr k align_offset r \<longleftrightarrow>
     (if r \<le> sz
      then start \<le> r \<and> zero_area m sz nr k align_offset r \<and>
        (\<forall>j. start \<le> j \<longrightarrow> zero_area m sz nr k align_offset j \<longrightarrow> r \<le> j)
      else \<forall>j. start \<le> j \<longrightarrow> \<not> zero_area m sz nr k align_offset j)"

text \<open>One round, when the sums do not wrap around.\<close>

lemma zero_area_index:
  fixes m :: "ulong list" and start j :: nat
  assumes "sz + ao + 2 ^ k + nr \<le> 2 ^ 64" and "nr > 0"
  defines "index \<equiv> find_next_zero_bit m sz start"
  defines "index' \<equiv> ulong_sub (raw_ALIGN_MASK (ulong_add index ao) (2 ^ k - 1)) ao"
  shows "index \<le> index'" and "ulong_add index' nr = index' + nr" and "2 ^ k dvd index' + ao"
    and "index' + nr \<le> sz \<Longrightarrow> start \<le> index'"
    and "start \<le> j \<Longrightarrow> zero_area m sz nr k ao j \<Longrightarrow> index' \<le> j"
proof -
  note first = clear_bits.first [of m sz start, folded index_def, unfolded first_match_def]
  have "index \<le> sz"
    using first by (auto split: if_splits)
  then have x: "ulong_add index ao = index + ao" and lt: "index + ao + (2 ^ k - 1) < 2 ^ 64"
    unfolding ulong_add_def using assms(1,2) by (auto intro!: mod_less)
  let ?a = "raw_ALIGN_MASK (index + ao) (2 ^ k - 1)"
  note b = raw_ALIGN_MASK_bounds [OF lt]
  have "?a - ao < 2 ^ 64" "?a + (2 ^ 64 - ao) = ?a - ao + 2 ^ 64"
    using b lt assms(1) by linarith+
  then have i': "index' = ?a - ao"
    unfolding index'_def x ulong_sub_def by (simp only: mod_add_self2 mod_less)
  show le: "index \<le> index'"
    using b(1) i' by linarith
  have "index' + nr < 2 ^ 64"
    using one_le_power [of "2 :: nat" k] b(2) i' \<open>index \<le> sz\<close> assms(1) by linarith
  then show "ulong_add index' nr = index' + nr"
    by (simp only: ulong_add_def mod_less)
  have "index' + ao = ?a"
    using b(1) i' by linarith
  then show "2 ^ k dvd index' + ao"
    unfolding raw_ALIGN_MASK_multiple [OF lt] by simp
  show "start \<le> index'" if "index' + nr \<le> sz"
    using first le that assms(2) by (auto split: if_splits)
  show "index' \<le> j" if "start \<le> j" "zero_area m sz nr k ao j"
  proof -
    have "\<not> bm_test m j" "j < sz"
      using that(2) assms(2) by (auto simp: zero_area_def)
    then have "index \<le> j"
      using first that(1) by (auto simp: not_less [symmetric])
    then have "?a \<le> j + ao"
      using that(2) by (intro raw_ALIGN_MASK_least [OF lt]) (auto simp: zero_area_def)
    then show ?thesis
      using i' by linarith
  qed
qed

lemma zero_area_off_least:
  assumes "nr > 0" and "sz + ao + 2 ^ k + nr \<le> 2 ^ 64"
  shows "\<exists>r. bitmap_find_next_zero_area_off m sz start nr (2 ^ k - 1) ao = Some r \<and> lowest_area m sz start nr k ao r"
proof (induction "sz - start" arbitrary: start rule: less_induct)
  case less
  define index where "index = ulong_sub (raw_ALIGN_MASK (ulong_add (find_next_zero_bit m sz start) ao) (2 ^ k - 1)) ao"
  define i where "i = find_next_bit m (index + nr) index"
  note ix = zero_area_index [OF assms(2,1), where m = m and start = start, folded index_def]
  note i = set_bits.first [of m "index + nr" index, folded i_def, unfolded first_match_def]
  note step = bitmap_find_next_zero_area_off.simps [of m sz start nr "2 ^ k - 1" ao,
      unfolded Let_def, folded index_def, unfolded ix(2), folded i_def]
  consider (none) "sz < index + nr" | (retry) "index + nr \<le> sz" "i < index + nr" | (found) "index + nr \<le> sz" "i = index + nr"
    using i by linarith
  then show ?case
  proof cases
    case none
    have "bitmap_find_next_zero_area_off m sz start nr (2 ^ k - 1) ao = Some (index + nr)"
      unfolding step using none by simp
    then show ?thesis
      using none ix(5) by (fastforce simp: lowest_area_def zero_area_def)
  next
    case retry
    have hit: "index \<le> i" "bm_test m i" "start \<le> i" "i < sz"
      using i retry ix(4) by auto
    have up: "ulong_add i 1 = i + 1"
      unfolding ulong_add_def by (rule mod_less) (use hit(4) assms in linarith)
    have past: "i + 1 \<le> j" if "start \<le> j" "zero_area m sz nr k ao j" for j
    proof (rule ccontr)
      assume "\<not> i + 1 \<le> j"
      then have "j \<le> i" "i < j + nr" using ix(5) [OF that] retry by auto
      then show False using that(2) hit(2) by (simp add: zero_area_def)
    qed
    have eq: "bitmap_find_next_zero_area_off m sz start nr (2 ^ k - 1) ao =
        bitmap_find_next_zero_area_off m sz (i + 1) nr (2 ^ k - 1) ao"
      unfolding step up by (simp only: retry(2) retry(1) [unfolded not_less [symmetric]] if_True if_False)
    have "sz - (i + 1) < sz - start"
      using hit(3,4) by linarith
    from less [OF this] obtain r where r: "bitmap_find_next_zero_area_off m sz (i + 1) nr (2 ^ k - 1) ao = Some r"
        "lowest_area m sz (i + 1) nr k ao r"
      by blast
    have "lowest_area m sz start nr k ao r"
    proof (cases "r \<le> sz")
      case True
      then have "i + 1 \<le> r" "zero_area m sz nr k ao r" "\<And>j. i + 1 \<le> j \<Longrightarrow> zero_area m sz nr k ao j \<Longrightarrow> r \<le> j"
        using r(2) by (simp_all add: lowest_area_def)
      then show ?thesis
        using True hit(3) past by (simp add: lowest_area_def)
    next
      case False
      then have "\<not> zero_area m sz nr k ao j" if "i + 1 \<le> j" for j
        using r(2) that by (simp add: lowest_area_def)
      then show ?thesis
        using False past by (auto simp: lowest_area_def)
    qed
    then show ?thesis
      unfolding eq using r(1) by blast
  next
    case found
    have "bitmap_find_next_zero_area_off m sz start nr (2 ^ k - 1) ao = Some index"
      unfolding step using found by simp
    moreover have "zero_area m sz nr k ao index"
      using found i ix(3) by (auto simp: zero_area_def)
    ultimately show ?thesis
      using found ix(4,5) by (auto simp: lowest_area_def)
  qed
qed

section \<open>Properties\<close>

text \<open>
  C11: the four iteration macros, run with enough fuel, visit exactly the set (clear) bits in
  ascending order, whatever the unused bits of the last word hold.
\<close>

theorem for_each_bit_visits:
  assumes "sz < fuel" and "sz \<le> 64 * length addr"
  shows "for_each_set_bit fuel addr sz = Some (filter (bm_test addr) [0..<sz]) \<and>
    for_each_set_bit_from fuel addr sz b = Some (filter (bm_test addr) [b..<sz]) \<and>
    for_each_clear_bit fuel addr sz = Some (filter (\<lambda>i. \<not> bm_test addr i) [0..<sz]) \<and>
    for_each_clear_bit_from fuel addr sz b = Some (filter (\<lambda>i. \<not> bm_test addr i) [b..<sz])"
  unfolding for_each_set_bit_def for_each_set_bit_from_def for_each_clear_bit_def for_each_clear_bit_from_def
  using assms find_first_bit_first find_first_zero_bit_first [OF assms(2)] set_bits.first clear_bits.first
  by (auto intro!: set_bits.for_each_filter clear_bits.for_each_filter)

theorem for_each_bit_visits_witness:
  "for_each_set_bit 11 [0x2A5] 10 = Some [0, 2, 5, 7, 9] \<and> (10::nat) < 11"
  using for_each_bit_visits [of 10 11 "[0x2A5]"]
  by (simp add: bm_test_def upt_rec bit_numeral_rec) 

text \<open>
  C12: when no sum reaches \<open>2 ^ 64\<close>, \<open>bitmap_find_next_zero_area_off\<close> ends and returns the lowest
  position at or after \<open>start\<close> where \<open>nr\<close> clear bits fit below \<open>size\<close> with the requested alignment,
  and a value above \<open>size\<close> exactly when there is none.
\<close>

theorem bitmap_find_next_zero_area_off_correct:
  assumes "nr > 0" and "sz + align_offset + 2 ^ k + nr \<le> 2 ^ 64"
  shows "\<exists>r. bitmap_find_next_zero_area_off m sz start nr (2 ^ k - 1) align_offset = Some r \<and>
    (if r \<le> sz
     then start \<le> r \<and> zero_area m sz nr k align_offset r \<and>
       (\<forall>j. start \<le> j \<longrightarrow> zero_area m sz nr k align_offset j \<longrightarrow> r \<le> j)
     else \<forall>j. start \<le> j \<longrightarrow> \<not> zero_area m sz nr k align_offset j)"
  using zero_area_off_least [OF assms] unfolding lowest_area_def .

theorem bitmap_find_next_zero_area_off_witness:
  "bitmap_find_next_zero_area_off [0x13] 64 0 3 (2 ^ 2 - 1) 0 = Some 8 \<and> zero_area [0x13] 64 3 2 0 8"
proof -
  have hole: "zero_area [0x13] 64 3 2 0 8"
  proof -
    have "i = 8 \<or> i = 9 \<or> i = 10" if "8 \<le> i" "i < 8 + 3" for i :: nat
      using that by linarith
    moreover have "\<not> bm_test [0x13] 8" "\<not> bm_test [0x13] 9" "\<not> bm_test [0x13] 10"
      by (simp_all add: bm_test_def bit_numeral_rec)
    ultimately show ?thesis
      unfolding zero_area_def by fastforce
  qed
  obtain r where r: "bitmap_find_next_zero_area_off [0x13] 64 0 3 (2 ^ 2 - 1) 0 = Some r" "r \<le> 8" "zero_area [0x13] 64 3 2 0 r"
    using bitmap_find_next_zero_area_off_correct [of 3 64 0 2 "[0x13]" 0] hole by (auto split: if_splits)
  then obtain q where "r = 4 * q" "q \<le> 2"
    by (auto simp: zero_area_def)
  then have "r = 0 \<or> r = 4 \<or> r = 8"
    by auto
  moreover have "bm_test [0x13] 0" "bm_test [0x13] 4"
    by (simp_all add: bm_test_def bit_numeral_rec)
  ultimately show ?thesis
    using r hole by (auto simp: zero_area_def)
qed

text \<open>
  A mask of all ones makes the sum wrap around: on a map whose first bit is set the search goes
  back to position 0 for ever.
\<close>

lemma zero_area_wraps: "raw_ALIGN_MASK 1 (2 ^ 64 - 1) = 0"
  by (simp add: raw_ALIGN_MASK_def)

text \<open>
  \<open>find_last_bit\<close> returns the highest set bit below the size, or the size when there is none.
\<close>

theorem find_last_bit_correct:
  assumes "r = find_last_bit addr sz"
  shows "(if r = sz then \<forall>i < sz. \<not> bm_test addr i
          else r < sz \<and> bm_test addr r \<and> (\<forall>i. r < i \<longrightarrow> i < sz \<longrightarrow> \<not> bm_test addr i))"
  using find_last_bit_last [of addr sz] unfolding assms by auto

theorem find_last_bit_witness: "find_last_bit [0, 6] 128 = 66 \<and> \<not> bm_test [0, 6] 100"
proof -
  have r: "find_last_bit [0, 6] 128 = 66" by code_simp
  then show ?thesis using find_last_bit_correct [OF refl, of "[0, 6]" 128] by simp
qed

end
