(* ===== verification/Bitmap_Inline.thy ===== *)
theory Bitmap_Inline
  imports Find_Bit
begin

text \<open>
  The inline front end of \<open>Algorithem/bitmap/Basic/bitmap.h\<close>. A wrapper takes a shortcut when
  the compiler knows the size: one word when it is at most 64, whole bytes when it is a multiple
  of 8. What the compiler knows is a boolean argument, and each wrapper is shown to have the
  same meaning for every answer. The byte shortcuts use \<open>memset\<close> and \<open>memcmp\<close> on the bytes of
  the words in little-endian order.
\<close>

unbundle bit_operations_syntax

section \<open>Definitions\<close>

definition small_const_nbits :: "bool \<Rightarrow> nat \<Rightarrow> bool" where
  "small_const_nbits const nbits \<longleftrightarrow> const \<and> nbits \<le> BITS_PER_LONG \<and> nbits > 0"

definition get_byte :: "ulong list \<Rightarrow> nat \<Rightarrow> 8 word" where
  "get_byte m k = ucast (drop_bit (8 * (k mod 8)) (m ! (k div 8)))"

definition set_byte :: "nat \<Rightarrow> 8 word \<Rightarrow> ulong list \<Rightarrow> ulong list" where
  "set_byte k b m =
     m[k div 8 := (m ! (k div 8) AND NOT (push_bit (8 * (k mod 8)) (ucast (NOT 0 :: 8 word))))
                  OR push_bit (8 * (k mod 8)) (ucast b)]"

definition memset_bytes :: "ulong list \<Rightarrow> nat \<Rightarrow> 8 word \<Rightarrow> nat \<Rightarrow> ulong list" where
  "memset_bytes m p b n = fold (\<lambda>k. set_byte k b) [p..<p + n] m"

definition memcmp_bytes_eq :: "ulong list \<Rightarrow> ulong list \<Rightarrow> nat \<Rightarrow> bool" where
  "memcmp_bytes_eq a b n = list_all (\<lambda>k. get_byte a k = get_byte b k) [0..<n]"

abbreviation (input) BITMAP_MEM_ALIGNMENT :: nat where
  "BITMAP_MEM_ALIGNMENT \<equiv> 8"

definition IS_ALIGNED :: "nat \<Rightarrow> nat \<Rightarrow> bool" where
  "IS_ALIGNED x a \<longleftrightarrow> x AND (a - 1) = 0"

definition bitmap_and :: "bool \<Rightarrow> ulong list \<Rightarrow> ulong list \<Rightarrow> ulong list \<Rightarrow> nat \<Rightarrow> bool \<times> ulong list" where
  "bitmap_and const dst src1 src2 nbits =
     (if small_const_nbits const nbits then
        (let v = (src1 ! 0 AND src2 ! 0) AND BITMAP_LAST_WORD_MASK nbits in (v \<noteq> 0, dst[0 := v]))
      else raw_bitmap_and dst src1 src2 nbits)"

definition bitmap_or :: "bool \<Rightarrow> ulong list \<Rightarrow> ulong list \<Rightarrow> ulong list \<Rightarrow> nat \<Rightarrow> ulong list" where
  "bitmap_or const dst src1 src2 nbits =
     (if small_const_nbits const nbits then dst[0 := src1 ! 0 OR src2 ! 0]
      else raw_bitmap_or dst src1 src2 nbits)"

definition bitmap_xor :: "bool \<Rightarrow> ulong list \<Rightarrow> ulong list \<Rightarrow> ulong list \<Rightarrow> nat \<Rightarrow> ulong list" where
  "bitmap_xor const dst src1 src2 nbits =
     (if small_const_nbits const nbits then dst[0 := src1 ! 0 XOR src2 ! 0]
      else raw_bitmap_xor dst src1 src2 nbits)"

definition bitmap_andnot :: "bool \<Rightarrow> ulong list \<Rightarrow> ulong list \<Rightarrow> ulong list \<Rightarrow> nat \<Rightarrow> bool \<times> ulong list" where
  "bitmap_andnot const dst src1 src2 nbits =
     (if small_const_nbits const nbits then
        (let v = (src1 ! 0 AND NOT (src2 ! 0)) AND BITMAP_LAST_WORD_MASK nbits in (v \<noteq> 0, dst[0 := v]))
      else raw_bitmap_andnot dst src1 src2 nbits)"

definition bitmap_complement :: "bool \<Rightarrow> ulong list \<Rightarrow> ulong list \<Rightarrow> nat \<Rightarrow> ulong list" where
  "bitmap_complement const dst src nbits =
     (if small_const_nbits const nbits then dst[0 := NOT (src ! 0)]
      else raw_bitmap_complement dst src nbits)"

text \<open>\<open>const_low\<close> answers \<open>__builtin_constant_p(nbits & BITMAP_MEM_MASK)\<close>.\<close>

definition bitmap_equal :: "bool \<Rightarrow> bool \<Rightarrow> ulong list \<Rightarrow> ulong list \<Rightarrow> nat \<Rightarrow> bool" where
  "bitmap_equal const const_low src1 src2 nbits =
     (if small_const_nbits const nbits
      then (src1 ! 0 XOR src2 ! 0) AND BITMAP_LAST_WORD_MASK nbits = 0
      else if const_low \<and> IS_ALIGNED nbits BITMAP_MEM_ALIGNMENT
      then memcmp_bytes_eq src1 src2 (nbits div 8)
      else raw_bitmap_equal src1 src2 nbits)"

definition bitmap_intersects :: "bool \<Rightarrow> ulong list \<Rightarrow> ulong list \<Rightarrow> nat \<Rightarrow> bool" where
  "bitmap_intersects const src1 src2 nbits =
     (if small_const_nbits const nbits
      then (src1 ! 0 AND src2 ! 0) AND BITMAP_LAST_WORD_MASK nbits \<noteq> 0
      else raw_bitmap_intersects src1 src2 nbits)"

definition bitmap_subset :: "bool \<Rightarrow> ulong list \<Rightarrow> ulong list \<Rightarrow> nat \<Rightarrow> bool" where
  "bitmap_subset const src1 src2 nbits =
     (if small_const_nbits const nbits
      then (src1 ! 0 AND NOT (src2 ! 0)) AND BITMAP_LAST_WORD_MASK nbits = 0
      else raw_bitmap_subset src1 src2 nbits)"

definition bitmap_empty :: "bool \<Rightarrow> ulong list \<Rightarrow> nat \<Rightarrow> bool" where
  "bitmap_empty const src nbits =
     (if small_const_nbits const nbits then src ! 0 AND BITMAP_LAST_WORD_MASK nbits = 0
      else find_first_bit src nbits = nbits)"

definition bitmap_full :: "bool \<Rightarrow> ulong list \<Rightarrow> nat \<Rightarrow> bool" where
  "bitmap_full const src nbits =
     (if small_const_nbits const nbits then NOT (src ! 0) AND BITMAP_LAST_WORD_MASK nbits = 0
      else find_first_zero_bit src nbits = nbits)"

definition bitmap_weight :: "bool \<Rightarrow> ulong list \<Rightarrow> nat \<Rightarrow> int" where
  "bitmap_weight const src nbits =
     (if small_const_nbits const nbits then int (hweight_long (src ! 0 AND BITMAP_LAST_WORD_MASK nbits))
      else raw_bitmap_weight src nbits)"

text \<open>\<open>const_start\<close> answers \<open>__builtin_constant_p(start & BITMAP_MEM_MASK)\<close>.\<close>

definition bitmap_set :: "bool \<Rightarrow> bool \<Rightarrow> bool \<Rightarrow> ulong list \<Rightarrow> nat \<Rightarrow> nat \<Rightarrow> ulong list" where
  "bitmap_set const const_start const_low m start nbits =
     (if const \<and> nbits = 1 then raw_set_bit start m
      else if const_start \<and> IS_ALIGNED start BITMAP_MEM_ALIGNMENT \<and>
        const_low \<and> IS_ALIGNED nbits BITMAP_MEM_ALIGNMENT
      then memset_bytes m (start div 8) 0xff (nbits div 8)
      else raw_bitmap_set m start nbits)"

definition bitmap_clear :: "bool \<Rightarrow> bool \<Rightarrow> bool \<Rightarrow> ulong list \<Rightarrow> nat \<Rightarrow> nat \<Rightarrow> ulong list" where
  "bitmap_clear const const_start const_low m start nbits =
     (if const \<and> nbits = 1 then raw_clear_bit start m
      else if const_start \<and> IS_ALIGNED start BITMAP_MEM_ALIGNMENT \<and>
        const_low \<and> IS_ALIGNED nbits BITMAP_MEM_ALIGNMENT
      then memset_bytes m (start div 8) 0 (nbits div 8)
      else raw_bitmap_clear m start nbits)"

definition bitmap_shift_right :: "bool \<Rightarrow> bool \<Rightarrow> ulong list \<Rightarrow> ulong list \<Rightarrow> nat \<Rightarrow> nat \<Rightarrow> ulong list" where
  "bitmap_shift_right const in_place dst src shift nbits =
     (if small_const_nbits const nbits
      then dst[0 := drop_bit shift (src ! 0 AND BITMAP_LAST_WORD_MASK nbits)]
      else raw_bitmap_shift_right in_place dst src shift nbits)"

definition bitmap_shift_left :: "bool \<Rightarrow> bool \<Rightarrow> ulong list \<Rightarrow> ulong list \<Rightarrow> nat \<Rightarrow> nat \<Rightarrow> ulong list" where
  "bitmap_shift_left const in_place dst src shift nbits =
     (if small_const_nbits const nbits
      then dst[0 := push_bit shift (src ! 0) AND BITMAP_LAST_WORD_MASK nbits]
      else raw_bitmap_shift_left in_place dst src shift nbits)"

text \<open>\<open>sizeof(mask) > sizeof(unsigned long)\<close> is false for 64-bit longs.\<close>

definition bitmap_from_u64 :: "ulong list \<Rightarrow> u64 \<Rightarrow> ulong list" where
  "bitmap_from_u64 dst m =
     (let dst = dst[0 := m AND NOT 0] in
      if (8::nat) > 8 then dst[1 := drop_bit 32 m] else dst)"

section \<open>The set a bitmap stands for\<close>

definition bits_of :: "ulong list \<Rightarrow> nat \<Rightarrow> nat set" where
  "bits_of m n = {i. i < n \<and> bm_test m i}"

lemma in_bits_of [simp]: "i \<in> bits_of m n \<longleftrightarrow> i < n \<and> bm_test m i"
  by (simp add: bits_of_def)

lemma bm_test_word0: "i < 64 \<Longrightarrow> bm_test m i = bit (m ! 0) i"
  by (simp add: bm_test_def)

lemma small_last_mask:
  "small_const_nbits c n \<Longrightarrow> bit (BITMAP_LAST_WORD_MASK n) i \<longleftrightarrow> i < n"
  by (cases "n = 64") (auto simp: small_const_nbits_def bit_LAST_WORD_MASK)

lemma small_zero_iff:
  assumes "small_const_nbits c n"
  shows "w AND BITMAP_LAST_WORD_MASK n = 0 \<longleftrightarrow> (\<forall>i < n. \<not> bit w i)"
  using word_nonzero_iff [of "w AND BITMAP_LAST_WORD_MASK n"] assms
  by (auto simp: bit_and_iff small_last_mask [OF assms]) (auto simp: small_const_nbits_def)

lemma small_facts:
  assumes "small_const_nbits c n"
  shows "i < n \<Longrightarrow> i < 64" and "BITS_TO_LONGS n = 1"
proof -
  show "i < n \<Longrightarrow> i < 64" using assms by (simp add: small_const_nbits_def)
  show "BITS_TO_LONGS n = 1" using assms unfolding small_const_nbits_def BITS_TO_LONGS_def by auto
qed

section \<open>Bytes\<close>

lemma byte_position: "i div 8 div 8 = i div 64" "8 * (i div 8 mod 8) + i mod 8 = i mod (64::nat)"
proof -
  show "i div 8 div 8 = i div 64" by (simp add: div_mult2_eq [symmetric])
  show "8 * (i div 8 mod 8) + i mod 8 = i mod (64::nat)" using mod_mult2_eq [of i 8 8] by simp
qed

lemma bit_get_byte: "bit (get_byte m (i div 8)) (i mod 8) \<longleftrightarrow> bm_test m i"
  using byte_position [of i]
  by (simp add: get_byte_def bm_test_def bit_simps)

lemma get_byte_eq_iff: "get_byte a k = get_byte b k \<longleftrightarrow> (\<forall>j < 8. bm_test a (8 * k + j) = bm_test b (8 * k + j))"
proof -
  have "bit (get_byte m k) j \<longleftrightarrow> bm_test m (8 * k + j)" if "j < 8" for m j
    using bit_get_byte [of m "8 * k + j"] that by simp
  then show ?thesis by (auto simp: bit_eq_iff bit_simps dest: bit_imp_le_length intro: bit_word_eqI)
qed

lemma memcmp_bytes_eq_iff:
  "memcmp_bytes_eq a b (n div 8) \<longleftrightarrow> (\<forall>i < n div 8 * 8. bm_test a i = bm_test b i)"
proof -
  have "(\<forall>k < n div 8. \<forall>j < 8. P (8 * k + j)) \<longleftrightarrow> (\<forall>i < n div 8 * 8. P i)" for P :: "nat \<Rightarrow> bool"
  proof
    assume h: "\<forall>k < n div 8. \<forall>j < 8. P (8 * k + j)"
    show "\<forall>i < n div 8 * 8. P i"
    proof (intro allI impI)
      fix i assume "i < n div 8 * 8"
      then have "i div 8 < n div 8" by (rule less_mult_imp_div_less)
      then have "P (8 * (i div 8) + i mod 8)" by (rule h [rule_format]) simp
      then show "P i" by (simp only: mult_div_mod_eq)
    qed
  qed auto
  from this [of "\<lambda>i. bm_test a i = bm_test b i"] show ?thesis
    by (simp add: memcmp_bytes_eq_def list_all_iff get_byte_eq_iff Ball_def)
qed

lemma bm_test_set_byte:
  assumes "k < 8 * length m"
  shows "bm_test (set_byte k b m) i = (if i div 8 = k then bit b (i mod 8) else bm_test m i)"
proof (cases "i div 64 = k div 8")
  case False
  then have "i div 8 \<noteq> k" using byte_position(1) [of i] by auto
  then show ?thesis using False assms by (simp add: set_byte_def bm_test_upd)
next
  case True
  have k: "k div 8 < length m" using assms by (simp add: less_mult_imp_div_less mult.commute)
  let ?j = "i mod 64"
  have i8: "i div 8 = k \<longleftrightarrow> i div 8 mod 8 = k mod 8"
    using True byte_position(1) [of i] by (metis div_mult_mod_eq)
  have j: "?j = 8 * (i div 8 mod 8) + i mod 8" "i mod 8 < 8" using byte_position(2) [of i] by simp_all
  let ?p = "8 * (k mod 8)"
  have upd: "bm_test (set_byte k b m) i \<longleftrightarrow>
    (bm_test m i \<and> \<not> (?p \<le> ?j \<and> ?j - ?p < 8)) \<or> ?p \<le> ?j \<and> bit b (?j - ?p)"
    using k True bit_imp_le_length [of b]
    by (auto simp: set_byte_def bm_test_upd bit_or_iff bit_and_iff bit_not_iff bit_push_bit_iff bit_ucast_iff)
       (auto simp: bm_test_def)
  show ?thesis
  proof (cases "i div 8 mod 8 = k mod 8")
    case eq: True
    then have "?p \<le> ?j" "?j - ?p = i mod 8" using j(1) by simp_all
    then show ?thesis using upd i8 eq by simp
  next
    case neq: False
    then have "\<not> (?p \<le> ?j \<and> ?j - ?p < 8)" using j by linarith
    then show ?thesis using upd i8 neq bit_imp_le_length [of b "?j - ?p"] by auto
  qed
qed

lemma length_set_byte [simp]: "length (set_byte k b m) = length m"
  by (simp add: set_byte_def)

lemma length_memset_bytes [simp]: "length (memset_bytes m p b n) = length m"
  by (induction n) (simp_all add: memset_bytes_def)

lemma bm_test_memset_bytes:
  "p + n \<le> 8 * length m \<Longrightarrow>
   bm_test (memset_bytes m p b n) i = (if p \<le> i div 8 \<and> i div 8 < p + n then bit b (i mod 8) else bm_test m i)"
proof (induction n)
  case (Suc n)
  have "memset_bytes m p b (Suc n) = set_byte (p + n) b (memset_bytes m p b n)" by (simp add: memset_bytes_def)
  then show ?case using Suc by (auto simp: bm_test_set_byte)
qed (auto simp: memset_bytes_def)

lemma IS_ALIGNED_8: "IS_ALIGNED x 8 \<longleftrightarrow> x mod 8 = 0"
proof -
  have "x AND mask 3 = take_bit 3 x" by (simp only: take_bit_eq_mask)
  then show ?thesis by (simp add: IS_ALIGNED_def mask_eq_exp_minus_1 take_bit_eq_mod)
qed

lemma aligned_range:
  assumes "IS_ALIGNED s 8" and "IS_ALIGNED n 8"
  shows "s div 8 \<le> i div 8 \<and> i div 8 < s div 8 + n div 8 \<longleftrightarrow> s \<le> i \<and> i < s + (n::nat)"
proof -
  have "s = 8 * (s div 8)" "n = 8 * (n div 8)" using assms by (auto simp: IS_ALIGNED_8)
  moreover have "i = 8 * (i div 8) + i mod 8" "i mod 8 < 8" by simp_all
  ultimately show ?thesis by linarith
qed

section \<open>Wrappers\<close>

lemma bitmap_and_bits:
  assumes "BITS_TO_LONGS n \<le> length d"
  shows "fst (bitmap_and c d a b n) \<longleftrightarrow> bits_of a n \<inter> bits_of b n \<noteq> {}"
    and "bits_of (snd (bitmap_and c d a b n)) n = bits_of a n \<inter> bits_of b n"
proof -
  show "fst (bitmap_and c d a b n) \<longleftrightarrow> bits_of a n \<inter> bits_of b n \<noteq> {}"
  proof (cases "small_const_nbits c n")
    case True
    then show ?thesis using small_facts(1) [OF True]
      by (auto simp: bitmap_and_def Let_def small_zero_iff [OF True] bit_and_iff bm_test_word0 bits_of_def)
  qed (use raw_bitmap_and_bits(1) [OF assms, of a b] in \<open>auto simp: bitmap_and_def\<close>)
  show "bits_of (snd (bitmap_and c d a b n)) n = bits_of a n \<inter> bits_of b n"
  proof (cases "small_const_nbits c n")
    case True
    then show ?thesis using small_facts [OF True] assms
      by (auto simp: bitmap_and_def Let_def bit_and_iff bm_test_word0 small_last_mask [OF True] Suc_le_eq)
  qed (use raw_bitmap_and_bits(2) [OF assms] less_BITS_TO_LONGS in \<open>auto simp: bitmap_and_def\<close>)
qed

lemma bitmap_andnot_bits:
  assumes "BITS_TO_LONGS n \<le> length d"
  shows "fst (bitmap_andnot c d a b n) \<longleftrightarrow> bits_of a n - bits_of b n \<noteq> {}"
    and "bits_of (snd (bitmap_andnot c d a b n)) n = bits_of a n - bits_of b n"
proof -
  show "fst (bitmap_andnot c d a b n) \<longleftrightarrow> bits_of a n - bits_of b n \<noteq> {}"
  proof (cases "small_const_nbits c n")
    case True
    then show ?thesis using small_facts(1) [OF True]
      by (auto simp: bitmap_andnot_def Let_def small_zero_iff [OF True] bit_and_iff bit_not_iff bm_test_word0 bits_of_def)
  qed (use raw_bitmap_andnot_bits(1) [OF assms, of a b] in \<open>auto simp: bitmap_andnot_def\<close>)
  show "bits_of (snd (bitmap_andnot c d a b n)) n = bits_of a n - bits_of b n"
  proof (cases "small_const_nbits c n")
    case True
    then show ?thesis using small_facts [OF True] assms
      by (auto simp: bitmap_andnot_def Let_def bit_and_iff bit_not_iff bm_test_word0 small_last_mask [OF True] Suc_le_eq)
  qed (use raw_bitmap_andnot_bits(2) [OF assms] less_BITS_TO_LONGS in \<open>auto simp: bitmap_andnot_def\<close>)
qed

lemma bitmap_or_xor_complement_bits:
  assumes "BITS_TO_LONGS n \<le> length d"
  shows "bits_of (bitmap_or c d a b n) n = bits_of a n \<union> bits_of b n"
    and "bits_of (bitmap_xor c d a b n) n = (bits_of a n - bits_of b n) \<union> (bits_of b n - bits_of a n)"
    and "bits_of (bitmap_complement c d a n) n = {..<n} - bits_of a n"
proof -
  note small = small_facts [of c n]
  show "bits_of (bitmap_or c d a b n) n = bits_of a n \<union> bits_of b n"
    by (cases "small_const_nbits c n")
      (use small assms raw_bitmap_or_bits in \<open>auto simp: bitmap_or_def bit_or_iff bm_test_word0 Suc_le_eq\<close>)
  show "bits_of (bitmap_xor c d a b n) n = (bits_of a n - bits_of b n) \<union> (bits_of b n - bits_of a n)"
    by (cases "small_const_nbits c n")
      (use small assms raw_bitmap_xor_bits in \<open>auto simp: bitmap_xor_def bit_xor_iff bm_test_word0 Suc_le_eq\<close>)
  show "bits_of (bitmap_complement c d a n) n = {..<n} - bits_of a n"
    by (cases "small_const_nbits c n")
      (use small assms raw_bitmap_complement_bits in \<open>auto simp: bitmap_complement_def bit_not_iff bm_test_word0 Suc_le_eq\<close>)
qed

lemma bitmap_compare_bits:
  shows "bitmap_equal c cl a b n \<longleftrightarrow> bits_of a n = bits_of b n"
    and "bitmap_intersects c a b n \<longleftrightarrow> bits_of a n \<inter> bits_of b n \<noteq> {}"
    and "bitmap_subset c a b n \<longleftrightarrow> bits_of a n \<subseteq> bits_of b n"
proof -
  note small = small_facts(1) [of c n] small_zero_iff [of c n]
  have eq: "bits_of a n = bits_of b n \<longleftrightarrow> (\<forall>i < n. bm_test a i = bm_test b i)" by (auto simp: bits_of_def)
  have "n div 8 * 8 = n" if "IS_ALIGNED n 8" using that by (auto simp: IS_ALIGNED_8)
  then show "bitmap_equal c cl a b n \<longleftrightarrow> bits_of a n = bits_of b n" unfolding eq
    by (cases "small_const_nbits c n")
      (use small in \<open>auto simp: bitmap_equal_def raw_bitmap_equal_iff memcmp_bytes_eq_iff bit_xor_iff bm_test_word0\<close>)
  show "bitmap_intersects c a b n \<longleftrightarrow> bits_of a n \<inter> bits_of b n \<noteq> {}"
    by (cases "small_const_nbits c n")
      (use small in \<open>auto simp: bitmap_intersects_def raw_bitmap_intersects_iff bit_and_iff bm_test_word0 bits_of_def\<close>)
  show "bitmap_subset c a b n \<longleftrightarrow> bits_of a n \<subseteq> bits_of b n"
    by (cases "small_const_nbits c n")
      (use small in \<open>auto simp: bitmap_subset_def raw_bitmap_subset_iff bit_and_iff bit_not_iff bm_test_word0 bits_of_def\<close>)
qed

lemma bitmap_count_bits:
  shows "bitmap_empty c m n \<longleftrightarrow> bits_of m n = {}"
    and "n \<le> 64 * length m \<Longrightarrow> bitmap_full c m n \<longleftrightarrow> bits_of m n = {..<n}"
    and "bitmap_weight c m n = sint (word_of_nat (card (bits_of m n)) :: 32 word)"
    and "n < 2 ^ 31 \<Longrightarrow> bitmap_weight c m n = int (card (bits_of m n))"
proof -
  note small = small_facts(1) [of c n] small_zero_iff [of c n]
  have first: "first_match P n 0 r \<Longrightarrow> r = n \<longleftrightarrow> (\<forall>i < n. \<not> P i)" for P r
    by (auto simp: first_match_def) (metis le_neq_implies_less)
  show "bitmap_empty c m n \<longleftrightarrow> bits_of m n = {}"
    by (cases "small_const_nbits c n")
      (use small first [OF find_first_bit_first [of m n]] in \<open>auto simp: bitmap_empty_def bm_test_word0 bits_of_def\<close>)
  have all: "bits_of m n = {..<n} \<longleftrightarrow> (\<forall>i < n. bm_test m i)" by (auto simp: bits_of_def)
  show "bitmap_full c m n \<longleftrightarrow> bits_of m n = {..<n}" if "n \<le> 64 * length m"
    unfolding all by (cases "small_const_nbits c n")
      (use small first [OF find_first_zero_bit_first [OF that]] in
        \<open>auto simp: bitmap_full_def bm_test_word0 bit_not_iff\<close>)
  have card: "card (bits_of m n) \<le> n"
    using card_mono [of "{..<n}" "bits_of m n"] by (auto simp: bits_of_def)
  show w: "bitmap_weight c m n = sint (word_of_nat (card (bits_of m n)) :: 32 word)"
  proof (cases "small_const_nbits c n")
    case True
    have "{i. i < 64 \<and> bit (m ! 0 AND BITMAP_LAST_WORD_MASK n) i} = bits_of m n"
      using small_facts(1) [OF True] by (auto simp: bits_of_def bit_and_iff small_last_mask [OF True] bm_test_word0)
    moreover have "n \<le> 64"
      using small_facts(1) [OF True, of 64] by linarith
    ultimately show ?thesis using True card sint_count [of "card (bits_of m n)"]
      by (simp add: bitmap_weight_def hweight_long_card)
  qed (simp add: bitmap_weight_def raw_bitmap_weight_card bits_of_def)
  show "bitmap_weight c m n = int (card (bits_of m n))" if "n < 2 ^ 31"
    unfolding w by (rule sint_count) (use card that in linarith)
qed

lemma bitmap_range_bits:
  assumes "start + n \<le> 64 * length m" and "i < 64 * length m"
  shows "bm_test (bitmap_set c cs cl m start n) i \<longleftrightarrow> bm_test m i \<or> start \<le> i \<and> i < start + n"
    and "bm_test (bitmap_clear c cs cl m start n) i \<longleftrightarrow> bm_test m i \<and> \<not> (start \<le> i \<and> i < start + n)"
proof -
  have bytes: "start div 8 + n div 8 \<le> 8 * length m"
    using assms(1) by linarith
  have ff: "bit (0xff :: 8 word) (i mod 8)"
  proof -
    have "(0xff :: 8 word) = mask 8" by (simp add: mask_eq_exp_minus_1)
    then show ?thesis by (simp only: bit_mask_iff) simp
  qed
  have one: "start < 64 * length m" if "n = 1" using assms(1) that by simp
  show "bm_test (bitmap_set c cs cl m start n) i \<longleftrightarrow> bm_test m i \<or> start \<le> i \<and> i < start + n"
    using bm_test_bit_ops(1) [of start m i] one raw_bitmap_set_bits [OF assms(1), of i] aligned_range [of start n i] ff
    by (auto simp: bitmap_set_def bm_test_memset_bytes [OF bytes])
  show "bm_test (bitmap_clear c cs cl m start n) i \<longleftrightarrow> bm_test m i \<and> \<not> (start \<le> i \<and> i < start + n)"
    using bm_test_bit_ops(2) [of start m i] one raw_bitmap_clear_bits [OF assms] aligned_range [of start n i]
    by (auto simp: bitmap_clear_def bm_test_memset_bytes [OF bytes])
qed

lemma bitmap_shift_bits:
  assumes "BITS_TO_LONGS n \<le> length d" and "shift < n" and "p \<Longrightarrow> d = s"
  shows "bits_of (bitmap_shift_right c p d s shift n) n = {i. i + shift \<in> bits_of s n}"
    and "bits_of (bitmap_shift_left c p d s shift n) n = {i. i < n \<and> shift \<le> i \<and> i - shift \<in> bits_of s n}"
proof -
  have off: "shift div 64 \<le> BITS_TO_LONGS n"
    using div_less_BITS_TO_LONGS [OF assms(2)] by simp
  note raw = raw_bitmap_shift_right_bits [where in_place = p, OF assms(1) off assms(3) less_BITS_TO_LONGS]
    raw_bitmap_shift_left_bits [where in_place = p, OF assms(1) off assms(3) less_BITS_TO_LONGS]
  show "bits_of (bitmap_shift_right c p d s shift n) n = {i. i + shift \<in> bits_of s n}"
  proof (cases "small_const_nbits c n")
    case True
    then show ?thesis using small_facts [OF True] assms
      by (auto simp: bitmap_shift_right_def bit_drop_bit_eq bit_and_iff bm_test_word0 small_last_mask [OF True] Suc_le_eq add.commute)
  qed (use raw in \<open>auto simp: bitmap_shift_right_def\<close>)
  show "bits_of (bitmap_shift_left c p d s shift n) n = {i. i < n \<and> shift \<le> i \<and> i - shift \<in> bits_of s n}"
  proof (cases "small_const_nbits c n")
    case True
    then show ?thesis using small_facts [OF True] assms
      by (auto simp: bitmap_shift_left_def bit_push_bit_iff bit_and_iff bm_test_word0 small_last_mask [OF True] Suc_le_eq)
  qed (use raw in \<open>auto simp: bitmap_shift_left_def\<close>)
qed

section \<open>Properties\<close>

text \<open>
  C13: the wrappers implement the algebra of sets of bit numbers, for every answer of
  \<open>__builtin_constant_p\<close>: the logical operations with their results, the comparisons, the
  emptiness and fullness tests, and the weight, which the code counts in an \<open>int\<close>: it is the
  number of bits reduced to 32 bits, and exact for sizes below \<open>2 ^ 31\<close>.
\<close>

theorem bitmap_set_algebra:
  assumes "BITS_TO_LONGS n \<le> length d" and "n \<le> 64 * length a"
  shows "fst (bitmap_and c d a b n) = (bits_of a n \<inter> bits_of b n \<noteq> {}) \<and>
    bits_of (snd (bitmap_and c d a b n)) n = bits_of a n \<inter> bits_of b n \<and>
    fst (bitmap_andnot c d a b n) = (bits_of a n - bits_of b n \<noteq> {}) \<and>
    bits_of (snd (bitmap_andnot c d a b n)) n = bits_of a n - bits_of b n \<and>
    bits_of (bitmap_or c d a b n) n = bits_of a n \<union> bits_of b n \<and>
    bits_of (bitmap_xor c d a b n) n = (bits_of a n - bits_of b n) \<union> (bits_of b n - bits_of a n) \<and>
    bits_of (bitmap_complement c d a n) n = {..<n} - bits_of a n \<and>
    bitmap_equal c cl a b n = (bits_of a n = bits_of b n) \<and>
    bitmap_intersects c a b n = (bits_of a n \<inter> bits_of b n \<noteq> {}) \<and>
    bitmap_subset c a b n = (bits_of a n \<subseteq> bits_of b n) \<and>
    bitmap_empty c a n = (bits_of a n = {}) \<and>
    bitmap_full c a n = (bits_of a n = {..<n}) \<and>
    bitmap_weight c a n = sint (word_of_nat (card (bits_of a n)) :: 32 word) \<and>
    (n < 2 ^ 31 \<longrightarrow> bitmap_weight c a n = int (card (bits_of a n)))"
  using bitmap_count_bits(4) [of n c a]
  by (simp only: simp_thms bitmap_and_bits [OF assms(1)] bitmap_andnot_bits [OF assms(1)]
      bitmap_or_xor_complement_bits [OF assms(1)] bitmap_compare_bits bitmap_count_bits(1,3)
      bitmap_count_bits(2) [OF assms(2)]) blast

theorem bitmap_set_algebra_witness:
  "BITS_TO_LONGS 70 \<le> length [0, 0 :: ulong] \<and> bits_of (bitmap_or False [0, 0] [5, 1] [2, 8] 70) 70 = bits_of [5, 1] 70 \<union> bits_of [2, 8] 70 \<and>
   bitmap_weight False [5, 1] 70 = int (card (bits_of [5, 1] 70))"
proof -
  have "BITS_TO_LONGS 70 \<le> length [0, 0 :: ulong]" by (simp add: BITS_TO_LONGS_def)
  then show ?thesis using bitmap_set_algebra [of 70 "[0, 0]" "[5, 1]" False "[2, 8]" False] by simp
qed

text \<open>
  \<open>bitmap_set\<close> and \<open>bitmap_clear\<close> change exactly the bits of the range, through each of
  their three paths (single bit, whole bytes, word masks), and no bit outside it.
\<close>

theorem bitmap_set_clear_range:
  assumes "start + n \<le> 64 * length m" and "i < 64 * length m"
  shows "bm_test (bitmap_set c cs cl m start n) i = (bm_test m i \<or> start \<le> i \<and> i < start + n) \<and>
    bm_test (bitmap_clear c cs cl m start n) i = (bm_test m i \<and> \<not> (start \<le> i \<and> i < start + n))"
  using bitmap_range_bits [OF assms] by blast

theorem bitmap_set_clear_range_witness:
  "bm_test (bitmap_set False False False [0, 0] 60 8) 66 \<and> \<not> bm_test (bitmap_set False False False [0, 0] 60 8) 68"
  using bitmap_set_clear_range [of 60 8 "[0, 0]" 66 False False False] bitmap_set_clear_range [of 60 8 "[0, 0]" 68 False False False]
  by (simp add: bm_test_def)

text \<open>
  The shifts move every bit by \<open>shift\<close> positions inside the bitmap, feed in zeros and drop
  what leaves it, with source and destination distinct or the same array.
\<close>

theorem bitmap_shift_moves:
  assumes "BITS_TO_LONGS n \<le> length d" and "shift < n" and "in_place \<Longrightarrow> d = s"
  shows "bits_of (bitmap_shift_right c in_place d s shift n) n = {i. i + shift \<in> bits_of s n} \<and>
    bits_of (bitmap_shift_left c in_place d s shift n) n = {i. i < n \<and> shift \<le> i \<and> i - shift \<in> bits_of s n}"
  using bitmap_shift_bits [OF assms] by blast

theorem bitmap_shift_moves_witness:
  "bits_of (bitmap_shift_left False True [1, 0] [1, 0] 65 100) 100 = {i. i < 100 \<and> 65 \<le> i \<and> i - 65 \<in> bits_of [1, 0] 100}"
  using bitmap_shift_moves [of 100 "[1, 0]" 65 True "[1, 0]" False] by (simp add: BITS_TO_LONGS_def)

end
