(* ===== verification/Bitmap_Arr32.thy ===== *)
theory Bitmap_Arr32
  imports Bitmap
begin

text \<open>
  Conversion between bitmaps of 64-bit words and arrays of 32-bit words
  (\<open>bitmap_from_arr32\<close> and \<open>bitmap_to_arr32\<close> of \<open>Algorithem/bitmap/Basic/bitmap.c\<close>), and
  \<open>bitmap_pos_to_ord\<close>.
\<close>

unbundle bit_operations_syntax

section \<open>Arrays of 32-bit words\<close>

definition arr32_word :: "nat \<Rightarrow> u32 list \<Rightarrow> nat \<Rightarrow> ulong" where
  "arr32_word halfwords buf k =
     ucast (buf ! (2 * k)) OR (if 2 * k + 1 < halfwords then push_bit 32 (ucast (buf ! (2 * k + 1))) else 0)"

lemma from_arr32_loop_words:
  assumes "(hw + 1) div 2 \<le> length m"
  shows "from_arr32_loop (2 * k) hw buf m = fold (\<lambda>k d. d[k := arr32_word hw buf k]) [k..<(hw + 1) div 2] m"
  using assms
proof (induction "hw - 2 * k" arbitrary: k m rule: less_induct)
  case less
  show ?case
  proof (cases "2 * k < hw")
    case True
    then have k: "k < (hw + 1) div 2" by linarith
    have step: "from_arr32_loop (2 * k) hw buf m = from_arr32_loop (2 * (k + 1)) hw buf (m[k := arr32_word hw buf k])"
      by (subst from_arr32_loop.simps) (use True k less.prems in \<open>simp add: Let_def arr32_word_def\<close>)
    show ?thesis unfolding step
      using less.hyps [of "k + 1" "m[k := arr32_word hw buf k]"] True k less.prems by (simp add: upt_conv_Cons)
  next
    case False
    then have "\<not> k < (hw + 1) div 2" by linarith
    then show ?thesis by (subst from_arr32_loop.simps) (use False in simp)
  qed
qed

lemma bit_arr32_word:
  assumes "i div 64 < (hw + 1) div 2"
  shows "bit (arr32_word hw buf (i div 64)) (i mod 64) \<longleftrightarrow> i div 32 < hw \<and> bit (buf ! (i div 32)) (i mod 32)"
proof -
  have b: "bit (w :: u32) n \<Longrightarrow> n < 32" for w n using bit_imp_le_length [of w n] by simp
  have d: "2 * (i div 64) = i div 32 - i div 32 mod 2" "i mod 64 = 32 * (i div 32 mod 2) + i mod 32"
    using div_mult2_eq [of i 32 2] mod_mult2_eq [of i 32 2] minus_mod_eq_mult_div [of "i div 32" 2] by simp_all
  show ?thesis
  proof (cases "i div 32 mod 2 = 0")
    case True
    then have "i mod 64 = i mod 32" "2 * (i div 64) = i div 32" using d by simp_all
    moreover have "i div 32 < hw" using assms calculation(2) by linarith
    moreover have "i mod 32 < 32" by simp
    ultimately show ?thesis by (auto simp: arr32_word_def bit_or_iff bit_push_bit_iff bit_ucast_iff)
  next
    case False
    then have m: "i div 32 mod 2 = 1" by simp
    then have e: "i mod 64 = 32 + i mod 32" "2 * (i div 64) + 1 = i div 32" using d by simp_all
    then show ?thesis using b [of "buf ! (2 * (i div 64))" "32 + i mod 32"]
      by (auto simp: arr32_word_def bit_or_iff bit_push_bit_iff bit_ucast_iff)
  qed
qed

lemma last_mask_shift32: "unat ((- (of_nat n :: u32)) AND 31) = (32 - n mod 32) mod 32"
proof -
  let ?w = "- (of_nat n :: u32)"
  have "(31 :: u32) = mask 5" by (simp add: mask_eq_exp_minus_1)
  then have "?w AND 31 = take_bit 5 ?w" by (simp only: take_bit_eq_mask)
  moreover have "uint (take_bit 5 ?w) = take_bit 5 (uint ?w)" by (rule unsigned_take_bit_eq)
  moreover have "uint ?w = (- int n) mod 2 ^ 32"
    by (simp add: uint_word_ariths unsigned_of_nat take_bit_eq_mod of_nat_mod mod_minus_eq)
  ultimately have "uint (?w AND 31) = (- int n) mod 32"
    by (simp add: take_bit_eq_mod mod_mod_cancel)
  moreover have "(- int n) mod 32 = int ((32 - n mod 32) mod 32)"
    by (simp add: zmod_zminus1_eq_if zmod_int of_nat_diff)
  ultimately show ?thesis by (simp add: unat_eq_nat_uint)
qed

lemma bit_drop_all_ones: "bit (drop_bit s (NOT 0 :: u32)) j \<longleftrightarrow> s + j < 32"
  by (auto simp: bit_simps)

lemma arr32_sizes:
  fixes n :: nat
  defines "hw \<equiv> (n + 32 - 1) div 32"
  shows "(hw + 1) div 2 = BITS_TO_LONGS n" and "n mod 64 \<noteq> 0 \<Longrightarrow> (hw - 1) div 2 = n div 64"
    and "i div 32 < hw \<longleftrightarrow> i < 32 * hw" and "i < n \<Longrightarrow> i div 32 < hw" and "n mod 64 = 0 \<Longrightarrow> 32 * hw = n"
proof -
  have q: "n = 64 * (n div 64) + n mod 64" "n mod 64 < 64" by simp_all
  obtain q r where qr: "n = 64 * q + r" "r < 64" "n div 64 = q" "n mod 64 = r" using q by blast
  have hw: "hw = 2 * q + (r + 31) div 32" unfolding hw_def qr(1) by simp
  show "(hw + 1) div 2 = BITS_TO_LONGS n" unfolding hw BITS_TO_LONGS_alt qr(3,4) using qr(2) by simp linarith
  show "(hw - 1) div 2 = n div 64" if "n mod 64 \<noteq> 0" using that qr(2) unfolding hw qr(3,4) by linarith
  show "i div 32 < hw \<longleftrightarrow> i < 32 * hw" by linarith
  show "i div 32 < hw" if "i < n" using that qr(1) unfolding hw by linarith
  show "32 * hw = n" if "n mod 64 = 0" using that qr unfolding hw by simp
qed

lemma arr32_exact:
  assumes "n + 32 \<le> 2 ^ 32"
  shows "arr32_halfwords n = (n + 32 - 1) div 32" and "0 < n \<Longrightarrow> arr32_last (arr32_halfwords n) = (n + 32 - 1) div 32 - 1"
proof -
  have "n + 32 - 1 < 2 ^ 32"
    using assms by simp
  then show hw: "arr32_halfwords n = (n + 32 - 1) div 32"
    unfolding arr32_halfwords_def by (simp only: mod_less)
  assume "0 < n"
  then have "1 \<le> (n + 32 - 1) div 32" "(n + 32 - 1) div 32 < 2 ^ 32"
    using assms by linarith+
  then have "(n + 32 - 1) div 32 + 2 ^ 32 - 1 = (n + 32 - 1) div 32 - 1 + 2 ^ 32" "(n + 32 - 1) div 32 - 1 < 2 ^ 32"
    by linarith+
  then show "arr32_last (arr32_halfwords n) = (n + 32 - 1) div 32 - 1"
    unfolding hw arr32_last_def by (simp only: mod_add_self2 mod_less)
qed

lemma arr32_unfold:
  assumes "n + 32 \<le> 2 ^ 32"
  defines "hw \<equiv> (n + 32 - 1) div 32"
  shows "bitmap_from_arr32 m buf n =
      (if n mod 64 \<noteq> 0 then (from_arr32_loop 0 hw buf m)[(hw - 1) div 2 :=
         from_arr32_loop 0 hw buf m ! ((hw - 1) div 2) AND BITMAP_LAST_WORD_MASK n] else from_arr32_loop 0 hw buf m)"
    and "bitmap_to_arr32 buf m n =
      (if n mod 64 \<noteq> 0 then (to_arr32_loop 0 hw m buf)[hw - 1 :=
         to_arr32_loop 0 hw m buf ! (hw - 1) AND drop_bit (unat ((- (of_nat n :: u32)) AND 31)) (NOT 0)]
       else to_arr32_loop 0 hw m buf)"
  using arr32_exact [OF assms(1), folded hw_def]
  by (cases "n = 0"; simp add: bitmap_from_arr32_def bitmap_to_arr32_def Let_def)+

lemma bitmap_from_arr32_bits:
  assumes "BITS_TO_LONGS n \<le> length m" and "i < 64 * BITS_TO_LONGS n" and n: "n + 32 \<le> 2 ^ 32"
  shows "bm_test (bitmap_from_arr32 m buf n) i \<longleftrightarrow> i < n \<and> bit (buf ! (i div 32)) (i mod 32)"
proof -
  define hw where "hw = (n + 32 - 1) div 32"
  note sz = arr32_sizes [where n = n, folded hw_def]
  define m' where "m' = from_arr32_loop 0 hw buf m"
  have lim: "(hw + 1) div 2 \<le> length m" "i div 64 < (hw + 1) div 2"
    using assms sz(1) less_mult_imp_div_less [of i "BITS_TO_LONGS n" 64] by (simp_all add: mult.commute)
  have m': "m' = fold (\<lambda>k d. d[k := arr32_word hw buf k]) [0..<(hw + 1) div 2] m"
    using from_arr32_loop_words [OF lim(1), of 0 buf] by (simp add: m'_def)
  have len: "length m' = length m" unfolding m' by (rule fold_upd_range(1)) (use lim in auto)
  have bits: "bm_test m' i \<longleftrightarrow> i div 32 < hw \<and> bit (buf ! (i div 32)) (i mod 32)"
    using bit_arr32_word [OF lim(2)] lim unfolding bm_test_def m' by (simp add: fold_upd_range)
  show ?thesis
  proof (cases "n mod 64 = 0")
    case True
    then have "bitmap_from_arr32 m buf n = m'"
      by (simp add: arr32_unfold [OF n] hw_def m'_def)
    moreover have "i < n" using assms(2) True by (simp add: BITS_TO_LONGS_alt)
    ultimately show ?thesis using bits sz(4) by simp
  next
    case False
    then have "bitmap_from_arr32 m buf n = m'[n div 64 := m' ! (n div 64) AND BITMAP_LAST_WORD_MASK n]"
      unfolding arr32_unfold [OF n] hw_def [symmetric] m'_def [symmetric] sz(2) [OF False] by simp
    moreover have "n div 64 < length m'" using assms(1) False len by (simp add: BITS_TO_LONGS_alt)
    moreover have "i div 64 \<noteq> n div 64 \<Longrightarrow> i div 64 < n div 64" using lim(2) sz(1) False by (simp add: BITS_TO_LONGS_alt)
    ultimately show ?thesis using bits sz(4) last_word_bit [OF assms(2)]
      by (auto simp: bm_test_upd bit_and_iff) (auto simp: bm_test_def)
  qed
qed

definition half_word :: "ulong list \<Rightarrow> nat \<Rightarrow> u32" where
  "half_word m i = (if even i then ucast (m ! (i div 2) AND ucast (NOT 0 :: u32)) else ucast (drop_bit 32 (m ! (i div 2))))"

lemma bit_half_word: "bit (half_word m (i div 32)) (i mod 32) \<longleftrightarrow> bm_test m i"
proof -
  have d: "i div 32 div 2 = i div 64" "i mod 64 = 32 * (i div 32 mod 2) + i mod 32"
    using div_mult2_eq [of i 32 2] mod_mult2_eq [of i 32 2] by simp_all
  then show ?thesis
    by (cases "even (i div 32)")
      (auto simp: half_word_def bm_test_def bit_simps even_iff_mod_2_eq_zero odd_iff_mod_2_eq_one)
qed

lemma to_arr32_loop_words:
  "to_arr32_loop (2 * k) hw m buf = fold (\<lambda>i d. d[i := half_word m i]) [2 * k..<hw] buf"
proof (induction "hw - 2 * k" arbitrary: k buf rule: less_induct)
  case less
  show ?case
  proof (cases "2 * k < hw")
    case True
    have "to_arr32_loop (2 * k) hw m buf = to_arr32_loop (2 * (k + 1)) hw m
      (if 2 * k + 1 < hw then (buf[2 * k := half_word m (2 * k)])[2 * k + 1 := half_word m (2 * k + 1)]
       else buf[2 * k := half_word m (2 * k)])"
      by (subst to_arr32_loop.simps) (use True in \<open>simp add: Let_def half_word_def\<close>)
    then show ?thesis using True less [of "k + 1"] by (simp add: upt_conv_Cons)
  qed (subst to_arr32_loop.simps, simp)
qed

lemma bitmap_to_arr32_bits:
  assumes "(n + 32 - 1) div 32 \<le> length buf" and "i < 32 * ((n + 32 - 1) div 32)" and n: "n + 32 \<le> 2 ^ 32"
  shows "bit (bitmap_to_arr32 buf m n ! (i div 32)) (i mod 32) \<longleftrightarrow> i < n \<and> bm_test m i"
proof -
  define hw where "hw = (n + 32 - 1) div 32"
  note sz = arr32_sizes [where n = n, folded hw_def]
  define b where "b = to_arr32_loop 0 hw m buf"
  have b: "b = fold (\<lambda>i d. d[i := half_word m i]) [0..<hw] buf"
    using to_arr32_loop_words [of 0 hw m buf] by (simp add: b_def)
  have hw: "hw \<le> length buf" "i div 32 < hw" using assms sz(3) by (simp_all add: hw_def)
  have nth: "b ! k = (if k < hw then half_word m k else buf ! k)" "length b = length buf" for k
    unfolding b using hw(1) by (simp_all add: fold_upd_range)
  show ?thesis
  proof (cases "n mod 64 = 0")
    case True
    then have "bitmap_to_arr32 buf m n = b" by (simp add: arr32_unfold [OF n] hw_def b_def)
    moreover have "i < n" using sz(5) [OF True] assms(2) by (simp add: hw_def)
    ultimately show ?thesis using nth hw bit_half_word by simp
  next
    case False
    let ?s = "unat ((- (of_nat n :: u32)) AND 31)"
    have s: "?s = (32 - n mod 32) mod 32" by (rule last_mask_shift32)
    have eq: "bitmap_to_arr32 buf m n = b[hw - 1 := b ! (hw - 1) AND drop_bit ?s (NOT 0)]"
      using False by (simp add: arr32_unfold [OF n] hw_def b_def)
    show ?thesis
    proof (cases "i div 32 = hw - 1")
      case True
      have qr: "n = 32 * (n div 32) + n mod 32" "n mod 32 < 32" "i = 32 * (i div 32) + i mod 32" "i mod 32 < 32"
        by simp_all
      have "i < n \<longleftrightarrow> i mod 32 + ?s < 32"
      proof (cases "n mod 32 = 0")
        case r: True
        then have "hw = n div 32" unfolding hw_def by auto
        then have "i < n" using True hw(2) qr r by linarith
        then show ?thesis using r qr(4) unfolding s by simp
      next
        case r: False
        then have "hw = n div 32 + 1" using qr(1,2) unfolding hw_def by linarith
        then have "i div 32 = n div 32" using True by simp
        then have "i < n \<longleftrightarrow> i mod 32 < n mod 32" using qr by linarith
        moreover have "?s = 32 - n mod 32" using r qr(2) unfolding s by simp
        ultimately show ?thesis using qr(2) by linarith
      qed
      moreover have "bit (drop_bit ?s (NOT 0 :: u32)) (i mod 32) \<longleftrightarrow> i mod 32 + ?s < 32"
        unfolding bit_drop_all_ones by (simp only: add.commute)
      ultimately show ?thesis using True nth hw bit_half_word [of m i] unfolding eq
        by (auto simp: bit_and_iff simp del: drop_bit_minus_one)
    next
      case F: False
      then have "i < n" using hw(2) unfolding hw_def by linarith
      then show ?thesis using F nth hw bit_half_word [of m i] unfolding eq by simp
    qed
  qed
qed

section \<open>Properties\<close>

text \<open>
  C14: converting a bitmap to an array of 32-bit words and back preserves its bits and clears the
  unused tail of the last word, and the array holds no bit beyond the size. The size must be at
  most \<open>2 ^ 32 - 32\<close>: from there on \<open>DIV_ROUND_UP(nbits, 32)\<close> wraps around in the code.
\<close>

theorem bitmap_arr32_roundtrip:
  assumes "BITS_TO_LONGS n \<le> length m'" and "(n + 32 - 1) div 32 \<le> length buf"
    and "i < 64 * BITS_TO_LONGS n" and "n + 32 \<le> 2 ^ 32"
  shows "bm_test (bitmap_from_arr32 m' (bitmap_to_arr32 buf m n) n) i = (i < n \<and> bm_test m i)"
proof (cases "i < n")
  case True
  then have "i < 32 * ((n + 32 - 1) div 32)" using arr32_sizes(3,4) [where n = n and i = i] by blast
  then show ?thesis using bitmap_from_arr32_bits [OF assms(1,3,4)] bitmap_to_arr32_bits [OF assms(2) _ assms(4)] True by simp
next
  case False
  then show ?thesis using bitmap_from_arr32_bits [OF assms(1,3,4)] by simp
qed

theorem bitmap_arr32_roundtrip_witness:
  "bm_test (bitmap_from_arr32 [7, 7] (bitmap_to_arr32 [9, 9, 9] [0x100000001, 2] 70) 70) 65 \<and>
   \<not> bm_test (bitmap_from_arr32 [7, 7] (bitmap_to_arr32 [9, 9, 9] [0x100000001, 2] 70) 70) 66"
  using bitmap_arr32_roundtrip [of 70 "[7, 7]" "[9, 9, 9]" 65 "[0x100000001, 2]"]
    bitmap_arr32_roundtrip [of 70 "[7, 7]" "[9, 9, 9]" 66 "[0x100000001, 2]"]
  by (simp add: BITS_TO_LONGS_def bm_test_def bit_numeral_rec)

text \<open>
  \<open>bitmap_pos_to_ord\<close> maps a set bit to its rank among the set bits and everything else to
  -1, so it is injective on the set bits.
\<close>

theorem bitmap_pos_to_ord_rank:
  assumes "n \<le> 2 ^ 31"
  shows "bitmap_pos_to_ord m pos n =
     (if pos < n \<and> bm_test m pos then int (card {i. i < pos \<and> bm_test m i}) else - 1)"
proof -
  have "card {i. i < pos \<and> bm_test m i} \<le> pos"
    using card_mono [of "{..<pos}" "{i. i < pos \<and> bm_test m i}"] by auto
  then have "raw_bitmap_weight m pos = int (card {i. i < pos \<and> bm_test m i})" if "pos < n"
    unfolding raw_bitmap_weight_card by (intro sint_count) (use assms that in linarith)
  then show ?thesis
    by (auto simp: bitmap_pos_to_ord_def test_bit_bm_test)
qed

end
