(* ===== verification/Bitmap_Parse.thy ===== *)
theory Bitmap_Parse
  imports Bitmap_Inline
begin

text \<open>
  The hexadecimal parser of \<open>Algorithem/bitmap/Basic/bitmap.c\<close>: the character classes, the
  digit conversion and \<open>__bitmap_parse\<close>. A buffer is the list of its \<open>buflen\<close> bytes; the
  variable \<open>c\<close>, an \<open>int\<close> that only ever holds characters, is kept as the byte. An error is
  returned as the negative number the source returns, together with the bitmap as it is then.
\<close>

section \<open>Character classes\<close>

definition ct_U :: "8 word" where "ct_U = 0x01"

definition ct_L :: "8 word" where "ct_L = 0x02"

definition ct_D :: "8 word" where "ct_D = 0x04"

definition ct_C :: "8 word" where "ct_C = 0x08"

definition ct_P :: "8 word" where "ct_P = 0x10"

definition ct_S :: "8 word" where "ct_S = 0x20"

definition ct_X :: "8 word" where "ct_X = 0x40"

definition ct_SP :: "8 word" where "ct_SP = 0x80"

definition ctype :: "8 word list" where
  "ctype =
    [ct_C,ct_C,ct_C,ct_C,ct_C,ct_C,ct_C,ct_C] @
    [ct_C,ct_C OR ct_S,ct_C OR ct_S,ct_C OR ct_S,ct_C OR ct_S,ct_C OR ct_S,ct_C,ct_C] @
    [ct_C,ct_C,ct_C,ct_C,ct_C,ct_C,ct_C,ct_C] @
    [ct_C,ct_C,ct_C,ct_C,ct_C,ct_C,ct_C,ct_C] @
    [ct_S OR ct_SP,ct_P,ct_P,ct_P,ct_P,ct_P,ct_P,ct_P] @
    [ct_P,ct_P,ct_P,ct_P,ct_P,ct_P,ct_P,ct_P] @
    [ct_D,ct_D,ct_D,ct_D,ct_D,ct_D,ct_D,ct_D] @
    [ct_D,ct_D,ct_P,ct_P,ct_P,ct_P,ct_P,ct_P] @
    [ct_P,ct_U OR ct_X,ct_U OR ct_X,ct_U OR ct_X,ct_U OR ct_X,ct_U OR ct_X,ct_U OR ct_X,ct_U] @
    [ct_U,ct_U,ct_U,ct_U,ct_U,ct_U,ct_U,ct_U] @
    [ct_U,ct_U,ct_U,ct_U,ct_U,ct_U,ct_U,ct_U] @
    [ct_U,ct_U,ct_U,ct_P,ct_P,ct_P,ct_P,ct_P] @
    [ct_P,ct_L OR ct_X,ct_L OR ct_X,ct_L OR ct_X,ct_L OR ct_X,ct_L OR ct_X,ct_L OR ct_X,ct_L] @
    [ct_L,ct_L,ct_L,ct_L,ct_L,ct_L,ct_L,ct_L] @
    [ct_L,ct_L,ct_L,ct_L,ct_L,ct_L,ct_L,ct_L] @
    [ct_L,ct_L,ct_L,ct_P,ct_P,ct_P,ct_P,ct_C] @
    [0,0,0,0,0,0,0,0,0,0,0,0,0,0,0,0] @
    [0,0,0,0,0,0,0,0,0,0,0,0,0,0,0,0] @
    [ct_S OR ct_SP,ct_P,ct_P,ct_P,ct_P,ct_P,ct_P,ct_P,ct_P,ct_P,ct_P,ct_P,ct_P,ct_P,ct_P,ct_P] @
    [ct_P,ct_P,ct_P,ct_P,ct_P,ct_P,ct_P,ct_P,ct_P,ct_P,ct_P,ct_P,ct_P,ct_P,ct_P,ct_P] @
    [ct_U,ct_U,ct_U,ct_U,ct_U,ct_U,ct_U,ct_U,ct_U,ct_U,ct_U,ct_U,ct_U,ct_U,ct_U,ct_U] @
    [ct_U,ct_U,ct_U,ct_U,ct_U,ct_U,ct_U,ct_P,ct_U,ct_U,ct_U,ct_U,ct_U,ct_U,ct_U,ct_L] @
    [ct_L,ct_L,ct_L,ct_L,ct_L,ct_L,ct_L,ct_L,ct_L,ct_L,ct_L,ct_L,ct_L,ct_L,ct_L,ct_L] @
    [ct_L,ct_L,ct_L,ct_L,ct_L,ct_L,ct_L,ct_P,ct_L,ct_L,ct_L,ct_L,ct_L,ct_L,ct_L,ct_L]"

definition ismask :: "8 word \<Rightarrow> 8 word" where
  "ismask x = ctype ! unat x"

definition isspace :: "8 word \<Rightarrow> bool" where
  "isspace c \<longleftrightarrow> ismask c AND ct_S \<noteq> 0"

definition isxdigit :: "8 word \<Rightarrow> bool" where
  "isxdigit c \<longleftrightarrow> ismask c AND (ct_D OR ct_X) \<noteq> 0"




section \<open>The parser\<close>










section \<open>Character classes, evaluated\<close>

lemma ctype_bytes:
  "list_all (\<lambda>c. (isspace c \<longleftrightarrow> c \<in> {9, 10, 11, 12, 13, 32, 160}) \<and>
     (isxdigit c \<longleftrightarrow> 48 \<le> c \<and> c \<le> 57 \<or> 65 \<le> c \<and> c \<le> 70 \<or> 97 \<le> c \<and> c \<le> 102))
     (map word_of_int [0..255])"
  by code_simp

text \<open>Every byte is one of the 256 entries of the table.\<close>

lemma byte_cases:
  assumes "list_all P (map word_of_int [0..255])"
  shows "P (c :: 8 word)"
proof -
  have "uint c \<in> set [0..255]"
    using uint_lt2p [of c] uint_ge_0 [of c] by simp
  then have "word_of_int (uint c) \<in> set (map word_of_int [0..255] :: 8 word list)"
    by (simp only: set_map) (rule imageI)
  with assms show ?thesis
    by (auto simp: list_all_iff)
qed

lemmas isspace_iff = conjunct1 [OF byte_cases [OF ctype_bytes]]



lemma punct_not_space [simp]: "\<not> isspace 0" "\<not> isspace 0x2C"
  by (simp_all add: isspace_iff)

section \<open>The language of the parser\<close>







section \<open>Reading a chunk\<close>








text \<open>
  What may follow the last chunk: white space and then the end of the buffer or a zero byte, or
  a comma that is the last byte of the buffer.
\<close>

definition text_end :: "8 word list \<Rightarrow> bool" where
  "text_end xs \<longleftrightarrow>
     (\<exists>ws tail. xs = ws @ tail \<and> list_all isspace ws \<and> (tail = [] \<or> hd tail = 0)) \<or> xs = [0x2C]"

lemma text_endI: "list_all isspace ws \<Longrightarrow> tail = [] \<or> hd tail = 0 \<Longrightarrow> text_end (ws @ tail)"
  by (auto simp: text_end_def)

lemma text_end_simps [simp]: "text_end []" "text_end (0 # xs)" "text_end [0x2C]"
  using text_endI [of "[]" "[]"] text_endI [of "[]" "0 # xs"] by (simp_all add: text_end_def)



section \<open>Taking up a chunk\<close>








section \<open>The whole text\<close>






section \<open>Accepted texts\<close>








end
