(* ===== verification/Memblock_Regions.thy ===== *)
theory Memblock_Regions
  imports Prelude
begin

text \<open>
  The region arrays of \<open>Memory-Allocator/Memblock-allocator/memblock_userspace\<close>: the types of
  \<open>include/linux/memblock.h\<close>, the macros of \<open>biscuitos.h\<close> and \<open>mm.h\<close> they use, and the
  functions of \<open>mm/memblock.c\<close> that work on one array. An array is a list of length
  \<open>max\<close> whose first \<open>cnt\<close> entries are live. \<open>BUG_ON\<close> loops forever when its condition
  holds: a function that may reach it returns an option, and \<open>None\<close> is that outcome.
  \<open>flag_at\<close> abstracts an array to the partial function from addresses to region flags; the
  operations are specified on it.
\<close>

unbundle bit_operations_syntax

section \<open>Definitions\<close>

type_synonym phys_addr_t = u32

definition PHYS_ADDR_MAX :: phys_addr_t where
  "PHYS_ADDR_MAX = NOT 0"

definition MEMBLOCK_NONE :: u32 where "MEMBLOCK_NONE = 0x0"
definition MEMBLOCK_HOTPLUG :: u32 where "MEMBLOCK_HOTPLUG = 0x1"
definition MEMBLOCK_MIRROR :: u32 where "MEMBLOCK_MIRROR = 0x2"
definition MEMBLOCK_NOMAP :: u32 where "MEMBLOCK_NOMAP = 0x4"

record memblock_region =
  r_base :: phys_addr_t
  r_size :: phys_addr_t
  r_flags :: u32

text \<open>
  \<open>regions_at\<close> says where the array lives: \<open>None\<close> for the static initial array, otherwise the
  physical address \<open>memblock_double_array\<close> placed it at.
\<close>

record memblock_type =
  cnt :: nat
  max_cnt :: nat
  total_size :: phys_addr_t
  regions :: "memblock_region list"
  regions_at :: "phys_addr_t option"
  t_name :: string

abbreviation empty_region :: memblock_region where
  "empty_region \<equiv> \<lparr>r_base = 0, r_size = 0, r_flags = 0\<rparr>"

definition memblock_is_hotpluggable :: "memblock_region \<Rightarrow> bool" where
  "memblock_is_hotpluggable m \<longleftrightarrow> r_flags m AND MEMBLOCK_HOTPLUG \<noteq> 0"

definition memblock_is_mirror :: "memblock_region \<Rightarrow> bool" where
  "memblock_is_mirror m \<longleftrightarrow> r_flags m AND MEMBLOCK_MIRROR \<noteq> 0"

definition memblock_is_nomap :: "memblock_region \<Rightarrow> bool" where
  "memblock_is_nomap m \<longleftrightarrow> r_flags m AND MEMBLOCK_NOMAP \<noteq> 0"

text \<open>Without NUMA every region is on node 0 and setting the node does nothing.\<close>

definition memblock_get_region_node :: "memblock_region \<Rightarrow> int" where
  "memblock_get_region_node r = 0"

definition memblock_set_region_node :: "memblock_region \<Rightarrow> int \<Rightarrow> memblock_region" where
  "memblock_set_region_node r nid = r"

definition memblock_cap_size :: "phys_addr_t \<Rightarrow> phys_addr_t \<Rightarrow> phys_addr_t" where
  "memblock_cap_size base sz = (if sz < PHYS_ADDR_MAX - base then sz else PHYS_ADDR_MAX - base)"

definition memblock_insert_region ::
  "memblock_type \<Rightarrow> nat \<Rightarrow> phys_addr_t \<Rightarrow> phys_addr_t \<Rightarrow> int \<Rightarrow> u32 \<Rightarrow> memblock_type option" where
  "memblock_insert_region type idx base sz nid flags =
     (if cnt type \<ge> max_cnt type then None
      else
        let moved = memmove (regions type) (idx + 1) idx (cnt type - idx);
            rgn = (moved ! idx)\<lparr>r_base := base, r_size := sz, r_flags := flags\<rparr>;
            rgn = memblock_set_region_node rgn nid
        in Some (type\<lparr>regions := moved[idx := rgn], cnt := cnt type + 1,
                      total_size := total_size type + sz\<rparr>))"

function memblock_merge_loop :: "nat \<Rightarrow> memblock_type \<Rightarrow> memblock_type option" where
  "memblock_merge_loop i type =
     (if i < cnt type - 1 then
        let this = regions type ! i; nxt = regions type ! (i + 1) in
        if r_base this + r_size this \<noteq> r_base nxt \<or>
           memblock_get_region_node this \<noteq> memblock_get_region_node nxt \<or>
           r_flags this \<noteq> r_flags nxt then
          (if r_base this + r_size this > r_base nxt then None
           else memblock_merge_loop (i + 1) type)
        else
          let merged = (regions type)[i := this\<lparr>r_size := r_size this + r_size nxt\<rparr>]
          in memblock_merge_loop i
               (type\<lparr>regions := memmove merged (i + 1) (i + 2) (cnt type - (i + 2)),
                     cnt := cnt type - 1\<rparr>)
      else Some type)"
  by pat_completeness auto
termination
  by (relation "measure (\<lambda>(i, type). cnt type - i)") auto

declare memblock_merge_loop.simps [simp del]

definition memblock_merge_regions :: "memblock_type \<Rightarrow> memblock_type option" where
  "memblock_merge_regions type = memblock_merge_loop 0 type"

definition memblock_remove_region :: "memblock_type \<Rightarrow> nat \<Rightarrow> memblock_type" where
  "memblock_remove_region type r =
     (let type = type\<lparr>total_size := total_size type - r_size (regions type ! r),
                      regions := memmove (regions type) r (r + 1) (cnt type - (r + 1)),
                      cnt := cnt type - 1\<rparr>
      in if cnt type = 0 then
           type\<lparr>cnt := 1,
                regions := (regions type)[0 := memblock_set_region_node empty_region 1]\<rparr>
         else type)"

text \<open>
  The loop of \<open>memblock_isolate_range\<close>. After a split from above the source decrements
  \<open>idx\<close>, so that the increment of the \<open>for\<close> visits the same index again.
\<close>

partial_function (option) memblock_isolate_loop ::
  "phys_addr_t \<Rightarrow> phys_addr_t \<Rightarrow> nat \<Rightarrow> nat \<Rightarrow> nat \<Rightarrow> memblock_type \<Rightarrow> (nat \<times> nat \<times> memblock_type) option" where
  "memblock_isolate_loop base fin idx start_rgn end_rgn type =
     (if idx < cnt type then
        let rgn = regions type ! idx;
            rbase = r_base rgn;
            rend = rbase + r_size rgn
        in
        if rbase \<ge> fin then Some (start_rgn, end_rgn, type)
        else if rend \<le> base then memblock_isolate_loop base fin (idx + 1) start_rgn end_rgn type
        else if rbase < base then
          (let rgn = rgn\<lparr>r_base := base, r_size := r_size rgn - (base - rbase)\<rparr>;
               type = type\<lparr>regions := (regions type)[idx := rgn],
                           total_size := total_size type - (base - rbase)\<rparr>
           in memblock_insert_region type idx rbase (base - rbase) (memblock_get_region_node rgn) (r_flags rgn)
              \<bind> memblock_isolate_loop base fin (idx + 1) start_rgn end_rgn)
        else if rend > fin then
          (let rgn = rgn\<lparr>r_base := fin, r_size := r_size rgn - (fin - rbase)\<rparr>;
               type = type\<lparr>regions := (regions type)[idx := rgn],
                           total_size := total_size type - (fin - rbase)\<rparr>
           in memblock_insert_region type idx rbase (fin - rbase) (memblock_get_region_node rgn) (r_flags rgn)
              \<bind> memblock_isolate_loop base fin idx start_rgn end_rgn)
        else
          memblock_isolate_loop base fin (idx + 1)
            (if end_rgn = 0 then idx else start_rgn) (idx + 1) type
      else Some (start_rgn, end_rgn, type))"

text \<open>
  The loop of \<open>memblock_add_range\<close> over the regions, with the fragment it adds when it is left.
  It returns the number of regions needed and, with \<open>insert\<close>, the array with them.
\<close>

partial_function (option) memblock_add_loop ::
  "bool \<Rightarrow> phys_addr_t \<Rightarrow> int \<Rightarrow> u32 \<Rightarrow> nat \<Rightarrow> phys_addr_t \<Rightarrow> nat \<Rightarrow> memblock_type \<Rightarrow>
   (nat \<times> memblock_type) option" where
  "memblock_add_loop insrt fin nid flags idx base nr_new type =
     (let rgn = regions type ! idx;
          rbase = r_base rgn;
          rend = rbase + r_size rgn
      in
      if idx < cnt type \<and> \<not> rbase \<ge> fin then
        if rend \<le> base then memblock_add_loop insrt fin nid flags (idx + 1) base nr_new type
        else if rbase > base then
          (if insrt then
             memblock_insert_region type idx base (rbase - base) nid flags
             \<bind> memblock_add_loop insrt fin nid flags (idx + 2) (min rend fin) (nr_new + 1)
           else memblock_add_loop insrt fin nid flags (idx + 1) (min rend fin) (nr_new + 1) type)
        else memblock_add_loop insrt fin nid flags (idx + 1) (min rend fin) nr_new type
      else if base < fin then
        (if insrt then
           map_option (\<lambda>type. (nr_new + 1, type)) (memblock_insert_region type idx base (fin - base) nid flags)
         else Some (nr_new + 1, type))
      else Some (nr_new, type))"

text \<open>\<open>for (i = end_rgn - 1; i >= start_rgn; i--) memblock_remove_region(type, i)\<close>\<close>

fun memblock_remove_loop :: "nat \<Rightarrow> nat \<Rightarrow> memblock_type \<Rightarrow> memblock_type" where
  "memblock_remove_loop start_rgn 0 type = type"
| "memblock_remove_loop start_rgn (Suc i) type =
     (if i \<ge> start_rgn then memblock_remove_loop start_rgn i (memblock_remove_region type i) else type)"

section \<open>Regions as intervals\<close>

definition rb :: "memblock_region \<Rightarrow> nat" where "rb r = unat (r_base r)"
definition re :: "memblock_region \<Rightarrow> nat" where "re r = unat (r_base r) + unat (r_size r)"

definition region_ok :: "memblock_region \<Rightarrow> bool" where
  "region_ok r \<longleftrightarrow> rb r < re r \<and> re r < 2 ^ 32"

definition mk_region :: "nat \<Rightarrow> nat \<Rightarrow> u32 \<Rightarrow> memblock_region" where
  "mk_region lo hi f = \<lparr>r_base = of_nat lo, r_size = of_nat (hi - lo), r_flags = f\<rparr>"

lemma rb_mk [simp]: "lo < 2 ^ 32 \<Longrightarrow> rb (mk_region lo hi f) = lo"
  by (simp add: rb_def mk_region_def unat_of_nat take_bit_nat_eq_self)

lemma re_mk [simp]: "lo \<le> hi \<Longrightarrow> hi < 2 ^ 32 \<Longrightarrow> re (mk_region lo hi f) = hi"
  by (simp add: re_def mk_region_def unat_of_nat take_bit_nat_eq_self del: of_nat_diff)

lemma flags_mk [simp]: "r_flags (mk_region lo hi f) = f"
  by (simp add: mk_region_def)

lemma mk_region_eq:
  assumes "re r < 2 ^ 32" shows "mk_region (rb r) (re r) (r_flags r) = r"
  by (simp add: mk_region_def rb_def re_def)

lemma unat_region_end: "re r < 2 ^ 32 \<Longrightarrow> unat (r_base r + r_size r) = re r"
  by (simp add: re_def unat_word_ariths)

lemma region_cmp:
  assumes "re r < 2 ^ 32"
  shows "r_base r + r_size r \<le> w \<longleftrightarrow> re r \<le> unat w" and "w < r_base r + r_size r \<longleftrightarrow> unat w < re r"
    and "r_base r < w \<longleftrightarrow> rb r < unat w" and "w \<le> r_base r \<longleftrightarrow> unat w \<le> rb r" and "w < r_base r \<longleftrightarrow> unat w < rb r"
    and "r_base r + r_size r = r_base r' \<longleftrightarrow> re r = rb r'"
  using unat_region_end [OF assms]
  by (simp_all add: word_le_nat_alt word_less_nat_alt rb_def word_unat_eq_iff)

definition wf_regions :: "memblock_region list \<Rightarrow> bool" where
  "wf_regions rs \<longleftrightarrow> sorted_wrt (\<lambda>a b. re a \<le> rb b) rs \<and> (\<forall>r \<in> set rs. region_ok r)"

definition flag_at :: "memblock_region list \<Rightarrow> nat \<Rightarrow> u32 option" where
  "flag_at rs x = map_option r_flags (find (\<lambda>r. rb r \<le> x \<and> x < re r) rs)"

lemma flag_at_Nil [simp]: "flag_at [] x = None"
  by (simp add: flag_at_def)

lemma flag_at_Cons: "flag_at (r # rs) x = (if rb r \<le> x \<and> x < re r then Some (r_flags r) else flag_at rs x)"
  by (simp add: flag_at_def)

lemma flag_at_append: "flag_at (xs @ ys) x = (case flag_at xs x of None \<Rightarrow> flag_at ys x | Some f \<Rightarrow> Some f)"
  by (induction xs) (auto simp: flag_at_Cons)

lemma flag_at_None: "flag_at rs x = None \<longleftrightarrow> (\<forall>r \<in> set rs. \<not> (rb r \<le> x \<and> x < re r))"
  by (induction rs) (auto simp: flag_at_Cons)

lemma wf_regions_Cons: "wf_regions (r # rs) \<longleftrightarrow> region_ok r \<and> wf_regions rs \<and> (\<forall>q \<in> set rs. re r \<le> rb q)"
  by (auto simp: wf_regions_def)

lemma wf_regions_append:
  "wf_regions (xs @ ys) \<longleftrightarrow> wf_regions xs \<and> wf_regions ys \<and> (\<forall>a \<in> set xs. \<forall>b \<in> set ys. re a \<le> rb b)"
  by (auto simp: wf_regions_def sorted_wrt_append)

lemma wf_regions_Nil [simp]: "wf_regions []"
  by (simp add: wf_regions_def)

lemma wf_flag_below: "wf_regions (r # rs) \<Longrightarrow> x < re r \<Longrightarrow> flag_at rs x = None"
  by (fastforce simp: wf_regions_Cons flag_at_None)

section \<open>The array behind a list of regions\<close>

definition rp :: "memblock_type \<Rightarrow> memblock_region list \<Rightarrow> bool" where
  "rp t xs \<longleftrightarrow> take (cnt t) (regions t) = xs \<and> length (regions t) = max_cnt t \<and> cnt t \<le> max_cnt t \<and>
     total_size t = sum_list (map r_size xs)"

definition same_conf :: "memblock_type \<Rightarrow> memblock_type \<Rightarrow> bool" where
  "same_conf t t' \<longleftrightarrow> max_cnt t' = max_cnt t \<and> regions_at t' = regions_at t \<and> t_name t' = t_name t"

lemma same_conf_refl [simp]: "same_conf t t"
  by (simp add: same_conf_def)

lemma same_conf_trans: "same_conf t t' \<Longrightarrow> same_conf t' t'' \<Longrightarrow> same_conf t t''"
  by (simp add: same_conf_def)

lemma rp_cnt: "rp t xs \<Longrightarrow> cnt t = length xs"
  by (auto simp: rp_def)

lemma rp_nth: "rp t xs \<Longrightarrow> i < length xs \<Longrightarrow> regions t ! i = xs ! i"
  by (auto simp: rp_def)

lemma rp_insert:
  assumes "rp t xs" and "idx \<le> length xs" and "length xs < max_cnt t"
  obtains t' where "memblock_insert_region t idx base sz nid flags = Some t'"
    and "rp t' (take idx xs @ \<lparr>r_base = base, r_size = sz, r_flags = flags\<rparr> # drop idx xs)" and "same_conf t t'"
proof -
  let ?moved = "memmove (regions t) (Suc idx) idx (cnt t - idx)"
  let ?r = "(?moved ! idx)\<lparr>r_base := base, r_size := sz, r_flags := flags\<rparr>"
  let ?t = "t\<lparr>regions := ?moved[idx := ?r], cnt := Suc (cnt t), total_size := total_size t + sz\<rparr>"
  have cnt: "cnt t = length xs" and len: "length (regions t) = max_cnt t" and xs: "take (cnt t) (regions t) = xs"
    using rp_cnt [OF assms(1)] assms(1) unfolding rp_def by simp_all
  have r: "?r = \<lparr>r_base = base, r_size = sz, r_flags = flags\<rparr>" by (cases "?moved ! idx") simp
  have "idx \<le> cnt t" "cnt t < length (regions t)" using assms cnt len by simp_all
  then have "take (Suc (cnt t)) (?moved[idx := ?r]) = take idx xs @ ?r # drop idx xs"
    by (rule take_memmove_insert [of idx "cnt t" "regions t" ?r, unfolded xs])
  moreover have "sum_list (map r_size (take idx xs @ ?r # drop idx xs)) = total_size t + sz"
  proof -
    have "sum_list (map r_size xs) = sum_list (map r_size (take idx xs)) + sum_list (map r_size (drop idx xs))"
      by (metis append_take_drop_id map_append sum_list_append)
    then show ?thesis using assms(1) by (simp add: rp_def)
  qed
  ultimately have "rp ?t (take idx xs @ \<lparr>r_base = base, r_size = sz, r_flags = flags\<rparr> # drop idx xs)"
    unfolding rp_def r using assms(2,3) cnt len by simp
  moreover have "memblock_insert_region t idx base sz nid flags = Some ?t"
    using assms cnt by (simp add: memblock_insert_region_def memblock_set_region_node_def Let_def)
  ultimately show ?thesis using that by (simp add: same_conf_def)
qed

lemma rp_update:
  assumes "rp t xs" and "idx < length xs"
  shows "rp (t\<lparr>regions := (regions t)[idx := r], total_size := total_size t - r_size (xs ! idx) + r_size r\<rparr>) (xs[idx := r])"
proof -
  have "sum_list (map r_size (xs[idx := r])) = sum_list (map r_size xs) - r_size (xs ! idx) + r_size r"
    using assms(2)
    by (induction xs arbitrary: idx) (auto split: nat.splits simp: algebra_simps less_Suc_eq_0_disj)
  then show ?thesis using assms by (auto simp: rp_def take_update_swap)
qed

lemma rp_remove:
  assumes "rp t xs" and "i < length xs"
  defines "ys \<equiv> take i xs @ drop (Suc i) xs"
  shows "rp (memblock_remove_region t i) (if ys = [] then [empty_region] else ys)" and "same_conf t (memblock_remove_region t i)"
proof -
  have cnt: "cnt t = length xs" and len: "length (regions t) = max_cnt t" and xs: "take (cnt t) (regions t) = xs"
    and le: "cnt t \<le> max_cnt t" and tot: "total_size t = sum_list (map r_size xs)"
    using rp_cnt [OF assms(1)] assms(1) unfolding rp_def by simp_all
  let ?regs = "memmove (regions t) i (Suc i) (cnt t - Suc i)"
  have i: "i < cnt t" "cnt t \<le> length (regions t)" using assms(2) cnt len le by simp_all
  then have ys: "take (cnt t - 1) ?regs = ys"
    unfolding ys_def by (rule take_memmove_delete [of i "cnt t" "regions t", unfolded xs])
  have lens: "length ?regs = max_cnt t" using i len by simp
  have "xs = take i xs @ xs ! i # drop (Suc i) xs" using assms(2) by (rule id_take_nth_drop)
  then have "sum_list (map r_size xs) = sum_list (map r_size (take i xs @ xs ! i # drop (Suc i) xs))" by simp
  then have sum: "sum_list (map r_size ys) = total_size t - r_size (regions t ! i)"
    using rp_nth [OF assms(1,2)] by (simp add: tot ys_def)
  have lys: "length ys = cnt t - 1" using assms(2) cnt by (simp add: ys_def)
  show "same_conf t (memblock_remove_region t i)"
    by (simp add: memblock_remove_region_def Let_def same_conf_def)
  show "rp (memblock_remove_region t i) (if ys = [] then [empty_region] else ys)"
  proof (cases "ys = []")
    case True
    then have "cnt t = 1" using lys i by simp
    moreover have "0 < length ?regs" using lens i len by simp
    ultimately show ?thesis using True sum lens le
      by (simp add: memblock_remove_region_def rp_def memblock_set_region_node_def take_Suc_conv_app_nth)
  next
    case False
    then have "cnt t - 1 \<noteq> 0" using lys by auto
    then show ?thesis using False ys sum lens le
      by (simp add: memblock_remove_region_def rp_def)
  qed
qed

section \<open>Merging\<close>

definition compatible :: "memblock_region \<Rightarrow> memblock_region \<Rightarrow> bool" where
  "compatible a b \<longleftrightarrow> re a = rb b \<and> r_flags a = r_flags b"

fun merge_list :: "memblock_region list \<Rightarrow> memblock_region list" where
  "merge_list [] = []"
| "merge_list [a] = [a]"
| "merge_list (a # b # rs) =
     (if compatible a b then merge_list (a\<lparr>r_size := r_size a + r_size b\<rparr> # rs) else a # merge_list (b # rs))"

lemma merged_region:
  assumes "region_ok a" and "region_ok b" and "compatible a b"
  defines "m \<equiv> a\<lparr>r_size := r_size a + r_size b\<rparr>"
  shows "rb m = rb a" and "re m = re b" and "region_ok m" and "r_flags m = r_flags a"
proof -
  have le: "re a = rb b" "rb a < re a" "re b < 2 ^ 32" "rb b < re b"
    using assms by (auto simp: compatible_def region_ok_def)
  have "unat (r_size a + r_size b) = unat (r_size a) + unat (r_size b)"
    by (rule unat_add_lem [THEN iffD1]) (use le in \<open>simp add: re_def rb_def\<close>)
  then show "re m = re b" using le by (simp add: m_def re_def rb_def)
  show "rb m = rb a" by (simp add: m_def rb_def)
  then show "region_ok m" using \<open>re m = re b\<close> le by (simp add: region_ok_def)
  show "r_flags m = r_flags a" by (simp add: m_def)
qed

lemma merge_list_bounds:
  "wf_regions xs \<Longrightarrow> r \<in> set (merge_list xs) \<Longrightarrow> \<forall>q \<in> set xs. k \<le> rb q \<Longrightarrow> k \<le> rb r"
proof (induction xs rule: merge_list.induct)
  case (3 a b rs)
  then show ?case using merged_region(1) [of a b] merged_region [of a b]
    by (auto simp: wf_regions_Cons split: if_splits)
qed auto

text \<open>Merging keeps the array well formed, changes no address's flags, and leaves nothing to merge.\<close>

lemma merge_list_wf: "wf_regions xs \<Longrightarrow> wf_regions (merge_list xs)"
proof (induction xs rule: merge_list.induct)
  case (3 a b rs)
  show ?case
  proof (cases "compatible a b")
    case True
    then show ?thesis using 3 merged_region [of a b] by (simp add: wf_regions_Cons)
  next
    case False
    then show ?thesis using 3 merge_list_bounds [of "b # rs" _ "re a"] by (auto simp: wf_regions_Cons)
  qed
qed (auto simp: wf_regions_Cons)

lemma merge_list_flag_at: "wf_regions xs \<Longrightarrow> flag_at (merge_list xs) x = flag_at xs x"
proof (induction xs rule: merge_list.induct)
  case (3 a b rs)
  show ?case
  proof (cases "compatible a b")
    case True
    then have "flag_at (a\<lparr>r_size := r_size a + r_size b\<rparr> # rs) x = flag_at (a # b # rs) x"
      using 3(3) merged_region [of a b] unfolding wf_regions_Cons
      by (auto simp: flag_at_Cons compatible_def region_ok_def)
    moreover have "wf_regions (a\<lparr>r_size := r_size a + r_size b\<rparr> # rs)"
      using 3(3) True merged_region [of a b] by (simp add: wf_regions_Cons)
    ultimately show ?thesis using 3(1) True by simp
  next
    case False
    then show ?thesis using 3 by (simp add: flag_at_Cons wf_regions_Cons)
  qed
qed auto

fun minimal :: "memblock_region list \<Rightarrow> bool" where
  "minimal [] = True"
| "minimal [a] = True"
| "minimal (a # b # rs) \<longleftrightarrow> \<not> compatible a b \<and> minimal (b # rs)"

lemma merge_list_head: "merge_list (a # rs) \<noteq> [] \<and> rb (hd (merge_list (a # rs))) = rb a \<and> r_flags (hd (merge_list (a # rs))) = r_flags a"
  by (induction "a # rs" arbitrary: a rs rule: merge_list.induct) (auto simp: rb_def)

lemma merge_list_minimal: "minimal (merge_list xs)"
proof (induction xs rule: merge_list.induct)
  case (3 a b rs)
  show ?case
  proof (cases "compatible a b")
    case False
    obtain c cs where c: "merge_list (b # rs) = c # cs" "rb c = rb b" "r_flags c = r_flags b"
      using merge_list_head [of b rs] by (cases "merge_list (b # rs)") auto
    then show ?thesis using 3(2) False by (auto simp: compatible_def)
  qed (use 3 in simp)
qed auto

text \<open>The loop of \<open>memblock_merge_regions\<close> computes \<open>merge_list\<close> and never reaches its \<open>BUG_ON\<close>.\<close>

lemma rp_shrink:
  assumes "rp t xs" and "Suc i < length xs" and "r_size m = r_size (xs ! i) + r_size (xs ! Suc i)"
  shows "rp (t\<lparr>regions := memmove ((regions t)[i := m]) (i + 1) (i + 2) (cnt t - (i + 2)), cnt := cnt t - 1\<rparr>)
    (take i xs @ m # drop (Suc (Suc i)) xs)"
proof -
  have cnt: "cnt t = length xs" and len: "length (regions t) = max_cnt t" and xs: "take (cnt t) (regions t) = xs"
    and le: "cnt t \<le> max_cnt t" and tot: "total_size t = sum_list (map r_size xs)"
    using rp_cnt [OF assms(1)] assms(1) unfolding rp_def by simp_all
  let ?u = "(regions t)[i := m]"
  have u: "take (cnt t) ?u = xs[i := m]" using xs by (simp add: take_update_swap)
  have b: "Suc i < cnt t" "cnt t \<le> length ?u" using assms(2) cnt len le by simp_all
  then have "take (cnt t - 1) (memmove ?u (Suc i) (Suc (Suc i)) (cnt t - Suc (Suc i)))
      = take (Suc i) (xs[i := m]) @ drop (Suc (Suc i)) (xs[i := m])"
    by (rule take_memmove_delete [of "Suc i" "cnt t" ?u, unfolded u])
  also have "\<dots> = take i xs @ m # drop (Suc (Suc i)) xs"
    using assms(2) by (simp add: take_Suc_conv_app_nth)
  finally have live: "take (cnt t - 1) (memmove ?u (i + 1) (i + 2) (cnt t - (i + 2))) = take i xs @ m # drop (Suc (Suc i)) xs"
    by simp
  have "xs = take i xs @ xs ! i # xs ! Suc i # drop (Suc (Suc i)) xs"
    using assms(2) by (metis Cons_nth_drop_Suc Suc_lessD append_take_drop_id)
  then have "sum_list (map r_size xs) = sum_list (map r_size (take i xs @ xs ! i # xs ! Suc i # drop (Suc (Suc i)) xs))" by simp
  then have "total_size t = sum_list (map r_size (take i xs @ m # drop (Suc (Suc i)) xs))"
    using assms(3) by (simp add: tot algebra_simps)
  moreover have "length (memmove ?u (i + 1) (i + 2) (cnt t - (i + 2))) = max_cnt t" using b len by simp
  ultimately show ?thesis using live le unfolding rp_def by simp
qed

lemma memblock_merge_loop_list:
  assumes "rp t (pre @ rest)" and "wf_regions rest"
  shows "\<exists>t'. memblock_merge_loop (length pre) t = Some t' \<and> rp t' (pre @ merge_list rest) \<and> same_conf t t'"
  using assms
proof (induction rest arbitrary: pre t rule: merge_list.induct)
  case (3 a b rs)
  let ?i = "length pre"
  have i: "?i < cnt t - 1" using rp_cnt [OF 3(3)] by simp
  have a: "regions t ! ?i = a" and b: "regions t ! (?i + 1) = b"
    using rp_nth [OF 3(3), of ?i] rp_nth [OF 3(3), of "?i + 1"] by (simp_all add: nth_append)
  have ra: "re a < 2 ^ 32" "re a \<le> rb b" using 3(4) by (auto simp: wf_regions_Cons region_ok_def)
  have cmp: "r_base a + r_size a = r_base b \<longleftrightarrow> re a = rb b" "\<not> r_base a + r_size a > r_base b"
    using ra region_cmp(6) [OF ra(1), of b] region_cmp(2) [OF ra(1), of "r_base b"] by (auto simp: rb_def)
  show ?case
  proof (cases "compatible a b")
    case True
    let ?m = "a\<lparr>r_size := r_size a + r_size b\<rparr>"
    let ?t = "t\<lparr>regions := memmove ((regions t)[?i := ?m]) (?i + 1) (?i + 2) (cnt t - (?i + 2)), cnt := cnt t - 1\<rparr>"
    have "memblock_merge_loop ?i t = memblock_merge_loop ?i ?t"
      by (subst memblock_merge_loop.simps)
        (use True i a b cmp in \<open>simp add: Let_def compatible_def memblock_get_region_node_def\<close>)
    moreover have "rp ?t (pre @ ?m # rs)"
      using rp_shrink [OF 3(3), of ?i ?m] by (simp add: nth_append)
    moreover have "wf_regions (?m # rs)"
      using 3(4) True merged_region [of a b] by (simp add: wf_regions_Cons)
    ultimately show ?thesis using 3(1) [OF True, of ?t pre] True by (auto simp: same_conf_def)
  next
    case False
    then have "memblock_merge_loop ?i t = memblock_merge_loop (?i + 1) t"
      by (subst memblock_merge_loop.simps)
        (use i a b cmp in \<open>auto simp: Let_def compatible_def memblock_get_region_node_def\<close>)
    then show ?thesis using 3(2) [OF False, of t "pre @ [a]"] 3(3,4) False by (simp add: wf_regions_Cons)
  qed
next
  case (2 a)
  then show ?case using rp_cnt [OF 2(1)] by (subst memblock_merge_loop.simps) simp
next
  case 1
  then show ?case using rp_cnt [OF 1(1)] by (subst memblock_merge_loop.simps) auto
qed

lemma memblock_merge_regions_list:
  assumes "rp t xs" and "wf_regions xs"
  obtains t' where "memblock_merge_regions t = Some t'" and "rp t' (merge_list xs)" and "same_conf t t'"
  using memblock_merge_loop_list [of t "[]" xs] assms by (auto simp: memblock_merge_regions_def)

section \<open>Adding a range\<close>

text \<open>
  What the second pass of \<open>memblock_add_range\<close> makes of the live regions: the fragments of
  \<open>[base, fin)\<close> that no region covers are inserted between them.
\<close>

fun add_list :: "nat \<Rightarrow> u32 \<Rightarrow> nat \<Rightarrow> memblock_region list \<Rightarrow> memblock_region list" where
  "add_list fin f base [] = (if base < fin then [mk_region base fin f] else [])"
| "add_list fin f base (r # rs) =
     (if fin \<le> rb r then (if base < fin then [mk_region base fin f] else []) @ r # rs
      else if re r \<le> base then r # add_list fin f base rs
      else (if base < rb r then [mk_region base (rb r) f] else []) @ r # add_list fin f (min (re r) fin) rs)"

lemma add_list_bounds:
  "r \<in> set (add_list fin f base rs) \<Longrightarrow> wf_regions rs \<Longrightarrow> fin < 2 ^ 32 \<Longrightarrow>
   (\<forall>q \<in> set rs. k \<le> rb q) \<Longrightarrow> k \<le> base \<Longrightarrow> k \<le> rb r"
proof (induction rs arbitrary: base)
  case (Cons q qs)
  have q: "rb q < re q" "re q < 2 ^ 32" using Cons.prems by (auto simp: wf_regions_Cons region_ok_def)
  consider "r \<in> set (add_list fin f base qs)" | "r \<in> set (add_list fin f (min (re q) fin) qs)" "base < re q" "rb q < fin"
    | "r = q" | "r \<in> set qs" | "r = mk_region base fin f" "base < fin" | "r = mk_region base (rb q) f" "base < rb q"
    using Cons.prems(1) by (auto split: if_splits)
  then show ?case
  proof cases
    case 2
    then show ?thesis using Cons.IH [of "min (re q) fin"] Cons.prems q by (auto simp: wf_regions_Cons)
  qed (use Cons q in \<open>auto simp: wf_regions_Cons\<close>)
qed (auto split: if_splits)

lemma mk_region_ok: "lo < hi \<Longrightarrow> hi < 2 ^ 32 \<Longrightarrow> region_ok (mk_region lo hi f)"
  by (simp add: region_ok_def)

lemma add_list_wf: "wf_regions rs \<Longrightarrow> fin < 2 ^ 32 \<Longrightarrow> wf_regions (add_list fin f base rs)"
proof (induction rs arbitrary: base)
  case (Cons r rs)
  have r: "rb r < re r" "re r < 2 ^ 32" "region_ok r" "\<forall>q \<in> set rs. re r \<le> rb q" "wf_regions rs"
    using Cons.prems by (auto simp: wf_regions_Cons region_ok_def)
  have tail: "re r \<le> rb q" if "re r \<le> k" "q \<in> set (add_list fin f k rs)" for q k
    using add_list_bounds [OF that(2) r(5) Cons.prems(2) r(4) that(1)] .
  consider (stop) "fin \<le> rb r" | (skip) "rb r < fin" "re r \<le> base" | (part) "rb r < fin" "base < re r" "re r \<le> fin"
    | (last) "rb r < fin" "base < re r" "fin < re r" by linarith
  then show ?case
  proof cases
    case stop
    then show ?thesis using Cons.prems r by (force simp: wf_regions_Cons wf_regions_append mk_region_ok)
  next
    case skip
    then show ?thesis using Cons r tail [of base] by (auto simp: wf_regions_Cons)
  next
    case part
    then show ?thesis using Cons r tail [of "re r"] by (force simp: wf_regions_Cons wf_regions_append mk_region_ok)
  next
    case last
    then have "add_list fin f fin rs = rs"
      using r(4) by (cases rs) auto
    then show ?thesis using last Cons r by (force simp: wf_regions_Cons wf_regions_append mk_region_ok)
  qed
qed (auto simp: wf_regions_Cons mk_region_ok)

lemma add_list_flag_at:
  "wf_regions rs \<Longrightarrow> fin < 2 ^ 32 \<Longrightarrow>
   flag_at (add_list fin f base rs) x
   = (case flag_at rs x of Some g \<Rightarrow> Some g | None \<Rightarrow> if base \<le> x \<and> x < fin then Some f else None)"
proof (induction rs arbitrary: base)
  case (Cons r rs)
  have r: "rb r < re r" "re r < 2 ^ 32" "\<forall>q \<in> set rs. re r \<le> rb q" "wf_regions rs"
    using Cons.prems by (auto simp: wf_regions_Cons region_ok_def)
  have low: "x < re r \<Longrightarrow> flag_at rs x = None" using wf_flag_below Cons.prems(1) .
  show ?case
  proof (cases "fin \<le> rb r")
    case True
    then have "flag_at rs x = None" if "x < fin" using that low r by simp
    then show ?thesis using True r Cons.prems(2) by (auto simp: flag_at_Cons flag_at_append split: option.splits)
  next
    case False
    then show ?thesis
      using r low Cons.IH [OF r(4) Cons.prems(2), of base] Cons.IH [OF r(4) Cons.prems(2), of "min (re r) fin"]
      by (auto simp: flag_at_Cons flag_at_append split: option.splits)
  qed
qed (auto simp: flag_at_Cons)

lemma add_list_length: "length rs \<le> length (add_list fin f base rs)"
  by (induction rs arbitrary: base) (auto simp: le_SucI)

lemma mk_region_word:
  "base \<le> fin \<Longrightarrow> \<lparr>r_base = base, r_size = fin - base, r_flags = f\<rparr> = mk_region (unat base) (unat fin) f"
  by (simp add: mk_region_def word_le_nat_alt)

lemma unat_min_word: "unat (min a b :: 'a::len word) = min (unat a) (unat b)"
  by (simp add: min_def word_le_nat_alt)

lemma rp_insert_at:
  assumes "rp t (pre @ rest)" and "base < q" and "length (pre @ rest) < max_cnt t"
  shows "\<exists>t'. memblock_insert_region t (length pre) base (q - base) nid f = Some t' \<and>
    rp t' (pre @ mk_region (unat base) (unat q) f # rest) \<and> same_conf t t'"
proof -
  obtain t' where "memblock_insert_region t (length pre) base (q - base) nid f = Some t'"
    "rp t' (take (length pre) (pre @ rest) @ \<lparr>r_base = base, r_size = q - base, r_flags = f\<rparr> # drop (length pre) (pre @ rest))"
    "same_conf t t'"
    by (rule rp_insert [OF assms(1), of "length pre" base "q - base" nid f]) (use assms in simp_all)
  then show ?thesis using mk_region_word [of base q f] assms(2) by simp
qed

lemmas add_loop_unfold = memblock_add_loop.simps [unfolded Let_def]

lemma memblock_add_loop_count:
  assumes "rp t (pre @ rest)" and "wf_regions rest"
  shows "memblock_add_loop False fin nid f (length pre) base nr t
    = Some (nr + (length (add_list (unat fin) f (unat base) rest) - length rest), t)"
  using assms
proof (induction rest arbitrary: pre base nr)
  case Nil
  then show ?case using rp_cnt [OF Nil(1)] by (subst add_loop_unfold) (auto simp: word_less_nat_alt)
next
  case (Cons r rs)
  let ?i = "length pre"
  have i: "?i < cnt t" "regions t ! ?i = r" using rp_cnt [OF Cons(2)] rp_nth [OF Cons(2), of ?i] by simp_all
  have r: "re r < 2 ^ 32" using Cons(3) by (auto simp: wf_regions_Cons region_ok_def)
  note cmp = region_cmp [OF r]
  have IH: "memblock_add_loop False fin nid f (Suc ?i) b n t
    = Some (n + (length (add_list (unat fin) f (unat b) rs) - length rs), t)" for b n
    using Cons(1) [of "pre @ [r]" b n] Cons(2,3) by (simp add: wf_regions_Cons)
  show ?case
    by (subst add_loop_unfold)
      (use i add_list_length [of rs "unat fin" f] in
        \<open>auto simp: cmp IH unat_min_word unat_region_end [OF r] word_less_nat_alt [of base] Suc_diff_le\<close>)
qed

lemma memblock_add_loop_insert:
  assumes "rp t (pre @ rest)" and "wf_regions rest"
    and "length (pre @ add_list (unat fin) f (unat base) rest) \<le> max_cnt t"
  shows "\<exists>t'. memblock_add_loop True fin nid f (length pre) base nr t
      = Some (nr + (length (add_list (unat fin) f (unat base) rest) - length rest), t') \<and>
    rp t' (pre @ add_list (unat fin) f (unat base) rest) \<and> same_conf t t'"
  using assms
proof (induction rest arbitrary: pre base nr t)
  case Nil
  have i: "\<not> length pre < cnt t" using rp_cnt [OF Nil(1)] by simp
  show ?case
  proof (cases "base < fin")
    case True
    then obtain t' where "memblock_insert_region t (length pre) base (fin - base) nid f = Some t'"
      "rp t' (pre @ [mk_region (unat base) (unat fin) f])" "same_conf t t'"
      using rp_insert_at [OF Nil(1), of base fin nid f] Nil(3) by (auto simp: word_less_nat_alt)
    then show ?thesis using i True by (subst add_loop_unfold) (auto simp: word_less_nat_alt)
  next
    case False
    then show ?thesis using i Nil by (subst add_loop_unfold) (auto simp: word_less_nat_alt)
  qed
next
  case (Cons r rs)
  let ?i = "length pre"
  have i: "?i < cnt t" "regions t ! ?i = r" using rp_cnt [OF Cons(2)] rp_nth [OF Cons(2), of ?i] by simp_all
  have r: "re r < 2 ^ 32" "rb r < re r" "wf_regions rs" using Cons(3) by (auto simp: wf_regions_Cons region_ok_def)
  note cmp = region_cmp [OF r(1)]
  note len = add_list_length [of rs "unat fin" f]
  note new = rp_insert_at [OF Cons(2), where base = base and f = f and nid = nid]
  consider (stop) "unat fin \<le> rb r" "unat base < unat fin" | (end_) "unat fin \<le> rb r" "\<not> unat base < unat fin"
    | (skip) "\<not> unat fin \<le> rb r" "re r \<le> unat base"
    | (gap) "\<not> unat fin \<le> rb r" "\<not> re r \<le> unat base" "unat base < rb r"
    | (cover) "\<not> unat fin \<le> rb r" "\<not> re r \<le> unat base" "\<not> unat base < rb r" by blast
  then show ?case
  proof cases
    case stop
    then obtain t' where "memblock_insert_region t ?i base (fin - base) nid f = Some t'"
      "rp t' (pre @ mk_region (unat base) (unat fin) f # r # rs)" "same_conf t t'"
      using new [of fin] Cons(4) by (auto simp: word_less_nat_alt)
    then show ?thesis using i stop by (subst add_loop_unfold) (auto simp: cmp word_less_nat_alt)
  next
    case end_
    then show ?thesis using i Cons(2) by (subst add_loop_unfold) (auto simp: cmp word_less_nat_alt)
  next
    case skip
    then show ?thesis using i Cons(1) [of t "pre @ [r]" base nr] Cons(2-4) r(3) len [of "unat base"]
      by (subst add_loop_unfold) (simp add: cmp Suc_diff_le)
  next
    case gap
    let ?b = "min (r_base r + r_size r) fin"
    have ub: "unat ?b = min (re r) (unat fin)" by (simp add: unat_min_word unat_region_end [OF r(1)])
    obtain t1 where t1: "memblock_insert_region t ?i base (r_base r - base) nid f = Some t1"
      "rp t1 (pre @ mk_region (unat base) (rb r) f # r # rs)" "same_conf t t1"
      using new [of "r_base r"] gap Cons(4) len [of "min (re r) (unat fin)"] by (auto simp: word_less_nat_alt rb_def)
    have "\<exists>t'. memblock_add_loop True fin nid f (?i + 2) ?b (nr + 1) t1
        = Some (nr + 1 + (length (add_list (unat fin) f (unat ?b) rs) - length rs), t') \<and>
      rp t' ((pre @ [mk_region (unat base) (rb r) f, r]) @ add_list (unat fin) f (unat ?b) rs) \<and> same_conf t1 t'"
      using Cons(1) [of t1 "pre @ [mk_region (unat base) (rb r) f, r]" ?b "nr + 1"] t1 gap Cons(4) r(3) ub
      by (auto simp: same_conf_def)
    then show ?thesis using gap i t1 len [of "unat ?b"] ub same_conf_trans [OF t1(3)]
      by (subst add_loop_unfold) (auto simp: cmp Suc_diff_le)
  next
    case cover
    let ?b = "min (r_base r + r_size r) fin"
    have ub: "unat ?b = min (re r) (unat fin)" by (simp add: unat_min_word unat_region_end [OF r(1)])
    show ?thesis using cover i Cons(1) [of t "pre @ [r]" ?b nr] Cons(2-4) r(3) len [of "unat ?b"] ub
      by (subst add_loop_unfold) (simp add: cmp Suc_diff_le)
  qed
qed

section \<open>Isolating and removing a range\<close>

definition restrict :: "nat \<Rightarrow> nat \<Rightarrow> memblock_region list \<Rightarrow> memblock_region list" where
  "restrict lo hi rs =
     map (\<lambda>r. mk_region (max lo (rb r)) (min hi (re r)) (r_flags r)) (filter (\<lambda>r. rb r < hi \<and> lo < re r) rs)"

definition above :: "nat \<Rightarrow> memblock_region list \<Rightarrow> memblock_region list" where
  "above lo rs = restrict lo (2 ^ 32) rs"

lemma restrict_Nil [simp]: "restrict lo hi [] = []"
  by (simp add: restrict_def)

lemma restrict_Cons:
  "restrict lo hi (r # rs) =
     (if rb r < hi \<and> lo < re r then [mk_region (max lo (rb r)) (min hi (re r)) (r_flags r)] else []) @ restrict lo hi rs"
  by (simp add: restrict_def)

lemma above_Cons:
  "above lo (r # rs) =
     (if rb r < 2 ^ 32 \<and> lo < re r then [mk_region (max lo (rb r)) (min (2 ^ 32) (re r)) (r_flags r)] else []) @ above lo rs"
  unfolding above_def by (rule restrict_Cons)

lemma above_Nil [simp]: "above lo [] = []"
  by (simp add: above_def)

lemma restrict_none: "(\<forall>r \<in> set rs. hi \<le> rb r \<or> re r \<le> lo) \<Longrightarrow> restrict lo hi rs = []"
  by (auto simp: restrict_def filter_empty_conv)

lemma restrict_all:
  assumes "wf_regions rs" and "\<forall>r \<in> set rs. lo \<le> rb r \<and> re r \<le> hi"
  shows "restrict lo hi rs = rs"
  using assms
proof (induction rs)
  case (Cons r rs)
  then have "region_ok r" "wf_regions rs" by (simp_all add: wf_regions_Cons)
  then show ?case using Cons mk_region_eq [of r] by (auto simp: restrict_Cons region_ok_def max_def min_def)
qed simp

lemma restrict_wf: "wf_regions rs \<Longrightarrow> lo < hi \<Longrightarrow> wf_regions (restrict lo hi rs)"
proof (induction rs)
  case (Cons r rs)
  have r: "rb r < re r" "re r < 2 ^ 32" using Cons.prems by (auto simp: wf_regions_Cons region_ok_def)
  have "re r \<le> rb q \<and> rb q < 2 ^ 32" if "q \<in> set rs" for q
    using Cons.prems that by (auto simp: wf_regions_Cons wf_regions_def region_ok_def)
  then have "min hi (re r) \<le> rb q" if "q \<in> set (restrict lo hi rs)" for q
    using that Cons.prems by (force simp: restrict_def wf_regions_Cons wf_regions_def region_ok_def)
  then show ?case using Cons r by (auto simp: restrict_Cons wf_regions_Cons region_ok_def)
qed simp

lemma restrict_flag_at:
  "wf_regions rs \<Longrightarrow> lo < hi \<Longrightarrow> flag_at (restrict lo hi rs) x = (if lo \<le> x \<and> x < hi then flag_at rs x else None)"
proof (induction rs)
  case (Cons r rs)
  have r: "rb r < re r" "re r < 2 ^ 32" using Cons.prems by (auto simp: wf_regions_Cons region_ok_def)
  then show ?case using Cons wf_flag_below [OF Cons.prems(1), of x]
    by (auto simp: restrict_Cons flag_at_Cons flag_at_append wf_regions_Cons)
qed simp

lemma restrict_range: "q \<in> set (restrict lo hi rs) \<Longrightarrow> wf_regions rs \<Longrightarrow> lo < hi \<Longrightarrow> lo \<le> rb q \<and> re q \<le> hi"
  by (force simp: restrict_def wf_regions_def region_ok_def)

lemma rp_resize:
  assumes "rp t xs" and "idx < length xs" and "r_size r = r_size (xs ! idx) - d"
  shows "rp (t\<lparr>regions := (regions t)[idx := r], total_size := total_size t - d\<rparr>) (xs[idx := r])"
proof -
  have eq: "total_size t - r_size (xs ! idx) + r_size r = total_size t - d" using assms(3) by simp
  show ?thesis using rp_update [OF assms(1,2), of r] unfolding eq .
qed

text \<open>Splitting the region behind \<open>pre\<close> at \<open>k\<close>, as both branches of the loop do.\<close>

lemma rp_split:
  assumes "rp t (pre @ r # rs)" and "region_ok r" and "rb r < unat k" and "unat k < re r"
    and "length (pre @ r # rs) < max_cnt t"
  shows "\<exists>t'. memblock_insert_region
        (t\<lparr>regions := (regions t)[length pre := r\<lparr>r_base := k, r_size := r_size r - (k - r_base r)\<rparr>],
           total_size := total_size t - (k - r_base r)\<rparr>) (length pre) (r_base r) (k - r_base r) nid (r_flags r) = Some t' \<and>
    rp t' (pre @ mk_region (rb r) (unat k) (r_flags r) # mk_region (unat k) (re r) (r_flags r) # rs) \<and> same_conf t t'"
proof -
  let ?top = "r\<lparr>r_base := k, r_size := r_size r - (k - r_base r)\<rparr>"
  let ?t = "t\<lparr>regions := (regions t)[length pre := ?top], total_size := total_size t - (k - r_base r)\<rparr>"
  have "of_nat (re r - unat k) = r_size r - (k - r_base r)"
    using assms(4) by (simp add: re_def of_nat_diff)
  then have top: "?top = mk_region (unat k) (re r) (r_flags r)" by (simp add: mk_region_def)
  have "rp ?t (pre @ ?top # rs)" using rp_resize [OF assms(1), of "length pre" ?top "k - r_base r"] by simp
  then show ?thesis
    using rp_insert_at [of ?t pre "?top # rs" "r_base r" k nid "r_flags r"] assms(3,5)
    by (auto simp: top word_less_nat_alt rb_def same_conf_def)
qed

lemmas isolate_unfold = memblock_isolate_loop.simps [unfolded Let_def]

text \<open>What the loop does to the regions it has not visited yet.\<close>

definition isolated :: "phys_addr_t \<Rightarrow> phys_addr_t \<Rightarrow> memblock_region list \<Rightarrow> memblock_region list" where
  "isolated base fin rs =
     restrict 0 (unat base) rs @ restrict (unat base) (unat fin) rs @ above (unat fin) rs"

definition isolate_result ::
  "phys_addr_t \<Rightarrow> phys_addr_t \<Rightarrow> nat \<Rightarrow> nat \<Rightarrow> nat \<Rightarrow> memblock_region list \<Rightarrow> nat \<times> nat" where
  "isolate_result base fin idx s e rs =
     (let lo = length (restrict 0 (unat base) rs); mid = length (restrict (unat base) (unat fin) rs)
      in if mid = 0 then (s, e) else (if e = 0 then idx + lo else s, idx + lo + mid))"

definition isolates :: "phys_addr_t \<Rightarrow> phys_addr_t \<Rightarrow> memblock_region list \<Rightarrow> bool" where
  "isolates base fin rest \<longleftrightarrow> (\<forall>t pre s e.
     rp t (pre @ rest) \<longrightarrow> length (pre @ isolated base fin rest) \<le> max_cnt t \<longrightarrow>
     (\<exists>t' s' e'. memblock_isolate_loop base fin (length pre) s e t = Some (s', e', t') \<and>
        (s', e') = isolate_result base fin (length pre) s e rest \<and>
        rp t' (pre @ isolated base fin rest) \<and> same_conf t t'))"

lemma isolate_above:
  assumes "wf_regions rs" and "base < fin" and "\<forall>r \<in> set rs. unat fin \<le> rb r"
  shows "isolated base fin rs = rs" and "isolate_result base fin i s e rs = (s, e)"
proof -
  have "unat base < unat fin" using assms(2) by (simp add: word_less_nat_alt)
  then have "\<forall>r \<in> set rs. unat base \<le> rb r" using assms(3) by auto
  then have "restrict 0 (unat base) rs = []" "restrict (unat base) (unat fin) rs = []"
    using assms(3) by (auto intro!: restrict_none)
  moreover have "above (unat fin) rs = rs"
    unfolding above_def using assms by (intro restrict_all) (auto simp: wf_regions_def region_ok_def)
  ultimately show "isolated base fin rs = rs" "isolate_result base fin i s e rs = (s, e)"
    by (simp_all add: isolated_def isolate_result_def)
qed

lemma isolate_step_stop:
  assumes "wf_regions (r # rs)" and "base < fin" and "unat fin \<le> rb r"
  shows "isolates base fin (r # rs)"
proof -
  have r: "re r < 2 ^ 32" "\<forall>q \<in> set (r # rs). unat fin \<le> rb q"
    using assms by (auto simp: wf_regions_Cons region_ok_def)
  note above = isolate_above [OF assms(1,2) r(2)]
  show ?thesis unfolding isolates_def
  proof (intro allI impI)
    fix t pre s e assume t: "rp t (pre @ r # rs)"
    then have i: "length pre < cnt t" "regions t ! length pre = r"
      using rp_cnt [OF t] rp_nth [OF t, of "length pre"] by simp_all
    show "\<exists>t' s' e'. memblock_isolate_loop base fin (length pre) s e t = Some (s', e', t') \<and>
        (s', e') = isolate_result base fin (length pre) s e (r # rs) \<and>
        rp t' (pre @ isolated base fin (r # rs)) \<and> same_conf t t'"
      using i t assms(3) by (subst isolate_unfold) (simp add: region_cmp [OF r(1)] above)
  qed
qed

lemma unat_u32_less: "unat (w :: u32) < 2 ^ 32"
  using unsigned_less [of w] by simp

lemma restrict_parts:
  assumes "wf_regions (r # rs)" and "b < e" and "e < 2 ^ 32"
  shows "re r \<le> b \<Longrightarrow> restrict 0 b (r # rs) = r # restrict 0 b rs \<and> restrict b e (r # rs) = restrict b e rs \<and>
      above e (r # rs) = above e rs"
    and "b \<le> rb r \<Longrightarrow> re r \<le> e \<Longrightarrow> restrict 0 b (r # rs) = [] \<and> restrict 0 b rs = [] \<and>
      restrict b e (r # rs) = r # restrict b e rs \<and> above e (r # rs) = above e rs"
    and "b \<le> rb r \<Longrightarrow> rb r < e \<Longrightarrow> e < re r \<Longrightarrow> restrict 0 b (r # rs) = [] \<and>
      restrict b e (r # rs) = [mk_region (rb r) e (r_flags r)] \<and>
      above e (r # rs) = mk_region e (re r) (r_flags r) # rs"
    and "rb r < b \<Longrightarrow> b < re r \<Longrightarrow> isolated (of_nat b) (of_nat e) (r # rs)
      = mk_region (rb r) b (r_flags r) # isolated (of_nat b) (of_nat e) (mk_region b (re r) (r_flags r) # rs)"
proof -
  have r: "rb r < re r" "re r < 2 ^ 32" "wf_regions rs" "\<forall>q \<in> set rs. re r \<le> rb q"
    using assms(1) by (auto simp: wf_regions_Cons region_ok_def)
  note eq = mk_region_eq [OF r(2)]
  have none: "restrict lo hi rs = []" if "hi \<le> re r" for lo hi using that r(4) by (intro restrict_none) fastforce
  show "re r \<le> b \<Longrightarrow> restrict 0 b (r # rs) = r # restrict 0 b rs \<and> restrict b e (r # rs) = restrict b e rs \<and>
      above e (r # rs) = above e rs"
    using assms(2,3) r eq by (auto simp: restrict_Cons above_Cons min_def)
  show "b \<le> rb r \<Longrightarrow> re r \<le> e \<Longrightarrow> restrict 0 b (r # rs) = [] \<and> restrict 0 b rs = [] \<and>
      restrict b e (r # rs) = r # restrict b e rs \<and> above e (r # rs) = above e rs"
    using assms(2,3) r eq none by (auto simp: restrict_Cons above_Cons min_def max_def)
  show "b \<le> rb r \<Longrightarrow> rb r < e \<Longrightarrow> e < re r \<Longrightarrow> restrict 0 b (r # rs) = [] \<and>
      restrict b e (r # rs) = [mk_region (rb r) e (r_flags r)] \<and>
      above e (r # rs) = mk_region e (re r) (r_flags r) # rs"
  proof -
    assume h: "b \<le> rb r" "rb r < e" "e < re r"
    have "above e rs = rs"
      unfolding above_def using r h by (intro restrict_all) (auto simp: wf_regions_def region_ok_def)
    then show ?thesis using h r none by (auto simp: restrict_Cons above_Cons max_def min_def)
  qed
  have u: "unat (of_nat b :: u32) = b" "unat (of_nat e :: u32) = e"
    using assms(2,3) by (simp_all add: unat_of_nat take_bit_nat_eq_self)
  show "rb r < b \<Longrightarrow> b < re r \<Longrightarrow> isolated (of_nat b) (of_nat e) (r # rs)
      = mk_region (rb r) b (r_flags r) # isolated (of_nat b) (of_nat e) (mk_region b (re r) (r_flags r) # rs)"
    unfolding isolated_def u using r none [of b] assms(2,3) by (auto simp: restrict_Cons above_Cons max_def min_def)
qed

lemma isolated_length: "wf_regions rs \<Longrightarrow> length rs \<le> length (isolated base fin rs)"
proof (induction rs)
  case (Cons r rs)
  have "rb r < re r" "re r < 2 ^ 32" using Cons.prems by (auto simp: wf_regions_Cons region_ok_def)
  then show ?case using Cons by (auto simp: isolated_def restrict_Cons above_Cons wf_regions_Cons)
qed simp

lemma isolate_cases_facts:
  assumes "rp t (pre @ r # rs)" shows "length pre < cnt t" and "regions t ! length pre = r"
  using rp_cnt [OF assms] rp_nth [OF assms, of "length pre"] by simp_all

lemma isolate_step_skip:
  assumes "wf_regions (r # rs)" and "base < fin" and "re r \<le> unat base" and "isolates base fin rs"
  shows "isolates base fin (r # rs)"
proof -
  have b: "unat base < unat fin" using assms(2) by (simp add: word_less_nat_alt)
  have r: "re r < 2 ^ 32" "rb r < unat fin" using assms(1,3) b by (auto simp: wf_regions_Cons region_ok_def)
  note parts = restrict_parts(1) [OF assms(1) b unat_u32_less assms(3)]
  have eq: "isolated base fin (r # rs) = r # isolated base fin rs" by (simp add: isolated_def parts)
  have res: "isolate_result base fin i s e (r # rs) = isolate_result base fin (i + 1) s e rs" for i s e
    by (simp add: isolate_result_def Let_def parts)
  show ?thesis unfolding isolates_def
  proof (intro allI impI)
    fix t pre s e assume t: "rp t (pre @ r # rs)" and room: "length (pre @ isolated base fin (r # rs)) \<le> max_cnt t"
    have "memblock_isolate_loop base fin (length pre) s e t = memblock_isolate_loop base fin (length (pre @ [r])) s e t"
      by (subst isolate_unfold)
        (use isolate_cases_facts [OF t] assms(3) r in \<open>simp add: region_cmp [OF r(1)] not_le [symmetric]\<close>)
    then show "\<exists>t' s' e'. memblock_isolate_loop base fin (length pre) s e t = Some (s', e', t') \<and>
        (s', e') = isolate_result base fin (length pre) s e (r # rs) \<and>
        rp t' (pre @ isolated base fin (r # rs)) \<and> same_conf t t'"
      using assms(4) [unfolded isolates_def, rule_format, of t "pre @ [r]" s e] t room by (simp add: eq res)
  qed
qed

lemma isolate_step_inside:
  assumes "wf_regions (r # rs)" and "base < fin" and "unat base \<le> rb r" and "re r \<le> unat fin" and "isolates base fin rs"
  shows "isolates base fin (r # rs)"
proof -
  have b: "unat base < unat fin" using assms(2) by (simp add: word_less_nat_alt)
  have r: "re r < 2 ^ 32" "rb r < re r" using assms(1) by (auto simp: wf_regions_Cons region_ok_def)
  note parts = restrict_parts(2) [OF assms(1) b unat_u32_less assms(3,4)]
  have eq: "isolated base fin (r # rs) = r # isolated base fin rs" by (simp add: isolated_def parts)
  have res: "isolate_result base fin i s e (r # rs) = isolate_result base fin (i + 1) (if e = 0 then i else s) (i + 1) rs" for i s e
    by (simp add: isolate_result_def Let_def parts)
  show ?thesis unfolding isolates_def
  proof (intro allI impI)
    fix t pre s e assume t: "rp t (pre @ r # rs)" and room: "length (pre @ isolated base fin (r # rs)) \<le> max_cnt t"
    have "memblock_isolate_loop base fin (length pre) s e t
      = memblock_isolate_loop base fin (length (pre @ [r])) (if e = 0 then length pre else s) (length pre + 1) t"
      by (subst isolate_unfold)
        (use isolate_cases_facts [OF t] assms(3,4) r in \<open>simp add: region_cmp [OF r(1)] not_le [symmetric]\<close>)
    then show "\<exists>t' s' e'. memblock_isolate_loop base fin (length pre) s e t = Some (s', e', t') \<and>
        (s', e') = isolate_result base fin (length pre) s e (r # rs) \<and>
        rp t' (pre @ isolated base fin (r # rs)) \<and> same_conf t t'"
      using assms(5) [unfolded isolates_def, rule_format, of t "pre @ [r]" "if e = 0 then length pre else s" "length pre + 1"] t room
      by (simp add: eq res)
  qed
qed

lemma isolate_step_cut_above:
  assumes "wf_regions (r # rs)" and "base < fin" and "unat base \<le> rb r" and "rb r < unat fin" and "unat fin < re r"
  shows "isolates base fin (r # rs)"
proof -
  have b: "unat base < unat fin" using assms(2) by (simp add: word_less_nat_alt)
  have r: "re r < 2 ^ 32" "region_ok r" "rb r < re r" "\<forall>q \<in> set rs. re r \<le> rb q" "wf_regions rs"
    using assms(1) by (auto simp: wf_regions_Cons region_ok_def)
  note parts = restrict_parts(3) [OF assms(1) b unat_u32_less assms(3-5)]
  let ?mid = "mk_region (rb r) (unat fin) (r_flags r)" and ?high = "mk_region (unat fin) (re r) (r_flags r)"
  have eq: "isolated base fin (r # rs) = ?mid # ?high # rs" by (simp add: isolated_def parts)
  have res: "isolate_result base fin i s e (r # rs) = (if e = 0 then i else s, i + 1)" for i s e
    by (simp add: isolate_result_def Let_def parts)
  have mid: "rb ?mid = rb r" "re ?mid = unat fin" "region_ok ?mid"
    using assms(4) r unat_u32_less [of fin] by (simp_all add: region_ok_def)
  have wf: "wf_regions (?mid # ?high # rs)" using r mid assms(4,5) unat_u32_less [of fin]
    by (auto simp: wf_regions_Cons region_ok_def)
  have "isolates base fin (?high # rs)"
    by (rule isolate_step_stop [OF _ assms(2)]) (use wf unat_u32_less [of fin] in \<open>auto simp: wf_regions_Cons\<close>)
  then have in_: "isolates base fin (?mid # ?high # rs)"
    by (rule isolate_step_inside [OF wf assms(2), rotated -1]) (use mid assms(3) in auto)
  have eq': "isolated base fin (?mid # ?high # rs) = ?mid # ?high # rs"
    and res': "isolate_result base fin i s e (?mid # ?high # rs) = (if e = 0 then i else s, i + 1)" for i s e
  proof -
    have "wf_regions (?high # rs)" "\<forall>q \<in> set (?high # rs). unat fin \<le> rb q"
      using wf r unat_u32_less [of fin] assms(5) by (auto simp: wf_regions_Cons)
    note ab = isolate_above [OF this(1) assms(2) this(2)]
    note p = restrict_parts(2) [OF wf b unat_u32_less] 
    show "isolated base fin (?mid # ?high # rs) = ?mid # ?high # rs"
      using p ab(1) mid assms(3) by (simp add: isolated_def)
    show "isolate_result base fin i s e (?mid # ?high # rs) = (if e = 0 then i else s, i + 1)"
      using p ab(2) [of "i + 1" "if e = 0 then i else s" "i + 1"] mid assms(3)
      by (auto simp: isolate_result_def Let_def split: if_splits)
  qed
  show ?thesis unfolding isolates_def
  proof (intro allI impI)
    fix t pre s e assume t: "rp t (pre @ r # rs)" and room: "length (pre @ isolated base fin (r # rs)) \<le> max_cnt t"
    obtain t1 where t1: "memblock_insert_region
        (t\<lparr>regions := (regions t)[length pre := r\<lparr>r_base := fin, r_size := r_size r - (fin - r_base r)\<rparr>],
           total_size := total_size t - (fin - r_base r)\<rparr>) (length pre) (r_base r) (fin - r_base r) 0 (r_flags r) = Some t1"
      "rp t1 (pre @ ?mid # ?high # rs)" "same_conf t t1"
      using rp_split [OF t r(2) assms(4,5), of 0] room by (auto simp: eq)
    have "memblock_isolate_loop base fin (length pre) s e t = memblock_isolate_loop base fin (length pre) s e t1"
      by (subst isolate_unfold)
        (use isolate_cases_facts [OF t] assms(3-5) r t1(1) b in
          \<open>simp add: region_cmp [OF r(1)] not_le [symmetric] memblock_get_region_node_def\<close>)
    then show "\<exists>t' s' e'. memblock_isolate_loop base fin (length pre) s e t = Some (s', e', t') \<and>
        (s', e') = isolate_result base fin (length pre) s e (r # rs) \<and>
        rp t' (pre @ isolated base fin (r # rs)) \<and> same_conf t t'"
      using in_ [unfolded isolates_def, rule_format, of t1 pre s e] t1 room same_conf_trans [OF t1(3)]
      by (auto simp: eq res eq' res' same_conf_def)
  qed
qed

lemma isolate_step_cut_below:
  assumes "wf_regions (r # rs)" and "base < fin" and "rb r < unat base" and "unat base < re r"
    and "isolates base fin (mk_region (unat base) (re r) (r_flags r) # rs)"
  shows "isolates base fin (r # rs)"
proof -
  have b: "unat base < unat fin" using assms(2) by (simp add: word_less_nat_alt)
  have r: "re r < 2 ^ 32" "region_ok r" "rb r < re r" using assms(1) by (auto simp: wf_regions_Cons region_ok_def)
  let ?low = "mk_region (rb r) (unat base) (r_flags r)" and ?top = "mk_region (unat base) (re r) (r_flags r)"
  have eq: "isolated base fin (r # rs) = ?low # isolated base fin (?top # rs)"
    using restrict_parts(4) [OF assms(1) b unat_u32_less assms(3,4)] by simp
  have none: "restrict 0 (unat base) rs = []"
    using assms(1,4) by (intro restrict_none) (fastforce simp: wf_regions_Cons)
  have res: "isolate_result base fin i s e (r # rs) = isolate_result base fin (i + 1) s e (?top # rs)" for i s e
    using r assms(3,4) none unat_u32_less [of base] b
    by (auto simp: isolate_result_def Let_def restrict_Cons)
  show ?thesis unfolding isolates_def
  proof (intro allI impI)
    fix t pre s e assume t: "rp t (pre @ r # rs)" and room: "length (pre @ isolated base fin (r # rs)) \<le> max_cnt t"
    have "wf_regions (?top # rs)" using assms(1,4) r by (auto simp: wf_regions_Cons region_ok_def)
    then have len: "length (?top # rs) \<le> length (isolated base fin (?top # rs))" by (rule isolated_length)
    obtain t1 where t1: "memblock_insert_region
        (t\<lparr>regions := (regions t)[length pre := r\<lparr>r_base := base, r_size := r_size r - (base - r_base r)\<rparr>],
           total_size := total_size t - (base - r_base r)\<rparr>) (length pre) (r_base r) (base - r_base r) 0 (r_flags r) = Some t1"
      "rp t1 (pre @ ?low # ?top # rs)" "same_conf t t1"
      using rp_split [OF t r(2) assms(3,4), of 0] room len by (auto simp: eq)
    have "memblock_isolate_loop base fin (length pre) s e t = memblock_isolate_loop base fin (length (pre @ [?low])) s e t1"
      by (subst isolate_unfold)
        (use isolate_cases_facts [OF t] assms(3,4) r t1(1) b in
          \<open>simp add: region_cmp [OF r(1)] not_le [symmetric] memblock_get_region_node_def\<close>)
    then show "\<exists>t' s' e'. memblock_isolate_loop base fin (length pre) s e t = Some (s', e', t') \<and>
        (s', e') = isolate_result base fin (length pre) s e (r # rs) \<and>
        rp t' (pre @ isolated base fin (r # rs)) \<and> same_conf t t'"
      using assms(5) [unfolded isolates_def, rule_format, of t1 "pre @ [?low]" s e] t1 room same_conf_trans [OF t1(3)]
      by (auto simp: eq res same_conf_def)
  qed
qed

lemma isolates_all: "wf_regions rs \<Longrightarrow> base < fin \<Longrightarrow> isolates base fin rs"
proof (induction rs)
  case Nil
  have "memblock_isolate_loop base fin (length pre) s e t = Some (s, e, t)" if "rp t pre" for pre s e t
    using rp_cnt [OF that] by (subst isolate_unfold) simp
  then show ?case by (auto simp: isolates_def isolated_def isolate_result_def)
next
  case (Cons r rs)
  have IH: "isolates base fin rs" using Cons by (simp add: wf_regions_Cons)
  note wf = Cons.prems(1) and b = Cons.prems(2)
  have within: "isolates base fin (q # rs)" if "wf_regions (q # rs)" "unat base \<le> rb q" "rb q < unat fin" for q
    using isolate_step_inside [OF that(1) b that(2) _ IH] isolate_step_cut_above [OF that(1) b that(2,3)] by force
  consider "unat fin \<le> rb r" | "re r \<le> unat base" | "rb r < unat base" "unat base < re r"
    | "unat base \<le> rb r" "rb r < unat fin" by linarith
  then show ?case
  proof cases
    case 3
    have "wf_regions (mk_region (unat base) (re r) (r_flags r) # rs)"
      using wf 3 by (auto simp: wf_regions_Cons region_ok_def)
    then have "isolates base fin (mk_region (unat base) (re r) (r_flags r) # rs)"
      by (rule within) (use b unat_u32_less [of base] in \<open>auto simp: word_less_nat_alt\<close>)
    then show ?thesis by (rule isolate_step_cut_below [OF wf b 3])
  qed (use isolate_step_stop [OF wf b] isolate_step_skip [OF wf b _ IH] within [OF wf] in auto)
qed

text \<open>
  The isolation loop returns, with the regions cut at the two boundaries and the index range of
  the regions inside.
\<close>

lemma memblock_isolate_loop_list:
  assumes "rp t rs" and "wf_regions rs" and "base < fin" and "length (isolated base fin rs) \<le> max_cnt t"
  obtains t' s e where "memblock_isolate_loop base fin 0 0 0 t = Some (s, e, t')"
    and "(s, e) = isolate_result base fin 0 0 0 rs" and "rp t' (isolated base fin rs)" and "same_conf t t'"
  using isolates_all [OF assms(2,3), unfolded isolates_def, rule_format, of t "[]" 0 0] assms(1,4) by auto

text \<open>Isolation makes at most two more regions.\<close>

lemma restrict_append: "restrict lo hi (xs @ ys) = restrict lo hi xs @ restrict lo hi ys"
  by (simp add: restrict_def)

lemma restrict_straddle:
  assumes "wf_regions rs" and "b < 2 ^ 32"
  shows "length (filter (\<lambda>r. rb r < b \<and> b < re r) rs) \<le> 1"
  using assms(1)
proof (induction rs)
  case (Cons r rs)
  then show ?case
  proof (cases "rb r < b \<and> b < re r")
    case True
    then have "filter (\<lambda>r. rb r < b \<and> b < re r) rs = []"
      using Cons.prems by (auto simp: wf_regions_Cons filter_empty_conv)
    then show ?thesis by simp
  qed (auto simp: wf_regions_Cons)
qed simp

lemma isolated_length_le:
  assumes "wf_regions rs" and "base < fin"
  shows "length (isolated base fin rs) \<le> length rs + 2"
proof -
  let ?b = "unat base" and ?e = "unat fin"
  have b: "?b < ?e" using assms(2) by (simp add: word_less_nat_alt)
  have "length (isolated base fin qs) \<le> length qs + length (filter (\<lambda>r. rb r < ?b \<and> ?b < re r) qs)
      + length (filter (\<lambda>r. rb r < ?e \<and> ?e < re r) qs)" for qs
    using b by (induction qs) (auto simp: isolated_def restrict_Cons above_Cons)
  from this [of rs] show ?thesis
    using restrict_straddle [OF assms(1) unat_u32_less [of base]] restrict_straddle [OF assms(1) unat_u32_less [of fin]]
    by linarith
qed

lemma isolated_wf:
  assumes "wf_regions rs" and "base < fin" shows "wf_regions (isolated base fin rs)"
proof -
  let ?b = "unat base" and ?e = "unat fin"
  have b: "?b < ?e" "?e < 2 ^ 32" using assms(2) unat_u32_less by (auto simp: word_less_nat_alt)
  have lo: "wf_regions (restrict 0 ?b rs)"
    by (cases "?b = 0") (use restrict_wf [OF assms(1), of 0 ?b] in \<open>auto simp: restrict_none\<close>)
  have hi: "wf_regions (above ?e rs)" unfolding above_def by (rule restrict_wf [OF assms(1) b(2)])
  have rlo: "re q \<le> ?b" if "q \<in> set (restrict 0 ?b rs)" for q
    using restrict_range [OF that assms(1)] that by (cases "?b = 0") (auto simp: restrict_none)
  have rmid: "?b \<le> rb q \<and> re q \<le> ?e" if "q \<in> set (restrict ?b ?e rs)" for q
    using restrict_range [OF that assms(1) b(1)] .
  have rhi: "?e \<le> rb q" if "q \<in> set (above ?e rs)" for q
    using restrict_range [OF that [unfolded above_def] assms(1) b(2)] by simp
  show ?thesis unfolding isolated_def wf_regions_append
    using lo hi restrict_wf [OF assms(1) b(1)] rlo rmid rhi b(1) by fastforce
qed

lemma isolated_flag_at:
  assumes "wf_regions rs" and "base < fin" shows "flag_at (isolated base fin rs) x = flag_at rs x"
proof -
  let ?b = "unat base" and ?e = "unat fin"
  have b: "?b < ?e" "?e < 2 ^ 32" using assms(2) unat_u32_less by (auto simp: word_less_nat_alt)
  have lo: "flag_at (restrict 0 ?b rs) x = (if x < ?b then flag_at rs x else None)"
    by (cases "?b = 0") (use restrict_flag_at [OF assms(1), of 0 ?b x] in \<open>auto simp: restrict_none\<close>)
  have top: "\<not> x < 2 ^ 32 \<Longrightarrow> flag_at rs x = None"
    using assms(1) by (fastforce simp: flag_at_None wf_regions_def region_ok_def)
  show ?thesis unfolding isolated_def above_def flag_at_append lo
    restrict_flag_at [OF assms(1) b(1)] restrict_flag_at [OF assms(1) b(2)]
    using top b by (auto split: option.splits)
qed

section \<open>Removing regions\<close>

lemma rp_remove_loop:
  assumes "rp t (pre @ mid @ post)" and "mid \<noteq> []"
  shows "rp (memblock_remove_loop (length pre) (length pre + length mid) t)
      (if pre @ post = [] then [empty_region] else pre @ post)
    \<and> same_conf t (memblock_remove_loop (length pre) (length pre + length mid) t)"
  using assms
proof (induction mid arbitrary: t rule: rev_induct)
  case (snoc r mid)
  let ?i = "length pre + length mid"
  have i: "length pre + length (mid @ [r]) = Suc ?i" by simp
  have "take ?i (pre @ (mid @ [r]) @ post) @ drop (Suc ?i) (pre @ (mid @ [r]) @ post) = pre @ mid @ post" by simp
  note eq = this
  have "?i < length (pre @ (mid @ [r]) @ post)" by simp
  note rem = rp_remove [OF snoc(2) this, unfolded eq]
  show ?case
  proof (cases "mid = []")
    case True
    have "memblock_remove_loop (length pre) (length pre) t' = t'" for t'
      by (cases "length pre") simp_all
    then show ?thesis unfolding i using rem True by (auto split: if_splits)
  next
    case False
    then have "rp (memblock_remove_region t ?i) (pre @ mid @ post)" using rem(1) by simp
    from snoc(1) [OF this False] show ?thesis unfolding i using same_conf_trans [OF rem(2)] by simp
  qed
qed simp

end
