(* ===== verification/Memblock_Scan.thy ===== *)
theory Memblock_Scan
  imports Memblock_Regions
begin

text \<open>
  The searches of \<open>memblock_userspace/mm/memblock.c\<close>: the iterators \<open>__next_mem_range\<close> and
  \<open>__next_mem_range_rev\<close> over the parts of memory outside the reserved regions, the
  \<open>for_each_free_mem_range\<close> loops, and \<open>memblock_find_in_range(_node)\<close>. The loop variable is
  the \<open>u64\<close> of the source, with the two indices packed in its halves. The loops carry fuel: one
  round per index the iterator can advance, and the searches are shown to return with it.
\<close>

unbundle bit_operations_syntax

section \<open>Definitions\<close>

record memblock =
  bottom_up :: bool
  current_limit :: phys_addr_t
  memory :: memblock_type
  reserved :: memblock_type

text \<open>
  The file-level variables next to \<open>memblock\<close>. \<open>page_offset\<close> is the address of the emulated
  memory (\<open>PAGE_OFFSET\<close>), \<open>ram\<close> its contents by physical address.
\<close>

record mm_state = memblock +
  memblock_can_resize :: bool
  memblock_memory_in_slab :: bool
  memblock_reserved_in_slab :: bool
  system_has_some_mirror :: bool
  page_offset :: u32
  ram :: "u32 \<Rightarrow> 8 word"

definition CONFIG_MEMBLOCK_BASE :: u32 where "CONFIG_MEMBLOCK_BASE = 0x60000000"
definition CONFIG_MEMBLOCK_SIZE :: u32 where "CONFIG_MEMBLOCK_SIZE = 0x1000000"
definition PAGE_SIZE :: u32 where "PAGE_SIZE = push_bit 12 1"
definition PAGE_MASK :: u32 where "PAGE_MASK = NOT (PAGE_SIZE - 1)"
definition MEMBLOCK_ALLOC_ANYWHERE :: phys_addr_t where "MEMBLOCK_ALLOC_ANYWHERE = NOT 0"
definition MEMBLOCK_ALLOC_ACCESSIBLE :: phys_addr_t where "MEMBLOCK_ALLOC_ACCESSIBLE = 0"
definition MEMBLOCK_ALLOC_KASAN :: phys_addr_t where "MEMBLOCK_ALLOC_KASAN = 1"
definition ULLONG_MAX :: u64 where "ULLONG_MAX = NOT 0"

definition virt_to_phys :: "u32 \<Rightarrow> u32 \<Rightarrow> phys_addr_t" where
  "virt_to_phys po x = (x - po) + CONFIG_MEMBLOCK_BASE"

definition phys_to_virt :: "u32 \<Rightarrow> phys_addr_t \<Rightarrow> u32" where
  "phys_to_virt po x = (x - CONFIG_MEMBLOCK_BASE) + po"

definition clamp :: "u32 \<Rightarrow> u32 \<Rightarrow> u32 \<Rightarrow> u32" where
  "clamp val lo hi = min (max val lo) hi"

definition round_up_u32 :: "u32 \<Rightarrow> u32 \<Rightarrow> u32" where
  "round_up_u32 x y = ((x - 1) OR (y - 1)) + 1"

definition round_down_u32 :: "u32 \<Rightarrow> u32 \<Rightarrow> u32" where
  "round_down_u32 x y = x AND NOT (y - 1)"

definition choose_memblock_flags :: "mm_state \<Rightarrow> u32" where
  "choose_memblock_flags s = (if system_has_some_mirror s then MEMBLOCK_MIRROR else MEMBLOCK_NONE)"

text \<open>\<open>(u32)idx_a | (u64)idx_b << 32\<close> and the reading of the two halves.\<close>

definition mem_idx :: "int \<Rightarrow> int \<Rightarrow> u64" where
  "mem_idx idx_a idx_b = ucast (word_of_int idx_a :: u32) OR push_bit 32 (word_of_int idx_b)"

definition idx_low :: "u64 \<Rightarrow> u32" where "idx_low idx = ucast (idx AND 0xFFFFFFFF)"
definition idx_high :: "u64 \<Rightarrow> u32" where "idx_high idx = ucast (drop_bit 32 idx)"

text \<open>The area before region \<open>k\<close> of \<open>type_b\<close>; after the last region for \<open>k = cnt\<close>.\<close>

definition gap_start :: "memblock_type \<Rightarrow> nat \<Rightarrow> phys_addr_t" where
  "gap_start b k = (if k \<noteq> 0 then r_base (regions b ! (k - 1)) + r_size (regions b ! (k - 1)) else 0)"

definition gap_end :: "memblock_type \<Rightarrow> nat \<Rightarrow> phys_addr_t" where
  "gap_end b k = (if k < cnt b then r_base (regions b ! k) else PHYS_ADDR_MAX)"

type_synonym mem_range = "phys_addr_t \<times> phys_addr_t \<times> int"

text \<open>
  The inner loop over \<open>idx_b\<close>. It returns the index it stopped at and, on an intersection, the
  range together with the test \<open>m_end <= r_end\<close> that selects the index to advance.
\<close>

function next_range_b ::
  "phys_addr_t \<Rightarrow> phys_addr_t \<Rightarrow> memblock_type \<Rightarrow> nat \<Rightarrow> nat \<times> (phys_addr_t \<times> phys_addr_t \<times> bool) option" where
  "next_range_b m_start m_end b idx_b =
     (if idx_b < cnt b + 1 then
        let r_start = gap_start b idx_b; r_end = gap_end b idx_b in
        if r_start \<ge> m_end then (idx_b, None)
        else if m_start < r_end then
          (idx_b, Some (max m_start r_start, min m_end r_end, m_end \<le> r_end))
        else next_range_b m_start m_end b (idx_b + 1)
      else (idx_b, None))"
  by pat_completeness auto
termination
  by (relation "measure (\<lambda>(m_start, m_end, b, idx_b). cnt b + 1 - idx_b)") auto

function next_range_a ::
  "memblock_type \<Rightarrow> memblock_type option \<Rightarrow> mem_range \<Rightarrow> nat \<Rightarrow> nat \<Rightarrow> mem_range \<times> u64" where
  "next_range_a a b out idx_a idx_b =
     (if idx_a < cnt a then
        let m = regions a ! idx_a;
            m_start = r_base m;
            m_end = r_base m + r_size m;
            m_nid = memblock_get_region_node m
        in case b of
             None \<Rightarrow> ((m_start, m_end, m_nid), mem_idx (int idx_a + 1) (int idx_b))
           | Some tb \<Rightarrow>
             (case next_range_b m_start m_end tb idx_b of
                (idx_b, None) \<Rightarrow> next_range_a a b out (idx_a + 1) idx_b
              | (idx_b, Some (s, e, adv)) \<Rightarrow>
                  ((s, e, m_nid),
                   if adv then mem_idx (int idx_a + 1) (int idx_b) else mem_idx (int idx_a) (int idx_b + 1)))
      else (out, ULLONG_MAX))"
  by pat_completeness auto
termination
  by (relation "measure (\<lambda>(a, b, out, idx_a, idx_b). cnt a - idx_a)") auto

declare next_range_b.simps [simp del] next_range_a.simps [simp del]

definition next_mem_range ::
  "u64 \<Rightarrow> int \<Rightarrow> u32 \<Rightarrow> memblock_type \<Rightarrow> memblock_type option \<Rightarrow> mem_range \<Rightarrow> mem_range \<times> u64" where
  "next_mem_range idx nid flags a b out = next_range_a a b out (unat (idx_low idx)) (unat (idx_high idx))"

text \<open>The reverse iterator counts with signed indices and stops below zero.\<close>

function next_range_rev_b ::
  "phys_addr_t \<Rightarrow> phys_addr_t \<Rightarrow> memblock_type \<Rightarrow> int \<Rightarrow> int \<times> (phys_addr_t \<times> phys_addr_t \<times> bool) option" where
  "next_range_rev_b m_start m_end b idx_b =
     (if idx_b \<ge> 0 then
        let r_start = gap_start b (nat idx_b); r_end = gap_end b (nat idx_b) in
        if r_end \<le> m_start then (idx_b, None)
        else if m_end > r_start then
          (idx_b, Some (max m_start r_start, min m_end r_end, m_start \<ge> r_start))
        else next_range_rev_b m_start m_end b (idx_b - 1)
      else (idx_b, None))"
  by pat_completeness auto
termination
  by (relation "measure (\<lambda>(m_start, m_end, b, idx_b). nat (idx_b + 1))") auto

function next_range_rev_a ::
  "memblock_type \<Rightarrow> memblock_type option \<Rightarrow> mem_range \<Rightarrow> int \<Rightarrow> int \<Rightarrow> mem_range \<times> u64" where
  "next_range_rev_a a b out idx_a idx_b =
     (if idx_a \<ge> 0 then
        let m = regions a ! nat idx_a;
            m_start = r_base m;
            m_end = r_base m + r_size m;
            m_nid = memblock_get_region_node m
        in case b of
             None \<Rightarrow> ((m_start, m_end, m_nid), mem_idx (idx_a - 1) idx_b)
           | Some tb \<Rightarrow>
             (case next_range_rev_b m_start m_end tb idx_b of
                (idx_b, None) \<Rightarrow> next_range_rev_a a b out (idx_a - 1) idx_b
              | (idx_b, Some (s, e, adv)) \<Rightarrow>
                  ((s, e, m_nid),
                   if adv then mem_idx (idx_a - 1) idx_b else mem_idx idx_a (idx_b - 1)))
      else (out, ULLONG_MAX))"
  by pat_completeness auto
termination
  by (relation "measure (\<lambda>(a, b, out, idx_a, idx_b). nat (idx_a + 1))") auto

declare next_range_rev_b.simps [simp del] next_range_rev_a.simps [simp del]

definition next_mem_range_rev ::
  "u64 \<Rightarrow> int \<Rightarrow> u32 \<Rightarrow> memblock_type \<Rightarrow> memblock_type option \<Rightarrow> mem_range \<Rightarrow> mem_range \<times> u64" where
  "next_mem_range_rev idx nid flags a b out =
     (if idx = ULLONG_MAX then
        next_range_rev_a a b out (int (cnt a) - 1) (case b of Some tb \<Rightarrow> int (cnt tb) | None \<Rightarrow> 0)
      else next_range_rev_a a b out (sint (idx_low idx)) (sint (idx_high idx)))"

text \<open>
  \<open>for_each_mem_range\<close> and \<open>for_each_mem_range_rev\<close> with a body that may return a candidate.
  \<open>out\<close> holds \<open>this_start\<close> and \<open>this_end\<close>, which the iterator overwrites. \<open>None\<close> says that
  the fuel ran out; 0 is the value returned behind the loop.
\<close>

fun for_each_mem_range ::
  "nat \<Rightarrow> (u64 \<Rightarrow> mem_range \<Rightarrow> mem_range \<times> u64) \<Rightarrow> (phys_addr_t \<Rightarrow> phys_addr_t \<Rightarrow> phys_addr_t option) \<Rightarrow>
   u64 \<Rightarrow> mem_range \<Rightarrow> phys_addr_t option" where
  "for_each_mem_range 0 nxt body i out = None"
| "for_each_mem_range (Suc fuel) nxt body i out =
     (let (out, i) = nxt i out in
      if i = ULLONG_MAX then Some 0
      else case body (fst out) (fst (snd out)) of
             Some cand \<Rightarrow> Some cand
           | None \<Rightarrow> for_each_mem_range fuel nxt body i out)"

definition bottom_up_body ::
  "phys_addr_t \<Rightarrow> phys_addr_t \<Rightarrow> phys_addr_t \<Rightarrow> phys_addr_t \<Rightarrow> phys_addr_t \<Rightarrow> phys_addr_t \<Rightarrow> phys_addr_t option" where
  "bottom_up_body start fin sz align this_start this_end =
     (let this_start = clamp this_start start fin;
          this_end = clamp this_end start fin;
          cand = round_up_u32 this_start align
      in if cand < this_end \<and> this_end - cand \<ge> sz then Some cand else None)"

definition top_down_body ::
  "phys_addr_t \<Rightarrow> phys_addr_t \<Rightarrow> phys_addr_t \<Rightarrow> phys_addr_t \<Rightarrow> phys_addr_t \<Rightarrow> phys_addr_t \<Rightarrow> phys_addr_t option" where
  "top_down_body start fin sz align this_start this_end =
     (let this_start = clamp this_start start fin;
          this_end = clamp this_end start fin
      in if this_end < sz then None
         else
           let cand = round_down_u32 (this_end - sz) align in
           if cand \<ge> this_start then Some cand else None)"

definition scan_fuel :: "mm_state \<Rightarrow> nat" where
  "scan_fuel s = cnt (memory s) + cnt (reserved s) + 2"

definition memblock_find_range_bottom_up ::
  "mm_state \<Rightarrow> phys_addr_t \<Rightarrow> phys_addr_t \<Rightarrow> phys_addr_t \<Rightarrow> phys_addr_t \<Rightarrow> int \<Rightarrow> u32 \<Rightarrow> phys_addr_t option" where
  "memblock_find_range_bottom_up s start fin sz align nid flags =
     for_each_mem_range (scan_fuel s)
       (\<lambda>i. next_mem_range i nid flags (memory s) (Some (reserved s)))
       (bottom_up_body start fin sz align) 0 (0, 0, 0)"

definition memblock_find_range_top_down ::
  "mm_state \<Rightarrow> phys_addr_t \<Rightarrow> phys_addr_t \<Rightarrow> phys_addr_t \<Rightarrow> phys_addr_t \<Rightarrow> int \<Rightarrow> u32 \<Rightarrow> phys_addr_t option" where
  "memblock_find_range_top_down s start fin sz align nid flags =
     for_each_mem_range (scan_fuel s)
       (\<lambda>i. next_mem_range_rev i nid flags (memory s) (Some (reserved s)))
       (top_down_body start fin sz align) ULLONG_MAX (0, 0, 0)"

definition memblock_find_in_range_node ::
  "mm_state \<Rightarrow> phys_addr_t \<Rightarrow> phys_addr_t \<Rightarrow> phys_addr_t \<Rightarrow> phys_addr_t \<Rightarrow> int \<Rightarrow> u32 \<Rightarrow> phys_addr_t option" where
  "memblock_find_in_range_node s sz align start fin nid flags =
     (let fin = (if fin = MEMBLOCK_ALLOC_ACCESSIBLE \<or> fin = MEMBLOCK_ALLOC_KASAN then current_limit s else fin);
          start = max start PAGE_SIZE;
          fin = max start fin;
          kernel_end = virt_to_phys (page_offset s) (page_offset s);
          top_down = memblock_find_range_top_down s start fin sz align nid flags
      in if bottom_up s \<and> fin > kernel_end then
           (let bottom_up_start = max start kernel_end in
            memblock_find_range_bottom_up s bottom_up_start fin sz align nid flags
            \<bind> (\<lambda>ret. if ret \<noteq> 0 then Some ret else top_down))
         else top_down)"

text \<open>
  The retry tests \<open>flags && MEMBLOCK_MIRROR\<close>, which is \<open>flags != 0\<close>; \<open>choose_memblock_flags\<close>
  gives no other flag than \<open>MEMBLOCK_MIRROR\<close>, so the second round has \<open>flags = 0\<close>.
\<close>

partial_function (option) find_in_range_again ::
  "mm_state \<Rightarrow> phys_addr_t \<Rightarrow> phys_addr_t \<Rightarrow> phys_addr_t \<Rightarrow> phys_addr_t \<Rightarrow> u32 \<Rightarrow> phys_addr_t option" where
  "find_in_range_again s start fin sz align flags =
     memblock_find_in_range_node s sz align start fin (- 1) flags
     \<bind> (\<lambda>ret. if ret = 0 \<and> (flags \<noteq> 0 \<and> MEMBLOCK_MIRROR \<noteq> 0)
          then find_in_range_again s start fin sz align (flags AND NOT MEMBLOCK_MIRROR)
          else Some ret)"

definition memblock_find_in_range ::
  "mm_state \<Rightarrow> phys_addr_t \<Rightarrow> phys_addr_t \<Rightarrow> phys_addr_t \<Rightarrow> phys_addr_t \<Rightarrow> phys_addr_t option" where
  "memblock_find_in_range s start fin sz align =
     find_in_range_again s start fin sz align (choose_memblock_flags s)"

section \<open>What an iterator promises\<close>

text \<open>
  \<open>remaining i\<close> are the pairs of a memory region and a gap between reservations whose
  intersection is not empty and still to come when the loop variable is \<open>i\<close>.
\<close>

locale mem_range_iterator =
  fixes nxt :: "u64 \<Rightarrow> mem_range \<Rightarrow> mem_range \<times> u64"
    and piece :: "nat \<times> nat \<Rightarrow> phys_addr_t \<times> phys_addr_t"
    and pairs :: "(nat \<times> nat) set"
    and remaining :: "u64 \<Rightarrow> (nat \<times> nat) set"
    and ok :: "u64 \<Rightarrow> bool"
    and rounds :: "u64 \<Rightarrow> nat"
  assumes finish: "ok i \<Longrightarrow> nxt i out = (out', ULLONG_MAX) \<Longrightarrow> remaining i = {}"
    and hit: "ok i \<Longrightarrow> nxt i out = (out', i') \<Longrightarrow> i' \<noteq> ULLONG_MAX \<Longrightarrow>
      \<exists>p \<in> pairs. (fst out', fst (snd out')) = piece p \<and> remaining i \<subseteq> insert p (remaining i') \<and>
        ok i' \<and> rounds i' < rounds i"
begin

lemma for_each_mem_range_returns:
  assumes "ok i" and "rounds i < fuel"
  obtains ret where "for_each_mem_range fuel nxt body i out = Some ret"
    and "(\<exists>p \<in> pairs. case_prod body (piece p) = Some ret) \<or>
      ret = 0 \<and> (\<forall>p \<in> remaining i. case_prod body (piece p) = None)"
proof -
  have "\<exists>ret. for_each_mem_range fuel nxt body i out = Some ret \<and>
    ((\<exists>p \<in> pairs. case_prod body (piece p) = Some ret) \<or>
      ret = 0 \<and> (\<forall>p \<in> remaining i. case_prod body (piece p) = None))"
    using assms
  proof (induction fuel arbitrary: i out)
    case (Suc fuel)
    obtain out' i' where n: "nxt i out = (out', i')" by (cases "nxt i out")
    show ?case
    proof (cases "i' = ULLONG_MAX")
      case True
      then show ?thesis using finish [OF Suc.prems(1)] n by simp
    next
      case False
      obtain p where p: "p \<in> pairs" "(fst out', fst (snd out')) = piece p" "remaining i \<subseteq> insert p (remaining i')"
        "ok i'" "rounds i' < rounds i" using hit [OF Suc.prems(1) n False] by auto
      have b: "body (fst out') (fst (snd out')) = case_prod body (piece p)" by (simp flip: p(2))
      show ?thesis
      proof (cases "case_prod body (piece p)")
        case None
        have "rounds i' < fuel" using p(5) Suc.prems(2) by simp
        from Suc.IH [OF p(4) this, of out'] obtain ret where
          "for_each_mem_range fuel nxt body i' out' = Some ret"
          "(\<exists>p \<in> pairs. case_prod body (piece p) = Some ret) \<or> ret = 0 \<and> (\<forall>p \<in> remaining i'. case_prod body (piece p) = None)"
          by auto
        then show ?thesis using n False b None p(3) by auto
      next
        case (Some c)
        then show ?thesis using n False b p(1) by auto
      qed
    qed
  qed simp
  then show ?thesis using that by auto
qed

end

section \<open>Packed indices\<close>

lemma idx_low_ucast: "idx_low i = ucast i"
proof -
  have "(0xFFFFFFFF :: u64) = mask 32" by (simp add: mask_eq_exp_minus_1)
  then show ?thesis unfolding idx_low_def by (intro bit_word_eqI) (simp only: bit_simps, simp)
qed

lemma idx_low_mem_idx: "idx_low (mem_idx a b) = word_of_int a"
  unfolding idx_low_ucast by (rule bit_word_eqI) (auto simp: mem_idx_def bit_simps)

lemma idx_high_mem_idx: "idx_high (mem_idx a b) = word_of_int b"
  by (rule bit_word_eqI) (auto simp: idx_high_def mem_idx_def bit_simps)

lemma mem_idx_not_max:
  assumes "0 \<le> b" and "b < 2 ^ 31" shows "mem_idx a b \<noteq> ULLONG_MAX"
proof
  assume "mem_idx a b = ULLONG_MAX"
  then have "idx_high ULLONG_MAX = word_of_int b" using idx_high_mem_idx [of a b] by simp
  moreover have "idx_high ULLONG_MAX = (- 1 :: u32)"
    by (rule bit_word_eqI) (auto simp: idx_high_def ULLONG_MAX_def bit_simps)
  ultimately have "sint (- 1 :: u32) = sint (word_of_int b :: u32)" by simp
  moreover have "sint (word_of_int b :: u32) = b"
    using assms by (simp add: signed_of_int signed_take_bit_int_eq_self)
  ultimately show False using assms by simp
qed

lemma idx_read_nat:
  assumes "a < 2 ^ 31" and "b < 2 ^ 31"
  shows "unat (idx_low (mem_idx (int a) (int b))) = a" and "unat (idx_high (mem_idx (int a) (int b))) = b"
  using assms by (simp_all add: idx_low_mem_idx idx_high_mem_idx unat_of_nat take_bit_nat_eq_self)

lemma idx_read_int:
  assumes "- 1 \<le> a" and "a < 2 ^ 31" and "0 \<le> b" and "b < 2 ^ 31"
  shows "sint (idx_low (mem_idx a b)) = a" and "sint (idx_high (mem_idx a b)) = b"
  using assms by (simp_all add: idx_low_mem_idx idx_high_mem_idx signed_of_int signed_take_bit_int_eq_self)

section \<open>Regions and gaps in order\<close>

definition weak_wf :: "memblock_region list \<Rightarrow> bool" where
  "weak_wf rs \<longleftrightarrow> sorted_wrt (\<lambda>a b. re a \<le> rb b) rs \<and> (\<forall>r \<in> set rs. rb r \<le> re r \<and> re r < 2 ^ 32)"

lemma wf_regions_weak: "wf_regions rs \<Longrightarrow> weak_wf rs"
  by (auto simp: wf_regions_def weak_wf_def region_ok_def)

lemma empty_region_weak: "weak_wf [empty_region]"
  by (simp add: weak_wf_def rb_def re_def)

lemma weak_wf_less: "weak_wf rs \<Longrightarrow> i < j \<Longrightarrow> j < length rs \<Longrightarrow> re (rs ! i) \<le> rb (rs ! j)"
  by (simp add: weak_wf_def sorted_wrt_iff_nth_less)

lemma weak_wf_nth: "weak_wf rs \<Longrightarrow> i < length rs \<Longrightarrow> rb (rs ! i) \<le> re (rs ! i) \<and> re (rs ! i) < 2 ^ 32"
  by (auto simp: weak_wf_def)

definition gs :: "memblock_region list \<Rightarrow> nat \<Rightarrow> nat" where
  "gs rs k = (if k = 0 then 0 else re (rs ! (k - 1)))"

definition ge :: "memblock_region list \<Rightarrow> nat \<Rightarrow> nat" where
  "ge rs k = (if k < length rs then rb (rs ! k) else 2 ^ 32 - 1)"

lemma gap_less:
  assumes "weak_wf rs" and "i < j" and "j \<le> length rs" shows "ge rs i \<le> gs rs j"
proof -
  have i: "ge rs i = rb (rs ! i)" "i < length rs" and j: "gs rs j = re (rs ! (j - 1))" "j - 1 < length rs"
    using assms by (simp_all add: ge_def gs_def)
  show ?thesis
  proof (cases "i = j - 1")
    case True
    then show ?thesis using i j weak_wf_nth [OF assms(1) i(2)] by simp
  next
    case False
    then have "re (rs ! i) \<le> rb (rs ! (j - 1))" using assms j by (intro weak_wf_less) auto
    then show ?thesis using i j weak_wf_nth [OF assms(1) i(2)] weak_wf_nth [OF assms(1) j(2)] by linarith
  qed
qed

text \<open>No region meets a gap.\<close>

lemma gap_free:
  assumes "weak_wf rs" and "j \<le> length rs" and "gs rs j \<le> x" and "x < ge rs j"
  shows "flag_at rs x = None"
  unfolding flag_at_None
proof
  fix r assume "r \<in> set rs"
  then obtain k where k: "k < length rs" "r = rs ! k" by (auto simp: in_set_conv_nth)
  have rk: "rb r \<le> re r" using weak_wf_nth [OF assms(1) k(1)] k by simp
  show "\<not> (rb r \<le> x \<and> x < re r)"
  proof (cases "k < j")
    case True
    have "re r \<le> gs rs j"
    proof (cases "k = j - 1")
      case False
      then have "re (rs ! k) \<le> rb (rs ! (j - 1))" using True assms by (intro weak_wf_less) auto
      moreover have "j - 1 < length rs" using True assms(2) by simp
      ultimately show ?thesis using True k weak_wf_nth [OF assms(1), of "j - 1"] by (simp add: gs_def)
    qed (use True k in \<open>simp add: gs_def\<close>)
    then show ?thesis using assms(3) by simp
  next
    case False
    then have "ge rs j \<le> rb r"
      using k assms(1) weak_wf_less [OF assms(1), of j k] weak_wf_nth [OF assms(1), of j]
      by (cases "j = k") (auto simp: ge_def)
    then show ?thesis using assms(4) by simp
  qed
qed

definition live :: "memblock_type \<Rightarrow> memblock_region list" where
  "live t = take (cnt t) (regions t)"

lemma live_rp: "rp t xs \<Longrightarrow> live t = xs"
  by (simp add: rp_def live_def)

text \<open>What the iterators need of an array; both an array with regions and the empty one have it.\<close>

definition scannable :: "memblock_type \<Rightarrow> bool" where
  "scannable t \<longleftrightarrow> rp t (live t) \<and> weak_wf (live t) \<and> length (live t) < 2 ^ 31 - 1"

lemma scannable_cnt: "scannable t \<Longrightarrow> cnt t = length (live t)"
  unfolding scannable_def using rp_cnt by blast

lemma unat_gaps:
  assumes "scannable b" and "k \<le> cnt b"
  shows "unat (gap_start b k) = gs (live b) k" and "unat (gap_end b k) = ge (live b) k"
proof -
  have rp: "rp b (live b)" "weak_wf (live b)" and c: "cnt b = length (live b)"
    using assms(1) scannable_cnt by (auto simp: scannable_def)
  show "unat (gap_start b k) = gs (live b) k"
  proof (cases "k = 0")
    case False
    then have "k - 1 < length (live b)" using assms(2) c by simp
    then show ?thesis using False rp_nth [OF rp(1)] weak_wf_nth [OF rp(2)]
      by (simp add: gap_start_def gs_def unat_region_end)
  qed (simp add: gap_start_def gs_def)
  have "unat PHYS_ADDR_MAX = 2 ^ 32 - 1" by (simp add: PHYS_ADDR_MAX_def unsigned_minus_1_eq_mask mask_eq_exp_minus_1)
  then show "unat (gap_end b k) = ge (live b) k"
    using rp_nth [OF rp(1)] c by (simp add: gap_end_def ge_def rb_def)
qed

lemma unat_members:
  assumes "scannable a" and "i < cnt a"
  shows "unat (r_base (regions a ! i)) = rb (live a ! i)"
    and "unat (r_base (regions a ! i) + r_size (regions a ! i)) = re (live a ! i)"
proof -
  have i: "regions a ! i = live a ! i" "i < length (live a)" "weak_wf (live a)"
    using assms scannable_cnt [OF assms(1)] rp_nth by (auto simp: scannable_def)
  then show "unat (r_base (regions a ! i)) = rb (live a ! i)"
    "unat (r_base (regions a ! i) + r_size (regions a ! i)) = re (live a ! i)"
    using weak_wf_nth [OF i(3,2)] by (simp_all add: rb_def unat_region_end)
qed

definition piece :: "memblock_type \<Rightarrow> memblock_type \<Rightarrow> nat \<times> nat \<Rightarrow> phys_addr_t \<times> phys_addr_t" where
  "piece a b p =
     (let m = regions a ! fst p in
      (max (r_base m) (gap_start b (snd p)), min (r_base m + r_size m) (gap_end b (snd p))))"

definition all_pairs :: "memblock_type \<Rightarrow> memblock_type \<Rightarrow> (nat \<times> nat) set" where
  "all_pairs a b = {(i, j). i < cnt a \<and> j \<le> cnt b}"

definition meets :: "memblock_type \<Rightarrow> memblock_type \<Rightarrow> nat \<times> nat \<Rightarrow> bool" where
  "meets a b p \<longleftrightarrow> p \<in> all_pairs a b \<and>
     max (rb (live a ! fst p)) (gs (live b) (snd p)) < min (re (live a ! fst p)) (ge (live b) (snd p))"

lemma meets_iff:
  "meets a b (i, j) \<longleftrightarrow> i < cnt a \<and> j \<le> cnt b \<and> rb (live a ! i) < re (live a ! i) \<and> rb (live a ! i) < ge (live b) j \<and>
     gs (live b) j < re (live a ! i) \<and> gs (live b) j < ge (live b) j"
  by (auto simp: meets_def all_pairs_def)

lemma next_range_b_spec:
  assumes "scannable b" and "next_range_b ms me b k = (j, res)"
  shows "k \<le> j \<and> j \<le> max k (cnt b + 1) \<and> (\<forall>l. k \<le> l \<longrightarrow> l < j \<longrightarrow> ge (live b) l \<le> unat ms) \<and>
    (case res of
       None \<Rightarrow> j > cnt b \<or> unat me \<le> gs (live b) j
     | Some (s, e, adv) \<Rightarrow> j \<le> cnt b \<and> s = max ms (gap_start b j) \<and> e = min me (gap_end b j) \<and>
         adv = (unat me \<le> ge (live b) j))"
  using assms(2)
proof (induction "cnt b + 1 - k" arbitrary: k rule: less_induct)
  case less
  show ?case
  proof (cases "k < cnt b + 1")
    case True
    then have u: "unat (gap_start b k) = gs (live b) k" "unat (gap_end b k) = ge (live b) k"
      using unat_gaps [OF assms(1), of k] by simp_all
    consider "me \<le> gap_start b k" | "\<not> me \<le> gap_start b k" "ms < gap_end b k"
      | (skip) "\<not> me \<le> gap_start b k" "\<not> ms < gap_end b k" by blast
    then show ?thesis
    proof cases
      case skip
      then have n: "next_range_b ms me b (k + 1) = (j, res)"
        using less.prems True by (subst (asm) next_range_b.simps) (simp add: Let_def)
      have low: "ge (live b) k \<le> unat ms" using skip(2) u by (simp add: word_less_nat_alt)
      have "cnt b + 1 - (k + 1) < cnt b + 1 - k" using True by simp
      note IH = less.hyps [OF this n]
      have "\<forall>l. k \<le> l \<longrightarrow> l < j \<longrightarrow> ge (live b) l \<le> unat ms"
      proof (intro allI impI)
        fix l assume "k \<le> l" "l < j"
        then show "ge (live b) l \<le> unat ms" using IH low by (cases "l = k") auto
      qed
      moreover have "k \<le> j" "j \<le> max k (cnt b + 1)" using IH True by auto
      ultimately show ?thesis using IH by blast
    qed (use less.prems True u in \<open>subst (asm) next_range_b.simps, auto simp: Let_def word_le_nat_alt\<close>)+
  next
    case False
    then show ?thesis using less.prems by (subst (asm) next_range_b.simps) auto
  qed
qed

text \<open>Pairs behind a break or behind the advanced index do not meet.\<close>

lemma not_meets_same_region:
  assumes "scannable b" and "re (live a ! i) \<le> gs (live b) j \<or> re (live a ! i) \<le> ge (live b) j" and "j < l"
  shows "\<not> meets a b (i, l)"
proof
  assume m: "meets a b (i, l)"
  then have "l \<le> length (live b)" using scannable_cnt [OF assms(1)] by (simp add: meets_iff)
  moreover have "weak_wf (live b)" using assms(1) by (simp add: scannable_def)
  ultimately have g: "ge (live b) j \<le> gs (live b) l" using gap_less assms(3) by blast
  moreover have "gs (live b) j \<le> ge (live b) j \<or> j < l" using assms(3) by blast
  moreover have "gs (live b) j \<le> gs (live b) l"
  proof (cases j)
    case (Suc j')
    have "re (live b ! j') \<le> re (live b ! (l - 1))"
    proof (cases "j' = l - 1")
      case False
      then have "j' < l - 1" "l - 1 < length (live b)" using Suc assms(3) \<open>l \<le> length (live b)\<close> by auto
      then show ?thesis using weak_wf_less [OF \<open>weak_wf (live b)\<close>, of j' "l - 1"] weak_wf_nth [OF \<open>weak_wf (live b)\<close>, of "l - 1"] by linarith
    qed simp
    then show ?thesis using Suc assms(3) by (simp add: gs_def)
  qed (simp add: gs_def)
  ultimately show False using m assms(2) by (auto simp: meets_iff)
qed

lemma not_meets_same_gap:
  assumes "scannable a" and "ge (live b) j \<le> re (live a ! i)" and "i < l"
  shows "\<not> meets a b (l, j)"
proof
  assume m: "meets a b (l, j)"
  then have "l < length (live a)" using scannable_cnt [OF assms(1)] by (simp add: meets_iff)
  then have "re (live a ! i) \<le> rb (live a ! l)"
    using weak_wf_less assms(1,3) by (auto simp: scannable_def)
  then show False using m assms(2) by (auto simp: meets_iff)
qed

lemma next_range_a_spec:
  assumes "scannable a" and "scannable b" and "next_range_a a (Some b) out x y = (out', i')" and "y \<le> cnt b + 1"
  shows "(out' = out \<and> i' = ULLONG_MAX \<and> (\<forall>i j. x \<le> i \<longrightarrow> y \<le> j \<longrightarrow> \<not> meets a b (i, j))) \<or>
    (\<exists>i j a' b'. x \<le> i \<and> y \<le> j \<and> (i, j) \<in> all_pairs a b \<and> (fst out', fst (snd out')) = piece a b (i, j) \<and>
       i' = mem_idx (int a') (int b') \<and> (a' = i + 1 \<and> b' = j \<or> a' = i \<and> b' = j + 1) \<and>
       (\<forall>i2 j2. x \<le> i2 \<longrightarrow> y \<le> j2 \<longrightarrow> meets a b (i2, j2) \<longrightarrow> (i2, j2) = (i, j) \<or> a' \<le> i2 \<and> b' \<le> j2))"
    (is "?end x y \<or> ?hit x y")
  using assms(3,4)
proof (induction "cnt a - x" arbitrary: x y rule: less_induct)
  case less
  show ?case
  proof (cases "x < cnt a")
    case False
    then show ?thesis using less.prems by (subst (asm) next_range_a.simps) (auto simp: meets_iff)
  next
    case True
    let ?m = "regions a ! x"
    obtain k res where b: "next_range_b (r_base ?m) (r_base ?m + r_size ?m) b y = (k, res)" by (cases "next_range_b (r_base ?m) (r_base ?m + r_size ?m) b y")
    note sp = next_range_b_spec [OF assms(2) b, unfolded unat_members [OF assms(1) True]]
    have below: "\<not> meets a b (i, l)" if "x \<le> i" "y \<le> l" "l < k" for i l
    proof
      assume m: "meets a b (i, l)"
      then have i: "i < length (live a)" using scannable_cnt [OF assms(1)] by (simp add: meets_iff)
      have "ge (live b) l \<le> rb (live a ! x)" using sp that by blast
      moreover have "rb (live a ! x) \<le> rb (live a ! i)"
        using that(1) i weak_wf_less [of "live a" x i] weak_wf_nth [of "live a" x] assms(1)
        by (cases "x = i") (auto simp: scannable_def)
      ultimately show False using m by (simp add: meets_iff)
    qed
    show ?thesis
    proof (cases res)
      case None
      then have n: "next_range_a a (Some b) out (x + 1) k = (out', i')"
        using less.prems True b by (subst (asm) next_range_a.simps) (simp add: Let_def)
      have "\<not> meets a b (x, l)" if "k \<le> l" for l
      proof (cases "k > cnt b")
        case False
        then have "re (live a ! x) \<le> gs (live b) k" using sp None by auto
        then show ?thesis
          using not_meets_same_region [OF assms(2), of a x k l] that by (cases "l = k") (auto simp: meets_iff)
      qed (use that in \<open>auto simp: meets_iff\<close>)
      then have here: "\<not> meets a b (x, l)" if "y \<le> l" for l using below [of x l] that by (cases "l < k") auto
      have "cnt a - (x + 1) < cnt a - x" "k \<le> cnt b + 1" using True sp less.prems(2) by auto
      from less.hyps [OF this(1) n this(2)] show ?thesis
      proof
        assume e: "?end (x + 1) k"
        have "\<not> meets a b (i, j)" if "x \<le> i" "y \<le> j" for i j
          using e here below that by (cases "i = x"; cases "j < k") auto
        then show ?thesis using e by blast
      next
        assume h: "?hit (x + 1) k"
        then obtain i j a' b' where w: "x + 1 \<le> i" "k \<le> j" "(i, j) \<in> all_pairs a b" "(fst out', fst (snd out')) = piece a b (i, j)"
          "i' = mem_idx (int a') (int b')" "a' = i + 1 \<and> b' = j \<or> a' = i \<and> b' = j + 1"
          "\<forall>i2 j2. x + 1 \<le> i2 \<longrightarrow> k \<le> j2 \<longrightarrow> meets a b (i2, j2) \<longrightarrow> (i2, j2) = (i, j) \<or> a' \<le> i2 \<and> b' \<le> j2" by blast
        have "(i2, j2) = (i, j) \<or> a' \<le> i2 \<and> b' \<le> j2" if "x \<le> i2" "y \<le> j2" "meets a b (i2, j2)" for i2 j2
          using w(7) here [of j2] below [of i2 j2] that by (cases "i2 = x"; cases "j2 < k") auto
        moreover have "x \<le> i" "y \<le> j" using w(1,2) sp by auto
        ultimately show ?thesis using w(3-6) by blast
      qed
    next
      case (Some hit)
      obtain s e adv where hit: "hit = (s, e, adv)" by (cases hit)
      have k: "y \<le> k" "k \<le> cnt b" "s = max (r_base ?m) (gap_start b k)" "e = min (r_base ?m + r_size ?m) (gap_end b k)"
        "adv = (re (live a ! x) \<le> ge (live b) k)" using sp Some hit by auto
      let ?n = "if adv then (x + 1, k) else (x, k + 1)"
      have out: "out' = (s, e, memblock_get_region_node ?m)" "i' = mem_idx (int (fst ?n)) (int (snd ?n))"
      proof -
        have "next_range_a a (Some b) out x y
          = ((s, e, memblock_get_region_node ?m), mem_idx (int (fst ?n)) (int (snd ?n)))"
          by (subst next_range_a.simps) (use True b Some hit in \<open>cases adv; simp add: Let_def add.commute\<close>)
        then show "out' = (s, e, memblock_get_region_node ?m)" "i' = mem_idx (int (fst ?n)) (int (snd ?n))"
          using less.prems(1) by simp_all
      qed
      have rest: "(i2, j2) = (x, k) \<or> fst ?n \<le> i2 \<and> snd ?n \<le> j2" if h: "x \<le> i2" "y \<le> j2" "meets a b (i2, j2)" for i2 j2
      proof (cases adv)
        case True
        have "\<not> meets a b (x, l)" if "k < l" for l using not_meets_same_region [OF assms(2) _ that] k(5) True by blast
        then show ?thesis using below [of i2 j2] h True by (cases "i2 = x"; cases "j2 < k"; cases "j2 = k") auto
      next
        case False
        have "\<not> meets a b (l, k)" if "x < l" for l using not_meets_same_gap [OF assms(1) _ that] k(5) False by auto
        then show ?thesis using below [of i2 j2] h False by (cases "i2 = x"; cases "j2 < k"; cases "j2 = k") auto
      qed
      define a' b' where n: "a' = fst ?n" "b' = snd ?n"
      have "(fst out', fst (snd out')) = piece a b (x, k)" using k(3,4) out(1) by (simp add: piece_def Let_def)
      moreover have "(x, k) \<in> all_pairs a b" using True k(2) by (simp add: all_pairs_def)
      moreover have "a' = x + 1 \<and> b' = k \<or> a' = x \<and> b' = k + 1" unfolding n by (cases adv) simp_all
      moreover have "i' = mem_idx (int a') (int b')" using out(2) unfolding n .
      moreover have "\<forall>i2 j2. x \<le> i2 \<longrightarrow> y \<le> j2 \<longrightarrow> meets a b (i2, j2) \<longrightarrow> (i2, j2) = (x, k) \<or> a' \<le> i2 \<and> b' \<le> j2"
        using rest unfolding n by blast
      ultimately have "?hit x y" using k(1) order_refl [of x]
        by (intro exI [of _ x] exI [of _ k] exI [of _ a'] exI [of _ b']) (simp only: simp_thms)
      then show ?thesis ..
    qed
  qed
qed

definition fwd_remaining :: "memblock_type \<Rightarrow> memblock_type \<Rightarrow> u64 \<Rightarrow> (nat \<times> nat) set" where
  "fwd_remaining a b i = {p. meets a b p \<and> unat (idx_low i) \<le> fst p \<and> unat (idx_high i) \<le> snd p}"

definition fwd_ok :: "memblock_type \<Rightarrow> memblock_type \<Rightarrow> u64 \<Rightarrow> bool" where
  "fwd_ok a b i \<longleftrightarrow> scannable a \<and> scannable b \<and> unat (idx_low i) \<le> cnt a \<and> unat (idx_high i) \<le> cnt b + 1"

definition fwd_rounds :: "memblock_type \<Rightarrow> memblock_type \<Rightarrow> u64 \<Rightarrow> nat" where
  "fwd_rounds a b i = (cnt a - unat (idx_low i)) + (cnt b + 1 - unat (idx_high i))"

interpretation fwd: mem_range_iterator
  "\<lambda>i. next_mem_range i nid flags a (Some b)" "piece a b" "all_pairs a b" "fwd_remaining a b" "fwd_ok a b" "fwd_rounds a b"
  for nid flags a b
proof
  fix i out out'
  assume ok: "fwd_ok a b i" and n: "next_mem_range i nid flags a (Some b) out = (out', ULLONG_MAX)"
  have s: "scannable a" "scannable b" "unat (idx_high i) \<le> cnt b + 1" using ok by (auto simp: fwd_ok_def)
  have nm: "mem_idx (int a') (int b') \<noteq> ULLONG_MAX" if "b' \<le> cnt b + 1" for a' b'
    using that s(2) scannable_cnt [OF s(2)] by (intro mem_idx_not_max) (auto simp: scannable_def)
  from next_range_a_spec [OF s(1,2) n [unfolded next_mem_range_def] s(3)]
  show "fwd_remaining a b i = {}"
  proof
    assume "\<exists>x y a' b'. unat (idx_low i) \<le> x \<and> unat (idx_high i) \<le> y \<and> (x, y) \<in> all_pairs a b \<and>
      (fst out', fst (snd out')) = piece a b (x, y) \<and> ULLONG_MAX = mem_idx (int a') (int b') \<and>
      (a' = x + 1 \<and> b' = y \<or> a' = x \<and> b' = y + 1) \<and>
      (\<forall>i2 j2. unat (idx_low i) \<le> i2 \<longrightarrow> unat (idx_high i) \<le> j2 \<longrightarrow> meets a b (i2, j2) \<longrightarrow>
        (i2, j2) = (x, y) \<or> a' \<le> i2 \<and> b' \<le> j2)"
    then obtain x y a' b' where "(x, y) \<in> all_pairs a b" "ULLONG_MAX = mem_idx (int a') (int b')"
      "a' = x + 1 \<and> b' = y \<or> a' = x \<and> b' = y + 1" by blast
    then show ?thesis using nm [of b' a'] by (auto simp: all_pairs_def)
  qed (auto simp: fwd_remaining_def)
next
  fix i out out' i'
  assume ok: "fwd_ok a b i" and n: "next_mem_range i nid flags a (Some b) out = (out', i')" and m: "i' \<noteq> ULLONG_MAX"
  have s: "scannable a" "scannable b" "unat (idx_high i) \<le> cnt b + 1" using ok by (auto simp: fwd_ok_def)
  obtain x y a' b' where w: "unat (idx_low i) \<le> x" "unat (idx_high i) \<le> y" "(x, y) \<in> all_pairs a b"
    "(fst out', fst (snd out')) = piece a b (x, y)" "i' = mem_idx (int a') (int b')"
    "a' = x + 1 \<and> b' = y \<or> a' = x \<and> b' = y + 1"
    "\<forall>i2 j2. unat (idx_low i) \<le> i2 \<longrightarrow> unat (idx_high i) \<le> j2 \<longrightarrow> meets a b (i2, j2) \<longrightarrow> (i2, j2) = (x, y) \<or> a' \<le> i2 \<and> b' \<le> j2"
    using next_range_a_spec [OF s(1,2) n [unfolded next_mem_range_def] s(3)] m by blast
  have xy: "x < cnt a" "y \<le> cnt b" using w(3) by (auto simp: all_pairs_def)
  have lens: "cnt a < 2 ^ 31 - 1" "cnt b < 2 ^ 31 - 1" using s(1,2) scannable_cnt by (auto simp: scannable_def)
  have u: "unat (idx_low i') = a'" "unat (idx_high i') = b'"
    unfolding w(5) using idx_read_nat [of a' b'] w(6) xy lens by auto
  have "fwd_ok a b i'" using s w(6) xy by (auto simp: fwd_ok_def u)
  moreover have "fwd_rounds a b i' < fwd_rounds a b i" using w(1,2,6) xy by (auto simp: fwd_rounds_def u)
  moreover have "fwd_remaining a b i \<subseteq> insert (x, y) (fwd_remaining a b i')"
  proof
    fix p assume "p \<in> fwd_remaining a b i"
    then show "p \<in> insert (x, y) (fwd_remaining a b i')"
      using w(7) [rule_format, of "fst p" "snd p"] by (auto simp: fwd_remaining_def u)
  qed
  ultimately show "\<exists>p \<in> all_pairs a b. (fst out', fst (snd out')) = piece a b p \<and>
      fwd_remaining a b i \<subseteq> insert p (fwd_remaining a b i') \<and> fwd_ok a b i' \<and> fwd_rounds a b i' < fwd_rounds a b i"
    using w(3,4) by blast
qed

section \<open>The reverse iterator\<close>

lemma next_range_rev_b_spec:
  assumes "scannable b" and "next_range_rev_b ms me b k = (j, res)" and "k \<le> int (cnt b)"
  shows "j \<le> k \<and> min k (- 1) \<le> j \<and> (\<forall>l. int l \<le> k \<longrightarrow> j < int l \<longrightarrow> unat me \<le> gs (live b) l) \<and>
    (case res of
       None \<Rightarrow> j < 0 \<or> 0 \<le> j \<and> ge (live b) (nat j) \<le> unat ms
     | Some (s, e, adv) \<Rightarrow> 0 \<le> j \<and> s = max ms (gap_start b (nat j)) \<and> e = min me (gap_end b (nat j)) \<and>
         adv = (gs (live b) (nat j) \<le> unat ms))"
  using assms(2,3)
proof (induction "nat (k + 1)" arbitrary: k rule: less_induct)
  case less
  show ?case
  proof (cases "k \<ge> 0")
    case True
    then have u: "unat (gap_start b (nat k)) = gs (live b) (nat k)" "unat (gap_end b (nat k)) = ge (live b) (nat k)"
      using unat_gaps [OF assms(1), of "nat k"] less.prems(2) by simp_all
    consider (brk) "gap_end b (nat k) \<le> ms" | (hit) "\<not> gap_end b (nat k) \<le> ms" "gap_start b (nat k) < me"
      | (skip) "\<not> gap_end b (nat k) \<le> ms" "\<not> gap_start b (nat k) < me" by blast
    then show ?thesis
    proof cases
      case brk
      then have "j = k" "res = None" using less.prems(1) True by (subst (asm) next_range_rev_b.simps, simp add: Let_def)+
      then show ?thesis using brk True u by (simp add: word_le_nat_alt)
    next
      case hit
      then have "next_range_rev_b ms me b k = (k, Some (max ms (gap_start b (nat k)), min me (gap_end b (nat k)), gap_start b (nat k) \<le> ms))"
        by (subst next_range_rev_b.simps) (use True in \<open>simp add: Let_def\<close>)
      then have "j = k" "res = Some (max ms (gap_start b (nat k)), min me (gap_end b (nat k)), gap_start b (nat k) \<le> ms)"
        using less.prems(1) by simp_all
      then show ?thesis using True u by (simp add: word_le_nat_alt)
    next
      case skip
      then have n: "next_range_rev_b ms me b (k - 1) = (j, res)"
        using less.prems(1) True by (subst (asm) next_range_rev_b.simps) (simp add: Let_def)
      have high: "unat me \<le> gs (live b) (nat k)" using skip(2) u by (simp add: word_less_nat_alt)
      have "nat (k - 1 + 1) < nat (k + 1)" "k - 1 \<le> int (cnt b)" using True less.prems(2) by simp_all
      note IH = less.hyps [OF this(1) n this(2)]
      have "\<forall>l. int l \<le> k \<longrightarrow> j < int l \<longrightarrow> unat me \<le> gs (live b) l"
      proof (intro allI impI)
        fix l assume "int l \<le> k" "j < int l"
        then show "unat me \<le> gs (live b) l" using IH high by (cases "int l = k") auto
      qed
      moreover have "j \<le> k" "min k (- 1) \<le> j" using IH True by auto
      ultimately show ?thesis using IH by blast
    qed
  next
    case False
    then show ?thesis using less.prems by (subst (asm) next_range_rev_b.simps) auto
  qed
qed

lemma gap_less_start:
  assumes "weak_wf rs" and "l \<le> j" and "j \<le> length rs" shows "gs rs l \<le> gs rs j"
proof (cases "l = 0 \<or> l = j")
  case False
  then have "re (rs ! (l - 1)) \<le> rb (rs ! (j - 1))" using assms by (intro weak_wf_less) auto
  moreover have "j - 1 < length rs" using assms False by auto
  then have "rb (rs ! (j - 1)) \<le> re (rs ! (j - 1))" using weak_wf_nth [OF assms(1)] by blast
  ultimately show ?thesis using False assms(2) by (auto simp: gs_def)
qed (auto simp: gs_def)

lemma not_meets_lower_gap:
  assumes "scannable b" and "gs (live b) j \<le> rb (live a ! i) \<or> ge (live b) j \<le> rb (live a ! i)" and "l < j" and "j \<le> cnt b"
  shows "\<not> meets a b (i, l)"
proof
  assume m: "meets a b (i, l)"
  have w: "weak_wf (live b)" "j \<le> length (live b)" using assms(1,4) scannable_cnt [OF assms(1)] by (auto simp: scannable_def)
  have g: "ge (live b) l \<le> gs (live b) j" using gap_less [OF w(1) assms(3) w(2)] .
  have l: "l < length (live b)" using assms(3) w(2) by simp
  have "ge (live b) l \<le> ge (live b) j"
  proof (cases "j < length (live b)")
    case True
    then have "re (live b ! l) \<le> rb (live b ! j)" using weak_wf_less [OF w(1) assms(3)] by simp
    then show ?thesis using l True weak_wf_nth [OF w(1) l] by (simp add: ge_def)
  next
    case False
    then show ?thesis using l weak_wf_nth [OF w(1) l] by (simp add: ge_def)
  qed
  then show False using m g assms(2) by (auto simp: meets_iff)
qed

lemma not_meets_lower_region:
  assumes "scannable a" and "rb (live a ! i) \<le> gs (live b) j" and "l < i" and "i < cnt a"
  shows "\<not> meets a b (l, j)"
proof
  assume m: "meets a b (l, j)"
  have "re (live a ! l) \<le> rb (live a ! i)"
    using weak_wf_less assms scannable_cnt [OF assms(1)] by (auto simp: scannable_def)
  then show False using m assms(2) by (auto simp: meets_iff)
qed

lemma next_range_rev_a_spec:
  assumes "scannable a" and "scannable b" and "next_range_rev_a a (Some b) out x y = (out', i')"
    and "x < int (cnt a)" and "y \<le> int (cnt b)"
  shows "(out' = out \<and> i' = ULLONG_MAX \<and> (\<forall>i j. int i \<le> x \<longrightarrow> int j \<le> y \<longrightarrow> \<not> meets a b (i, j))) \<or>
    (\<exists>i j a' b'. int i \<le> x \<and> int j \<le> y \<and> (i, j) \<in> all_pairs a b \<and> (fst out', fst (snd out')) = piece a b (i, j) \<and>
       i' = mem_idx a' b' \<and> (a' = int i - 1 \<and> b' = int j \<or> a' = int i \<and> b' = int j - 1 \<and> 0 < j) \<and>
       (\<forall>i2 j2. int i2 \<le> x \<longrightarrow> int j2 \<le> y \<longrightarrow> meets a b (i2, j2) \<longrightarrow> (i2, j2) = (i, j) \<or> int i2 \<le> a' \<and> int j2 \<le> b'))"
    (is "?end x y \<or> ?hit x y")
  using assms(3-5)
proof (induction "nat (x + 1)" arbitrary: x y rule: less_induct)
  case less
  show ?case
  proof (cases "x \<ge> 0")
    case False
    then show ?thesis using less.prems by (subst (asm) next_range_rev_a.simps) auto
  next
    case True
    define X where "X = nat x"
    have X: "x = int X" "X < cnt a" using True less.prems(2) by (simp_all add: X_def)
    let ?m = "regions a ! X"
    obtain k res where b: "next_range_rev_b (r_base ?m) (r_base ?m + r_size ?m) b y = (k, res)"
      by (cases "next_range_rev_b (r_base ?m) (r_base ?m + r_size ?m) b y")
    note sp = next_range_rev_b_spec [OF assms(2) b less.prems(3), unfolded unat_members [OF assms(1) X(2)]]
    have wa: "weak_wf (live a)" "X < length (live a)" using assms(1) X(2) scannable_cnt [OF assms(1)] by (auto simp: scannable_def)
    have beyond: "\<not> meets a b (i, l)" if "int i \<le> x" "int l \<le> y" "k < int l" for i l
    proof
      assume m: "meets a b (i, l)"
      have "re (live a ! X) \<le> gs (live b) l" using sp that by blast
      moreover have "re (live a ! i) \<le> re (live a ! X)"
        using that(1) X(1) weak_wf_less [OF wa(1), of i X] weak_wf_nth [OF wa] wa(2) by (cases "i = X") auto
      ultimately show False using m by (simp add: meets_iff)
    qed
    show ?thesis
    proof (cases res)
      case None
      then have n: "next_range_rev_a a (Some b) out (x - 1) k = (out', i')"
        using less.prems(1) True b X by (subst (asm) next_range_rev_a.simps) (simp add: Let_def)
      have "\<not> meets a b (X, l)" if "int l \<le> k" for l
      proof -
        have kk: "0 \<le> k" "ge (live b) (nat k) \<le> rb (live a ! X)" "nat k \<le> cnt b"
          using sp None that less.prems(3) by auto
        show ?thesis
        proof (cases "l = nat k")
          case False
          then have "l < nat k" using that kk(1) by linarith
          then show ?thesis using not_meets_lower_gap [OF assms(2), of "nat k" a X l] kk by blast
        qed (use kk(2) in \<open>simp add: meets_iff\<close>)
      qed
      then have here: "\<not> meets a b (X, l)" if "int l \<le> y" for l using beyond [of X l] that X by (cases "k < int l") auto
      have "nat (x - 1 + 1) < nat (x + 1)" "x - 1 < int (cnt a)" "k \<le> int (cnt b)" using True sp less.prems(2,3) by auto
      from less.hyps [OF this(1) n this(2,3)] show ?thesis
      proof
        assume e: "?end (x - 1) k"
        have "\<not> meets a b (i, j)" if "int i \<le> x" "int j \<le> y" for i j
          using e here [of j] beyond [of i j] that X by (cases "i = X"; cases "k < int j") auto
        then show ?thesis using e by blast
      next
        assume h: "?hit (x - 1) k"
        then obtain i j a' b' where w: "int i \<le> x - 1" "int j \<le> k" "(i, j) \<in> all_pairs a b" "(fst out', fst (snd out')) = piece a b (i, j)"
          "i' = mem_idx a' b'" "a' = int i - 1 \<and> b' = int j \<or> a' = int i \<and> b' = int j - 1 \<and> 0 < j"
          "\<forall>i2 j2. int i2 \<le> x - 1 \<longrightarrow> int j2 \<le> k \<longrightarrow> meets a b (i2, j2) \<longrightarrow> (i2, j2) = (i, j) \<or> int i2 \<le> a' \<and> int j2 \<le> b'" by blast
        have "(i2, j2) = (i, j) \<or> int i2 \<le> a' \<and> int j2 \<le> b'" if "int i2 \<le> x" "int j2 \<le> y" "meets a b (i2, j2)" for i2 j2
          using w(7) here [of j2] beyond [of i2 j2] that X by (cases "i2 = X"; cases "k < int j2") auto
        moreover have "int i \<le> x" "int j \<le> y" using w(1,2) sp by auto
        ultimately show ?thesis using w(3-6) by blast
      qed
    next
      case (Some hit)
      obtain s e adv where hit: "hit = (s, e, adv)" by (cases hit)
      have k0: "0 \<le> k" "k \<le> y" using sp Some hit by auto
      define K where "K = nat k"
      have K: "k = int K" "K \<le> cnt b" using k0 less.prems(3) by (simp_all add: K_def)
      have k: "s = max (r_base ?m) (gap_start b K)" "e = min (r_base ?m + r_size ?m) (gap_end b K)"
        "adv = (gs (live b) K \<le> rb (live a ! X))" using sp Some hit by (auto simp: K_def)
      let ?n = "if adv then (x - 1, k) else (x, k - 1)"
      have "next_range_rev_a a (Some b) out x y
          = ((s, e, memblock_get_region_node ?m), mem_idx (fst ?n) (snd ?n))"
        by (subst next_range_rev_a.simps) (use True b Some hit X in \<open>cases adv; simp add: Let_def\<close>)
      then have out: "out' = (s, e, memblock_get_region_node ?m)" "i' = mem_idx (fst ?n) (snd ?n)"
        using less.prems(1) by simp_all
      have rest: "(i2, j2) = (X, K) \<or> int i2 \<le> fst ?n \<and> int j2 \<le> snd ?n"
        if h: "int i2 \<le> x" "int j2 \<le> y" "meets a b (i2, j2)" for i2 j2
      proof (cases adv)
        case True
        have "\<not> meets a b (X, l)" if "l < K" for l using not_meets_lower_gap [OF assms(2) _ that K(2)] k(3) True by blast
        then show ?thesis using beyond [of i2 j2] h True X K by (cases "i2 = X"; cases "k < int j2"; cases "j2 = K") auto
      next
        case False
        have "\<not> meets a b (l, K)" if "l < X" for l using not_meets_lower_region [OF assms(1) _ that X(2)] k(3) False by auto
        then show ?thesis using beyond [of i2 j2] h False X K by (cases "i2 = X"; cases "k < int j2"; cases "j2 = K") auto
      qed
      define a' b' where n: "a' = fst ?n" "b' = snd ?n"
      have "(fst out', fst (snd out')) = piece a b (X, K)" using k(1,2) out(1) by (simp add: piece_def Let_def)
      moreover have "(X, K) \<in> all_pairs a b" using X(2) K(2) by (simp add: all_pairs_def)
      moreover have "a' = int X - 1 \<and> b' = int K \<or> a' = int X \<and> b' = int K - 1 \<and> 0 < K"
      proof (cases adv)
        case False
        then have "K \<noteq> 0" using k(3) by (cases K) (auto simp: gs_def)
        then show ?thesis unfolding n using False X K by simp
      qed (use X K n in simp)
      moreover have "i' = mem_idx a' b'" using out(2) unfolding n .
      moreover have "\<forall>i2 j2. int i2 \<le> x \<longrightarrow> int j2 \<le> y \<longrightarrow> meets a b (i2, j2) \<longrightarrow> (i2, j2) = (X, K) \<or> int i2 \<le> a' \<and> int j2 \<le> b'"
        using rest unfolding n by blast
      moreover have "int X \<le> x" "int K \<le> y" using X K k0 by simp_all
      ultimately have "?hit x y"
        by (intro exI [of _ X] exI [of _ K] exI [of _ a'] exI [of _ b']) (simp only: simp_thms)
      then show ?thesis ..
    qed
  qed
qed

definition rev_idx :: "memblock_type \<Rightarrow> memblock_type \<Rightarrow> u64 \<Rightarrow> int \<times> int" where
  "rev_idx a b i =
     (if i = ULLONG_MAX then (int (cnt a) - 1, int (cnt b)) else (sint (idx_low i), sint (idx_high i)))"

definition rev_remaining :: "memblock_type \<Rightarrow> memblock_type \<Rightarrow> u64 \<Rightarrow> (nat \<times> nat) set" where
  "rev_remaining a b i = {p. meets a b p \<and> int (fst p) \<le> fst (rev_idx a b i) \<and> int (snd p) \<le> snd (rev_idx a b i)}"

definition rev_ok :: "memblock_type \<Rightarrow> memblock_type \<Rightarrow> u64 \<Rightarrow> bool" where
  "rev_ok a b i \<longleftrightarrow> scannable a \<and> scannable b \<and> - 1 \<le> fst (rev_idx a b i) \<and> fst (rev_idx a b i) < int (cnt a) \<and>
     0 \<le> snd (rev_idx a b i) \<and> snd (rev_idx a b i) \<le> int (cnt b)"

definition rev_rounds :: "memblock_type \<Rightarrow> memblock_type \<Rightarrow> u64 \<Rightarrow> nat" where
  "rev_rounds a b i = nat (fst (rev_idx a b i) + 1) + nat (snd (rev_idx a b i))"

lemma next_mem_range_rev_alt:
  "next_mem_range_rev i nid flags a (Some b) out = next_range_rev_a a (Some b) out (fst (rev_idx a b i)) (snd (rev_idx a b i))"
  by (simp add: next_mem_range_rev_def rev_idx_def)

interpretation rev: mem_range_iterator
  "\<lambda>i. next_mem_range_rev i nid flags a (Some b)" "piece a b" "all_pairs a b" "rev_remaining a b" "rev_ok a b" "rev_rounds a b"
  for nid flags a b
proof
  fix i out out'
  assume ok: "rev_ok a b i" and n: "next_mem_range_rev i nid flags a (Some b) out = (out', ULLONG_MAX)"
  have s: "scannable a" "scannable b" "fst (rev_idx a b i) < int (cnt a)" "snd (rev_idx a b i) \<le> int (cnt b)"
    using ok by (auto simp: rev_ok_def)
  have nm: "mem_idx a' b' \<noteq> ULLONG_MAX" if "0 \<le> b'" "b' \<le> int (cnt b)" for a' b'
    using that s(2) scannable_cnt [OF s(2)] by (intro mem_idx_not_max) (auto simp: scannable_def)
  from next_range_rev_a_spec [OF s(1,2) n [unfolded next_mem_range_rev_alt] s(3,4)]
  show "rev_remaining a b i = {}"
  proof
    assume "\<exists>x y a' b'. int x \<le> fst (rev_idx a b i) \<and> int y \<le> snd (rev_idx a b i) \<and> (x, y) \<in> all_pairs a b \<and>
      (fst out', fst (snd out')) = piece a b (x, y) \<and> ULLONG_MAX = mem_idx a' b' \<and>
      (a' = int x - 1 \<and> b' = int y \<or> a' = int x \<and> b' = int y - 1 \<and> 0 < y) \<and>
      (\<forall>i2 j2. int i2 \<le> fst (rev_idx a b i) \<longrightarrow> int j2 \<le> snd (rev_idx a b i) \<longrightarrow> meets a b (i2, j2) \<longrightarrow>
        (i2, j2) = (x, y) \<or> int i2 \<le> a' \<and> int j2 \<le> b')"
    then obtain x y a' b' where "(x, y) \<in> all_pairs a b" "ULLONG_MAX = mem_idx a' b'"
      "a' = int x - 1 \<and> b' = int y \<or> a' = int x \<and> b' = int y - 1 \<and> 0 < y" by blast
    then show ?thesis using nm [of b' a'] by (auto simp: all_pairs_def)
  qed (auto simp: rev_remaining_def)
next
  fix i out out' i'
  assume ok: "rev_ok a b i" and n: "next_mem_range_rev i nid flags a (Some b) out = (out', i')" and m: "i' \<noteq> ULLONG_MAX"
  have s: "scannable a" "scannable b" "fst (rev_idx a b i) < int (cnt a)" "snd (rev_idx a b i) \<le> int (cnt b)"
    using ok by (auto simp: rev_ok_def)
  obtain x y a' b' where w: "int x \<le> fst (rev_idx a b i)" "int y \<le> snd (rev_idx a b i)" "(x, y) \<in> all_pairs a b"
    "(fst out', fst (snd out')) = piece a b (x, y)" "i' = mem_idx a' b'"
    "a' = int x - 1 \<and> b' = int y \<or> a' = int x \<and> b' = int y - 1 \<and> 0 < y"
    "\<forall>i2 j2. int i2 \<le> fst (rev_idx a b i) \<longrightarrow> int j2 \<le> snd (rev_idx a b i) \<longrightarrow> meets a b (i2, j2) \<longrightarrow> (i2, j2) = (x, y) \<or> int i2 \<le> a' \<and> int j2 \<le> b'"
    using next_range_rev_a_spec [OF s(1,2) n [unfolded next_mem_range_rev_alt] s(3,4)] m by blast
  have xy: "x < cnt a" "y \<le> cnt b" using w(3) by (auto simp: all_pairs_def)
  have lens: "cnt a < 2 ^ 31 - 1" "cnt b < 2 ^ 31 - 1" using s(1,2) scannable_cnt by (auto simp: scannable_def)
  have "rev_idx a b i' = (sint (idx_low i'), sint (idx_high i'))" using m by (simp add: rev_idx_def)
  moreover have "sint (idx_low i') = a'" "sint (idx_high i') = b'"
    unfolding w(5) using idx_read_int [of a' b'] w(6) xy lens by auto
  ultimately have u: "fst (rev_idx a b i') = a'" "snd (rev_idx a b i') = b'" by simp_all
  have "rev_ok a b i'" using s w(6) xy by (auto simp: rev_ok_def u)
  moreover have "rev_rounds a b i' < rev_rounds a b i" using w(1,2,6) xy by (auto simp: rev_rounds_def u)
  moreover have "rev_remaining a b i \<subseteq> insert (x, y) (rev_remaining a b i')"
  proof
    fix p assume "p \<in> rev_remaining a b i"
    then show "p \<in> insert (x, y) (rev_remaining a b i')"
      using w(7) [rule_format, of "fst p" "snd p"] by (auto simp: rev_remaining_def u)
  qed
  ultimately show "\<exists>p \<in> all_pairs a b. (fst out', fst (snd out')) = piece a b p \<and>
      rev_remaining a b i \<subseteq> insert p (rev_remaining a b i') \<and> rev_ok a b i' \<and> rev_rounds a b i' < rev_rounds a b i"
    using w(3,4) by blast
qed

text \<open>Both loops start with everything ahead of them and with enough fuel.\<close>

lemma fwd_start:
  assumes "scannable a" and "scannable b"
  shows "fwd_ok a b 0" and "fwd_remaining a b 0 = {p. meets a b p}" and "fwd_rounds a b 0 < cnt a + cnt b + 2"
  using assms by (auto simp: fwd_ok_def fwd_remaining_def fwd_rounds_def idx_low_def idx_high_def)

lemma rev_start:
  assumes "scannable a" and "scannable b"
  shows "rev_ok a b ULLONG_MAX" and "rev_remaining a b ULLONG_MAX = {p. meets a b p}"
    and "rev_rounds a b ULLONG_MAX < cnt a + cnt b + 2"
  using assms by (auto simp: rev_ok_def rev_remaining_def rev_rounds_def rev_idx_def meets_iff)

section \<open>Rounding and clamping\<close>

lemma round_down_u32_sub: "round_down_u32 x (2 ^ k) = x - take_bit k x"
proof -
  have "(2 ^ k - 1 :: u32) = mask k" by (simp add: mask_eq_exp_minus_1)
  moreover have "x - take_bit k x = x AND NOT (take_bit k x)"
    by (rule disjunctive_diff_eq_and_not) (rule bit_word_eqI, simp add: bit_simps)
  moreover have "x AND NOT (mask k) = x AND NOT (take_bit k x)"
    by (rule bit_word_eqI) (auto simp: bit_simps)
  ultimately show ?thesis by (simp add: round_down_u32_def)
qed

lemma unat_round_down_u32: "unat (round_down_u32 x (2 ^ k)) = unat x div 2 ^ k * 2 ^ k"
proof -
  have "unat (take_bit k x) = take_bit k (unat x)" by (rule unsigned_take_bit_eq)
  then have t: "unat (take_bit k x) = unat x mod 2 ^ k" by (simp only: take_bit_eq_mod)
  then have "take_bit k x \<le> x" by (simp add: word_le_nat_alt)
  then show ?thesis unfolding round_down_u32_sub using t by (simp add: unat_sub minus_mod_eq_div_mult)
qed

lemma round_up_u32_add: "round_up_u32 x (2 ^ k) = round_down_u32 (x - 1) (2 ^ k) + 2 ^ k"
proof -
  have m: "(2 ^ k - 1 :: u32) = mask k" by (simp add: mask_eq_exp_minus_1)
  have "(x - 1) OR mask k = ((x - 1) AND NOT (mask k)) OR mask k" by (rule bit_word_eqI) (auto simp: bit_simps)
  also have "\<dots> = ((x - 1) AND NOT (mask k)) + mask k"
    by (rule disjunctive_add_eq_or [symmetric]) (rule bit_word_eqI, simp add: bit_simps)
  finally show ?thesis unfolding round_up_u32_def round_down_u32_def m by (simp add: mask_eq_exp_minus_1)
qed

lemma unat_round_up_u32:
  assumes "0 < x" and "k < 32" and "round_up_u32 x (2 ^ k) \<noteq> 0"
  shows "2 ^ k dvd unat (round_up_u32 x (2 ^ k))" and "x \<le> round_up_u32 x (2 ^ k)"
proof -
  let ?d = "unat (x - 1) div 2 ^ k * 2 ^ k"
  have x1: "unat (x - 1) = unat x - 1" using assms(1) by (simp add: unat_minus_one word_gt_0)
  have "(2::nat) ^ k < 2 ^ 32" using assms(2) by (intro power_strict_increasing) simp_all
  then have "unat (of_nat (2 ^ k) :: u32) = 2 ^ k" unfolding unat_of_nat by simp
  then have p: "unat (2 ^ k :: u32) = 2 ^ k" by simp
  have u: "unat (round_up_u32 x (2 ^ k)) = (?d + 2 ^ k) mod 2 ^ 32"
    unfolding round_up_u32_add by (simp add: unat_word_ariths p unat_round_down_u32)
  have d: "2 ^ k dvd ?d + 2 ^ k" by simp
  have "(2 ^ k :: nat) dvd 2 ^ 32" using assms(2) by (intro le_imp_power_dvd) simp
  moreover have "?d \<le> unat (x - 1)" by simp
  moreover have "unat (x - 1) < 2 ^ 32" by (rule unat_u32_less)
  ultimately have "?d + 2 ^ k \<le> 2 ^ 32"
  proof -
    obtain q where q: "(2 ^ 32 :: nat) = 2 ^ k * q" using \<open>(2 ^ k :: nat) dvd 2 ^ 32\<close> by (elim dvdE)
    have "unat (x - 1) div 2 ^ k < q" using \<open>unat (x - 1) < 2 ^ 32\<close> q by (simp add: less_mult_imp_div_less mult.commute)
    then have "(unat (x - 1) div 2 ^ k + 1) * 2 ^ k \<le> q * 2 ^ k" by (intro mult_right_mono) simp_all
    then show ?thesis using q by (simp add: algebra_simps)
  qed
  moreover have "?d + 2 ^ k \<noteq> 2 ^ 32" using u assms(3) by (auto simp: unat_eq_zero)
  ultimately have e: "unat (round_up_u32 x (2 ^ k)) = ?d + 2 ^ k" using u by simp
  then show "2 ^ k dvd unat (round_up_u32 x (2 ^ k))" using d by simp
  have "unat (x - 1) < ?d + 2 ^ k"
  proof -
    have "unat (x - 1) mod 2 ^ k < 2 ^ k" by simp
    then show ?thesis using div_mult_mod_eq [of "unat (x - 1)" "2 ^ k"] by linarith
  qed
  then show "x \<le> round_up_u32 x (2 ^ k)" using e x1 by (simp add: word_le_nat_alt)
qed

lemma unat_max_word: "unat (max a b :: 'a::len word) = max (unat a) (unat b)"
  by (simp add: max_def word_le_nat_alt)

lemma unat_clamp: "unat (clamp v lo hi) = min (max (unat v) (unat lo)) (unat hi)"
  by (simp add: clamp_def unat_min_word unat_max_word)

text \<open>A candidate of either body lies inside the piece and inside the limits.\<close>

lemma bottom_up_body_sound:
  assumes "bottom_up_body start fin sz (2 ^ k) ps pe = Some c" and "c \<noteq> 0" and "0 < sz" and "start \<le> fin" and "0 < start" and "k < 32"
  shows "2 ^ k dvd unat c \<and> max (unat ps) (unat start) \<le> unat c \<and> unat c + unat sz \<le> min (unat pe) (unat fin)"
proof -
  let ?s = "clamp ps start fin" and ?e = "clamp pe start fin"
  have c: "c = round_up_u32 ?s (2 ^ k)" "c < ?e" "sz \<le> ?e - c"
    using assms(1) by (auto simp: bottom_up_body_def Let_def split: if_splits)
  have s0: "0 < ?s" using assms(4,5) by (auto simp: word_less_nat_alt word_le_nat_alt unat_clamp)
  have r: "2 ^ k dvd unat c" "?s \<le> c" using unat_round_up_u32 [OF s0 assms(6)] assms(2) c(1) by auto
  have "unat sz \<le> unat ?e - unat c" using c(2,3) by (simp add: word_le_nat_alt unat_sub word_less_nat_alt)
  then show ?thesis using r c(2) assms(3,4)
    by (auto simp: word_le_nat_alt word_less_nat_alt unat_clamp)
qed

lemma top_down_body_sound:
  assumes "top_down_body start fin sz (2 ^ k) ps pe = Some c" and "0 < sz" and "start \<le> fin"
  shows "2 ^ k dvd unat c \<and> max (unat ps) (unat start) \<le> unat c \<and> unat c + unat sz \<le> min (unat pe) (unat fin)"
proof -
  let ?s = "clamp ps start fin" and ?e = "clamp pe start fin"
  have c: "c = round_down_u32 (?e - sz) (2 ^ k)" "?s \<le> c" "sz \<le> ?e"
    using assms(1) by (auto simp: top_down_body_def Let_def not_less split: if_splits)
  have e: "unat (?e - sz) = unat ?e - unat sz" using c(3) by (rule unat_sub)
  have u: "unat c = unat (?e - sz) div 2 ^ k * 2 ^ k" unfolding c(1) by (rule unat_round_down_u32)
  then have "unat c \<le> unat ?e - unat sz" "2 ^ k dvd unat c" using e by simp_all
  then show ?thesis using c(2,3) assms(2,3)
    by (auto simp: word_le_nat_alt word_less_nat_alt unat_clamp)
qed

lemma top_down_body_complete:
  assumes "2 ^ k dvd c" and "max (unat ps) (unat start) \<le> c" and "c + unat sz \<le> min (unat pe) (unat fin)"
  shows "top_down_body start fin sz (2 ^ k) ps pe \<noteq> None"
proof -
  let ?s = "clamp ps start fin" and ?e = "clamp pe start fin"
  have e: "unat ?e = min (unat pe) (unat fin)" "unat ?s \<le> c" using assms by (auto simp: unat_clamp)
  have sz: "sz \<le> ?e" using assms(3) e by (simp add: word_le_nat_alt)
  have "c \<le> unat (?e - sz)" using assms(3) e(1) unat_sub [OF sz] by linarith
  then have "c div 2 ^ k * 2 ^ k \<le> unat (?e - sz) div 2 ^ k * 2 ^ k" by (simp add: div_le_mono)
  then have "c \<le> unat (round_down_u32 (?e - sz) (2 ^ k))" using assms(1) by (simp add: unat_round_down_u32)
  then have "?s \<le> round_down_u32 (?e - sz) (2 ^ k)" using e(2) by (simp add: word_le_nat_alt)
  then show ?thesis using sz by (simp add: top_down_body_def Let_def)
qed

section \<open>Searches\<close>

text \<open>The invariant of a region array, and the blocks a search may return.\<close>

definition wf_type :: "memblock_type \<Rightarrow> bool" where
  "wf_type t \<longleftrightarrow> rp t (live t) \<and> max_cnt t < 2 ^ 31 - 1 \<and>
     (live t = [empty_region] \<or> live t \<noteq> [] \<and> wf_regions (live t))"

lemma wf_type_scannable:
  assumes "wf_type t" shows "scannable t"
proof -
  have rp: "rp t (live t)" and mx: "max_cnt t < 2 ^ 31 - 1" using assms by (auto simp: wf_type_def)
  have "weak_wf (live t)" using assms wf_regions_weak empty_region_weak by (auto simp: wf_type_def)
  moreover have "length (live t) \<le> max_cnt t" using rp_cnt [OF rp] rp unfolding rp_def by simp
  ultimately show ?thesis using rp mx unfolding scannable_def by linarith
qed

definition free_range :: "mm_state \<Rightarrow> nat \<Rightarrow> nat \<Rightarrow> bool" where
  "free_range s lo hi \<longleftrightarrow> (\<forall>x. lo \<le> x \<longrightarrow> x < hi \<longrightarrow>
     flag_at (live (memory s)) x \<noteq> None \<and> flag_at (live (reserved s)) x = None)"

definition one_region :: "mm_state \<Rightarrow> nat \<Rightarrow> nat \<Rightarrow> bool" where
  "one_region s lo hi \<longleftrightarrow> (\<exists>r \<in> set (live (memory s)). rb r \<le> lo \<and> hi \<le> re r)"

lemma piece_free:
  assumes "scannable (memory s)" and "scannable (reserved s)" and "p \<in> all_pairs (memory s) (reserved s)"
    and "piece (memory s) (reserved s) p = (ps, pe)" and "unat ps \<le> lo" and "hi \<le> unat pe"
  shows "free_range s lo hi" and "lo < hi \<Longrightarrow> one_region s lo hi"
proof -
  obtain i j where p: "p = (i, j)" "i < cnt (memory s)" "j \<le> cnt (reserved s)"
    using assms(3) by (auto simp: all_pairs_def)
  let ?m = "live (memory s) ! i" and ?R = "live (reserved s)"
  have b: "unat ps = max (rb ?m) (gs ?R j)" "unat pe = min (re ?m) (ge ?R j)"
    using assms(4) p unat_members [OF assms(1) p(2)] unat_gaps [OF assms(2) p(3)]
    by (auto simp: piece_def Let_def unat_max_word unat_min_word)
  have m: "?m \<in> set (live (memory s))" using p(2) scannable_cnt [OF assms(1)] by simp
  have R: "weak_wf ?R" "j \<le> length ?R" using assms(2) p(3) scannable_cnt [OF assms(2)] by (auto simp: scannable_def)
  show "free_range s lo hi" unfolding free_range_def
  proof (intro allI impI conjI)
    fix x assume x: "lo \<le> x" "x < hi"
    then have "rb ?m \<le> x" "x < re ?m" "gs ?R j \<le> x" "x < ge ?R j" using b assms(5,6) by auto
    then show "flag_at (live (memory s)) x \<noteq> None" "flag_at ?R x = None"
      using m gap_free [OF R] unfolding flag_at_None by blast+
  qed
  show "one_region s lo hi" if "lo < hi"
    unfolding one_region_def using b assms(5,6) m by (intro bexI [of _ ?m]) auto
qed

text \<open>A free block lies in one gap.\<close>

lemma gap_exists:
  assumes "rs = [empty_region] \<or> wf_regions rs" and "\<forall>x. lo \<le> x \<longrightarrow> x < hi \<longrightarrow> flag_at rs x = None"
    and "lo < hi" and "hi < 2 ^ 32"
  obtains j where "j \<le> length rs" and "gs rs j \<le> lo" and "hi \<le> ge rs j"
proof -
  define j where "j = length (takeWhile (\<lambda>r. re r \<le> lo) rs)"
  have jl: "j \<le> length rs" unfolding j_def by (rule length_takeWhile_le)
  have "re (rs ! k) \<le> lo" if "k < j" for k
    using nth_length_takeWhile takeWhile_nth that set_takeWhileD by (metis j_def nth_mem)
  then have g: "gs rs j \<le> lo" by (cases j) (auto simp: gs_def)
  have "hi \<le> ge rs j"
  proof (cases "j < length rs")
    case True
    let ?r = "rs ! j"
    have nr: "lo < re ?r" using nth_length_takeWhile [of "\<lambda>r. re r \<le> lo" rs] True by (simp add: j_def)
    then have "rs \<noteq> [empty_region]" using True by (auto simp: re_def)
    then have "rb ?r < re ?r" using assms(1) True by (auto simp: wf_regions_def region_ok_def)
    moreover have "\<not> (rb ?r \<le> x \<and> x < re ?r)" if "lo \<le> x" "x < hi" for x
      using assms(2) that True by (auto simp: flag_at_None)
    ultimately have "hi \<le> rb ?r" using nr assms(3) by (metis le_eq_less_or_eq not_le)
    then show ?thesis using True by (simp add: ge_def)
  qed (use assms(4) in \<open>simp add: ge_def\<close>)
  then show ?thesis using that jl g by blast
qed

definition good_block :: "mm_state \<Rightarrow> phys_addr_t \<Rightarrow> phys_addr_t \<Rightarrow> phys_addr_t \<Rightarrow> nat \<Rightarrow> nat \<Rightarrow> bool" where
  "good_block s start fin sz k c \<longleftrightarrow>
     2 ^ k dvd c \<and> unat start \<le> c \<and> c + unat sz \<le> unat fin \<and>
     one_region s c (c + unat sz) \<and> free_range s c (c + unat sz)"

lemma find_bottom_up_correct:
  assumes "wf_type (memory s)" and "wf_type (reserved s)" and "0 < sz" and "k < 32" and "start \<le> fin" and "0 < start"
  obtains ret where "memblock_find_range_bottom_up s start fin sz (2 ^ k) nid flags = Some ret"
    and "ret \<noteq> 0 \<longrightarrow> good_block s start fin sz k (unat ret)"
proof -
  let ?a = "memory s" and ?b = "reserved s" and ?body = "bottom_up_body start fin sz (2 ^ k)"
  note sc = wf_type_scannable [OF assms(1)] wf_type_scannable [OF assms(2)]
  obtain ret where r: "for_each_mem_range (scan_fuel s) (\<lambda>i. next_mem_range i nid flags ?a (Some ?b)) ?body 0 (0, 0, 0) = Some ret"
    "(\<exists>p \<in> all_pairs ?a ?b. case_prod ?body (piece ?a ?b p) = Some ret) \<or>
      ret = 0 \<and> (\<forall>p \<in> fwd_remaining ?a ?b 0. case_prod ?body (piece ?a ?b p) = None)"
    by (rule fwd.for_each_mem_range_returns [where nid = nid and flags = flags and body = ?body and out = "(0, 0, 0)",
          OF fwd_start(1) [OF sc] fwd_start(3) [OF sc, folded scan_fuel_def]])
  moreover have "good_block s start fin sz k (unat ret)" if nz: "ret \<noteq> 0"
  proof -
    obtain p where q: "p \<in> all_pairs ?a ?b" "case_prod ?body (piece ?a ?b p) = Some ret" using r(2) nz by blast
    obtain ps pe where pc: "piece ?a ?b p = (ps, pe)" by (cases "piece ?a ?b p")
    then have p: "p \<in> all_pairs ?a ?b" "piece ?a ?b p = (ps, pe)" "?body ps pe = Some ret" using q by simp_all
    note so = bottom_up_body_sound [OF p(3) nz assms(3,5,6,4)]
    have "0 < unat sz" using assms(3) by (simp add: word_less_nat_alt)
    then show ?thesis unfolding good_block_def
      using so piece_free [OF sc p(1,2), of "unat ret" "unat ret + unat sz"] by auto
  qed
  ultimately show ?thesis using that by (simp add: memblock_find_range_bottom_up_def)
qed

lemma find_top_down_correct:
  assumes "wf_type (memory s)" and "wf_type (reserved s)" and "0 < sz" and "start \<le> fin" and "0 < start"
  obtains ret where "memblock_find_range_top_down s start fin sz (2 ^ k) nid flags = Some ret"
    and "ret \<noteq> 0 \<longrightarrow> good_block s start fin sz k (unat ret)"
    and "ret = 0 \<longrightarrow> (\<forall>c. \<not> good_block s start fin sz k c)"
proof -
  let ?a = "memory s" and ?b = "reserved s" and ?body = "top_down_body start fin sz (2 ^ k)"
  note sc = wf_type_scannable [OF assms(1)] wf_type_scannable [OF assms(2)]
  have sz: "0 < unat sz" using assms(3) by (simp add: word_less_nat_alt)
  obtain ret where r: "for_each_mem_range (scan_fuel s) (\<lambda>i. next_mem_range_rev i nid flags ?a (Some ?b)) ?body ULLONG_MAX (0, 0, 0) = Some ret"
    "(\<exists>p \<in> all_pairs ?a ?b. case_prod ?body (piece ?a ?b p) = Some ret) \<or>
      ret = 0 \<and> (\<forall>p \<in> rev_remaining ?a ?b ULLONG_MAX. case_prod ?body (piece ?a ?b p) = None)"
    by (rule rev.for_each_mem_range_returns [where nid = nid and flags = flags and body = ?body and out = "(0, 0, 0)",
          OF rev_start(1) [OF sc] rev_start(3) [OF sc, folded scan_fuel_def]])
  have good: "good_block s start fin sz k (unat ret)"
    if mem: "p \<in> all_pairs ?a ?b" and hit: "case_prod ?body (piece ?a ?b p) = Some ret" for p
  proof -
    obtain ps pe where pc: "piece ?a ?b p = (ps, pe)" by (cases "piece ?a ?b p")
    then have p: "piece ?a ?b p = (ps, pe)" "?body ps pe = Some ret" using hit by simp_all
    note so = top_down_body_sound [OF p(2) assms(3,4)]
    then show ?thesis unfolding good_block_def
      using piece_free [OF sc mem p(1), of "unat ret" "unat ret + unat sz"] sz by auto
  qed
  have none: "\<not> good_block s start fin sz k c" if z: "ret = 0" for c
  proof
    assume g: "good_block s start fin sz k c"
    have "unat ret = 0" using z by simp
    then have "\<forall>p \<in> rev_remaining ?a ?b ULLONG_MAX. case_prod ?body (piece ?a ?b p) = None"
      using r(2) good assms(5) by (auto simp: good_block_def word_less_nat_alt)
    then have nb: "case_prod ?body (piece ?a ?b p) = None" if "meets ?a ?b p" for p
      using that unfolding rev_start(2) [OF sc] by blast
    obtain m where m: "m \<in> set (live ?a)" "rb m \<le> c" "c + unat sz \<le> re m" using g by (auto simp: good_block_def one_region_def)
    then obtain i where i: "i < cnt ?a" "live ?a ! i = m" using scannable_cnt [OF sc(1)] by (auto simp: in_set_conv_nth)
    have hi: "c + unat sz < 2 ^ 32" using g unat_u32_less [of fin] by (auto simp: good_block_def)
    obtain j where j: "j \<le> length (live ?b)" "gs (live ?b) j \<le> c" "c + unat sz \<le> ge (live ?b) j"
      by (rule gap_exists [of "live ?b" c "c + unat sz"])
        (use g sz hi assms(2) in \<open>auto simp: good_block_def free_range_def wf_type_def\<close>)
    have jc: "j \<le> cnt ?b" using j(1) scannable_cnt [OF sc(2)] by simp
    have "meets ?a ?b (i, j)" using i j jc m sz by (simp add: meets_iff)
    moreover obtain ps pe where p: "piece ?a ?b (i, j) = (ps, pe)" by (cases "piece ?a ?b (i, j)")
    moreover have "unat ps = max (rb m) (gs (live ?b) j)" "unat pe = min (re m) (ge (live ?b) j)"
      using p i unat_members [OF sc(1) i(1)] unat_gaps [OF sc(2) jc]
      by (auto simp: piece_def Let_def unat_max_word unat_min_word)
    ultimately show False using nb [of "(i, j)"] top_down_body_complete [of k c ps start sz pe fin] g m j
      by (auto simp: good_block_def)
  qed
  show ?thesis using that [of ret] r good none by (auto simp: memblock_find_range_top_down_def)
qed

text \<open>
  The limits \<open>memblock_find_in_range_node\<close> searches in: never the first page, and up to
  \<open>current_limit\<close> for the two special end values.
\<close>

definition search_start :: "phys_addr_t \<Rightarrow> phys_addr_t" where
  "search_start start = max start PAGE_SIZE"

definition search_end :: "mm_state \<Rightarrow> phys_addr_t \<Rightarrow> phys_addr_t \<Rightarrow> phys_addr_t" where
  "search_end s start fin =
     max (search_start start)
       (if fin = MEMBLOCK_ALLOC_ACCESSIBLE \<or> fin = MEMBLOCK_ALLOC_KASAN then current_limit s else fin)"

lemma good_block_mono:
  "good_block s start' fin sz k c \<Longrightarrow> start \<le> start' \<Longrightarrow> good_block s start fin sz k c"
  by (auto simp: good_block_def word_le_nat_alt)

lemma find_node_spec:
  assumes "wf_type (memory s)" and "wf_type (reserved s)" and "0 < sz" and "k < 32"
  obtains ret where "memblock_find_in_range_node s sz (2 ^ k) start fin nid flags = Some ret"
    and "ret \<noteq> 0 \<longrightarrow> good_block s (search_start start) (search_end s start fin) sz k (unat ret)"
    and "ret = 0 \<longrightarrow> (\<forall>c. \<not> good_block s (search_start start) (search_end s start fin) sz k c)"
proof -
  let ?st = "search_start start" and ?fi = "search_end s start fin"
  let ?ke = "virt_to_phys (page_offset s) (page_offset s)"
  have "(0 :: u32) < PAGE_SIZE" by (simp add: PAGE_SIZE_def)
  then have st: "0 < ?st" "?st \<le> ?fi" by (auto simp: search_start_def search_end_def less_max_iff_disj)
  obtain r1 where r1: "memblock_find_range_top_down s ?st ?fi sz (2 ^ k) nid flags = Some r1"
    "r1 \<noteq> 0 \<longrightarrow> good_block s ?st ?fi sz k (unat r1)" "r1 = 0 \<longrightarrow> (\<forall>c. \<not> good_block s ?st ?fi sz k c)"
    by (rule find_top_down_correct [OF assms(1-3) st(2,1), of k nid flags])
  show ?thesis
  proof (cases "bottom_up s \<and> ?fi > ?ke")
    case True
    let ?bs = "max ?st ?ke"
    have "?bs \<le> ?fi" "0 < ?bs" using True st by (auto simp: less_max_iff_disj)
    then obtain r2 where r2: "memblock_find_range_bottom_up s ?bs ?fi sz (2 ^ k) nid flags = Some r2"
      "r2 \<noteq> 0 \<longrightarrow> good_block s ?bs ?fi sz k (unat r2)"
      by (rule find_bottom_up_correct [OF assms(1-4)])
    have "memblock_find_in_range_node s sz (2 ^ k) start fin nid flags = Some (if r2 \<noteq> 0 then r2 else r1)"
      using True r1(1) r2(1)
      unfolding memblock_find_in_range_node_def Let_def search_start_def search_end_def by simp
    then show ?thesis using that r1 r2 good_block_mono [of s ?bs ?fi sz k "unat r2" ?st] by (auto split: if_splits)
  next
    case False
    then have "memblock_find_in_range_node s sz (2 ^ k) start fin nid flags = Some r1"
      using r1(1) unfolding memblock_find_in_range_node_def Let_def search_start_def search_end_def by auto
    then show ?thesis using that r1 by blast
  qed
qed

text \<open>The retry of \<open>memblock_find_in_range\<close> ends after at most one more round.\<close>

lemma find_in_range_spec:
  assumes "wf_type (memory s)" and "wf_type (reserved s)" and "0 < sz" and "k < 32"
  obtains ret where "memblock_find_in_range s start fin sz (2 ^ k) = Some ret"
    and "ret \<noteq> 0 \<longrightarrow> good_block s (search_start start) (search_end s start fin) sz k (unat ret)"
    and "ret = 0 \<longrightarrow> (\<forall>c. \<not> good_block s (search_start start) (search_end s start fin) sz k c)"
proof -
  let ?node = "memblock_find_in_range_node s sz (2 ^ k) start fin (- 1)"
  let ?f = "choose_memblock_flags s"
  obtain r1 where r1: "?node ?f = Some r1" 
    "r1 \<noteq> 0 \<longrightarrow> good_block s (search_start start) (search_end s start fin) sz k (unat r1)"
    "r1 = 0 \<longrightarrow> (\<forall>c. \<not> good_block s (search_start start) (search_end s start fin) sz k c)"
    by (rule find_node_spec [OF assms])
  obtain r2 where r2: "?node 0 = Some r2"
    "r2 \<noteq> 0 \<longrightarrow> good_block s (search_start start) (search_end s start fin) sz k (unat r2)"
    "r2 = 0 \<longrightarrow> (\<forall>c. \<not> good_block s (search_start start) (search_end s start fin) sz k c)"
    by (rule find_node_spec [OF assms])
  have f: "?f = 0 \<or> ?f = MEMBLOCK_MIRROR"
    by (simp add: choose_memblock_flags_def MEMBLOCK_NONE_def)
  have z: "find_in_range_again s start fin sz (2 ^ k) 0 = Some r2"
    by (subst find_in_range_again.simps) (simp add: r2(1))
  show ?thesis
  proof (cases "r1 = 0 \<and> ?f \<noteq> 0")
    case True
    then have "memblock_find_in_range s start fin sz (2 ^ k) = Some r2"
      unfolding memblock_find_in_range_def
      by (subst find_in_range_again.simps) (use f r1(1) z in \<open>auto simp: MEMBLOCK_MIRROR_def\<close>)
    then show ?thesis using that r2 by blast
  next
    case False
    then have "memblock_find_in_range s start fin sz (2 ^ k) = Some r1"
      unfolding memblock_find_in_range_def
      by (subst find_in_range_again.simps) (use r1(1) in auto)
    then show ?thesis using that r1 by blast
  qed
qed

section \<open>Properties\<close>

text \<open>A small machine for the concrete instances: one memory region and one reservation in it.\<close>

definition one_region_type :: "nat \<Rightarrow> phys_addr_t \<Rightarrow> phys_addr_t \<Rightarrow> string \<Rightarrow> memblock_type" where
  "one_region_type n base sz nm =
     \<lparr>cnt = 1, max_cnt = n, total_size = sz,
      regions = \<lparr>r_base = base, r_size = sz, r_flags = 0\<rparr> # replicate (n - 1) empty_region,
      regions_at = None, t_name = nm\<rparr>"

definition sample_state :: mm_state where
  "sample_state =
     \<lparr>bottom_up = False, current_limit = 0x61000000,
      memory = one_region_type 8 0x60000000 0x1000000 ''memory'',
      reserved = one_region_type 8 0x60FFF000 0x1000 ''reserved'',
      memblock_can_resize = True, memblock_memory_in_slab = False, memblock_reserved_in_slab = False,
      system_has_some_mirror = False, page_offset = 0x10000000, ram = (\<lambda>_. 0)\<rparr>"

lemma one_region_type_wf:
  assumes "0 < n" and "0 < sz" and "unat base + unat sz < 2 ^ 32" and "n < 2 ^ 31 - 1"
  shows "wf_type (one_region_type n base sz nm)"
  using assms
  by (auto simp: wf_type_def rp_def live_def one_region_type_def wf_regions_def region_ok_def rb_def re_def word_less_nat_alt)

lemma sample_state_wf: "wf_type (memory sample_state) \<and> wf_type (reserved sample_state)"
  by (simp add: sample_state_def one_region_type_wf)

text \<open>
  C20: \<open>memblock_find_in_range_node\<close> always returns. What it returns is an aligned block of free
  memory inside the limits and inside one memory region; it returns 0 only when there is no such
  block. The node and the flags that the caller asks for have no influence on the result: the
  code ignores both, against what its comments say of them.
\<close>

theorem memblock_find_in_range_node_correct:
  assumes "wf_type (memory s)" and "wf_type (reserved s)" and "0 < sz" and "k < 32"
  shows "\<exists>ret. memblock_find_in_range_node s sz (2 ^ k) start fin nid flags = Some ret \<and>
    (if ret \<noteq> 0 then good_block s (search_start start) (search_end s start fin) sz k (unat ret)
     else \<forall>c. \<not> good_block s (search_start start) (search_end s start fin) sz k c)"
  using find_node_spec [OF assms, where start = start and fin = fin and nid = nid and flags = flags] by metis

theorem memblock_find_in_range_node_witness:
  "memblock_find_in_range_node sample_state 0x2000 (2 ^ 12) 0 0 (- 1) 0 = Some 0x60FFD000 \<and>
   good_block sample_state (search_start 0) (search_end sample_state 0 0) 0x2000 12 0x60FFD000"
proof -
  have e: "memblock_find_in_range_node sample_state 0x2000 (2 ^ 12) 0 0 (- 1) 0 = Some 0x60FFD000" by code_simp
  show ?thesis
    using memblock_find_in_range_node_correct [of sample_state "0x2000" 12, where start = 0 and fin = 0 and nid = "- 1" and flags = 0] sample_state_wf e by simp
qed

end
