(* ===== verification/Memblock_Alloc.thy ===== *)
theory Memblock_Alloc
  imports Memblock_Scan
begin

text \<open>
  The state-changing interface of \<open>memblock_userspace/mm/memblock.c\<close>: adding, reserving,
  freeing and allocating, on the state \<open>mm_state\<close>. A function returns the C result together
  with the new state, inside an option whose \<open>None\<close> is a \<open>BUG_ON\<close> (an endless loop) or
  exhausted fuel.

  \<open>memblock_add_range\<close> and \<open>memblock_isolate_range\<close> call \<open>memblock_double_array\<close>, which calls
  \<open>memblock_free\<close> and \<open>memblock_reserve\<close>, which call the first two again. The recursion is tied
  by passing \<open>memblock_double_array\<close> as an argument and by giving it fuel: a resize nests at most
  once (doubling the memory array may have to double the reserved array first).
\<close>

unbundle bit_operations_syntax

section \<open>Definitions\<close>

datatype mem_sel = MEMORY | RESERVED

definition get_type :: "mem_sel \<Rightarrow> mm_state \<Rightarrow> memblock_type" where
  "get_type sel s = (case sel of MEMORY \<Rightarrow> memory s | RESERVED \<Rightarrow> reserved s)"

definition put_type :: "mem_sel \<Rightarrow> memblock_type \<Rightarrow> mm_state \<Rightarrow> mm_state" where
  "put_type sel t s = (case sel of MEMORY \<Rightarrow> s\<lparr>memory := t\<rparr> | RESERVED \<Rightarrow> s\<lparr>reserved := t\<rparr>)"

type_synonym doubler = "mem_sel \<Rightarrow> phys_addr_t \<Rightarrow> phys_addr_t \<Rightarrow> mm_state \<Rightarrow> (int \<times> mm_state) option"

definition ENOMEM :: int where "ENOMEM = 12"
definition MAX_NUMNODES :: int where "MAX_NUMNODES = 1"
definition NUMA_NO_NODE :: int where "NUMA_NO_NODE = - 1"

text \<open>\<open>while (type->cnt + n > type->max) if (memblock_double_array(...) < 0) return -ENOMEM;\<close>\<close>

fun grow_array :: "nat \<Rightarrow> doubler \<Rightarrow> mem_sel \<Rightarrow> nat \<Rightarrow> phys_addr_t \<Rightarrow> phys_addr_t \<Rightarrow> mm_state \<Rightarrow> (bool \<times> mm_state) option" where
  "grow_array fuel dbl sel n base sz s =
     (if cnt (get_type sel s) + n > max_cnt (get_type sel s) then
        (case fuel of
           0 \<Rightarrow> None
         | Suc fuel' \<Rightarrow>
             dbl sel base sz s
             \<bind> (\<lambda>(ret, s). if ret < 0 then Some (False, s) else grow_array fuel' dbl sel n base sz s))
      else Some (True, s))"

declare grow_array.simps [simp del]

definition memblock_isolate_range ::
  "doubler \<Rightarrow> mem_sel \<Rightarrow> phys_addr_t \<Rightarrow> phys_addr_t \<Rightarrow> mm_state \<Rightarrow> ((int \<times> nat \<times> nat) \<times> mm_state) option" where
  "memblock_isolate_range dbl sel base sz s =
     (let sz = memblock_cap_size base sz; fin = base + sz in
      if sz = 0 then Some ((0, 0, 0), s)
      else
        grow_array 32 dbl sel 2 base sz s
        \<bind> (\<lambda>(ok, s).
          if \<not> ok then Some ((- ENOMEM, 0, 0), s)
          else
            memblock_isolate_loop base fin 0 0 0 (get_type sel s)
            \<bind> (\<lambda>(start_rgn, end_rgn, t). Some ((0, start_rgn, end_rgn), put_type sel t s))))"

definition memblock_remove_range ::
  "doubler \<Rightarrow> mem_sel \<Rightarrow> phys_addr_t \<Rightarrow> phys_addr_t \<Rightarrow> mm_state \<Rightarrow> (int \<times> mm_state) option" where
  "memblock_remove_range dbl sel base sz s =
     memblock_isolate_range dbl sel base sz s
     \<bind> (\<lambda>((ret, start_rgn, end_rgn), s).
       if ret \<noteq> 0 then Some (ret, s)
       else Some (0, put_type sel (memblock_remove_loop start_rgn end_rgn (get_type sel s)) s))"

definition memblock_add_range ::
  "doubler \<Rightarrow> mem_sel \<Rightarrow> phys_addr_t \<Rightarrow> phys_addr_t \<Rightarrow> int \<Rightarrow> u32 \<Rightarrow> mm_state \<Rightarrow> (int \<times> mm_state) option" where
  "memblock_add_range dbl sel base sz nid flags s =
     (let sz = memblock_cap_size base sz; fin = base + sz; type = get_type sel s in
      if sz = 0 then Some (0, s)
      else if r_size (regions type ! 0) = 0 then
        (let rgn = memblock_set_region_node \<lparr>r_base = base, r_size = sz, r_flags = flags\<rparr> nid
         in Some (0, put_type sel (type\<lparr>regions := (regions type)[0 := rgn], total_size := sz\<rparr>) s))
      else
        memblock_add_loop False fin nid flags 0 base 0 type
        \<bind> (\<lambda>(nr_new, _).
          if nr_new = 0 then Some (0, s)
          else
            grow_array 32 dbl sel nr_new base sz s
            \<bind> (\<lambda>(ok, s).
              if \<not> ok then Some (- ENOMEM, s)
              else
                memblock_add_loop True fin nid flags 0 base 0 (get_type sel s)
                \<bind> (\<lambda>(nr_new, t).
                  if nr_new = 0 then Some (0, put_type sel t s)
                  else memblock_merge_regions t \<bind> (\<lambda>t. Some (0, put_type sel t s))))))"

definition memblock_free_with :: "doubler \<Rightarrow> phys_addr_t \<Rightarrow> phys_addr_t \<Rightarrow> mm_state \<Rightarrow> (int \<times> mm_state) option" where
  "memblock_free_with dbl base sz s = memblock_remove_range dbl RESERVED base sz s"

definition memblock_reserve_with :: "doubler \<Rightarrow> phys_addr_t \<Rightarrow> phys_addr_t \<Rightarrow> mm_state \<Rightarrow> (int \<times> mm_state) option" where
  "memblock_reserve_with dbl base sz s = memblock_add_range dbl RESERVED base sz MAX_NUMNODES 0 s"

text \<open>\<open>ALIGN(x, a)\<close> of \<open>biscuitos.h\<close> as it is written, \<open>(x + a - 1) & (a - 1)\<close>.\<close>

definition PAGE_ALIGN :: "u32 \<Rightarrow> u32" where
  "PAGE_ALIGN x = (x + PAGE_SIZE - 1) AND (PAGE_SIZE - 1)"

definition in_slab :: "mem_sel \<Rightarrow> mm_state \<Rightarrow> bool" where
  "in_slab sel s = (case sel of MEMORY \<Rightarrow> memblock_memory_in_slab s | RESERVED \<Rightarrow> memblock_reserved_in_slab s)"

definition set_in_slab :: "mem_sel \<Rightarrow> bool \<Rightarrow> mm_state \<Rightarrow> mm_state" where
  "set_in_slab sel v s =
     (case sel of MEMORY \<Rightarrow> s\<lparr>memblock_memory_in_slab := v\<rparr> | RESERVED \<Rightarrow> s\<lparr>memblock_reserved_in_slab := v\<rparr>)"

definition slab_is_available :: bool where "slab_is_available = False"

text \<open>\<open>sizeof(struct memblock_region)\<close> is 12 with 32-bit addresses.\<close>

primrec memblock_double_array :: "nat \<Rightarrow> doubler" where
  "memblock_double_array 0 = (\<lambda>sel new_area_start new_area_size s. None)"
| "memblock_double_array (Suc fuel) = (\<lambda>sel new_area_start new_area_size s.
     if \<not> memblock_can_resize s then Some (- 1, s)
     else
       let type = get_type sel s;
           old_size = of_nat (max_cnt type) * 12;
           new_size = push_bit 1 old_size;
           old_alloc_size = PAGE_ALIGN old_size;
           new_alloc_size = PAGE_ALIGN new_size;
           new_area_start = (if sel \<noteq> RESERVED then 0 else new_area_start);
           new_area_size = (if sel \<noteq> RESERVED then 0 else new_area_size)
       in
       memblock_find_in_range s (new_area_start + new_area_size) (current_limit s) new_alloc_size PAGE_SIZE
       \<bind> (\<lambda>addr.
         if addr = 0 \<and> new_area_size \<noteq> 0
         then memblock_find_in_range s 0 (min new_area_start (current_limit s)) new_alloc_size PAGE_SIZE
         else Some addr)
       \<bind> (\<lambda>addr.
         if addr = 0 then Some (- 1, s)
         else
           let s = put_type sel (type\<lparr>regions := take (max_cnt type) (regions type) @ replicate (max_cnt type) empty_region,
                                      regions_at := Some addr, max_cnt := 2 * max_cnt type\<rparr>) s
           in
           (if in_slab sel s then Some s
            else case regions_at type of
                   None \<Rightarrow> Some s
                 | Some old_array \<Rightarrow>
                     memblock_free_with (memblock_double_array fuel) old_array old_alloc_size s
                     \<bind> (\<lambda>(_, s). Some s))
           \<bind> (\<lambda>s.
             if \<not> slab_is_available then
               memblock_reserve_with (memblock_double_array fuel) addr new_alloc_size s
               \<bind> (\<lambda>(ret, s). if ret \<noteq> 0 then None else Some s)
             else Some s)
           \<bind> (\<lambda>s. Some (0, set_in_slab sel slab_is_available s))))"

definition DOUBLE_FUEL :: nat where "DOUBLE_FUEL = 3"

definition memblock_free :: "phys_addr_t \<Rightarrow> phys_addr_t \<Rightarrow> mm_state \<Rightarrow> (int \<times> mm_state) option" where
  "memblock_free base sz s = memblock_free_with (memblock_double_array DOUBLE_FUEL) base sz s"

definition memblock_reserve :: "phys_addr_t \<Rightarrow> phys_addr_t \<Rightarrow> mm_state \<Rightarrow> (int \<times> mm_state) option" where
  "memblock_reserve base sz s = memblock_reserve_with (memblock_double_array DOUBLE_FUEL) base sz s"

definition memblock_add :: "phys_addr_t \<Rightarrow> phys_addr_t \<Rightarrow> mm_state \<Rightarrow> (int \<times> mm_state) option" where
  "memblock_add base sz s =
     memblock_add_range (memblock_double_array DOUBLE_FUEL) MEMORY base sz MAX_NUMNODES 0 s"

text \<open>\<open>base\<close> and \<open>size\<close> are \<open>u64\<close> here and truncated by the call of \<open>memblock_add\<close>.\<close>

definition early_init_dt_add_memory_arch :: "u64 \<Rightarrow> u64 \<Rightarrow> mm_state \<Rightarrow> mm_state option" where
  "early_init_dt_add_memory_arch base sz s =
     (let phys_offset = ucast (virt_to_phys (page_offset s) (page_offset s)) :: u64;
          page = 4096 :: u64;
          max_addr = 0xFFFFFFFF :: u64
      in
      if sz < page - (base AND (page - 1)) then Some s
      else
        let aligned = (ucast base :: u32) AND (PAGE_SIZE - 1) = 0;
            sz = (if \<not> aligned then sz - (page - (base AND (page - 1))) else sz);
            base = (if \<not> aligned then (base + page - 1) AND (page - 1) else base);
            sz = sz AND NOT (page - 1)
        in
        if base > max_addr then Some s
        else
          let sz = (if base + sz - 1 > max_addr then max_addr - base + 1 else sz);
              below = base + sz < phys_offset;
              sz = (if below then sz - (phys_offset - base) else sz);
              base = (if below then phys_offset else base)
          in memblock_add (ucast base) (ucast sz) s \<bind> (\<lambda>(_, s). Some s))"

partial_function (option) alloc_internal_again ::
  "phys_addr_t \<Rightarrow> phys_addr_t \<Rightarrow> phys_addr_t \<Rightarrow> phys_addr_t \<Rightarrow> int \<Rightarrow> u32 \<Rightarrow> mm_state \<Rightarrow> (u32 \<times> mm_state) option" where
  "alloc_internal_again sz align min_addr max_addr nid flags s =
     memblock_find_in_range_node s sz align min_addr max_addr nid flags
     \<bind> (\<lambda>alloc.
       (if alloc \<noteq> 0 then memblock_reserve alloc sz s else Some (- 1, s))
       \<bind> (\<lambda>(ret, s).
         if alloc \<noteq> 0 \<and> ret = 0 then Some (phys_to_virt (page_offset s) alloc, s)
         else if min_addr \<noteq> 0 then alloc_internal_again sz align 0 max_addr nid flags s
         else if flags AND MEMBLOCK_MIRROR \<noteq> 0 then
           alloc_internal_again sz align min_addr max_addr nid (flags AND NOT MEMBLOCK_MIRROR) s
         else Some (0, s)))"

definition memblock_alloc_internal ::
  "phys_addr_t \<Rightarrow> phys_addr_t \<Rightarrow> phys_addr_t \<Rightarrow> phys_addr_t \<Rightarrow> int \<Rightarrow> mm_state \<Rightarrow> (u32 \<times> mm_state) option" where
  "memblock_alloc_internal sz align min_addr max_addr nid s =
     alloc_internal_again sz align min_addr
       (if max_addr > current_limit s then current_limit s else max_addr) nid (choose_memblock_flags s) s"

text \<open>\<open>memset(ptr, 0, size)\<close> on the emulated memory.\<close>

definition memset_ram :: "u32 \<Rightarrow> u32 \<Rightarrow> mm_state \<Rightarrow> mm_state" where
  "memset_ram ptr sz s =
     s\<lparr>ram := (\<lambda>a. if a - virt_to_phys (page_offset s) ptr < sz then 0 else ram s a)\<rparr>"

definition memblock_alloc_try_nid ::
  "phys_addr_t \<Rightarrow> phys_addr_t \<Rightarrow> phys_addr_t \<Rightarrow> phys_addr_t \<Rightarrow> int \<Rightarrow> mm_state \<Rightarrow> (u32 \<times> mm_state) option" where
  "memblock_alloc_try_nid sz align min_addr max_addr nid s =
     memblock_alloc_internal sz align min_addr max_addr nid s
     \<bind> (\<lambda>(ptr, s). if ptr \<noteq> 0 then Some (ptr, memset_ram ptr sz s) else Some (0, s))"

text \<open>\<open>memblock_alloc\<close> has no \<open>return\<close>: it changes the state, and its value is unspecified.\<close>

definition memblock_alloc :: "phys_addr_t \<Rightarrow> phys_addr_t \<Rightarrow> mm_state \<Rightarrow> mm_state option" where
  "memblock_alloc sz align s =
     memblock_alloc_try_nid sz align 0 MEMBLOCK_ALLOC_ACCESSIBLE NUMA_NO_NODE s \<bind> (\<lambda>(_, s). Some s)"

definition memblock_alloc_range_nid ::
  "phys_addr_t \<Rightarrow> phys_addr_t \<Rightarrow> phys_addr_t \<Rightarrow> phys_addr_t \<Rightarrow> int \<Rightarrow> u32 \<Rightarrow> mm_state \<Rightarrow> (phys_addr_t \<times> mm_state) option" where
  "memblock_alloc_range_nid sz align start fin nid flags s =
     memblock_find_in_range_node s sz align start fin nid flags
     \<bind> (\<lambda>found.
       if found \<noteq> 0 then memblock_reserve found sz s \<bind> (\<lambda>(ret, s). Some (if ret = 0 then found else 0, s))
       else Some (0, s))"

definition memblock_alloc_base_nid ::
  "phys_addr_t \<Rightarrow> phys_addr_t \<Rightarrow> phys_addr_t \<Rightarrow> int \<Rightarrow> u32 \<Rightarrow> mm_state \<Rightarrow> (phys_addr_t \<times> mm_state) option" where
  "memblock_alloc_base_nid sz align max_addr nid flags s = memblock_alloc_range_nid sz align 0 max_addr nid flags s"

definition raw_memblock_alloc_base ::
  "phys_addr_t \<Rightarrow> phys_addr_t \<Rightarrow> phys_addr_t \<Rightarrow> mm_state \<Rightarrow> (phys_addr_t \<times> mm_state) option" where
  "raw_memblock_alloc_base sz align max_addr s =
     memblock_alloc_base_nid sz align max_addr NUMA_NO_NODE MEMBLOCK_NONE s"

definition memblock_alloc_base ::
  "phys_addr_t \<Rightarrow> phys_addr_t \<Rightarrow> phys_addr_t \<Rightarrow> mm_state \<Rightarrow> (phys_addr_t \<times> mm_state) option" where
  "memblock_alloc_base sz align max_addr s = raw_memblock_alloc_base sz align max_addr s"

definition memblock_phys_alloc :: "phys_addr_t \<Rightarrow> phys_addr_t \<Rightarrow> mm_state \<Rightarrow> (phys_addr_t \<times> mm_state) option" where
  "memblock_phys_alloc sz align s = memblock_alloc_base sz align MEMBLOCK_ALLOC_ACCESSIBLE s"

definition memblock_set_current_limit :: "phys_addr_t \<Rightarrow> mm_state \<Rightarrow> mm_state" where
  "memblock_set_current_limit limit s = s\<lparr>current_limit := limit\<rparr>"

definition memblock_set_bottom_up :: "bool \<Rightarrow> mm_state \<Rightarrow> mm_state" where
  "memblock_set_bottom_up direct s = s\<lparr>bottom_up := direct\<rparr>"

text \<open>The static initialiser of \<open>memblock\<close>, and \<open>memory_init\<close> with the address \<open>malloc\<close> returned.\<close>

definition init_type :: "string \<Rightarrow> memblock_type" where
  "init_type nm = \<lparr>cnt = 1, max_cnt = 32, total_size = 0, regions = replicate 32 empty_region,
                   regions_at = None, t_name = nm\<rparr>"

definition memblock_init :: mm_state where
  "memblock_init =
     \<lparr>bottom_up = False, current_limit = MEMBLOCK_ALLOC_ANYWHERE,
      memory = init_type ''memory'', reserved = init_type ''reserved'',
      memblock_can_resize = True, memblock_memory_in_slab = False, memblock_reserved_in_slab = False,
      system_has_some_mirror = False, page_offset = 0, ram = (\<lambda>_. 0)\<rparr>"

definition memory_init :: "u32 \<Rightarrow> mm_state \<Rightarrow> mm_state option" where
  "memory_init malloced s =
     early_init_dt_add_memory_arch (ucast CONFIG_MEMBLOCK_BASE) (ucast CONFIG_MEMBLOCK_SIZE) (s\<lparr>page_offset := malloced\<rparr>)
     \<bind> (\<lambda>s. Some (memblock_set_current_limit (CONFIG_MEMBLOCK_BASE + CONFIG_MEMBLOCK_SIZE) s))"

section \<open>One array\<close>

lemma get_put [simp]: "get_type sel (put_type sel t s) = t"
  by (cases sel) (simp_all add: get_type_def put_type_def)

lemma put_same [simp]: "put_type sel (get_type sel s) s = s"
  by (cases sel) (simp_all add: get_type_def put_type_def)

lemma get_put_other: "sel \<noteq> sel' \<Longrightarrow> get_type sel' (put_type sel t s) = get_type sel' s"
  by (cases sel; cases sel') (simp_all add: get_type_def put_type_def)

lemma unat_phys_max: "unat PHYS_ADDR_MAX = 2 ^ 32 - 1"
  by (simp add: PHYS_ADDR_MAX_def unsigned_minus_1_eq_mask mask_eq_exp_minus_1)

text \<open>The end of a range after \<open>memblock_cap_size\<close>.\<close>

definition range_end :: "phys_addr_t \<Rightarrow> phys_addr_t \<Rightarrow> nat" where
  "range_end base sz = min (unat base + unat sz) (2 ^ 32 - 1)"

lemma cap_size:
  shows "unat (memblock_cap_size base sz) = min (unat sz) (2 ^ 32 - 1 - unat base)"
    and "unat (base + memblock_cap_size base sz) = range_end base sz"
proof -
  have le: "base \<le> PHYS_ADDR_MAX" using unat_phys_max unat_u32_less [of base] by (simp add: word_le_nat_alt)
  show c: "unat (memblock_cap_size base sz) = min (unat sz) (2 ^ 32 - 1 - unat base)"
    using unat_sub [OF le] by (auto simp: memblock_cap_size_def word_less_nat_alt unat_phys_max)
  have "unat base + unat (memblock_cap_size base sz) < 2 ^ 32" using c unat_u32_less [of base] by linarith
  then have "unat (base + memblock_cap_size base sz) = unat base + unat (memblock_cap_size base sz)"
    by (simp add: unat_word_ariths)
  then show "unat (base + memblock_cap_size base sz) = range_end base sz"
    using c unat_u32_less [of base] by (auto simp: range_end_def)
qed

lemma cap_size_zero: "memblock_cap_size base sz = 0 \<longleftrightarrow> \<not> unat base < range_end base sz"
proof -
  have "memblock_cap_size base sz = 0 \<longleftrightarrow> min (unat sz) (2 ^ 32 - 1 - unat base) = 0"
    using cap_size(1) [of base sz] by (metis unat_eq_zero)
  also have "\<dots> \<longleftrightarrow> \<not> unat base < range_end base sz" using unat_u32_less [of base] by (auto simp: range_end_def min_def)
  finally show ?thesis .
qed

lemma range_end_less: "range_end base sz < 2 ^ 32"
  by (simp add: range_end_def)

lemma wf_typeI:
  assumes "rp t xs" and "xs \<noteq> []" and "wf_regions xs" and "max_cnt t < 2 ^ 31 - 1"
  shows "wf_type t" and "live t = xs"
  using assms live_rp [OF assms(1)] by (auto simp: wf_type_def)

text \<open>What adding a range promises of the abstract map.\<close>

definition added :: "nat \<Rightarrow> nat \<Rightarrow> u32 \<Rightarrow> (nat \<Rightarrow> u32 option) \<Rightarrow> (nat \<Rightarrow> u32 option)" where
  "added lo hi f m = (\<lambda>x. case m x of Some g \<Rightarrow> Some g | None \<Rightarrow> if lo \<le> x \<and> x < hi then Some f else None)"

definition removed :: "nat \<Rightarrow> nat \<Rightarrow> (nat \<Rightarrow> u32 option) \<Rightarrow> (nat \<Rightarrow> u32 option)" where
  "removed lo hi m = (\<lambda>x. if lo \<le> x \<and> x < hi then None else m x)"

lemma flag_at_empty_region: "flag_at [empty_region] = (\<lambda>x. None)"
  by (rule ext) (simp add: flag_at_Cons rb_def re_def)

lemma add_list_same: "wf_regions rs \<Longrightarrow> length (add_list fin f base rs) = length rs \<Longrightarrow> add_list fin f base rs = rs"
proof (induction rs arbitrary: base)
  case (Cons r rs)
  have "length rs \<le> length (add_list fin f b rs)" for b by (rule add_list_length)
  then show ?case using Cons by (auto simp: wf_regions_Cons split: if_splits) (metis Suc_n_not_le_n)+
qed (auto split: if_splits)

lemma merge_list_length: "length (merge_list xs) \<le> length xs"
  by (induction xs rule: merge_list.induct) auto

lemma grow_array_room: "cnt (get_type sel s) + n \<le> max_cnt (get_type sel s) \<Longrightarrow> grow_array f dbl sel n base sz s = Some (True, s)"
  by (simp add: grow_array.simps)

text \<open>
  \<open>memblock_add_range\<close> when the array has room for the fragments, so that no resize happens.
\<close>

lemma memblock_add_range_room:
  assumes wf: "wf_type (get_type sel s)"
    and room: "length (add_list (range_end base sz) flags (unat base) (live (get_type sel s))) \<le> max_cnt (get_type sel s)"
  obtains t where "memblock_add_range dbl sel base sz nid flags s = Some (0, put_type sel t s)"
    and "wf_type t" and "same_conf (get_type sel s) t"
    and "flag_at (live t) = added (unat base) (range_end base sz) flags (flag_at (live (get_type sel s)))"
    and "minimal (live (get_type sel s)) \<longrightarrow> minimal (live t)"
    and "length (live t) \<le> length (add_list (range_end base sz) flags (unat base) (live (get_type sel s)))"
proof -
  let ?t = "get_type sel s" and ?sz = "memblock_cap_size base sz" and ?fin = "base + memblock_cap_size base sz"
  let ?rs = "live ?t" and ?new = "add_list (range_end base sz) flags (unat base) (live ?t)"
  have rp: "rp ?t ?rs" and mx: "max_cnt ?t < 2 ^ 31 - 1" using wf by (auto simp: wf_type_def)
  have fin: "unat ?fin = range_end base sz" by (rule cap_size)
  have shape: "?rs = [empty_region] \<or> ?rs \<noteq> [] \<and> wf_regions ?rs" using wf by (simp add: wf_type_def)
  have hd: "regions ?t ! 0 = ?rs ! 0" using rp_nth [OF rp, of 0] shape by auto
  show ?thesis
  proof (cases "?sz = 0")
    case True
    then have "flag_at ?rs = added (unat base) (range_end base sz) flags (flag_at ?rs)"
      using cap_size_zero by (force simp: added_def split: option.splits)
    then show ?thesis using that [of ?t] wf True add_list_length by (simp add: memblock_add_range_def Let_def)
  next
    case nz: False
    then have lt: "unat base < range_end base sz" using cap_size_zero by blast
    show ?thesis
    proof (cases "?rs = [empty_region]")
      case True
      let ?r = "\<lparr>r_base = base, r_size = ?sz, r_flags = flags\<rparr>"
      let ?t' = "?t\<lparr>regions := (regions ?t)[0 := ?r], total_size := ?sz\<rparr>"
      have "r_size (regions ?t ! 0) = 0" using hd True by simp
      then have eq: "memblock_add_range dbl sel base sz nid flags s = Some (0, put_type sel ?t' s)"
        using nz by (simp add: memblock_add_range_def Let_def memblock_set_region_node_def)
      have rp': "rp ?t' [?r]" using rp rp_cnt [OF rp] True by (auto simp: rp_def take_update_swap)
      have r: "rb ?r = unat base" "re ?r = range_end base sz"
        using cap_size(1) [of base sz] unat_u32_less [of base] by (auto simp: rb_def re_def range_end_def)
      then have "wf_regions [?r]" using lt range_end_less by (simp add: wf_regions_def region_ok_def)
      then have "wf_type ?t'" "live ?t' = [?r]" using wf_typeI [OF rp'] mx by auto
      moreover have "flag_at [?r] = added (unat base) (range_end base sz) flags (flag_at ?rs)"
        unfolding True flag_at_empty_region by (rule ext) (simp add: flag_at_Cons r added_def)
      moreover have "1 \<le> length ?new" using add_list_length [of ?rs "range_end base sz" flags "unat base"] True by simp
      ultimately show ?thesis using that [OF eq] by (simp add: same_conf_def)
    next
      case False
      then have wr: "wf_regions ?rs" "?rs \<noteq> []" using shape by auto
      then have "region_ok (?rs ! 0)" by (auto simp: wf_regions_def)
      then have s0: "r_size (regions ?t ! 0) \<noteq> 0" using hd by (auto simp: region_ok_def rb_def re_def)
      let ?n = "length ?new - length ?rs"
      have c1: "memblock_add_loop False ?fin nid flags 0 base 0 ?t = Some (?n, ?t)"
        using memblock_add_loop_count [of ?t "[]" ?rs ?fin nid flags base 0] rp wr fin by simp
      obtain t1 where t1: "memblock_add_loop True ?fin nid flags 0 base 0 ?t = Some (?n, t1)" "rp t1 ?new" "same_conf ?t t1"
        using memblock_add_loop_insert [of ?t "[]" ?rs ?fin flags base nid 0] rp wr fin room by auto
      have new: "wf_regions ?new" "?new \<noteq> []"
        using add_list_wf [OF wr(1) range_end_less] add_list_length [of ?rs "range_end base sz" flags "unat base"] wr(2)
        by auto
      have fl: "flag_at ?new = added (unat base) (range_end base sz) flags (flag_at ?rs)"
        by (rule ext) (simp add: added_def add_list_flag_at [OF wr(1) range_end_less])
      obtain t2 where t2: "memblock_merge_regions t1 = Some t2" "rp t2 (merge_list ?new)" "same_conf t1 t2"
        by (rule memblock_merge_regions_list [OF t1(2) new(1)])
      show ?thesis
      proof (cases "?n = 0")
        case True
        then have "length ?new = length ?rs" using add_list_length [of ?rs] by (simp add: le_antisym)
        then have "?new = ?rs" by (rule add_list_same [OF wr(1)])
        then show ?thesis using that [of ?t] wf True fl nz s0 c1 by (simp add: memblock_add_range_def Let_def)
      next
        case n: False
        have "cnt ?t + ?n \<le> max_cnt ?t" using room rp_cnt [OF rp] add_list_length [of ?rs] by simp
        then have eq: "memblock_add_range dbl sel base sz nid flags s = Some (0, put_type sel t2 s)"
          using n nz s0 c1 t1(1) t2(1) by (simp add: memblock_add_range_def Let_def grow_array_room)
        have "merge_list ?new \<noteq> []" using new(2) merge_list_head by (cases ?new) auto
        then have "wf_type t2" "live t2 = merge_list ?new"
          using wf_typeI [OF t2(2) _ merge_list_wf [OF new(1)]] mx t1(3) t2(3) by (auto simp: same_conf_def)
        moreover have "flag_at (merge_list ?new) = flag_at ?new" using merge_list_flag_at [OF new(1)] by blast
        ultimately show ?thesis
          using that [OF eq] fl same_conf_trans [OF t1(3) t2(3)] merge_list_minimal merge_list_length by simp
      qed
    qed
  qed
qed

lemma isolate_loop_empty:
  assumes "rp t [empty_region]" and "base < fin"
  shows "memblock_isolate_loop base fin 0 0 0 t = Some (0, 0, t)"
proof -
  have c: "cnt t = 1" "regions t ! 0 = empty_region" using rp_cnt [OF assms(1)] rp_nth [OF assms(1), of 0] by simp_all
  have "\<not> fin \<le> 0" using assms(2) by (auto simp: word_le_nat_alt word_less_nat_alt)
  moreover have "memblock_isolate_loop base fin 1 0 0 t = Some (0, 0, t)" using c by (subst isolate_unfold) simp
  ultimately show ?thesis using c by (subst isolate_unfold) simp
qed

lemma outside_flag_at:
  assumes "wf_regions rs" and "lo < hi" and "hi < 2 ^ 32"
  shows "flag_at (restrict 0 lo rs @ above hi rs) = removed lo hi (flag_at rs)"
proof
  fix x
  have lo: "flag_at (restrict 0 lo rs) x = (if x < lo then flag_at rs x else None)"
    by (cases "lo = 0") (use restrict_flag_at [OF assms(1), of 0 lo x] in \<open>auto simp: restrict_none\<close>)
  have top: "\<not> x < 2 ^ 32 \<Longrightarrow> flag_at rs x = None"
    using assms(1) by (fastforce simp: flag_at_None wf_regions_def region_ok_def)
  show "flag_at (restrict 0 lo rs @ above hi rs) x = removed lo hi (flag_at rs) x"
    unfolding above_def flag_at_append lo restrict_flag_at [OF assms(1,3)] removed_def
    using top assms(2) by (auto split: option.splits)
qed

lemma outside_wf:
  fixes base fin :: phys_addr_t
  assumes "wf_regions rs" and "base < fin" shows "wf_regions (restrict 0 (unat base) rs @ above (unat fin) rs)"
  using isolated_wf [OF assms] unfolding isolated_def wf_regions_append by auto

lemma outside_length:
  fixes base fin :: phys_addr_t
  assumes "wf_regions rs" and "base < fin"
  shows "length (restrict 0 (unat base) rs @ above (unat fin) rs) \<le> length rs + 1"
proof -
  let ?b = "unat base" and ?e = "unat fin"
  have b: "?b < ?e" using assms(2) by (simp add: word_less_nat_alt)
  have "length (restrict 0 ?b qs @ above ?e qs) \<le> length qs + length (filter (\<lambda>r. rb r < ?b \<and> ?b < re r) qs)" for qs
    using b by (induction qs) (auto simp: restrict_Cons above_Cons)
  from this [of rs] show ?thesis using restrict_straddle [OF assms(1) unat_u32_less [of base]] by linarith
qed

lemma memblock_remove_range_room:
  assumes wf: "wf_type (get_type sel s)" and room: "cnt (get_type sel s) + 2 \<le> max_cnt (get_type sel s)"
  obtains t where "memblock_remove_range dbl sel base sz s = Some (0, put_type sel t s)"
    and "wf_type t" and "same_conf (get_type sel s) t"
    and "flag_at (live t) = removed (unat base) (range_end base sz) (flag_at (live (get_type sel s)))"
    and "cnt t \<le> cnt (get_type sel s) + 1"
proof -
  let ?t = "get_type sel s" and ?sz = "memblock_cap_size base sz" and ?fin = "base + memblock_cap_size base sz"
  let ?rs = "live ?t"
  have rp: "rp ?t ?rs" and mx: "max_cnt ?t < 2 ^ 31 - 1" using wf by (auto simp: wf_type_def)
  have fin: "unat ?fin = range_end base sz" by (rule cap_size)
  have shape: "?rs = [empty_region] \<or> ?rs \<noteq> [] \<and> wf_regions ?rs" using wf by (simp add: wf_type_def)
  show ?thesis
  proof (cases "?sz = 0")
    case True
    then have "flag_at ?rs = removed (unat base) (range_end base sz) (flag_at ?rs)"
      using cap_size_zero by (force simp: removed_def)
    then show ?thesis using that [of ?t] wf True
      by (simp add: memblock_remove_range_def memblock_isolate_range_def Let_def)
  next
    case nz: False
    then have lt: "base < ?fin" using cap_size_zero fin by (simp add: word_less_nat_alt)
    show ?thesis
    proof (cases "?rs = [empty_region]")
      case True
      then have "memblock_isolate_loop base ?fin 0 0 0 ?t = Some (0, 0, ?t)" using isolate_loop_empty rp lt by simp
      then have "memblock_remove_range dbl sel base sz s = Some (0, put_type sel ?t s)"
        using nz room by (simp add: memblock_remove_range_def memblock_isolate_range_def Let_def grow_array_room)
      moreover have "flag_at ?rs = removed (unat base) (range_end base sz) (flag_at ?rs)"
        unfolding True flag_at_empty_region by (rule ext) (simp add: removed_def)
      ultimately show ?thesis using that [of ?t] wf by simp
    next
      case False
      then have wr: "wf_regions ?rs" "?rs \<noteq> []" using shape by auto
      let ?lo = "restrict 0 (unat base) ?rs" and ?mid = "restrict (unat base) (unat ?fin) ?rs" and ?hi = "above (unat ?fin) ?rs"
      have len: "length (isolated base ?fin ?rs) \<le> max_cnt ?t"
        using isolated_length_le [OF wr(1) lt] room rp_cnt [OF rp] by simp
      obtain t1 st en where t1: "memblock_isolate_loop base ?fin 0 0 0 ?t = Some (st, en, t1)"
        "(st, en) = isolate_result base ?fin 0 0 0 ?rs" "rp t1 (?lo @ ?mid @ ?hi)" "same_conf ?t t1"
        using memblock_isolate_loop_list [OF rp wr(1) lt len] unfolding isolated_def .
      let ?t' = "memblock_remove_loop st en t1"
      have eq: "memblock_remove_range dbl sel base sz s = Some (0, put_type sel ?t' s)"
        using nz room t1(1)
        by (cases sel; simp add: memblock_remove_range_def memblock_isolate_range_def Let_def grow_array_room get_type_def put_type_def)
      have fl: "flag_at (?lo @ ?hi) = removed (unat base) (range_end base sz) (flag_at ?rs)"
        using outside_flag_at [OF wr(1)] lt fin range_end_less by (simp add: word_less_nat_alt)
      have res: "rp ?t' (if ?lo @ ?hi = [] then [empty_region] else ?lo @ ?hi) \<and> same_conf t1 ?t'"
      proof (cases "?mid = []")
        case True
        have "?lo @ ?hi \<noteq> []" using isolated_length [OF wr(1), of base ?fin] wr(2) True by (auto simp: isolated_def)
        then show ?thesis using t1(2,3) True by (auto simp: isolate_result_def)
      next
        case False
        then show ?thesis using rp_remove_loop [OF t1(3) False] t1(2) by (simp add: isolate_result_def Let_def)
      qed
      have conf: "same_conf ?t ?t'" using same_conf_trans [OF t1(4)] res by blast
      have live: "live ?t' = (if ?lo @ ?hi = [] then [empty_region] else ?lo @ ?hi)" using res live_rp by blast
      then have "wf_type ?t'"
        using res conf mx outside_wf [OF wr(1) lt] by (auto simp: wf_type_def same_conf_def split: if_splits)
      moreover have "flag_at (live ?t') = flag_at (?lo @ ?hi)"
        unfolding live by (auto simp: flag_at_empty_region fun_eq_iff)
      moreover have "length (?lo @ ?hi) \<le> length ?rs + 1" using outside_length [OF wr(1) lt] .
      then have "cnt ?t' \<le> cnt ?t + 1" using live res rp_cnt [OF rp] rp_cnt [of ?t' "live ?t'"] by (auto split: if_splits)
      ultimately show ?thesis using that [OF eq _ conf] fl by simp
    qed
  qed
qed

section \<open>Reserving, freeing and allocating\<close>

definition wf_mm :: "mm_state \<Rightarrow> bool" where
  "wf_mm s \<longleftrightarrow> wf_type (memory s) \<and> wf_type (reserved s)"

text \<open>A block that no region meets takes exactly one more entry.\<close>

lemma add_list_free_length:
  assumes "wf_regions rs" and "\<forall>x. base \<le> x \<longrightarrow> x < fin \<longrightarrow> flag_at rs x = None" and "base < fin"
  shows "length (add_list fin f base rs) = length rs + 1"
  using assms
proof (induction rs)
  case (Cons r rs)
  have r: "rb r < re r" "wf_regions rs" using Cons.prems by (auto simp: wf_regions_Cons region_ok_def)
  have "\<not> (rb r \<le> x \<and> x < re r)" if "base \<le> x" "x < fin" for x
    using Cons.prems(2) that by (auto simp: flag_at_Cons split: if_splits)
  then have "fin \<le> rb r \<or> re r \<le> base" using r(1) Cons.prems(3) by (metis le_eq_less_or_eq not_le)
  moreover have "\<forall>x. base \<le> x \<longrightarrow> x < fin \<longrightarrow> flag_at rs x = None"
    using Cons.prems(2) by (auto simp: flag_at_Cons split: if_splits)
  ultimately show ?case using Cons.IH [OF r(2)] Cons.prems(3) by auto
qed simp

lemma memblock_reserve_free:
  fixes dbl :: doubler
  assumes "wf_type (reserved s)" and "free_range s (unat base) (unat base + unat sz)" and "0 < sz"
    and "unat base + unat sz < 2 ^ 32" and "cnt (reserved s) + 1 \<le> max_cnt (reserved s)"
  obtains t where "memblock_reserve_with dbl base sz s = Some (0, s\<lparr>reserved := t\<rparr>)" and "wf_type t"
    and "flag_at (live t) = added (unat base) (unat base + unat sz) 0 (flag_at (live (reserved s)))"
    and "same_conf (reserved s) t" and "cnt t \<le> cnt (reserved s) + 1"
proof -
  let ?rs = "live (reserved s)"
  have e: "range_end base sz = unat base + unat sz" using assms(4) by (simp add: range_end_def)
  have rp: "rp (reserved s) ?rs" using assms(1) by (simp add: wf_type_def)
  have lt: "unat base < unat base + unat sz" using assms(3) by (simp add: word_less_nat_alt)
  have more: "length (add_list (range_end base sz) 0 (unat base) ?rs) \<le> length ?rs + 1"
  proof (cases "?rs = [empty_region]")
    case True
    then show ?thesis by (simp add: rb_def re_def)
  next
    case False
    then have "wf_regions ?rs" using assms(1) by (auto simp: wf_type_def)
    then show ?thesis using add_list_free_length [of ?rs "unat base" "unat base + unat sz" 0] assms(2) lt e
      by (simp add: free_range_def)
  qed
  then have room: "length (add_list (range_end base sz) 0 (unat base) (live (get_type RESERVED s))) \<le> max_cnt (get_type RESERVED s)"
    using assms(5) rp_cnt [OF rp] by (simp add: get_type_def)
  have wf: "wf_type (get_type RESERVED s)" using assms(1) by (simp add: get_type_def)
  obtain t where "memblock_add_range dbl RESERVED base sz MAX_NUMNODES 0 s = Some (0, put_type RESERVED t s)"
    "wf_type t" "same_conf (get_type RESERVED s) t"
    "flag_at (live t) = added (unat base) (range_end base sz) 0 (flag_at (live (get_type RESERVED s)))"
    "length (live t) \<le> length (add_list (range_end base sz) 0 (unat base) (live (get_type RESERVED s)))"
    by (rule memblock_add_range_room [OF wf room])
  moreover have "cnt t = length (live t)" using calculation(2) rp_cnt by (auto simp: wf_type_def)
  ultimately show ?thesis using that [of t] e more rp_cnt [OF rp]
    by (simp add: memblock_reserve_with_def get_type_def put_type_def)
qed

lemma memblock_free_room:
  fixes dbl :: doubler
  assumes "wf_type (reserved s)" and "cnt (reserved s) + 2 \<le> max_cnt (reserved s)"
  obtains t where "memblock_free_with dbl base sz s = Some (0, s\<lparr>reserved := t\<rparr>)" and "wf_type t"
    and "flag_at (live t) = removed (unat base) (range_end base sz) (flag_at (live (reserved s)))"
    and "same_conf (reserved s) t" and "cnt t \<le> cnt (reserved s) + 1"
proof -
  have g: "wf_type (get_type RESERVED s)" "cnt (get_type RESERVED s) + 2 \<le> max_cnt (get_type RESERVED s)"
    using assms by (simp_all add: get_type_def)
  obtain t where "memblock_remove_range dbl RESERVED base sz s = Some (0, put_type RESERVED t s)"
    "wf_type t" "same_conf (get_type RESERVED s) t"
    "flag_at (live t) = removed (unat base) (range_end base sz) (flag_at (live (get_type RESERVED s)))"
    "cnt t \<le> cnt (get_type RESERVED s) + 1"
    by (rule memblock_remove_range_room [OF g])
  then show ?thesis using that by (simp add: memblock_free_with_def get_type_def put_type_def)
qed

section \<open>Allocation\<close>

text \<open>A block found by a search can be reserved; the abstract effect on the reserved map.\<close>

lemma alloc_range_spec:
  assumes "wf_mm s" and "0 < sz" and "k < 32" and "cnt (reserved s) + 1 \<le> max_cnt (reserved s)"
  obtains a s' where "memblock_alloc_range_nid sz (2 ^ k) start fin nid flags s = Some (a, s')"
    and "a = 0 \<longrightarrow> s' = s \<and> (\<forall>c. \<not> good_block s (search_start start) (search_end s start fin) sz k c)"
    and "a \<noteq> 0 \<longrightarrow> good_block s (search_start start) (search_end s start fin) sz k (unat a) \<and>
      (\<exists>t. s' = s\<lparr>reserved := t\<rparr> \<and> wf_type t \<and> cnt t \<le> cnt (reserved s) + 1 \<and> same_conf (reserved s) t \<and>
        flag_at (live t) = added (unat a) (unat a + unat sz) 0 (flag_at (live (reserved s))))"
proof -
  have w: "wf_type (memory s)" "wf_type (reserved s)" using assms(1) by (auto simp: wf_mm_def)
  obtain a where a: "memblock_find_in_range_node s sz (2 ^ k) start fin nid flags = Some a"
    "a \<noteq> 0 \<longrightarrow> good_block s (search_start start) (search_end s start fin) sz k (unat a)"
    "a = 0 \<longrightarrow> (\<forall>c. \<not> good_block s (search_start start) (search_end s start fin) sz k c)"
    by (rule find_node_spec [OF w assms(2,3)])
  show ?thesis
  proof (cases "a = 0")
    case True
    then show ?thesis using that [of 0 s] a by (simp add: memblock_alloc_range_nid_def)
  next
    case False
    then have g: "good_block s (search_start start) (search_end s start fin) sz k (unat a)" using a(2) by blast
    then have fr: "free_range s (unat a) (unat a + unat sz)" "unat a + unat sz < 2 ^ 32"
      using unat_u32_less [of "search_end s start fin"] by (auto simp: good_block_def)
    obtain t where t: "memblock_reserve_with (memblock_double_array DOUBLE_FUEL) a sz s = Some (0, s\<lparr>reserved := t\<rparr>)" "wf_type t"
      "flag_at (live t) = added (unat a) (unat a + unat sz) 0 (flag_at (live (reserved s)))"
      "same_conf (reserved s) t" "cnt t \<le> cnt (reserved s) + 1"
      by (rule memblock_reserve_free [OF w(2) fr(1) assms(2) fr(2) assms(4)])
    then have "memblock_alloc_range_nid sz (2 ^ k) start fin nid flags s = Some (a, s\<lparr>reserved := t\<rparr>)"
      using a(1) False by (simp add: memblock_alloc_range_nid_def memblock_reserve_def)
    then show ?thesis using that [of a "s\<lparr>reserved := t\<rparr>"] False g t by blast
  qed
qed

lemma added_free:
  "free_range s lo hi \<Longrightarrow> added lo hi f (flag_at (live (reserved s))) = (\<lambda>x. if lo \<le> x \<and> x < hi then Some f else flag_at (live (reserved s)) x)"
  by (rule ext) (auto simp: added_def free_range_def split: option.splits)

section \<open>Resizing\<close>

lemma PAGE_SIZE_power: "PAGE_SIZE = 2 ^ 12"
  by (simp add: PAGE_SIZE_def)

lemma unat_PAGE_ALIGN: "unat (PAGE_ALIGN x) = (unat x + 4095) mod 4096"
proof -
  have m: "PAGE_SIZE - 1 = (mask 12 :: u32)" by (simp add: PAGE_SIZE_def mask_eq_exp_minus_1)
  have "PAGE_ALIGN x = take_bit 12 (x + 4095)" unfolding PAGE_ALIGN_def m take_bit_eq_mask by (simp add: PAGE_SIZE_def add.commute)
  moreover have "unat (take_bit 12 (x + 4095)) = take_bit 12 (unat (x + 4095))" by (rule unsigned_take_bit_eq)
  ultimately have "unat (PAGE_ALIGN x) = unat (x + 4095) mod 4096" by (simp add: take_bit_eq_mod)
  moreover have "unat (x + 4095) = (unat x + 4095) mod 2 ^ 32" by (simp add: unat_word_ariths)
  ultimately show ?thesis by (simp add: mod_mod_cancel)
qed

lemma new_alloc_positive: "0 < PAGE_ALIGN (push_bit 1 x)"
proof -
  have "unat (push_bit 1 x) = (2 * unat x) mod 2 ^ 32"
    by (simp add: push_bit_eq_mult unat_word_ariths mult.commute)
  then have "even (unat (push_bit 1 x))" by (simp add: dvd_mod)
  moreover have "even (unat (push_bit 1 x) + 4095)" if "(unat (push_bit 1 x) + 4095) mod 4096 = 0"
  proof -
    have "4096 dvd unat (push_bit 1 x) + 4095" using that by (rule mod_0_imp_dvd)
    moreover have "(2 :: nat) dvd 4096" by simp
    ultimately show ?thesis by (rule dvd_trans [rotated])
  qed
  ultimately have "(unat (push_bit 1 x) + 4095) mod 4096 \<noteq> 0" by auto
  then show ?thesis using unat_PAGE_ALIGN [of "push_bit 1 x"] by (simp add: word_less_nat_alt)
qed

lemma rp_double:
  assumes "rp t xs"
  shows "rp (t\<lparr>regions := take (max_cnt t) (regions t) @ replicate (max_cnt t) empty_region,
      regions_at := a, max_cnt := 2 * max_cnt t\<rparr>) xs"
  using assms by (auto simp: rp_def)

lemma free_range_removed:
  assumes "free_range s lo hi" and "flag_at (live (memory s')) = flag_at (live (memory s))"
    and "\<And>x. flag_at (live (reserved s)) x = None \<Longrightarrow> flag_at (live (reserved s')) x = None"
  shows "free_range s' lo hi"
  using assms by (auto simp: free_range_def)

text \<open>
  The places that \<open>memblock_double_array\<close> may choose for an array of so many bytes: above the range
  that is being added, and below it when it is the reserved array that grows.
\<close>

definition place_for :: "mem_sel \<Rightarrow> phys_addr_t \<Rightarrow> phys_addr_t \<Rightarrow> mm_state \<Rightarrow> phys_addr_t \<Rightarrow> nat \<Rightarrow> bool" where
  "place_for sel na nz s bytes c \<longleftrightarrow>
     (let na = (if sel = RESERVED then na else 0); nz = (if sel = RESERVED then nz else 0)
      in good_block s (search_start (na + nz)) (search_end s (na + nz) (current_limit s)) bytes 12 c \<or>
         nz \<noteq> 0 \<and> good_block s (search_start 0) (search_end s 0 (min na (current_limit s))) bytes 12 c)"

text \<open>
  \<open>memblock_double_array\<close> when the reserved array can take the new reservation (it always can
  when it is the one that is doubled). Without a place for the new array, or when resizing is not
  allowed, nothing changes; otherwise the array is twice as long, its old place is free again and
  its new place reserved.
\<close>

lemma memblock_double_array_spec:
  assumes wf: "wf_mm s" and slab: "\<not> in_slab sel s"
    and mx: "2 \<le> max_cnt (get_type sel s)" "2 * max_cnt (get_type sel s) < 2 ^ 31 - 1"
    and room: "sel = MEMORY \<longrightarrow> cnt (reserved s) + 2 \<le> max_cnt (reserved s)"
  defines "bytes \<equiv> PAGE_ALIGN (push_bit 1 (of_nat (max_cnt (get_type sel s)) * 12))"
    and "old_bytes \<equiv> PAGE_ALIGN (of_nat (max_cnt (get_type sel s)) * 12)"
  shows "if memblock_can_resize s \<and> (\<exists>c. place_for sel na nz s bytes c)
    then \<exists>s' addr. memblock_double_array (Suc f) sel na nz s = Some (0, s') \<and> wf_mm s' \<and>
       max_cnt (get_type sel s') = 2 * max_cnt (get_type sel s) \<and> regions_at (get_type sel s') = Some addr \<and>
       flag_at (live (memory s')) = flag_at (live (memory s)) \<and>
       place_for sel na nz s bytes (unat addr) \<and>
       flag_at (live (reserved s')) = added (unat addr) (unat addr + unat bytes) 0
         (case regions_at (get_type sel s) of
            None \<Rightarrow> flag_at (live (reserved s))
          | Some old \<Rightarrow> removed (unat old) (range_end old old_bytes) (flag_at (live (reserved s))))
    else memblock_double_array (Suc f) sel na nz s = Some (- 1, s)"
proof (cases "memblock_can_resize s")
  case res: True
  let ?t = "get_type sel s"
  define NA where "NA = (if sel \<noteq> RESERVED then 0 else na)"
  define NZ where "NZ = (if sel \<noteq> RESERVED then 0 else nz)"
  have w: "wf_type (memory s)" "wf_type (reserved s)" using wf by (auto simp: wf_mm_def)
  have b0: "0 < bytes" unfolding bytes_def by (rule new_alloc_positive)
  obtain a1 where a1: "memblock_find_in_range s (NA + NZ) (current_limit s) bytes PAGE_SIZE = Some a1"
    "a1 \<noteq> 0 \<longrightarrow> good_block s (search_start (NA + NZ)) (search_end s (NA + NZ) (current_limit s)) bytes 12 (unat a1)"
    "a1 = 0 \<longrightarrow> (\<forall>c. \<not> good_block s (search_start (NA + NZ)) (search_end s (NA + NZ) (current_limit s)) bytes 12 c)"
    unfolding PAGE_SIZE_power by (rule find_in_range_spec [OF w b0, of 12]) simp_all
  obtain a2 where a2: "memblock_find_in_range s 0 (min NA (current_limit s)) bytes PAGE_SIZE = Some a2"
    "a2 \<noteq> 0 \<longrightarrow> good_block s (search_start 0) (search_end s 0 (min NA (current_limit s))) bytes 12 (unat a2)"
    "a2 = 0 \<longrightarrow> (\<forall>c. \<not> good_block s (search_start 0) (search_end s 0 (min NA (current_limit s))) bytes 12 c)"
    unfolding PAGE_SIZE_power by (rule find_in_range_spec [OF w b0, of 12]) simp_all
  define addr where "addr = (if a1 = 0 \<and> NZ \<noteq> 0 then a2 else a1)"
  have place: "place_for sel na nz s bytes c \<longleftrightarrow>
      good_block s (search_start (NA + NZ)) (search_end s (NA + NZ) (current_limit s)) bytes 12 c \<or>
      NZ \<noteq> 0 \<and> good_block s (search_start 0) (search_end s 0 (min NA (current_limit s))) bytes 12 c" for c
    by (simp add: place_for_def NA_def NZ_def)
  have found: "addr \<noteq> 0 \<Longrightarrow> place_for sel na nz s bytes (unat addr)" "addr = 0 \<Longrightarrow> \<not> place_for sel na nz s bytes c" for c
    using a1(2,3) a2(2,3) by (auto simp: place addr_def split: if_splits)
  define s1 where "s1 = put_type sel (?t\<lparr>regions := take (max_cnt ?t) (regions ?t) @ replicate (max_cnt ?t) empty_region,
      regions_at := Some addr, max_cnt := 2 * max_cnt ?t\<rparr>) s"
  have body: "memblock_double_array (Suc f) sel na nz s =
    (if addr = 0 then Some (- 1, s)
     else (case regions_at ?t of None \<Rightarrow> Some s1
           | Some old \<Rightarrow> memblock_free_with (memblock_double_array f) old old_bytes s1 \<bind> (\<lambda>(_, s). Some s))
       \<bind> (\<lambda>s. memblock_reserve_with (memblock_double_array f) addr bytes s
            \<bind> (\<lambda>(ret, s). if ret \<noteq> 0 then None else Some s))
       \<bind> (\<lambda>s. Some (0, set_in_slab sel False s)))"
  proof -
    have "\<not> in_slab sel s1" using slab by (cases sel) (simp_all add: s1_def in_slab_def put_type_def)
    moreover have "(if a1 = 0 \<and> NZ \<noteq> 0 then Some a2 else Some a1) = Some addr" by (simp add: addr_def)
    ultimately show ?thesis
      unfolding memblock_double_array.simps Let_def NA_def [symmetric] NZ_def [symmetric]
        bytes_def [symmetric] old_bytes_def [symmetric]
      using res a1(1) a2(1) by (simp add: s1_def slab_is_available_def cong: if_cong option.case_cong)
  qed
  show ?thesis
  proof (cases "addr = 0")
    case False
    have fr: "free_range s (unat addr) (unat addr + unat bytes)" "unat addr + unat bytes < 2 ^ 32"
      using False a1(2) a2(2) unat_u32_less [of "search_end s (NA + NZ) (current_limit s)"]
        unat_u32_less [of "search_end s 0 (min NA (current_limit s))"]
      by (auto simp: addr_def good_block_def split: if_splits)
    have wt: "wf_type ?t" using w by (cases sel) (simp_all add: get_type_def)
    have lt: "live (get_type sel s1) = live ?t" "wf_type (get_type sel s1)"
    proof -
      have "rp (get_type sel s1) (live ?t)" using wt rp_double [of ?t "live ?t" "Some addr"] by (simp add: s1_def wf_type_def)
      then show "live (get_type sel s1) = live ?t" "wf_type (get_type sel s1)"
        using wt mx live_rp by (auto simp: wf_type_def s1_def)
    qed
    have other: "get_type sel' s1 = get_type sel' s" if "sel' \<noteq> sel" for sel'
      using that by (simp add: s1_def get_put_other)
    have live1: "live (memory s1) = live (memory s)" "live (reserved s1) = live (reserved s)" "wf_mm s1"
      using lt w other [of MEMORY] other [of RESERVED] by (cases sel; simp add: get_type_def wf_mm_def)+
    have c1: "cnt (reserved s1) + 2 \<le> max_cnt (reserved s1)"
    proof (cases sel)
      case MEMORY
      then show ?thesis using room other [of RESERVED] by (simp add: get_type_def)
    next
      case RESERVED
      have "cnt (reserved s) \<le> max_cnt (reserved s)" using w(2) by (auto simp: wf_type_def rp_def)
      then show ?thesis using RESERVED mx(1) by (simp add: s1_def get_type_def put_type_def)
    qed
    obtain s2 where s2: "(case regions_at ?t of None \<Rightarrow> Some s1
           | Some old \<Rightarrow> memblock_free_with (memblock_double_array f) old old_bytes s1 \<bind> (\<lambda>(_, s). Some s)) = Some s2"
      and s2r: "\<exists>t. s2 = s1\<lparr>reserved := t\<rparr> \<and> wf_type t \<and> same_conf (reserved s1) t \<and> cnt t \<le> cnt (reserved s1) + 1 \<and>
        flag_at (live t) = (case regions_at ?t of None \<Rightarrow> flag_at (live (reserved s))
          | Some old \<Rightarrow> removed (unat old) (range_end old old_bytes) (flag_at (live (reserved s))))"
    proof (cases "regions_at ?t")
      case None
      show ?thesis
      proof (rule that [of s1])
        show "\<exists>t. s1 = s1\<lparr>reserved := t\<rparr> \<and> wf_type t \<and> same_conf (reserved s1) t \<and> cnt t \<le> cnt (reserved s1) + 1 \<and>
          flag_at (live t) = (case regions_at ?t of None \<Rightarrow> flag_at (live (reserved s))
            | Some old \<Rightarrow> removed (unat old) (range_end old old_bytes) (flag_at (live (reserved s))))"
          using live1 None by (intro exI [of _ "reserved s1"]) (simp add: wf_mm_def)
      qed (simp add: None)
    next
      case (Some old)
      have wr: "wf_type (reserved s1)" using live1(3) by (simp add: wf_mm_def)
      obtain t where "memblock_free_with (memblock_double_array f) old old_bytes s1 = Some (0, s1\<lparr>reserved := t\<rparr>)" "wf_type t"
        "flag_at (live t) = removed (unat old) (range_end old old_bytes) (flag_at (live (reserved s1)))"
        "same_conf (reserved s1) t" "cnt t \<le> cnt (reserved s1) + 1"
        by (rule memblock_free_room [OF wr c1])
      then show ?thesis using that [of "s1\<lparr>reserved := t\<rparr>"] Some live1 by auto
    qed
    then obtain t2 where t2: "s2 = s1\<lparr>reserved := t2\<rparr>" "wf_type t2" "same_conf (reserved s1) t2" "cnt t2 \<le> cnt (reserved s1) + 1"
      "flag_at (live t2) = (case regions_at ?t of None \<Rightarrow> flag_at (live (reserved s))
          | Some old \<Rightarrow> removed (unat old) (range_end old old_bytes) (flag_at (live (reserved s))))" by blast
    have fr2: "free_range s2 (unat addr) (unat addr + unat bytes)"
      by (rule free_range_removed [OF fr(1)]) (simp_all add: t2 live1 removed_def split: option.splits)
    have wr2: "wf_type (reserved s2)" "cnt (reserved s2) + 1 \<le> max_cnt (reserved s2)"
      using t2 c1 by (simp_all add: same_conf_def)
    obtain t3 where t3: "memblock_reserve_with (memblock_double_array f) addr bytes s2 = Some (0, s2\<lparr>reserved := t3\<rparr>)" "wf_type t3"
      "flag_at (live t3) = added (unat addr) (unat addr + unat bytes) 0 (flag_at (live (reserved s2)))"
      "same_conf (reserved s2) t3" "cnt t3 \<le> cnt (reserved s2) + 1"
      by (rule memblock_reserve_free [OF wr2(1) fr2 b0 fr(2) wr2(2)])
    let ?s' = "set_in_slab sel False (s2\<lparr>reserved := t3\<rparr>)"
    have eq: "memblock_double_array (Suc f) sel na nz s = Some (0, ?s')" unfolding body using False s2 t3(1) by simp
    have fields: "memory ?s' = memory s1" "reserved ?s' = t3"
      by (cases sel; simp add: set_in_slab_def t2(1))+
    have conf: "same_conf (get_type sel s1) (get_type sel ?s')"
      using fields t3(4) same_conf_trans [OF t2(3), of t3] by (cases sel) (simp_all add: get_type_def t2(1))
    have "max_cnt (get_type sel ?s') = 2 * max_cnt ?t" "regions_at (get_type sel ?s') = Some addr"
      using conf by (simp_all add: same_conf_def s1_def)
    moreover have "wf_mm ?s'" using live1(3) t3(2) fields by (simp add: wf_mm_def)
    ultimately show ?thesis using eq found(1) [OF False] res fields live1(1) t3(3) t2(5) by (auto simp: t2(1))
  next
    case True
    have "memblock_double_array (Suc f) sel na nz s = Some (- 1, s)" unfolding body using True by simp
    then show ?thesis using found(2) [OF True] by simp
  qed
qed simp

end
