(* ===== verification/Memblock_Correct.thy ===== *)
theory Memblock_Correct
  imports Memblock_Alloc
begin

text \<open>
  What the memblock allocator promises its clients, stated on \<open>flag_at (live t)\<close>, the partial
  map from addresses to region flags that an array \<open>t\<close> stands for: adding and removing ranges,
  allocating, freeing, doubling an array, and any interleaving of allocations and frees.
\<close>

section \<open>Adding and removing ranges\<close>

lemma unat_numeral_u32: "unat (0x5FFFF000 :: u32) = 0x5FFFF000" "unat (0x60001000 :: u32) = 0x60001000"
  by simp_all

text \<open>
  C21: \<open>memblock_add_range\<close>, when the array has room for the fragments it needs, returns 0 and a
  well-formed array whose map is the old one with the missing addresses of the (capped) range
  added under the given flags; addresses that were there keep their flags, a fully merged array
  stays fully merged, and the other array is untouched.
\<close>

theorem memblock_add_range_correct:
  assumes "wf_type (get_type sel s)"
    and "length (add_list (range_end base sz) flags (unat base) (live (get_type sel s))) \<le> max_cnt (get_type sel s)"
  shows "\<exists>t. memblock_add_range dbl sel base sz nid flags s = Some (0, put_type sel t s) \<and> wf_type t \<and>
    flag_at (live t) = added (unat base) (range_end base sz) flags (flag_at (live (get_type sel s))) \<and>
    (minimal (live (get_type sel s)) \<longrightarrow> minimal (live t)) \<and> same_conf (get_type sel s) t"
  by (rule memblock_add_range_room [OF assms, where dbl = dbl and nid = nid]) (intro exI conjI; assumption)

theorem memblock_add_range_correct_witness:
  "\<exists>t. memblock_add_range (memblock_double_array 1) MEMORY 0x5FFFF000 0x1002000 1 0 sample_state = Some (0, put_type MEMORY t sample_state) \<and>
    flag_at (live t) = added 0x5FFFF000 0x61001000 0 (flag_at (live (memory sample_state)))"
proof -
  have e: "range_end 0x5FFFF000 0x1002000 = 0x61001000" by (simp add: range_end_def)
  have "length (add_list 0x61001000 0 0x5FFFF000 (live (memory sample_state))) \<le> max_cnt (memory sample_state)"
    by (simp add: sample_state_def one_region_type_def live_def rb_def re_def)
  then obtain t where "memblock_add_range (memblock_double_array 1) MEMORY 0x5FFFF000 0x1002000 1 0 sample_state = Some (0, put_type MEMORY t sample_state)"
    "flag_at (live t) = added 0x5FFFF000 0x61001000 0 (flag_at (live (memory sample_state)))"
    using memblock_add_range_correct [of MEMORY sample_state "0x5FFFF000" "0x1002000" 0 "memblock_double_array 1" 1] sample_state_wf
    unfolding e get_type_def mem_sel.case unat_numeral_u32 by fastforce
  then show ?thesis by blast
qed

text \<open>
  C22: \<open>memblock_remove_range\<close>, when the array has the two spare entries that the code asks for
  before it splits regions, returns 0 and a
  well-formed array whose map is the old one with exactly the (capped) range taken out; regions
  that straddle an end of the range keep the rest of their addresses and their flags.
\<close>

theorem memblock_remove_range_correct:
  assumes "wf_type (get_type sel s)" and "cnt (get_type sel s) + 2 \<le> max_cnt (get_type sel s)"
  shows "\<exists>t. memblock_remove_range dbl sel base sz s = Some (0, put_type sel t s) \<and> wf_type t \<and>
    flag_at (live t) = removed (unat base) (range_end base sz) (flag_at (live (get_type sel s))) \<and>
    cnt t \<le> cnt (get_type sel s) + 1 \<and> same_conf (get_type sel s) t"
  by (rule memblock_remove_range_room [OF assms, where dbl = dbl and base = base and sz = sz]) (intro exI conjI; assumption)

theorem memblock_remove_range_correct_witness:
  "\<exists>t. memblock_remove_range (memblock_double_array 1) MEMORY 0x60001000 0x1000 sample_state = Some (0, put_type MEMORY t sample_state) \<and>
    flag_at (live t) = removed 0x60001000 0x60002000 (flag_at (live (memory sample_state)))"
proof -
  have e: "range_end 0x60001000 0x1000 = 0x60002000" by (simp add: range_end_def)
  have "cnt (memory sample_state) + 2 \<le> max_cnt (memory sample_state)" by (simp add: sample_state_def one_region_type_def)
  then obtain t where "memblock_remove_range (memblock_double_array 1) MEMORY 0x60001000 0x1000 sample_state = Some (0, put_type MEMORY t sample_state)"
    "flag_at (live t) = removed 0x60001000 0x60002000 (flag_at (live (memory sample_state)))"
    using memblock_remove_range_correct [of MEMORY sample_state "memblock_double_array 1" "0x60001000" "0x1000"] sample_state_wf
    unfolding e get_type_def mem_sel.case unat_numeral_u32 by fastforce
  then show ?thesis by blast
qed

section \<open>Allocation\<close>

lemma phys_alloc_range:
  "memblock_phys_alloc sz al s = memblock_alloc_range_nid sz al 0 MEMBLOCK_ALLOC_ACCESSIBLE NUMA_NO_NODE MEMBLOCK_NONE s"
  by (simp add: memblock_phys_alloc_def memblock_alloc_base_def raw_memblock_alloc_base_def memblock_alloc_base_nid_def)

definition reserved_more :: "mm_state \<Rightarrow> nat \<Rightarrow> nat \<Rightarrow> mm_state \<Rightarrow> bool" where
  "reserved_more s lo hi s' \<longleftrightarrow>
     (\<exists>t. s' = s\<lparr>reserved := t\<rparr> \<and> wf_type t \<and> cnt t \<le> cnt (reserved s) + 1 \<and> same_conf (reserved s) t \<and>
        flag_at (live t) = (\<lambda>x. if lo \<le> x \<and> x < hi then Some 0 else flag_at (live (reserved s)) x))"

lemma good_block_free: "good_block s lo hi sz k c \<Longrightarrow> free_range s c (c + unat sz)"
  by (simp add: good_block_def)

lemma phys_alloc_spec:
  assumes "wf_mm s" and "0 < sz" and "k < 32" and "cnt (reserved s) + 1 \<le> max_cnt (reserved s)"
  shows "\<exists>a s'. memblock_phys_alloc sz (2 ^ k) s = Some (a, s') \<and>
    (if a = 0 then s' = s \<and> (\<forall>c. \<not> good_block s PAGE_SIZE (max PAGE_SIZE (current_limit s)) sz k c)
     else good_block s PAGE_SIZE (max PAGE_SIZE (current_limit s)) sz k (unat a) \<and>
          reserved_more s (unat a) (unat a + unat sz) s')"
proof -
  have se: "search_start 0 = PAGE_SIZE" "search_end s 0 MEMBLOCK_ALLOC_ACCESSIBLE = max PAGE_SIZE (current_limit s)"
    by (simp_all add: search_start_def search_end_def)
  obtain a s' where a: "memblock_alloc_range_nid sz (2 ^ k) 0 MEMBLOCK_ALLOC_ACCESSIBLE NUMA_NO_NODE MEMBLOCK_NONE s = Some (a, s')"
    and z: "a = 0 \<longrightarrow> s' = s \<and> (\<forall>c. \<not> good_block s (search_start 0) (search_end s 0 MEMBLOCK_ALLOC_ACCESSIBLE) sz k c)"
    and nz: "a \<noteq> 0 \<longrightarrow> good_block s (search_start 0) (search_end s 0 MEMBLOCK_ALLOC_ACCESSIBLE) sz k (unat a) \<and>
      (\<exists>t. s' = s\<lparr>reserved := t\<rparr> \<and> wf_type t \<and> cnt t \<le> cnt (reserved s) + 1 \<and> same_conf (reserved s) t \<and>
        flag_at (live t) = added (unat a) (unat a + unat sz) 0 (flag_at (live (reserved s))))"
    by (rule alloc_range_spec [OF assms])
  have "reserved_more s (unat a) (unat a + unat sz) s'" if "a \<noteq> 0"
  proof -
    have "free_range s (unat a) (unat a + unat sz)" using nz that good_block_free by blast
    from added_free [OF this, of 0] show ?thesis using nz that unfolding reserved_more_def by simp
  qed
  then have "if a = 0 then s' = s \<and> (\<forall>c. \<not> good_block s PAGE_SIZE (max PAGE_SIZE (current_limit s)) sz k c)
     else good_block s PAGE_SIZE (max PAGE_SIZE (current_limit s)) sz k (unat a) \<and>
          reserved_more s (unat a) (unat a + unat sz) s'"
    using z nz unfolding se by simp
  then show ?thesis using a unfolding phys_alloc_range by blast
qed

text \<open>
  C23: with a spare entry in the reserved array \<open>memblock_phys_alloc\<close> returns. A non-zero result is the start of an aligned block
  below the limit, inside one memory region, that was wholly unreserved, and afterwards exactly
  that block is reserved in addition; 0 means that the state is unchanged and no such block exists.
\<close>

theorem memblock_phys_alloc_correct:
  assumes "wf_mm s" and "0 < sz" and "k < 32" and "cnt (reserved s) + 1 \<le> max_cnt (reserved s)"
  shows "\<exists>a s'. memblock_phys_alloc sz (2 ^ k) s = Some (a, s') \<and>
    (if a = 0 then s' = s \<and> (\<forall>c. \<not> good_block s PAGE_SIZE (max PAGE_SIZE (current_limit s)) sz k c)
     else good_block s PAGE_SIZE (max PAGE_SIZE (current_limit s)) sz k (unat a) \<and>
          reserved_more s (unat a) (unat a + unat sz) s')"
  by (rule phys_alloc_spec [OF assms])

lemma sample_state_mm: "wf_mm sample_state" "cnt (reserved sample_state) + 7 \<le> max_cnt (reserved sample_state)"
  "0 \<noteq> page_offset sample_state"
  by (simp add: wf_mm_def sample_state_wf) code_simp+

lemma sample_state_found:
  "good_block sample_state PAGE_SIZE (max PAGE_SIZE (current_limit sample_state)) 0x2000 12 0x60FFD000"
proof -
  have e: "memblock_find_in_range_node sample_state 0x2000 (2 ^ 12) 0 0 (- 1) 0 = Some 0x60FFD000" by code_simp
  have w: "wf_type (memory sample_state)" "wf_type (reserved sample_state)" using sample_state_wf by auto
  have "search_start 0 = PAGE_SIZE" "search_end sample_state 0 0 = max PAGE_SIZE (current_limit sample_state)"
    by (simp_all add: search_start_def search_end_def MEMBLOCK_ALLOC_ACCESSIBLE_def)
  then show ?thesis
    using find_node_spec [OF w, of "0x2000" 12 0 0 "- 1" 0] e by force
qed

theorem memblock_phys_alloc_correct_witness:
  "\<exists>a s'. memblock_phys_alloc 0x2000 (2 ^ 12) sample_state = Some (a, s') \<and> a \<noteq> 0 \<and> 4096 dvd unat a \<and>
     reserved_more sample_state (unat a) (unat a + 0x2000) s'"
proof -
  obtain a s' where "memblock_phys_alloc 0x2000 (2 ^ 12) sample_state = Some (a, s')"
    and r: "if a = 0 then s' = sample_state \<and> (\<forall>c. \<not> good_block sample_state PAGE_SIZE (max PAGE_SIZE (current_limit sample_state)) 0x2000 12 c)
     else good_block sample_state PAGE_SIZE (max PAGE_SIZE (current_limit sample_state)) 0x2000 12 (unat a) \<and>
          reserved_more sample_state (unat a) (unat a + unat (0x2000 :: u32)) s'"
    using memblock_phys_alloc_correct [of sample_state "0x2000" 12] sample_state_mm by auto
  moreover from r have "a \<noteq> 0" using sample_state_found by (metis (full_types))
  ultimately show ?thesis using r by (auto simp: good_block_def)
qed

section \<open>Allocations and frees in any order\<close>

text \<open>
  A client that allocates and gives back what it got, in any order. \<open>client s0 s bs\<close>: from
  \<open>s0\<close> the client has reached \<open>s\<close> and holds the blocks \<open>bs\<close>. Every step starts with two spare
  entries in the reserved array.
\<close>

definition spare :: "mm_state \<Rightarrow> bool" where
  "spare s \<longleftrightarrow> cnt (reserved s) + 2 \<le> max_cnt (reserved s)"

inductive client :: "mm_state \<Rightarrow> mm_state \<Rightarrow> (phys_addr_t \<times> phys_addr_t) list \<Rightarrow> bool" for s0 where
  start: "client s0 s0 []"
| alloc: "client s0 s bs \<Longrightarrow> spare s \<Longrightarrow> 0 < sz \<Longrightarrow> k < 32 \<Longrightarrow> memblock_phys_alloc sz (2 ^ k) s = Some (a, s') \<Longrightarrow>
    client s0 s' (if a = 0 then bs else (a, sz) # bs)"
| free: "client s0 s bs \<Longrightarrow> spare s \<Longrightarrow> (a, sz) \<in> set bs \<Longrightarrow> memblock_free a sz s = Some (r, s') \<Longrightarrow>
    client s0 s' (remove1 (a, sz) bs)"

inductive_cases client_elim: "client s0 s bs"

definition block :: "phys_addr_t \<times> phys_addr_t \<Rightarrow> nat set" where
  "block b = {unat (fst b) ..< unat (fst b) + unat (snd b)}"

definition blocks :: "(phys_addr_t \<times> phys_addr_t) list \<Rightarrow> nat set" where
  "blocks bs = (\<Union>b \<in> set bs. block b)"

definition disjoint_blocks :: "(phys_addr_t \<times> phys_addr_t) list \<Rightarrow> bool" where
  "disjoint_blocks bs \<longleftrightarrow> sorted_wrt (\<lambda>b c. block b \<inter> block c = {}) bs"

text \<open>The invariant: what is reserved now is what was reserved at the start and the blocks held.\<close>

definition client_inv :: "mm_state \<Rightarrow> mm_state \<Rightarrow> (phys_addr_t \<times> phys_addr_t) list \<Rightarrow> bool" where
  "client_inv s0 s bs \<longleftrightarrow>
     wf_mm s \<and> memory s = memory s0 \<and> max_cnt (reserved s) = max_cnt (reserved s0) \<and> disjoint_blocks bs \<and>
     (\<forall>b \<in> set bs. block b \<noteq> {} \<and> unat (fst b) + unat (snd b) < 2 ^ 32 \<and> free_range s0 (unat (fst b)) (unat (fst b) + unat (snd b))) \<and>
     flag_at (live (reserved s)) = (\<lambda>x. if x \<in> blocks bs then Some 0 else flag_at (live (reserved s0)) x)"

lemma blocks_Cons [simp]: "blocks (b # bs) = block b \<union> blocks bs" "blocks [] = {}"
  by (simp_all add: blocks_def)

lemma disjoint_blocks_Cons: "disjoint_blocks (b # bs) \<longleftrightarrow> block b \<inter> blocks bs = {} \<and> disjoint_blocks bs"
  by (auto simp: disjoint_blocks_def blocks_def)

lemma blocks_remove1:
  "disjoint_blocks bs \<Longrightarrow> b \<in> set bs \<Longrightarrow> block b \<noteq> {} \<Longrightarrow>
    blocks (remove1 b bs) = blocks bs - block b \<and> disjoint_blocks (remove1 b bs)"
proof (induction bs)
  case (Cons c bs)
  have sub: "blocks (remove1 b bs) \<subseteq> blocks bs" using set_remove1_subset unfolding blocks_def by fast
  show ?case
  proof (cases "b = c")
    case True
    then show ?thesis using Cons.prems by (auto simp: disjoint_blocks_Cons)
  next
    case False
    then have "b \<in> set bs" using Cons.prems by simp
    moreover from this have "block b \<inter> block c = {}" using Cons.prems(1) by (auto simp: disjoint_blocks_Cons blocks_def)
    ultimately show ?thesis using Cons sub False by (auto simp: disjoint_blocks_Cons)
  qed
qed simp

lemma client_inv_alloc:
  assumes inv: "client_inv s0 s bs" and sp: "spare s" and k: "0 < sz" "k < 32"
    and a: "memblock_phys_alloc sz (2 ^ k) s = Some (a, s')"
  shows "client_inv s0 s' (if a = 0 then bs else (a, sz) # bs)"
proof -
  have wf: "wf_mm s" and one: "cnt (reserved s) + 1 \<le> max_cnt (reserved s)"
    using inv sp by (simp_all add: client_inv_def spare_def)
  have sp1: "if a = 0 then s' = s \<and> (\<forall>c. \<not> good_block s PAGE_SIZE (max PAGE_SIZE (current_limit s)) sz k c)
     else good_block s PAGE_SIZE (max PAGE_SIZE (current_limit s)) sz k (unat a) \<and>
          reserved_more s (unat a) (unat a + unat sz) s'"
    using phys_alloc_spec [OF wf k one] a by auto
  show ?thesis
  proof (cases "a = 0")
    case False
    then have g: "good_block s PAGE_SIZE (max PAGE_SIZE (current_limit s)) sz k (unat a)"
      and m: "reserved_more s (unat a) (unat a + unat sz) s'" using sp1 by simp_all
    let ?b = "(a, sz)"
    have fr: "free_range s (unat a) (unat a + unat sz)" using g by (rule good_block_free)
    have top: "unat a + unat sz < 2 ^ 32"
      using g unat_u32_less [of "max PAGE_SIZE (current_limit s)"] by (simp add: good_block_def)
    have ne: "block ?b \<noteq> {}" using k by (simp add: block_def word_less_nat_alt)
    have out: "x \<notin> blocks bs \<and> flag_at (live (reserved s0)) x = None \<and> flag_at (live (memory s0)) x \<noteq> None" if "x \<in> block ?b" for x
      using fr inv that by (auto simp: free_range_def client_inv_def block_def split: if_splits)
    then have dj: "block ?b \<inter> blocks bs = {}" by blast
    have fr0: "free_range s0 (unat a) (unat a + unat sz)" using out by (auto simp: free_range_def block_def)
    obtain t where t: "s' = s\<lparr>reserved := t\<rparr>" "wf_type t" "same_conf (reserved s) t"
      "flag_at (live t) = (\<lambda>x. if unat a \<le> x \<and> x < unat a + unat sz then Some 0 else flag_at (live (reserved s)) x)"
      using m unfolding reserved_more_def by blast
    have "flag_at (live t) = (\<lambda>x. if x \<in> blocks (?b # bs) then Some 0 else flag_at (live (reserved s0)) x)"
      unfolding t(4) using inv by (auto simp: client_inv_def block_def fun_eq_iff)
    moreover have "wf_type (memory s0)" using inv unfolding client_inv_def wf_mm_def by metis
    ultimately show ?thesis using inv False t(1-3) ne top dj fr0
      by (simp add: client_inv_def disjoint_blocks_Cons wf_mm_def same_conf_def)
  qed (use sp1 inv in simp)
qed

lemma client_inv_free:
  assumes inv: "client_inv s0 s bs" and sp: "spare s" and b: "(a, sz) \<in> set bs"
    and f: "memblock_free a sz s = Some (r, s')"
  shows "client_inv s0 s' (remove1 (a, sz) bs)" and "r = 0"
proof -
  have w: "wf_type (reserved s)" and sp': "cnt (reserved s) + 2 \<le> max_cnt (reserved s)"
    using inv sp by (simp_all add: client_inv_def spare_def wf_mm_def)
  obtain t where t: "memblock_free_with (memblock_double_array DOUBLE_FUEL) a sz s = Some (0, s\<lparr>reserved := t\<rparr>)" "wf_type t"
    "flag_at (live t) = removed (unat a) (range_end a sz) (flag_at (live (reserved s)))"
    "same_conf (reserved s) t" "cnt t \<le> cnt (reserved s) + 1"
    by (rule memblock_free_room [OF w sp'])
  have eq: "r = 0" "s' = s\<lparr>reserved := t\<rparr>" using f t(1) by (simp_all add: memblock_free_def)
  have bb: "block (a, sz) \<noteq> {}" "unat a + unat sz < 2 ^ 32" "free_range s0 (unat a) (unat a + unat sz)"
    using inv b by (auto simp: client_inv_def)
  have e: "range_end a sz = unat a + unat sz" using bb(2) by (simp add: range_end_def)
  have rm: "blocks (remove1 (a, sz) bs) = blocks bs - block (a, sz)" "disjoint_blocks (remove1 (a, sz) bs)"
    using blocks_remove1 [OF _ b bb(1)] inv by (auto simp: client_inv_def)
  have "flag_at (live t) = (\<lambda>x. if x \<in> blocks (remove1 (a, sz) bs) then Some 0 else flag_at (live (reserved s0)) x)"
    unfolding t(3) e rm(1) using inv bb(3) by (auto simp: client_inv_def removed_def block_def free_range_def fun_eq_iff)
  then show "client_inv s0 s' (remove1 (a, sz) bs)"
    using inv t rm(2) notin_set_remove1 unfolding client_inv_def eq by (auto simp: wf_mm_def same_conf_def)
  show "r = 0" by (rule eq)
qed

lemma client_invariant: "client s0 s bs \<Longrightarrow> wf_mm s0 \<Longrightarrow> client_inv s0 s bs"
proof (induction rule: client.induct)
  case start
  then show ?case by (simp add: client_inv_def disjoint_blocks_def)
next
  case alloc
  then show ?case using client_inv_alloc by blast
next
  case free
  then show ?case using client_inv_free(1) by blast
qed

text \<open>
  C24: in every order of allocations and frees in which each starts with two spare entries in the
  reserved array, so that the array is not doubled, the blocks a client holds are pairwise
  disjoint, were free memory when the client started, and together with what was reserved at the
  start they are exactly what is reserved; the memory array never changes.
\<close>

theorem memblock_clients_disjoint:
  assumes "wf_mm s0" and "client s0 s bs"
  shows "wf_mm s \<and> memory s = memory s0 \<and> disjoint_blocks bs \<and>
    (\<forall>b \<in> set bs. free_range s0 (unat (fst b)) (unat (fst b) + unat (snd b))) \<and>
    flag_at (live (reserved s)) = (\<lambda>x. if x \<in> blocks bs then Some 0 else flag_at (live (reserved s0)) x)"
  using client_invariant [OF assms(2,1)] by (simp add: client_inv_def)

lemma sample_client: "\<exists>a s. client sample_state s [(a, 0x2000)]"
proof -
  have g: "\<not> (\<forall>c. \<not> good_block sample_state PAGE_SIZE (max PAGE_SIZE (current_limit sample_state)) 0x2000 12 c)"
    using sample_state_found by blast
  have one: "cnt (reserved sample_state) + 1 \<le> max_cnt (reserved sample_state)" using sample_state_mm(2) by simp
  obtain a s' where a: "memblock_phys_alloc 0x2000 (2 ^ 12) sample_state = Some (a, s')" "a \<noteq> 0"
    using phys_alloc_spec [OF sample_state_mm(1), of "0x2000" 12] one g by fastforce
  have "client sample_state s' (if a = 0 then [] else [(a, 0x2000)])"
    by (rule client.alloc [OF client.start _ _ _ a(1)]) (use sample_state_mm(2) in \<open>simp_all add: spare_def\<close>)
  then show ?thesis using a(2) by auto
qed

theorem memblock_clients_disjoint_witness:
  "\<exists>a s. client sample_state s [(a, 0x2000)] \<and> memory s = memory sample_state \<and>
    flag_at (live (reserved s)) = (\<lambda>x. if x \<in> block (a, 0x2000) then Some 0 else flag_at (live (reserved sample_state)) x)"
proof -
  obtain a s where c: "client sample_state s [(a, 0x2000)]" using sample_client by blast
  show ?thesis using memblock_clients_disjoint [OF sample_state_mm(1) c] c by auto
qed

text \<open>
  C25: a client is never stuck: in every state it can reach with two spare entries an allocation
  returns, and giving back a block it holds returns 0 and makes exactly that block free again.
\<close>

theorem memblock_client_progress:
  assumes "wf_mm s0" and "client s0 s bs" and "spare s" and "0 < sz" and "k < 32"
  shows "(\<exists>r. memblock_phys_alloc sz (2 ^ k) s = Some r) \<and>
    (\<forall>(a, n) \<in> set bs. \<exists>s'. memblock_free a n s = Some (0, s') \<and>
       flag_at (live (reserved s')) = removed (unat a) (unat a + unat n) (flag_at (live (reserved s))))"
proof (intro conjI ballI)
  have inv: "client_inv s0 s bs" by (rule client_invariant [OF assms(2,1)])
  then have w: "wf_mm s" "wf_type (reserved s)" by (auto simp only: client_inv_def wf_mm_def)
  have sp: "cnt (reserved s) + 2 \<le> max_cnt (reserved s)" using assms(3) by (simp add: spare_def)
  then show "\<exists>r. memblock_phys_alloc sz (2 ^ k) s = Some r" using phys_alloc_spec [OF w(1) assms(4,5)] by force
  fix b assume b: "b \<in> set bs"
  obtain a n where an: "b = (a, n)" by fastforce
  have e: "range_end a n = unat a + unat n" using inv b an by (auto simp: client_inv_def range_end_def)
  obtain t where t: "memblock_free_with (memblock_double_array DOUBLE_FUEL) a n s = Some (0, s\<lparr>reserved := t\<rparr>)" "wf_type t"
    "flag_at (live t) = removed (unat a) (range_end a n) (flag_at (live (reserved s)))"
    "same_conf (reserved s) t" "cnt t \<le> cnt (reserved s) + 1"
    by (rule memblock_free_room [OF w(2) sp])
  then show "case b of (a, n) \<Rightarrow> \<exists>s'. memblock_free a n s = Some (0, s') \<and>
       flag_at (live (reserved s')) = removed (unat a) (unat a + unat n) (flag_at (live (reserved s)))"
    unfolding an by (simp add: memblock_free_def e)
qed

theorem memblock_client_progress_witness:
  "\<exists>r. memblock_phys_alloc 0x2000 (2 ^ 12) sample_state = Some r"
  using memblock_client_progress [OF sample_state_mm(1) client.start, of "0x2000" 12] sample_state_mm(2)
  by (simp add: spare_def)

section \<open>Doubling an array\<close>


text \<open>
  C26: \<open>memblock_double_array\<close> (outside slab, with two spare reserved entries when it is the memory
  array that grows) returns -1 and changes nothing exactly when resizing is not allowed or no place
  for the new array exists in the ranges it searches. Otherwise it returns 0 with the array twice as
  long at such a place, the memory unchanged as a map, and the new place reserved in exchange for
  the old one.
\<close>

theorem memblock_double_array_correct:
  assumes "wf_mm s" and "\<not> in_slab sel s"
    and "2 \<le> max_cnt (get_type sel s)" and "2 * max_cnt (get_type sel s) < 2 ^ 31 - 1"
    and "sel = MEMORY \<longrightarrow> cnt (reserved s) + 2 \<le> max_cnt (reserved s)"
    and "bytes = PAGE_ALIGN (push_bit 1 (of_nat (max_cnt (get_type sel s)) * 12))"
  shows "if memblock_can_resize s \<and> (\<exists>c. place_for sel na nz s bytes c)
    then \<exists>s' addr. memblock_double_array (Suc f) sel na nz s = Some (0, s') \<and> wf_mm s' \<and>
       max_cnt (get_type sel s') = 2 * max_cnt (get_type sel s) \<and> regions_at (get_type sel s') = Some addr \<and>
       flag_at (live (memory s')) = flag_at (live (memory s)) \<and>
       place_for sel na nz s bytes (unat addr) \<and>
       flag_at (live (reserved s')) = added (unat addr) (unat addr + unat bytes) 0
         (case regions_at (get_type sel s) of
            None \<Rightarrow> flag_at (live (reserved s))
          | Some old \<Rightarrow> removed (unat old) (range_end old (PAGE_ALIGN (of_nat (max_cnt (get_type sel s)) * 12)))
                         (flag_at (live (reserved s))))
    else memblock_double_array (Suc f) sel na nz s = Some (- 1, s)"
  unfolding assms(6) by (rule memblock_double_array_spec [OF assms(1-5)])

lemma good_block_smaller: "good_block s lo hi sz k c \<Longrightarrow> sz' \<le> sz \<Longrightarrow> good_block s lo hi sz' k c"
  by (force simp: good_block_def free_range_def one_region_def word_le_nat_alt)

lemma sample_state_place:
  "\<exists>c. place_for RESERVED 0 0 sample_state (PAGE_ALIGN (push_bit 1 (of_nat (max_cnt (reserved sample_state)) * 12))) c"
proof -
  have "PAGE_ALIGN (push_bit 1 (of_nat (max_cnt (reserved sample_state)) * 12)) = 191"
    by (simp add: sample_state_def one_region_type_def PAGE_ALIGN_def PAGE_SIZE_def push_bit_eq_mult)
  moreover have "search_start 0 = PAGE_SIZE" "search_end sample_state 0 (current_limit sample_state) = max PAGE_SIZE (current_limit sample_state)"
    by (simp_all add: search_start_def search_end_def)
  ultimately show ?thesis
    using good_block_smaller [OF sample_state_found, of 191] by (auto simp: place_for_def)
qed

lemma sample_state_double:
  "memblock_can_resize sample_state" "\<not> in_slab RESERVED sample_state" "max_cnt (reserved sample_state) = 8"
  by (simp_all add: sample_state_def in_slab_def one_region_type_def)

theorem memblock_double_array_correct_witness:
  "\<exists>s'. memblock_double_array (Suc 0) RESERVED 0 0 sample_state = Some (0, s') \<and> wf_mm s' \<and> max_cnt (reserved s') = 16"
  using memblock_double_array_correct [OF sample_state_mm(1), of RESERVED _ 0 0 0] sample_state_place sample_state_double
  by (auto simp: get_type_def simp del: memblock_double_array.simps)




end
