(* ===== verification/Buddy.thy ===== *)
theory Buddy
  imports Linked_List Bitops
begin

text \<open>
  The page allocator of \<open>Buddy/PCP_userspace\<close> (\<open>mm/buddy.c\<close>, \<open>include/linux/buddy.h\<close>), which is
  the allocator of \<open>Buddy/Userspace\<close> with a per-cpu list in front of the order-0 pages. It is built
  with \<^verbatim>\<open>-m32\<close>: \<open>unsigned long\<close> is 32 bits wide.

  A \<open>struct page *\<close> is the index of the page in \<open>mem_map\<close>, a 32-bit word, so that
  \<open>page + (buddy_pfn - pfn)\<close> is word arithmetic. The links of all lists live in one store whose
  nodes are the \<open>lru\<close> fields of the pages and the list heads.
\<close>

unbundle bit_operations_syntax

section \<open>State\<close>

datatype list_id = Free_list nat | Pcp_list | Local_list

datatype bnode = Head list_id | Lru u32

type_synonym page = u32

record zone =
  links :: "bnode list_heads"
  page_type :: "page \<Rightarrow> u32"
  page_private :: "page \<Rightarrow> u32"
  nr_free :: "nat \<Rightarrow> u32"
  pcp_count :: int
  pcp_high :: int
  pcp_batch :: int
  managed_pages :: u32

definition MAX_ORDER :: nat where "MAX_ORDER = 11"
definition pageblock_order :: nat where "pageblock_order = 10"
definition PAGE_SHIFT :: nat where "PAGE_SHIFT = 12"
definition PAGE_SIZE :: u32 where "PAGE_SIZE = push_bit PAGE_SHIFT 1"
definition MEMORY_SIZE :: u32 where "MEMORY_SIZE = 0x1000000"
definition PHYS_OFFSET :: u32 where "PHYS_OFFSET = 0x60000000"
definition BATCH_SIZE :: int where "BATCH_SIZE = 2"

definition PFN_UP :: "u32 \<Rightarrow> u32" where
  "PFN_UP x = drop_bit PAGE_SHIFT (x + PAGE_SIZE - 1)"

definition PFN_DOWN :: "u32 \<Rightarrow> u32" where
  "PFN_DOWN x = drop_bit PAGE_SHIFT x"

definition PFN_PHYS :: "u32 \<Rightarrow> u32" where
  "PFN_PHYS x = push_bit PAGE_SHIFT x"

definition PHYS_PFN :: "u32 \<Rightarrow> u32" where
  "PHYS_PFN x = drop_bit PAGE_SHIFT x"

definition PFN_OFFSET :: u32 where
  "PFN_OFFSET = PHYS_PFN PHYS_OFFSET"

definition pfn_to_page :: "u32 \<Rightarrow> page" where
  "pfn_to_page pfn = pfn - PFN_OFFSET"

definition page_to_pfn :: "page \<Rightarrow> u32" where
  "page_to_pfn page = page + PFN_OFFSET"

definition pfn_valid_within :: "u32 \<Rightarrow> bool" where
  "pfn_valid_within pfn = True"

text \<open>\<open>memory\<close> is the address \<open>malloc\<close> returned for the emulated memory.\<close>

definition virt_to_phys :: "u32 \<Rightarrow> u32 \<Rightarrow> u32" where
  "virt_to_phys memory x = (x - memory) + PHYS_OFFSET"

definition phys_to_virt :: "u32 \<Rightarrow> u32 \<Rightarrow> u32" where
  "phys_to_virt memory x = (x - PHYS_OFFSET) + memory"

definition lowmem_page_address :: "u32 \<Rightarrow> page \<Rightarrow> u32" where
  "lowmem_page_address memory page = phys_to_virt memory (PFN_PHYS (page_to_pfn page))"

definition page_address :: "u32 \<Rightarrow> page \<Rightarrow> u32" where
  "page_address memory page = lowmem_page_address memory page"

section \<open>Page flags and orders\<close>

definition PAGE_TYPE_BASE :: u32 where "PAGE_TYPE_BASE = 0xf0000000"
definition PG_buddy :: u32 where "PG_buddy = 0x00000080"

definition PageType :: "u32 \<Rightarrow> u32 \<Rightarrow> bool" where
  "PageType type flag \<longleftrightarrow> type AND (PAGE_TYPE_BASE OR flag) = PAGE_TYPE_BASE"

definition PageBuddy :: "zone \<Rightarrow> page \<Rightarrow> bool" where
  "PageBuddy z page = PageType (page_type z page) PG_buddy"

definition SetPageBuddy :: "page \<Rightarrow> zone \<Rightarrow> zone" where
  "SetPageBuddy page z = z\<lparr>page_type := (page_type z)(page := page_type z page AND NOT PG_buddy)\<rparr>"

definition ClearPageBuddy :: "page \<Rightarrow> zone \<Rightarrow> zone" where
  "ClearPageBuddy page z = z\<lparr>page_type := (page_type z)(page := page_type z page OR PG_buddy)\<rparr>"

definition set_page_private :: "page \<Rightarrow> u32 \<Rightarrow> zone \<Rightarrow> zone" where
  "set_page_private page v z = z\<lparr>page_private := (page_private z)(page := v)\<rparr>"

definition page_order :: "zone \<Rightarrow> page \<Rightarrow> u32" where
  "page_order z page = page_private z page"

definition set_page_order :: "page \<Rightarrow> nat \<Rightarrow> zone \<Rightarrow> zone" where
  "set_page_order page order z = SetPageBuddy page (set_page_private page (of_nat order) z)"

definition rmv_page_order :: "page \<Rightarrow> zone \<Rightarrow> zone" where
  "rmv_page_order page z = set_page_private page 0 (ClearPageBuddy page z)"

section \<open>Freeing\<close>

abbreviation lru :: "page \<Rightarrow> bnode lptr" where "lru p \<equiv> Node (Lru p)"
abbreviation free_list :: "nat \<Rightarrow> bnode lptr" where "free_list order \<equiv> Node (Head (Free_list order))"

definition on_links :: "(bnode list_heads \<Rightarrow> bnode list_heads) \<Rightarrow> zone \<Rightarrow> zone" where
  "on_links f z = z\<lparr>links := f (links z)\<rparr>"

definition inc_nr_free :: "nat \<Rightarrow> zone \<Rightarrow> zone" where
  "inc_nr_free order z = z\<lparr>nr_free := (nr_free z)(order := nr_free z order + 1)\<rparr>"

definition dec_nr_free :: "nat \<Rightarrow> zone \<Rightarrow> zone" where
  "dec_nr_free order z = z\<lparr>nr_free := (nr_free z)(order := nr_free z order - 1)\<rparr>"

definition find_buddy_pfn :: "u32 \<Rightarrow> nat \<Rightarrow> u32" where
  "find_buddy_pfn page_pfn order = page_pfn XOR push_bit order 1"

text \<open>
  \<open>page_is_buddy\<close> has no \<open>return\<close> on the path where the condition fails. What a caller reads
  there is not defined by C; it is the parameter \<open>fell\<close> of the model, and the theorems say where
  they need it to be 0.
\<close>

definition page_is_buddy :: "int \<Rightarrow> zone \<Rightarrow> page \<Rightarrow> nat \<Rightarrow> int" where
  "page_is_buddy fell z buddy order = (if PageBuddy z buddy \<and> page_order z buddy = of_nat order then 1 else fell)"

text \<open>
  The merging loop of \<open>__free_one_page\<close>. It gives back the page, its pfn, the order and the
  last \<open>buddy_pfn\<close>; the latter is only read afterwards when the order is below
  \<open>MAX_ORDER - 2\<close>, and then the loop has assigned it.
\<close>

function merge_loop :: "int \<Rightarrow> nat \<Rightarrow> page \<Rightarrow> u32 \<Rightarrow> nat \<Rightarrow> u32 \<Rightarrow> zone \<Rightarrow> page \<times> u32 \<times> nat \<times> u32 \<times> zone" where
  "merge_loop fell max_order page pfn order buddy_pfn z =
     (if order < max_order - 1 then
        let buddy_pfn = find_buddy_pfn pfn order;
            buddy = page + (buddy_pfn - pfn)
        in
        if \<not> pfn_valid_within buddy_pfn then (page, pfn, order, buddy_pfn, z)
        else if page_is_buddy fell z buddy order = 0 then (page, pfn, order, buddy_pfn, z)
        else
          let z = on_links (\<lambda>h. list_del h (lru buddy)) z;
              z = dec_nr_free order z;
              z = rmv_page_order buddy z;
              combined_pfn = buddy_pfn AND pfn;
              page = page + (combined_pfn - pfn)
          in merge_loop fell max_order page combined_pfn (order + 1) buddy_pfn z
      else (page, pfn, order, buddy_pfn, z))"
  by pat_completeness auto

termination
  by (relation "measure (\<lambda>(fell, max_order, page, pfn, order, buddy_pfn, z). max_order - order)") auto

declare merge_loop.simps [simp del]

definition free_one_page :: "int \<Rightarrow> page \<Rightarrow> u32 \<Rightarrow> nat \<Rightarrow> zone \<Rightarrow> zone" where
  "free_one_page fell page pfn order z =
     (let max_order = min MAX_ORDER (pageblock_order + 1);
          (page, pfn, order, buddy_pfn, z) = merge_loop fell max_order page pfn order 0 z;
          z = set_page_order page order z;
          tail =
            (if order \<noteq> 0 \<and> order < MAX_ORDER - 2 \<and> pfn_valid_within buddy_pfn then
               let combined_pfn = buddy_pfn AND pfn;
                   higher_page = page + (combined_pfn - pfn);
                   buddy_pfn = find_buddy_pfn combined_pfn (order + 1);
                   higher_buddy = higher_page + (buddy_pfn - combined_pfn)
               in pfn_valid_within buddy_pfn \<and> page_is_buddy fell z higher_buddy (order + 1) \<noteq> 0
             else False);
          z = (if tail then on_links (\<lambda>h. list_add_tail h (lru page) (free_list order)) z
               else on_links (\<lambda>h. list_add h (lru page) (free_list order)) z)
      in inc_nr_free order z)"

definition free_pages_ok :: "int \<Rightarrow> page \<Rightarrow> nat \<Rightarrow> zone \<Rightarrow> zone" where
  "free_pages_ok fell page order z = free_one_page fell page (page_to_pfn page) order z"

section \<open>The per-cpu list: freeing\<close>

abbreviation pcp_list :: "bnode lptr" where "pcp_list \<equiv> Node (Head Pcp_list)"
abbreviation local_list :: "bnode lptr" where "local_list \<equiv> Node (Head Local_list)"

definition add_pcp_count :: "int \<Rightarrow> zone \<Rightarrow> zone" where
  "add_pcp_count n z = z\<lparr>pcp_count := pcp_count z + n\<rparr>"

text \<open>
  The \<open>do ... while (--count && !list_empty(list))\<close> loop: it moves entries from the tail of the
  per-cpu list to the tail of the local list. The argument is the value of \<open>count\<close> after the
  decrement; the callers pass a positive \<open>batch\<close>.
\<close>

fun bulk_detach :: "nat \<Rightarrow> zone \<Rightarrow> zone" where
  "bulk_detach n z =
     (let page = list_last_entry (links z) pcp_list;
          z = on_links (\<lambda>h. list_del h page) z;
          z = add_pcp_count (- 1) z;
          z = on_links (\<lambda>h. list_add_tail h page local_list) z
      in if n \<noteq> 0 \<and> \<not> list_empty (links z) pcp_list then bulk_detach (n - 1) z else z)"

declare bulk_detach.simps [simp del]

text \<open>
  \<open>list_for_each_entry_safe(page, tmp, &head, lru) __free_one_page(...)\<close>: \<open>tmp\<close> is read before the
  body, which relinks \<open>page\<close>. Fuel bounds the walk; \<open>None\<close> is exhausted fuel or a pointer that is
  no page.
\<close>

fun free_each :: "nat \<Rightarrow> int \<Rightarrow> bnode lptr \<Rightarrow> zone \<Rightarrow> zone option" where
  "free_each fuel fell pos z =
     (if pos = local_list then Some z
      else case fuel of
             0 \<Rightarrow> None
           | Suc fuel' \<Rightarrow>
               (case pos of
                  Node (Lru page) \<Rightarrow>
                    let tmp = nxt (links z) pos in
                    free_each fuel' fell tmp (free_one_page fell page (page_to_pfn page) 0 z)
                | _ \<Rightarrow> None))"

declare free_each.simps [simp del]

definition free_pcppages_bulk :: "int \<Rightarrow> nat \<Rightarrow> zone \<Rightarrow> zone option" where
  "free_pcppages_bulk fell count z =
     (let z = on_links (\<lambda>h. INIT_LIST_HEAD h local_list) z;
          z = bulk_detach (count - 1) z
      in free_each (Suc count) fell (nxt (links z) local_list) z)"

definition free_unref_page_commit :: "int \<Rightarrow> page \<Rightarrow> zone \<Rightarrow> zone option" where
  "free_unref_page_commit fell page z =
     (let z = on_links (\<lambda>h. list_add h (lru page) pcp_list) z;
          z = add_pcp_count 1 z
      in if pcp_count z \<ge> pcp_high z then free_pcppages_bulk fell (nat (pcp_batch z)) z else Some z)"

definition free_unref_page :: "int \<Rightarrow> page \<Rightarrow> zone \<Rightarrow> zone option" where
  "free_unref_page fell page z = free_unref_page_commit fell page z"

definition free_the_page :: "int \<Rightarrow> page \<Rightarrow> nat \<Rightarrow> zone \<Rightarrow> zone option" where
  "free_the_page fell page order z =
     (if order = 0 then free_unref_page fell page z else Some (free_pages_ok fell page order z))"

definition free_pages :: "int \<Rightarrow> page \<Rightarrow> nat \<Rightarrow> zone \<Rightarrow> zone option" where
  "free_pages fell page order z = free_the_page fell page order z"

section \<open>Allocating\<close>

text \<open>\<open>area\<close> walks down with \<open>high\<close>, so it is the free area of order \<open>high\<close>.\<close>

fun expand :: "page \<Rightarrow> nat \<Rightarrow> nat \<Rightarrow> u32 \<Rightarrow> zone \<Rightarrow> zone" where
  "expand page low high sz z =
     (if high > low then
        let high = high - 1;
            sz = drop_bit 1 sz;
            z = on_links (\<lambda>h. list_add h (lru (page + sz)) (free_list high)) z;
            z = inc_nr_free high z;
            z = set_page_order (page + sz) high z
        in expand page low high sz z
      else z)"

declare expand.simps [simp del]

definition page_of :: "bnode lptr \<Rightarrow> page option" where
  "page_of p = (case p of Node (Lru page) \<Rightarrow> Some page | _ \<Rightarrow> None)"

function rmqueue_smallest_from :: "nat \<Rightarrow> nat \<Rightarrow> zone \<Rightarrow> page option \<times> zone" where
  "rmqueue_smallest_from order current_order z =
     (if current_order < MAX_ORDER then
        (case list_first_entry_or_null (links z) (free_list current_order) \<bind> page_of of
           None \<Rightarrow> rmqueue_smallest_from order (current_order + 1) z
         | Some page \<Rightarrow>
             let z = on_links (\<lambda>h. list_del h (lru page)) z;
                 z = rmv_page_order page z;
                 z = dec_nr_free current_order z;
                 z = expand page order current_order (push_bit current_order 1) z
             in (Some page, z))
      else (None, z))"
  by pat_completeness auto

termination
  by (relation "measure (\<lambda>(order, current_order, z). MAX_ORDER - current_order)") auto

declare rmqueue_smallest_from.simps [simp del]

definition rmqueue_smallest :: "nat \<Rightarrow> zone \<Rightarrow> page option \<times> zone" where
  "rmqueue_smallest order z = rmqueue_smallest_from order order z"

text \<open>\<open>alloced\<close> is the number of pages moved to the list.\<close>

primrec rmqueue_bulk :: "nat \<Rightarrow> bnode lptr \<Rightarrow> int \<Rightarrow> zone \<Rightarrow> int \<times> zone" where
  "rmqueue_bulk 0 list alloced z = (alloced, z)"
| "rmqueue_bulk (Suc count) list alloced z =
     (case rmqueue_smallest 0 z of
        (None, z) \<Rightarrow> (alloced, z)
      | (Some page, z) \<Rightarrow>
          rmqueue_bulk count list (alloced + 1) (on_links (\<lambda>h. list_add_tail h (lru page) list) z))"

definition raw_rmqueue_pcplist :: "bnode lptr \<Rightarrow> zone \<Rightarrow> page option \<times> zone" where
  "raw_rmqueue_pcplist list z =
     (let z = (if list_empty (links z) list then
                 let (alloced, z) = rmqueue_bulk (nat (pcp_batch z)) list 0 z in add_pcp_count alloced z
               else z)
      in if list_empty (links z) list then (None, z)
         else
           let page = list_first_entry (links z) list;
               z = on_links (\<lambda>h. list_del h page) z;
               z = add_pcp_count (- 1) z
           in (page_of page, z))"

definition rmqueue_pcplist :: "zone \<Rightarrow> page option \<times> zone" where
  "rmqueue_pcplist z = raw_rmqueue_pcplist pcp_list z"

definition rmqueue :: "nat \<Rightarrow> zone \<Rightarrow> page option \<times> zone" where
  "rmqueue order z = (if order = 0 then rmqueue_pcplist z else rmqueue_smallest order z)"

definition get_page_from_freelist :: "nat \<Rightarrow> zone \<Rightarrow> page option \<times> zone" where
  "get_page_from_freelist order z = rmqueue order z"

definition alloc_pages :: "nat \<Rightarrow> zone \<Rightarrow> page option \<times> zone" where
  "alloc_pages order z = get_page_from_freelist order z"

section \<open>Initialisation\<close>

definition pageset_update :: "int \<Rightarrow> int \<Rightarrow> zone \<Rightarrow> zone" where
  "pageset_update high batch z = z\<lparr>pcp_high := high, pcp_batch := batch\<rparr>"

definition pageset_init :: "zone \<Rightarrow> zone" where
  "pageset_init z =
     (let z = z\<lparr>pcp_count := 0, pcp_high := 0, pcp_batch := 0\<rparr>;
          z = on_links (\<lambda>h. INIT_LIST_HEAD h pcp_list) z
      in pageset_update (6 * BATCH_SIZE) (max 1 BATCH_SIZE) z)"

definition init_page :: "page \<Rightarrow> zone \<Rightarrow> zone" where
  "init_page page z =
     (let z = on_links (\<lambda>h. INIT_LIST_HEAD h (lru page)) z
      in z\<lparr>page_type := (page_type z)(page := page_type z page OR PAGE_TYPE_BASE)\<rparr>)"

definition init_area :: "nat \<Rightarrow> zone \<Rightarrow> zone" where
  "init_area order z =
     (let z = on_links (\<lambda>h. INIT_LIST_HEAD h (free_list order)) z
      in z\<lparr>nr_free := (nr_free z)(order := 0)\<rparr>)"

text \<open>\<open>while (start_pfn + (1UL << order) > end_pfn) order--;\<close>, \<open>None\<close> when the order turns negative.\<close>

fun shrink_order :: "u32 \<Rightarrow> u32 \<Rightarrow> nat \<Rightarrow> nat option" where
  "shrink_order start_pfn end_pfn order =
     (if start_pfn + push_bit order 1 > end_pfn
      then (case order of 0 \<Rightarrow> None | Suc order \<Rightarrow> shrink_order start_pfn end_pfn order)
      else Some order)"

declare shrink_order.simps [simp del]

partial_function (option) init_free_loop :: "int \<Rightarrow> u32 \<Rightarrow> u32 \<Rightarrow> zone \<Rightarrow> zone option" where
  "init_free_loop fell start_pfn end_pfn z =
     (if start_pfn < end_pfn then
        shrink_order start_pfn end_pfn (min (MAX_ORDER - 1) (builtin_ctz start_pfn))
        \<bind> (\<lambda>order.
          free_pages fell (pfn_to_page start_pfn) order z
          \<bind> (\<lambda>z. init_free_loop fell (start_pfn + push_bit order 1) end_pfn z))
      else Some z)"

text \<open>
  \<open>memory_init\<close>; the argument is the state before: \<open>BiscuitOS_zone\<close> is zero-initialised, the
  \<open>struct page\<close>s lie in memory from \<open>malloc\<close> and hold anything.
\<close>

definition memory_init :: "int \<Rightarrow> zone \<Rightarrow> zone option" where
  "memory_init fell z =
     (let nr_pages = MEMORY_SIZE div PAGE_SIZE;
          z = z\<lparr>managed_pages := nr_pages\<rparr>;
          z = fold (\<lambda>i. init_page (of_nat i)) [0..<unat nr_pages] z;
          z = fold init_area [0..<MAX_ORDER] z
      in init_free_loop fell (PFN_UP PHYS_OFFSET) (PFN_DOWN (PHYS_OFFSET + MEMORY_SIZE)) z
         \<bind> (\<lambda>z. Some (pageset_init z)))"

end
