(* ===== verification/Buddy_Blocks.thy ===== *)
theory Buddy_Blocks
  imports Prelude
begin

text \<open>
  The geometry the buddy allocator relies on, without any of its data structures: blocks of
  \<open>2 ^ o\<close> pages at multiples of \<open>2 ^ o\<close>, tilings of the memory by such blocks, the buddy of a block,
  splitting and merging, and the fact that a set of free blocks in which no two buddies are free
  is determined by the pages it covers.
\<close>

section \<open>Blocks\<close>

type_synonym block = "nat \<times> nat"

definition top_order :: nat where "top_order = 10"

definition blk :: "block \<Rightarrow> nat set" where
  "blk b = {fst b ..< fst b + 2 ^ snd b}"

definition aligned :: "block \<Rightarrow> bool" where
  "aligned b \<longleftrightarrow> snd b \<le> top_order \<and> 2 ^ snd b dvd fst b"

definition buddy_of :: "nat \<Rightarrow> nat \<Rightarrow> nat" where
  "buddy_of p k = (if odd (p div 2 ^ k) then p - 2 ^ k else p + 2 ^ k)"

definition pages_of :: "block set \<Rightarrow> nat set" where
  "pages_of T = (\<Union>b \<in> T. blk b)"

definition disjoint_set :: "block set \<Rightarrow> bool" where
  "disjoint_set T \<longleftrightarrow> (\<forall>b \<in> T. \<forall>c \<in> T. b \<noteq> c \<longrightarrow> blk b \<inter> blk c = {})"

definition tiling :: "block set \<Rightarrow> nat \<Rightarrow> bool" where
  "tiling T N \<longleftrightarrow> (\<forall>b \<in> T. aligned b) \<and> disjoint_set T \<and> pages_of T = {..<N}"

definition coalesced :: "block set \<Rightarrow> bool" where
  "coalesced F \<longleftrightarrow> (\<forall>(p, k) \<in> F. k < top_order \<longrightarrow> (buddy_of p k, k) \<notin> F)"

lemma in_blk [simp]: "x \<in> blk (p, k) \<longleftrightarrow> p \<le> x \<and> x < p + 2 ^ k"
  by (simp add: blk_def)

lemma head_in_blk: "p \<in> blk (p, k)"
  by simp

lemma blk_nonempty [simp]: "blk b \<noteq> {}"
  by (simp add: blk_def)

lemma in_pages_of: "x \<in> pages_of T \<longleftrightarrow> (\<exists>p k. (p, k) \<in> T \<and> x \<in> blk (p, k))"
  by (force simp: pages_of_def)

lemma pages_of_insert [simp]: "pages_of (insert b T) = blk b \<union> pages_of T" "pages_of {} = {}"
  by (simp_all add: pages_of_def)

lemma pages_of_Un [simp]: "pages_of (S \<union> T) = pages_of S \<union> pages_of T"
  by (simp add: pages_of_def)

lemma disjoint_setD: "disjoint_set T \<Longrightarrow> b \<in> T \<Longrightarrow> c \<in> T \<Longrightarrow> x \<in> blk b \<Longrightarrow> x \<in> blk c \<Longrightarrow> b = c"
  unfolding disjoint_set_def by blast

lemma disjoint_set_subset: "disjoint_set T \<Longrightarrow> S \<subseteq> T \<Longrightarrow> disjoint_set S"
  unfolding disjoint_set_def by blast

lemma disjoint_set_insert:
  "b \<notin> T \<Longrightarrow> disjoint_set (insert b T) \<longleftrightarrow> disjoint_set T \<and> blk b \<inter> pages_of T = {}"
proof -
  assume b: "b \<notin> T"
  have "disjoint_set (insert b T) \<longleftrightarrow> disjoint_set T \<and> (\<forall>c \<in> T. blk b \<inter> blk c = {})"
    using b unfolding disjoint_set_def by (metis Int_commute insert_iff)
  then show ?thesis unfolding pages_of_def by blast
qed

text \<open>Two aligned blocks that meet are nested: a point fixes the block of each order.\<close>

lemma aligned_block_of:
  assumes "2 ^ k dvd p" and "x \<in> blk (p, k)" shows "p = x div 2 ^ k * 2 ^ k"
proof -
  obtain m where m: "p = 2 ^ k * m" using assms(1) by blast
  have "2 ^ k * m \<le> x" "x < 2 ^ k * (m + 1)" using assms(2) m by (auto simp: algebra_simps)
  then have "x div 2 ^ k = m" by (simp add: div_nat_eqI mult.commute)
  then show ?thesis using m by (simp add: mult.commute)
qed

lemma in_blk_iff: "2 ^ k dvd p \<Longrightarrow> x \<in> blk (p, k) \<longleftrightarrow> p div 2 ^ k = x div 2 ^ k"
proof
  assume a: "2 ^ k dvd p" and "x \<in> blk (p, k)"
  then show "p div 2 ^ k = x div 2 ^ k" using aligned_block_of [of k p x] by simp
next
  assume "2 ^ k dvd p" "p div 2 ^ k = x div 2 ^ k"
  then have "p = x div 2 ^ k * 2 ^ k" by (metis dvd_div_mult_self)
  moreover have "x div 2 ^ k * 2 ^ k \<le> x" "x < x div 2 ^ k * 2 ^ k + 2 ^ k"
    using dividend_less_div_times [of "2 ^ k" x] by simp_all
  ultimately show "x \<in> blk (p, k)" by simp
qed

lemma blocks_nested:
  assumes "2 ^ i dvd p" and "2 ^ j dvd q" and "i \<le> j" and "x \<in> blk (p, i)" and "x \<in> blk (q, j)"
  shows "blk (p, i) \<subseteq> blk (q, j)"
proof
  fix y assume y: "y \<in> blk (p, i)"
  have "y div 2 ^ i = x div 2 ^ i" using y assms(1,4) in_blk_iff by metis
  then have "y div 2 ^ i div 2 ^ (j - i) = x div 2 ^ i div 2 ^ (j - i)" by simp
  then have "y div 2 ^ j = x div 2 ^ j"
    using assms(3) by (simp add: div_mult2_eq [symmetric] power_add [symmetric])
  then show "y \<in> blk (q, j)" using assms(2,5) in_blk_iff by metis
qed

section \<open>Buddies\<close>

text \<open>The block of order \<open>k + 1\<close> that a block and its buddy make up.\<close>

lemma buddy_of_pair:
  assumes "2 ^ k dvd p"
  shows "2 ^ Suc k dvd min p (buddy_of p k)" and "max p (buddy_of p k) = min p (buddy_of p k) + 2 ^ k"
    and "buddy_of p k \<noteq> p" and "2 ^ k dvd buddy_of p k" and "buddy_of (buddy_of p k) k = p"
proof -
  obtain m where m: "p = 2 ^ k * m" using assms by blast
  have "min p (buddy_of p k) = 2 ^ Suc k * (m div 2) \<and> max p (buddy_of p k) = min p (buddy_of p k) + 2 ^ k
    \<and> buddy_of p k \<noteq> p \<and> 2 ^ k dvd buddy_of p k \<and> buddy_of (buddy_of p k) k = p"
  proof (cases "odd m")
    case True
    then obtain n where n: "m = 2 * n + 1" by (rule oddE)
    have "buddy_of p k = 2 ^ k * (2 * n)" using m n by (simp add: buddy_of_def algebra_simps)
    then show ?thesis using m n by (simp add: buddy_of_def algebra_simps)
  next
    case False
    then obtain n where n: "m = 2 * n" by blast
    have "buddy_of p k = 2 ^ k * (2 * n + 1)" using m n by (simp add: buddy_of_def algebra_simps)
    then show ?thesis using m n by (simp add: buddy_of_def algebra_simps)
  qed
  then show "2 ^ Suc k dvd min p (buddy_of p k)" "max p (buddy_of p k) = min p (buddy_of p k) + 2 ^ k"
    "buddy_of p k \<noteq> p" "2 ^ k dvd buddy_of p k" "buddy_of (buddy_of p k) k = p" by auto
qed

lemma blk_pair:
  assumes "2 ^ k dvd p"
  shows "blk (min p (buddy_of p k), Suc k) = blk (p, k) \<union> blk (buddy_of p k, k)"
    and "blk (p, k) \<inter> blk (buddy_of p k, k) = {}"
  using buddy_of_pair(2) [OF assms] by (auto simp: min_def max_def split: if_splits)

lemma tiling_unique:
  "tiling T N \<Longrightarrow> b \<in> T \<Longrightarrow> c \<in> T \<Longrightarrow> x \<in> blk b \<Longrightarrow> x \<in> blk c \<Longrightarrow> b = c"
  unfolding tiling_def using disjoint_setD by blast

lemma tiling_aligned: "tiling T N \<Longrightarrow> (p, k) \<in> T \<Longrightarrow> 2 ^ k dvd p \<and> k \<le> top_order \<and> p + 2 ^ k \<le> N"
proof -
  assume t: "tiling T N" and b: "(p, k) \<in> T"
  have "p + (2 ^ k - 1) \<in> blk (p, k)" using one_le_power [of "2 :: nat" k] unfolding in_blk by linarith
  then have "p + (2 ^ k - 1) \<in> {..<N}" using t b unfolding tiling_def in_pages_of [symmetric] by (metis in_pages_of)
  then have "p + 2 ^ k \<le> N" using one_le_power [of "2 :: nat" k] by simp
  then show ?thesis using t b by (force simp: tiling_def aligned_def)
qed

lemma buddy_in_memory:
  assumes "2 ^ k dvd p" and "p < N" and "2 ^ Suc k dvd N" shows "min p (buddy_of p k) + 2 ^ Suc k \<le> N"
proof -
  let ?q = "min p (buddy_of p k)"
  obtain a b where a: "?q = 2 ^ Suc k * a" and b: "N = 2 ^ Suc k * b"
    using buddy_of_pair(1) [OF assms(1)] assms(3) by blast
  have "?q < N" using assms(2) by simp
  then have "a < b" unfolding a b by simp
  then have "2 ^ Suc k * (a + 1) \<le> 2 ^ Suc k * b" by (intro mult_le_mono2) simp
  then show ?thesis unfolding a b by (simp add: algebra_simps)
qed

text \<open>
  Wherever a block of a tiling has its buddy, the buddy's first page is the first page of a
  block of the tiling, and that block is not larger.
\<close>

lemma buddy_head:
  assumes t: "tiling T N" and p: "(p, k) \<in> T" and k: "k < top_order" and N: "2 ^ top_order dvd N"
  obtains j where "j \<le> k" and "(buddy_of p k, j) \<in> T"
proof -
  let ?b = "buddy_of p k"
  have pa: "2 ^ k dvd p" "p + 2 ^ k \<le> N" using tiling_aligned [OF t p] by auto
  have "2 ^ Suc k dvd N" using k N power_le_dvd Suc_leI by blast
  moreover have "p < N" using pa(2) by (rule order.strict_trans2 [rotated]) simp
  ultimately have "min p ?b + 2 ^ Suc k \<le> N" using buddy_in_memory [OF pa(1)] by blast
  moreover have "?b \<in> blk (min p ?b, Suc k)" unfolding blk_pair(1) [OF pa(1)] by simp
  ultimately have "?b \<in> pages_of T" using t by (simp add: tiling_def)
  then obtain q j where q: "(q, j) \<in> T" "?b \<in> blk (q, j)" by (auto simp only: in_pages_of)
  have qa: "2 ^ j dvd q" using tiling_aligned [OF t q(1)] by blast
  have jk: "j \<le> k"
  proof (rule ccontr)
    assume "\<not> j \<le> k"
    moreover have "?b \<in> blk (min p ?b, Suc k)" unfolding blk_pair(1) [OF pa(1)] by simp
    ultimately have "blk (min p ?b, Suc k) \<subseteq> blk (q, j)"
      using blocks_nested [OF buddy_of_pair(1) [OF pa(1)] qa _ _ q(2)] by simp
    moreover have "p \<in> blk (min p ?b, Suc k)" unfolding blk_pair(1) [OF pa(1)] by simp
    ultimately have "p \<in> blk (q, j)" by (rule subsetD)
    then have "(q, j) = (p, k)" using tiling_unique [OF t q(1) p _ head_in_blk] by blast
    then show False using \<open>\<not> j \<le> k\<close> by simp
  qed
  have "blk (q, j) \<subseteq> blk (?b, k)"
    by (rule blocks_nested [OF qa buddy_of_pair(4) [OF pa(1)] jk q(2)]) simp
  then have "q \<in> blk (?b, k)" by (rule subsetD) simp
  then have "q = ?b" using q(2) by simp
  then show ?thesis using that jk q(1) by blast
qed

section \<open>Splitting and merging\<close>

lemma tiling_replace:
  assumes "tiling (T \<union> R) N" and "T \<inter> R = {}" and "\<forall>b \<in> S. aligned b" and "disjoint_set S" and "pages_of S = pages_of R"
  shows "tiling (T \<union> S) N"
proof -
  have TR: "blk b \<inter> blk c = {}" if "b \<in> T" "c \<in> R" for b c
    using assms(1,2) that unfolding tiling_def disjoint_set_def by (metis UnI1 UnI2 disjoint_iff)
  then have "pages_of T \<inter> pages_of S = {}" unfolding assms(5) by (force simp: pages_of_def)
  then have "blk b \<inter> blk c = {}" if "b \<in> T" "c \<in> S" for b c
    using that unfolding pages_of_def by blast
  then have "disjoint_set (T \<union> S)"
    using assms(1,4) unfolding tiling_def disjoint_set_def by (metis Un_iff inf_commute)
  then show ?thesis using assms(1,3,5) by (auto simp: tiling_def)
qed

lemma tiling_merge:
  assumes "tiling (insert (p, k) (insert (buddy_of p k, k) T)) N" and "k < top_order"
    and "(p, k) \<notin> T" and "(buddy_of p k, k) \<notin> T"
  shows "tiling (insert (min p (buddy_of p k), Suc k) T) N"
proof -
  have p: "2 ^ k dvd p" using tiling_aligned [OF assms(1)] by blast
  have "tiling (T \<union> {(min p (buddy_of p k), Suc k)}) N"
  proof (rule tiling_replace [of T "{(p, k), (buddy_of p k, k)}"])
    show "tiling (T \<union> {(p, k), (buddy_of p k, k)}) N" using assms(1) by (simp add: insert_commute Un_commute)
    show "\<forall>b \<in> {(min p (buddy_of p k), Suc k)}. aligned b"
      using assms(2) buddy_of_pair(1) [OF p] by (simp add: aligned_def)
    show "pages_of {(min p (buddy_of p k), Suc k)} = pages_of {(p, k), (buddy_of p k, k)}"
      using blk_pair(1) [OF p] by simp
  qed (use assms in \<open>auto simp: disjoint_set_def\<close>)
  then show ?thesis by simp
qed

lemma tiling_split:
  assumes "tiling (insert (p, Suc k) T) N" and "(p, Suc k) \<notin> T"
  shows "tiling (insert (p, k) (insert (p + 2 ^ k, k) T)) N"
proof -
  have p: "2 ^ Suc k dvd p" "Suc k \<le> top_order" using tiling_aligned [OF assms(1)] by blast+
  have pk: "2 ^ k dvd p" using p(1) by (simp add: power_le_dvd [of 2 "Suc k"])
  have "tiling (T \<union> {(p, k), (p + 2 ^ k, k)}) N"
  proof (rule tiling_replace [of T "{(p, Suc k)}"])
    show "tiling (T \<union> {(p, Suc k)}) N" using assms(1) by simp
    show "\<forall>b \<in> {(p, k), (p + 2 ^ k, k)}. aligned b" using pk p(2) by (simp add: aligned_def)
    show "disjoint_set {(p, k), (p + 2 ^ k, k)}" by (auto simp: disjoint_set_insert disjoint_set_def)
    show "pages_of {(p, k), (p + 2 ^ k, k)} = pages_of {(p, Suc k)}" by auto
  qed (use assms(2) in simp)
  then show ?thesis by (simp add: insert_commute Un_commute)
qed

text \<open>The upper half that a split makes has the lower half as its buddy.\<close>

lemma buddy_of_halves:
  assumes "2 ^ Suc k dvd p" shows "buddy_of (p + 2 ^ k) k = p" and "buddy_of p k = p + 2 ^ k"
proof -
  obtain m where "p = 2 ^ k * (2 * m)" using assms by (auto elim!: dvdE)
  then have "p div 2 ^ k = 2 * m" "(p + 2 ^ k) div 2 ^ k = 2 * m + 1" by simp_all
  then show "buddy_of (p + 2 ^ k) k = p" "buddy_of p k = p + 2 ^ k" by (simp_all add: buddy_of_def)
qed

section \<open>The coalesced set of free blocks is determined by the free pages\<close>

lemma coalesced_whole:
  assumes F: "\<forall>b \<in> F. aligned b" "disjoint_set F" "coalesced F"
    and b: "2 ^ k dvd p" "blk (p, k) \<subseteq> pages_of F" "k \<le> top_order"
    and small: "\<And>q j x. (q, j) \<in> F \<Longrightarrow> x \<in> blk (q, j) \<Longrightarrow> x \<in> blk (p, k) \<Longrightarrow> j \<le> k"
  shows "(p, k) \<in> F"
proof -
  let ?P = "\<lambda>j. \<exists>q. (q, j) \<in> F \<and> blk (q, j) \<subseteq> blk (p, k)"
  obtain q0 j0 where q0: "(q0, j0) \<in> F" "p \<in> blk (q0, j0)" using b(2) by (force simp: in_pages_of)
  have a: "2 ^ j dvd q" if "(q, j) \<in> F" for q j using F(1) that by (auto simp: aligned_def)
  have nest: "blk (q, j) \<subseteq> blk (p, k)" if "(q, j) \<in> F" "x \<in> blk (q, j)" "x \<in> blk (p, k)" for q j x
    by (rule blocks_nested [OF a [OF that(1)] b(1) small [OF that] that(2,3)])
  have "?P j0" using nest [OF q0] q0(1) by auto
  then have ex: "?P (LEAST j. ?P j)" by (rule LeastI)
  define j where "j = (LEAST j. ?P j)"
  obtain q where q: "(q, j) \<in> F" "blk (q, j) \<subseteq> blk (p, k)" using ex unfolding j_def by blast
  have qin: "q \<in> blk (p, k)" by (rule subsetD [OF q(2)]) simp
  have jk: "j \<le> k" by (rule small [OF q(1), of q]) (use qin in simp_all)
  show ?thesis
  proof (cases "j = k")
    case True
    then have "q = p" using in_blk_iff [OF b(1)] qin a [OF q(1)] b(1) by (metis dvd_div_mult_self)
    then show ?thesis using q True by simp
  next
    case False
    then have "j < k" using jk by simp
    let ?c = "buddy_of q j"
    have par: "blk (min q ?c, Suc j) \<subseteq> blk (p, k)"
      using blocks_nested [OF buddy_of_pair(1) [OF a [OF q(1)]] b(1), of q] \<open>j < k\<close> qin
      by (auto simp: blk_pair(1) [OF a [OF q(1)]])
    then have "?c \<in> blk (p, k)" unfolding blk_pair(1) [OF a [OF q(1)]] by force
    then obtain r i where r: "(r, i) \<in> F" "?c \<in> blk (r, i)" using b(2) by (force simp: in_pages_of)
    have "blk (r, i) \<subseteq> blk (p, k)" by (rule nest [OF r \<open>?c \<in> blk (p, k)\<close>])
    then have "j \<le> i" using r(1) unfolding j_def by (intro Least_le) blast
    have "i = j"
    proof (rule ccontr)
      assume "i \<noteq> j"
      then have "Suc j \<le> i" using \<open>j \<le> i\<close> by simp
      then have "blk (min q ?c, Suc j) \<subseteq> blk (r, i)"
        using blocks_nested [OF buddy_of_pair(1) [OF a [OF q(1)]] a [OF r(1)] _ _ r(2)]
        by (simp only: blk_pair(1) [OF a [OF q(1)]]) simp
      then have "q \<in> blk (r, i)" unfolding blk_pair(1) [OF a [OF q(1)]] by force
      then have "(r, i) = (q, j)" using disjoint_setD [OF F(2) r(1) q(1), of q] by simp
      then show False using \<open>i \<noteq> j\<close> by simp
    qed
    moreover have "r = ?c"
      using r(2) in_blk_iff [OF a [OF r(1)]] a [OF r(1)] buddy_of_pair(4) [OF a [OF q(1)]] \<open>i = j\<close> by (metis dvd_div_mult_self)
    ultimately have "(?c, j) \<in> F" using r(1) by simp
    then show ?thesis using F(3) q(1) \<open>j < k\<close> b(3) by (auto simp: coalesced_def)
  qed
qed

lemma coalesced_characterised:
  assumes F: "\<forall>b \<in> F. aligned b" "disjoint_set F" "coalesced F"
  shows "(p, k) \<in> F \<longleftrightarrow> aligned (p, k) \<and> blk (p, k) \<subseteq> pages_of F \<and>
    (k < top_order \<longrightarrow> \<not> blk (min p (buddy_of p k), Suc k) \<subseteq> pages_of F)"
proof -
  have a: "2 ^ j dvd q" if "(q, j) \<in> F" for q j using F(1) that by (auto simp: aligned_def)
  have meet: "j \<le> k \<or> blk (min p (buddy_of p k), Suc k) \<subseteq> blk (q, j)"
    if "2 ^ k dvd p" "(q, j) \<in> F" "x \<in> blk (q, j)" "x \<in> blk (p, k) \<or> x \<in> blk (buddy_of p k, k)" for q j x
    using blocks_nested [OF buddy_of_pair(1) [OF that(1)] a [OF that(2)], of x] that(3,4)
      blk_pair(1) [OF that(1)] by (metis UnI1 UnI2 not_less_eq_eq)
  show ?thesis
  proof
    assume p: "(p, k) \<in> F"
    then have al: "aligned (p, k)" and d: "2 ^ k dvd p" using F(1) a by auto
    have "\<not> blk (min p (buddy_of p k), Suc k) \<subseteq> pages_of F" if k: "k < top_order"
    proof
      assume sub: "blk (min p (buddy_of p k), Suc k) \<subseteq> pages_of F"
      have "(buddy_of p k, k) \<in> F"
      proof (rule coalesced_whole [OF F buddy_of_pair(4) [OF d]])
        show "blk (buddy_of p k, k) \<subseteq> pages_of F" using sub unfolding blk_pair(1) [OF d] by blast
        fix q j x assume q: "(q, j) \<in> F" "x \<in> blk (q, j)" "x \<in> blk (buddy_of p k, k)"
        show "j \<le> k"
        proof (rule ccontr)
          assume j: "\<not> j \<le> k"
          then have "blk (p, k) \<subseteq> blk (q, j)" using meet [OF d q(1,2)] q(3) unfolding blk_pair(1) [OF d] by blast
          then have "p \<in> blk (q, j)" using head_in_blk by (rule subsetD)
          then have "(q, j) = (p, k)" using disjoint_setD [OF F(2) q(1) p, of p] by simp
          then show False using j by simp
        qed
      qed (use k in simp)
      then show False using F(3) p k by (auto simp: coalesced_def)
    qed
    then show "aligned (p, k) \<and> blk (p, k) \<subseteq> pages_of F \<and>
      (k < top_order \<longrightarrow> \<not> blk (min p (buddy_of p k), Suc k) \<subseteq> pages_of F)"
      using al p by (auto simp: pages_of_def)
  next
    assume h: "aligned (p, k) \<and> blk (p, k) \<subseteq> pages_of F \<and>
      (k < top_order \<longrightarrow> \<not> blk (min p (buddy_of p k), Suc k) \<subseteq> pages_of F)"
    then have d: "2 ^ k dvd p" "k \<le> top_order" by (auto simp: aligned_def)
    show "(p, k) \<in> F"
    proof (rule coalesced_whole [OF F d(1)])
      fix q j x assume q: "(q, j) \<in> F" "x \<in> blk (q, j)" "x \<in> blk (p, k)"
      have "j \<le> top_order" using F(1) q(1) by (auto simp: aligned_def)
      moreover have "blk (q, j) \<subseteq> pages_of F" using q(1) by (auto simp: pages_of_def)
      ultimately show "j \<le> k" using meet [OF d(1) q(1,2)] q(3) h by (metis le_eq_less_or_eq not_le order_trans subset_trans)
    qed (use h d in auto)
  qed
qed

lemma coalesced_unique:
  assumes "\<forall>b \<in> F. aligned b" "disjoint_set F" "coalesced F"
    and "\<forall>b \<in> G. aligned b" "disjoint_set G" "coalesced G" and "pages_of F = pages_of G"
  shows "F = G"
proof -
  have "(p, k) \<in> F \<longleftrightarrow> (p, k) \<in> G" for p k
    unfolding coalesced_characterised [OF assms(1-3)] coalesced_characterised [OF assms(4-6)] assms(7) ..
  then show ?thesis by auto
qed

end
