(* ===== verification/Buddy_Lists.thy ===== *)
theory Buddy_Lists
  imports Buddy Buddy_Blocks
begin

text \<open>
  How the state of the page allocator represents a set of free blocks: page numbers and the
  arithmetic on them, the flags of a page, and the family of lists. \<open>lists h I C G f\<close> says that the
  store \<open>h\<close> holds, for every list \<open>i\<close> of \<open>I\<close>, the pages \<open>C i\<close>, and that the nodes of \<open>G\<close>, which are
  on none of these lists, still have the successors \<open>f\<close>.
\<close>

unbundle bit_operations_syntax

section \<open>Page numbers\<close>

abbreviation N_PAGES :: nat where "N_PAGES \<equiv> 4096"

lemma PFN_OFFSET_eq: "PFN_OFFSET = 0x60000"
  by (simp add: PFN_OFFSET_def PHYS_PFN_def PHYS_OFFSET_def PAGE_SHIFT_def drop_bit_eq_div)

lemma unat_pfn: "unat p < N_PAGES \<Longrightarrow> unat (page_to_pfn p) = unat p + 0x60000"
  by (simp add: page_to_pfn_def PFN_OFFSET_eq unat_word_ariths)

lemma bit_pfn:
  assumes "unat p < N_PAGES" and "k < top_order"
  shows "bit (page_to_pfn p) k \<longleftrightarrow> odd (unat p div 2 ^ k)"
proof -
  have "(2 :: nat) ^ Suc k dvd 2 ^ 17" using assms(2) by (intro le_imp_power_dvd) (simp add: top_order_def)
  moreover have "(2 :: nat) ^ 17 dvd 0x60000" by simp
  ultimately have "(2 :: nat) ^ Suc k dvd 0x60000" by (rule dvd_trans)
  then obtain m where m: "0x60000 = 2 ^ k * (2 * m :: nat)" by (auto elim!: dvdE)
  have "bit (page_to_pfn p) k \<longleftrightarrow> bit (unat (page_to_pfn p)) k" by (simp add: bit_unsigned_iff)
  also have "\<dots> \<longleftrightarrow> odd (unat (page_to_pfn p) div 2 ^ k)" by (rule bit_iff_odd)
  also have "unat (page_to_pfn p) div 2 ^ k = unat p div 2 ^ k + 2 * m"
    unfolding unat_pfn [OF assms(1)] m by simp
  finally show ?thesis by simp
qed

lemma xor_single_bit:
  fixes w :: u32 assumes "k < 32"
  shows "w XOR push_bit k 1 = (if bit w k then w - push_bit k 1 else w + push_bit k 1)"
    and "(w XOR push_bit k 1) AND w = (if bit w k then w XOR push_bit k 1 else w)"
proof -
  show "w XOR push_bit k 1 = (if bit w k then w - push_bit k 1 else w + push_bit k 1)"
  proof (cases "bit w k")
    case True
    then have "w - push_bit k 1 = w AND NOT (push_bit k 1)" by (intro disjunctive_diff) (auto simp: bit_simps)
    also have "\<dots> = w XOR push_bit k 1" using True by (intro bit_word_eqI) (auto simp: bit_simps)
    finally show ?thesis using True by simp
  next
    case False
    then have "w + push_bit k 1 = w OR push_bit k 1" by (intro disjunctive_add) (auto simp: bit_simps)
    also have "\<dots> = w XOR push_bit k 1" using False by (intro bit_word_eqI) (auto simp: bit_simps)
    finally show ?thesis using False by simp
  qed
  show "(w XOR push_bit k 1) AND w = (if bit w k then w XOR push_bit k 1 else w)"
    by (intro bit_word_eqI) (auto simp: bit_simps)
qed

lemma unat_one_bit: "k < 32 \<Longrightarrow> unat (push_bit k 1 :: u32) = 2 ^ k"
proof -
  assume k: "k < 32"
  have "(2 :: nat) ^ k < 2 ^ 32" using k by (intro power_strict_increasing) simp_all
  then have "unat (of_nat (2 ^ k) :: u32) = 2 ^ k" unfolding unsigned_of_nat using k by (simp add: take_bit_nat_eq_self)
  moreover have "(push_bit k 1 :: u32) = of_nat (2 ^ k)" by (simp add: push_bit_eq_mult)
  ultimately show ?thesis by simp
qed

text \<open>The page of the buddy and of the merged block, as \<open>__free_one_page\<close> computes them.\<close>

lemma buddy_page:
  assumes p: "unat p < N_PAGES" "2 ^ k dvd unat p" and k: "k < top_order"
  shows "unat (p + (find_buddy_pfn (page_to_pfn p) k - page_to_pfn p)) = buddy_of (unat p) k"
    and "unat (p + ((find_buddy_pfn (page_to_pfn p) k AND page_to_pfn p) - page_to_pfn p)) = min (unat p) (buddy_of (unat p) k)"
    and "page_to_pfn (p + ((find_buddy_pfn (page_to_pfn p) k AND page_to_pfn p) - page_to_pfn p)) =
      find_buddy_pfn (page_to_pfn p) k AND page_to_pfn p"
proof -
  have k32: "k < 32" using k by (simp add: top_order_def)
  have two: "(2 :: nat) ^ k \<le> 1024" using k power_increasing [of k 10 "2 :: nat"] by (simp add: top_order_def)
  have b: "buddy_of (unat p) k = (if bit (page_to_pfn p) k then unat p - 2 ^ k else unat p + 2 ^ k)"
    using bit_pfn [OF p(1) k] by (simp add: buddy_of_def)
  have le: "2 ^ k \<le> unat p" if "bit (page_to_pfn p) k"
  proof -
    have "unat p div 2 ^ k \<noteq> 0" using that bit_pfn [OF p(1) k] by (metis even_zero)
    then show ?thesis by (simp add: div_eq_0_iff)
  qed
  have up: "unat (p + push_bit k 1) = unat p + 2 ^ k"
    using p(1) two unat_one_bit [OF k32] by (simp add: unat_word_ariths(1))
  have down: "unat (p - push_bit k 1) = unat p - 2 ^ k" if "bit (page_to_pfn p) k"
    using le [OF that] unat_one_bit [OF k32] by (simp only: unat_sub word_le_nat_alt)
  show "unat (p + (find_buddy_pfn (page_to_pfn p) k - page_to_pfn p)) = buddy_of (unat p) k"
    unfolding find_buddy_pfn_def xor_single_bit(1) [OF k32] b using up down by simp
  show "unat (p + ((find_buddy_pfn (page_to_pfn p) k AND page_to_pfn p) - page_to_pfn p)) = min (unat p) (buddy_of (unat p) k)"
    unfolding find_buddy_pfn_def xor_single_bit(2) [OF k32] unfolding xor_single_bit(1) [OF k32] b
    using down by simp
  show "page_to_pfn (p + ((find_buddy_pfn (page_to_pfn p) k AND page_to_pfn p) - page_to_pfn p)) =
      find_buddy_pfn (page_to_pfn p) k AND page_to_pfn p"
    by (simp add: page_to_pfn_def algebra_simps)
qed

section \<open>Page flags\<close>

definition based :: "zone \<Rightarrow> page \<Rightarrow> bool" where
  "based z p \<longleftrightarrow> page_type z p AND PAGE_TYPE_BASE = PAGE_TYPE_BASE"

lemma PG_buddy_bits: "bit PG_buddy n \<longleftrightarrow> n = 7" "\<not> bit PAGE_TYPE_BASE 7"
proof -
  have "PG_buddy = push_bit 7 1" by (simp add: PG_buddy_def)
  moreover have "bit (push_bit 7 (1 :: u32)) n \<longleftrightarrow> n = 7"
    unfolding bit_push_bit_iff bit_1_iff by (auto dest: bit_imp_le_length)
  ultimately show "bit PG_buddy n \<longleftrightarrow> n = 7" by (simp only:)
  show "\<not> bit PAGE_TYPE_BASE 7" by (simp add: PAGE_TYPE_BASE_def bit_numeral_rec)
qed

lemma u32_eq_iff: "(a :: u32) = b \<longleftrightarrow> (\<forall>n. bit a n \<longleftrightarrow> bit b n)"
  by (auto intro: bit_word_eqI)

lemma PageType_iff: "PageType t PG_buddy \<longleftrightarrow> t AND PAGE_TYPE_BASE = PAGE_TYPE_BASE \<and> \<not> bit t 7"
proof -
  have a: "t AND (PAGE_TYPE_BASE OR PG_buddy) = PAGE_TYPE_BASE \<longleftrightarrow>
    (\<forall>n. bit t n \<and> (bit PAGE_TYPE_BASE n \<or> n = 7) \<longleftrightarrow> bit PAGE_TYPE_BASE n)"
    unfolding u32_eq_iff bit_and_iff bit_or_iff PG_buddy_bits(1) ..
  have b: "t AND PAGE_TYPE_BASE = PAGE_TYPE_BASE \<longleftrightarrow> (\<forall>n. bit PAGE_TYPE_BASE n \<longrightarrow> bit t n)"
    unfolding u32_eq_iff bit_and_iff by blast
  show ?thesis unfolding PageType_def a b using PG_buddy_bits(2) by metis
qed

lemma PageBuddy_iff: "PageBuddy z p \<longleftrightarrow> based z p \<and> \<not> bit (page_type z p) 7"
  by (simp add: PageBuddy_def based_def PageType_iff)

text \<open>What marking and unmarking a page does to the flags of all pages.\<close>

lemma based_set [simp]: "based (set_page_order p k z) q \<longleftrightarrow> based z q"
  and based_rmv [simp]: "based (rmv_page_order p z) q \<longleftrightarrow> based z q"
proof -
  have "(t AND NOT PG_buddy) AND PAGE_TYPE_BASE = t AND PAGE_TYPE_BASE" for t
    by (rule bit_word_eqI) (auto simp: bit_simps PG_buddy_bits)
  then show "based (set_page_order p k z) q \<longleftrightarrow> based z q"
    by (simp add: based_def set_page_order_def SetPageBuddy_def set_page_private_def)
  have "(t OR PG_buddy) AND PAGE_TYPE_BASE = t AND PAGE_TYPE_BASE" for t
    by (rule bit_word_eqI) (auto simp: bit_simps PG_buddy_bits)
  then show "based (rmv_page_order p z) q \<longleftrightarrow> based z q"
    by (simp add: based_def rmv_page_order_def ClearPageBuddy_def set_page_private_def)
qed

lemma PageBuddy_set: "PageBuddy (set_page_order p k z) q \<longleftrightarrow> (if q = p then based z p else PageBuddy z q)"
  by (simp add: PageBuddy_iff)
    (auto simp: set_page_order_def SetPageBuddy_def set_page_private_def bit_simps PG_buddy_bits)

lemma PageBuddy_rmv: "PageBuddy (rmv_page_order p z) q \<longleftrightarrow> q \<noteq> p \<and> PageBuddy z q"
  by (simp add: PageBuddy_iff)
    (auto simp: rmv_page_order_def ClearPageBuddy_def set_page_private_def bit_simps PG_buddy_bits)

lemma page_order_set [simp]: "page_order (set_page_order p k z) q = (if q = p then of_nat k else page_order z q)"
  and page_order_rmv [simp]: "page_order (rmv_page_order p z) q = (if q = p then 0 else page_order z q)"
  by (simp_all add: page_order_def set_page_order_def SetPageBuddy_def set_page_private_def rmv_page_order_def ClearPageBuddy_def)

text \<open>The steps touch one part of the state each.\<close>

named_theorems zone_parts

lemma on_links_parts [zone_parts, simp]:
  "links (on_links g z) = g (links z)" "nr_free (on_links g z) = nr_free z"
  "PageBuddy (on_links g z) = PageBuddy z" "page_order (on_links g z) = page_order z" "based (on_links g z) = based z"
  by (auto simp: on_links_def PageBuddy_def page_order_def based_def)

lemma nr_free_parts [zone_parts, simp]:
  "links (inc_nr_free k z) = links z" "links (dec_nr_free k z) = links z"
  "PageBuddy (inc_nr_free k z) = PageBuddy z" "PageBuddy (dec_nr_free k z) = PageBuddy z"
  "page_order (inc_nr_free k z) = page_order z" "page_order (dec_nr_free k z) = page_order z"
  "based (inc_nr_free k z) = based z" "based (dec_nr_free k z) = based z"
  "nr_free (inc_nr_free k z) = (nr_free z)(k := nr_free z k + 1)"
  "nr_free (dec_nr_free k z) = (nr_free z)(k := nr_free z k - 1)"
  by (auto simp: inc_nr_free_def dec_nr_free_def PageBuddy_def page_order_def based_def)

lemma page_order_parts [zone_parts, simp]:
  "links (set_page_order p k z) = links z" "links (rmv_page_order p z) = links z"
  "nr_free (set_page_order p k z) = nr_free z" "nr_free (rmv_page_order p z) = nr_free z"
  by (simp_all add: set_page_order_def SetPageBuddy_def set_page_private_def rmv_page_order_def ClearPageBuddy_def)

section \<open>The family of lists\<close>

definition lists ::
  "bnode list_heads \<Rightarrow> list_id set \<Rightarrow> (list_id \<Rightarrow> page list) \<Rightarrow> bnode lptr set \<Rightarrow> (bnode lptr \<Rightarrow> bnode lptr) \<Rightarrow> bool" where
  "lists h I C G f \<longleftrightarrow>
     family dlist h I (\<lambda>i. Node (Head i)) (\<lambda>i. map lru (C i)) \<and>
     (\<forall>n \<in> G. nxt h n = f n) \<and> (\<forall>i \<in> I. \<forall>n \<in> G. n \<notin> set (Node (Head i) # map lru (C i)))"

lemma lists_mono: "lists h I C G f \<Longrightarrow> J \<subseteq> I \<Longrightarrow> K \<subseteq> G \<Longrightarrow> lists h J C K f"
  unfolding lists_def family_def by blast

lemma lists_dlist: "lists h I C G f \<Longrightarrow> i \<in> I \<Longrightarrow> dlist h (Node (Head i)) (map lru (C i))"
  using family_rep [of dlist h I "\<lambda>i. Node (Head i)" "\<lambda>i. map lru (C i)" i] by (simp add: lists_def)

lemma lists_distinct: "lists h I C G f \<Longrightarrow> i \<in> I \<Longrightarrow> distinct (C i)"
  using dlist_distinct [OF lists_dlist] by (fastforce simp: distinct_map)

lemma lists_other:
  assumes "lists h I C G f" and "i \<in> I" and "j \<in> I" and "p \<in> set (C i)" and "p \<in> set (C j)" shows "i = j"
proof (rule ccontr)
  assume "i \<noteq> j"
  then have "set (map lru (C i)) \<inter> set (map lru (C j)) = {}"
    using assms family_disjoint [of dlist h I "\<lambda>i. Node (Head i)" "\<lambda>i. map lru (C i)" i j] by (auto simp: lists_def)
  then show False using assms(4,5) by auto
qed

lemma lists_first:
  "lists h I C G f \<Longrightarrow> i \<in> I \<Longrightarrow>
   list_first_entry_or_null h (Node (Head i)) = (case C i of [] \<Rightarrow> None | p # _ \<Rightarrow> Some (lru p))"
  using ll.rep_first [OF lists_dlist] by (fastforce split: list.splits)

lemma lists_empty: "lists h I C G f \<Longrightarrow> i \<in> I \<Longrightarrow> list_empty h (Node (Head i)) \<longleftrightarrow> C i = []"
  using dlist_list_empty [OF lists_dlist] by fastforce

lemma map_upd_lists: "(\<lambda>j. map lru (C j))(i := map lru xs) = (\<lambda>j. map lru ((C(i := xs)) j))"
  by auto

lemma lists_del:
  assumes l: "lists h I C G f" and i: "i \<in> I" and c: "C i = xs @ p # ys"
  shows "lists (list_del h (lru p)) I (C(i := xs @ ys)) G f"
proof -
  let ?h = "list_del h (lru p)"
  have f: "family dlist h I (\<lambda>i. Node (Head i)) (\<lambda>i. map lru (C i))" using l by (simp add: lists_def)
  have ci: "map lru (C i) = map lru xs @ lru p # map lru ys" using c by simp
  have "family dlist ?h I (\<lambda>i. Node (Head i)) ((\<lambda>i. map lru (C i))(i := map lru xs @ map lru ys))"
    by (rule ll.family_del [OF f i ci])
  then have fam: "family dlist ?h I (\<lambda>i. Node (Head i)) (\<lambda>j. map lru ((C(i := xs @ ys)) j))"
    unfolding map_upd_lists [symmetric] by simp
  have "agree (- set (Node (Head i) # map lru xs @ lru p # map lru ys)) h ?h"
    using agree_list_del lists_dlist [OF l i] unfolding ci by blast
  moreover have "n \<in> - set (Node (Head i) # map lru xs @ lru p # map lru ys)" if "n \<in> G" for n
    using l i that unfolding lists_def ci [symmetric] by blast
  ultimately have "nxt ?h n = f n" if "n \<in> G" for n
    using l that unfolding lists_def agree_def by metis
  moreover have "set ((C(i := xs @ ys)) j) \<subseteq> set (C j)" for j using c by auto
  ultimately show ?thesis using l fam unfolding lists_def by fastforce
qed

lemma lists_insert:
  assumes l: "lists h I C G f" and i: "i \<in> I" and p: "\<forall>j \<in> I. p \<notin> set (C j)" "lru p \<notin> G"
  shows "lists (list_add h (lru p) (Node (Head i))) I (C(i := p # C i)) G f"
    and "lists (list_add_tail h (lru p) (Node (Head i))) I (C(i := C i @ [p])) G f"
proof -
  have f: "family dlist h I (\<lambda>i. Node (Head i)) (\<lambda>i. map lru (C i))" using l by (simp add: lists_def)
  have fresh: "\<forall>j \<in> I. lru p \<notin> set (Node (Head j) # map lru (C j))" using p by auto
  let ?h = "list_add h (lru p) (Node (Head i))" and ?t = "list_add_tail h (lru p) (Node (Head i))"
  have g: "n \<in> - set (lru p # Node (Head i) # map lru (C i))" if "n \<in> G" for n
    using l i p(2) that by (auto simp: lists_def)
  have "family dlist ?h I (\<lambda>i. Node (Head i)) (\<lambda>j. map lru ((C(i := p # C i)) j))"
    using ll.family_add [OF f i fresh] unfolding map_upd_lists [symmetric] by simp
  moreover have "nxt ?h n = f n" if "n \<in> G" for n
    using agree_list_add [OF lists_dlist [OF l i], of "lru p"] g [OF that] l that unfolding agree_def lists_def by metis
  ultimately show "lists ?h I (C(i := p # C i)) G f" using l i p(2) by (auto simp: lists_def)
  have "family dlist ?t I (\<lambda>i. Node (Head i)) (\<lambda>j. map lru ((C(i := C i @ [p])) j))"
    using ll.family_add_tail [OF f i fresh] unfolding map_upd_lists [symmetric] by simp
  moreover have "nxt ?t n = f n" if "n \<in> G" for n
    using agree_list_add_tail [OF lists_dlist [OF l i], of "lru p"] g [OF that] l that unfolding agree_def lists_def by metis
  ultimately show "lists ?t I (C(i := C i @ [p])) G f" using l i p(2) by (auto simp: lists_def)
qed

end
