(* ===== verification/Buddy_Correct.thy ===== *)
theory Buddy_Correct
  imports Buddy_Lists
begin

text \<open>
  The invariant of the page allocator and the proof that freeing, splitting and allocating keep
  it. \<open>core z I C A G f\<close> relates the state \<open>z\<close> to the contents \<open>C\<close> of its lists and the set \<open>A\<close> of
  blocks that are not on a free list: free and allocated blocks tile the memory, a page that
  starts a block has the flag and the order that say so, no two buddies are both free, and the
  counters count.
\<close>

unbundle bit_operations_syntax

section \<open>The invariant\<close>

definition free_ids :: "list_id set" where
  "free_ids = Free_list ` {..top_order}"

definition fblocks :: "(list_id \<Rightarrow> page list) \<Rightarrow> block set" where
  "fblocks C = {(unat p, k) | p k. k \<le> top_order \<and> p \<in> set (C (Free_list k))}"

definition core ::
  "zone \<Rightarrow> list_id set \<Rightarrow> (list_id \<Rightarrow> page list) \<Rightarrow> block set \<Rightarrow> bnode lptr set \<Rightarrow> (bnode lptr \<Rightarrow> bnode lptr) \<Rightarrow> bool" where
  "core z I C A G f \<longleftrightarrow>
     lists (links z) I C G f \<and> free_ids \<subseteq> I \<and>
     tiling (fblocks C \<union> A) N_PAGES \<and> fblocks C \<inter> A = {} \<and> coalesced (fblocks C) \<and>
     (\<forall>k \<le> top_order. \<forall>p \<in> set (C (Free_list k)). PageBuddy z p \<and> page_order z p = of_nat k) \<and>
     (\<forall>p k. (unat p, k) \<in> A \<longrightarrow> k < top_order \<longrightarrow> \<not> PageBuddy z p) \<and>
     (\<forall>i \<in> I - free_ids. \<forall>p \<in> set (C i). (unat p, 0) \<in> A) \<and>
     (\<forall>p. unat p < N_PAGES \<longrightarrow> based z p) \<and>
     (\<forall>k \<le> top_order. nr_free z k = of_nat (length (C (Free_list k))))"

lemma in_fblocks: "(unat p, k) \<in> fblocks C \<longleftrightarrow> k \<le> top_order \<and> p \<in> set (C (Free_list k))"
  by (auto simp: fblocks_def simp flip: word_unat_eq_iff)

lemma Free_list_in_ids: "Free_list k \<in> free_ids \<longleftrightarrow> k \<le> top_order"
  by (auto simp: free_ids_def)

lemma coreD:
  assumes "core z I C A G f"
  shows "lists (links z) I C G f" and "free_ids \<subseteq> I" and "tiling (fblocks C \<union> A) N_PAGES" and "fblocks C \<inter> A = {}"
    and "coalesced (fblocks C)" and "\<And>k p. k \<le> top_order \<Longrightarrow> p \<in> set (C (Free_list k)) \<Longrightarrow> PageBuddy z p \<and> page_order z p = of_nat k"
    and "\<And>p k. (unat p, k) \<in> A \<Longrightarrow> k < top_order \<Longrightarrow> \<not> PageBuddy z p"
    and "\<And>i p. i \<in> I \<Longrightarrow> i \<notin> free_ids \<Longrightarrow> p \<in> set (C i) \<Longrightarrow> (unat p, 0) \<in> A"
    and "\<And>p. unat p < N_PAGES \<Longrightarrow> based z p"
    and "\<And>k. k \<le> top_order \<Longrightarrow> nr_free z k = of_nat (length (C (Free_list k)))"
  using assms unfolding core_def by blast+

lemma core_mono: "core z I C A G f \<Longrightarrow> free_ids \<subseteq> J \<Longrightarrow> J \<subseteq> I \<Longrightarrow> K \<subseteq> G \<Longrightarrow> core z J C A K f"
  unfolding core_def using lists_mono by blast

lemma core_head:
  assumes c: "core z I C A G f" and b: "(unat p, k) \<in> fblocks C \<union> A"
  shows "2 ^ k dvd unat p" and "k \<le> top_order" and "unat p < N_PAGES"
proof -
  have "2 ^ k dvd unat p \<and> k \<le> top_order \<and> unat p + 2 ^ k \<le> N_PAGES" by (rule tiling_aligned [OF coreD(3) [OF c] b])
  moreover have "0 < (2 :: nat) ^ k" by simp
  ultimately show "2 ^ k dvd unat p" "k \<le> top_order" "unat p < N_PAGES" by linarith+
qed

text \<open>A page starts at most one block.\<close>

lemma core_head_unique:
  assumes c: "core z I C A G f" and "(x, j) \<in> fblocks C \<union> A" and "(x, k) \<in> fblocks C \<union> A" shows "j = k"
  using tiling_unique [OF coreD(3) [OF c] assms(2,3), of x] by simp

text \<open>The first page of an allocated block is on a list only if it is an order-0 page on a private list.\<close>

lemma alloc_not_listed:
  assumes c: "core z I C A G f" and a: "(unat p, k) \<in> A" and i: "i \<in> I" and p: "p \<in> set (C i)"
  shows "i \<notin> free_ids \<and> k = 0"
proof (cases "i \<in> free_ids")
  case True
  then obtain j where j: "i = Free_list j" "j \<le> top_order" by (auto simp: free_ids_def)
  then have "(unat p, j) \<in> fblocks C" using p by (simp add: in_fblocks)
  then show ?thesis using core_head_unique [OF c, of "unat p" j k] a coreD(4) [OF c] by blast
next
  case False
  then show ?thesis using coreD(8) [OF c i False p] core_head_unique [OF c, of "unat p" k 0] a by auto
qed

section \<open>Taking a block off its free list\<close>

lemma fblocks_take:
  assumes "distinct (xs @ p # ys)" and "C (Free_list k) = xs @ p # ys" and "k \<le> top_order"
  shows "fblocks (C(Free_list k := xs @ ys)) = fblocks C - {(unat p, k)}"
proof (rule set_eqI)
  fix b :: block
  obtain x j where b: "b = (x, j)" by fastforce
  have "(\<exists>q. x = unat q \<and> q \<in> set (xs @ ys)) \<longleftrightarrow> (\<exists>q. x = unat q \<and> q \<in> set (xs @ p # ys)) \<and> x \<noteq> unat p"
    using assms(1) by (auto simp flip: word_unat_eq_iff)
  then show "b \<in> fblocks (C(Free_list k := xs @ ys)) \<longleftrightarrow> b \<in> fblocks C - {(unat p, k)}"
    using assms(2,3) unfolding b by (cases "j = k") (auto simp: fblocks_def)
qed

lemma core_take:
  assumes c: "core z I C A G f" and k: "k \<le> top_order" and l: "C (Free_list k) = xs @ p # ys"
  shows "core (dec_nr_free k (rmv_page_order p (on_links (\<lambda>h. list_del h (lru p)) z))) I (C(Free_list k := xs @ ys)) (insert (unat p, k) A) G f"
    (is "core ?z I ?C ?A G f")
proof -
  note D = coreD [OF c]
  have i: "Free_list k \<in> I" using D(2) k by (auto simp: free_ids_def)
  have dist: "distinct (xs @ p # ys)" using lists_distinct [OF D(1) i] l by simp
  have pF: "(unat p, k) \<in> fblocks C" using k l by (simp add: in_fblocks)
  have F: "fblocks ?C = fblocks C - {(unat p, k)}" by (rule fblocks_take [of xs p ys C k, OF dist l k])
  then have un: "fblocks ?C \<union> ?A = fblocks C \<union> A" using pF by blast
  have sub: "set (?C j) \<subseteq> set (C j)" for j using l by auto
  have notp: "p \<notin> set (?C j)" if "j \<in> I" for j
    using lists_other [OF D(1) i that, of p] dist l by (cases "j = Free_list k") auto
  have lists': "lists (links ?z) I ?C G f" using lists_del [OF D(1) i l] by simp
  have unique: "j = k" if "(unat p, j) \<in> A" for j using core_head_unique [OF c, of "unat p" j k] that pF by blast
  show ?thesis unfolding core_def
  proof (intro conjI allI ballI impI)
    show "lists (links ?z) I ?C G f" by (rule lists')
    show "free_ids \<subseteq> I" by (rule D(2))
    show "tiling (fblocks ?C \<union> ?A) N_PAGES" unfolding un by (rule D(3))
    show "fblocks ?C \<inter> ?A = {}" unfolding F using D(4) by blast
    show "coalesced (fblocks ?C)" unfolding F using D(5) by (auto simp: coalesced_def)
    fix j and q :: page
    { assume j: "j \<le> top_order" and q: "q \<in> set (?C (Free_list j))"
      have "Free_list j \<in> I" using D(2) j by (auto simp: free_ids_def)
      then have "q \<noteq> p" using notp q by blast
      moreover have "q \<in> set (C (Free_list j))" using q sub by blast
      ultimately show "PageBuddy ?z q" "page_order ?z q = of_nat j" using D(6) [OF j] by (simp_all add: PageBuddy_rmv) }
  next
    fix q :: page and j assume "(unat q, j) \<in> ?A" "j < top_order"
    then show "\<not> PageBuddy ?z q" using D(7) [of q j] by (auto simp: PageBuddy_rmv simp flip: word_unat_eq_iff)
  next
    fix j q assume "j \<in> I - free_ids" "q \<in> set (?C j)"
    then show "(unat q, 0) \<in> ?A" using D(8) sub by blast
  next
    fix q :: page assume "unat q < N_PAGES" then show "based ?z q" using D(9) by simp
  next
    fix j assume "j \<le> top_order"
    then show "nr_free ?z j = of_nat (length (?C (Free_list j)))" using D(10) [of j] l by auto
  qed
qed

section \<open>Putting a block on its free list\<close>

text \<open>
  The block \<open>(q, k)\<close> becomes free, at the head or the tail of its list. It is either an allocated
  block or the upper half of one (\<open>A'\<close> are the allocated blocks afterwards).
\<close>

lemma core_put:
  assumes c: "core z I C A G f" and k: "k \<le> top_order" and q: "unat q < N_PAGES"
    and t: "tiling (insert (unat q, k) (fblocks C \<union> A')) N_PAGES" "(unat q, k) \<notin> fblocks C \<union> A'" "fblocks C \<inter> A' = {}"
    and A': "\<And>p j. (unat p, j) \<in> A' \<Longrightarrow> j < top_order \<Longrightarrow> \<not> PageBuddy z p"
    and priv: "\<And>i p. i \<in> I \<Longrightarrow> i \<notin> free_ids \<Longrightarrow> p \<in> set (C i) \<Longrightarrow> (unat p, 0) \<in> A' \<and> p \<noteq> q"
    and b: "k < top_order \<Longrightarrow> (buddy_of (unat q) k, k) \<notin> fblocks C" and G: "lru q \<notin> G"
    and links': "links z' = (if tail then list_add_tail (links z) (lru q) (free_list k) else list_add (links z) (lru q) (free_list k))"
    and nr': "nr_free z' = (nr_free z)(k := nr_free z k + 1)"
    and fl': "PageBuddy z' = PageBuddy (set_page_order q k z)" "page_order z' = page_order (set_page_order q k z)" "based z' = based z"
  shows "core z' I (C(Free_list k := if tail then C (Free_list k) @ [q] else q # C (Free_list k))) A' G f"
    (is "core z' I ?C A' G f")
proof -
  note D = coreD [OF c]
  have i: "Free_list k \<in> I" using D(2) k by (auto simp: free_ids_def)
  have setC: "set (?C j) = (if j = Free_list k then insert q (set (C j)) else set (C j))" for j by auto
  have F: "fblocks ?C = insert (unat q, k) (fblocks C)" using k by (auto simp: fblocks_def split: if_splits)
  have uniq: "j = k" if "(unat q, j) \<in> insert (unat q, k) (fblocks C \<union> A')" for j
    using tiling_unique [OF t(1) that, of "(unat q, k)" "unat q"] by auto
  have notq: "q \<notin> set (C j)" if j: "j \<in> I" for j
  proof (cases "j \<in> free_ids")
    case True
    then obtain m where m: "j = Free_list m" "m \<le> top_order" by (auto simp: free_ids_def)
    show ?thesis
    proof
      assume "q \<in> set (C j)"
      then have "(unat q, m) \<in> fblocks C" using m by (simp add: in_fblocks)
      then show False using uniq [of m] t(2) by blast
    qed
  next
    case False
    then show ?thesis using priv [OF j False] by blast
  qed
  then have lists': "lists (links z') I ?C G f"
    using lists_insert [OF D(1) i _ G] unfolding links' by simp
  have co: "coalesced (fblocks ?C)"
    unfolding coalesced_def F
  proof (clarify)
    fix p j assume p: "(p, j) \<in> insert (unat q, k) (fblocks C)" and j: "j < top_order"
      and bad: "(buddy_of p j, j) \<in> insert (unat q, k) (fblocks C)"
    have al: "2 ^ j dvd p" using tiling_aligned [OF t(1), of p j] p by blast
    have "(buddy_of p j, j) = (unat q, k) \<or> (p, j) = (unat q, k)" using D(5) p j bad by (auto simp: coalesced_def)
    then show False
    proof
      assume e: "(buddy_of p j, j) = (unat q, k)"
      then have "buddy_of (unat q) k = p" using buddy_of_pair(5) [OF al] by auto
      moreover have "p \<noteq> unat q" using e buddy_of_pair(3) [OF al] by auto
      ultimately show False using b p e j by auto
    next
      assume e: "(p, j) = (unat q, k)"
      then show False using b bad j buddy_of_pair(3) [OF al] by auto
    qed
  qed
  show ?thesis unfolding core_def
  proof (intro conjI allI ballI impI)
    show "lists (links z') I ?C G f" by (rule lists')
    show "free_ids \<subseteq> I" by (rule D(2))
    show "tiling (fblocks ?C \<union> A') N_PAGES" using t(1) unfolding F by simp
    show "fblocks ?C \<inter> A' = {}" unfolding F using t(2,3) by blast
    show "coalesced (fblocks ?C)" by (rule co)
    fix j p assume j: "j \<le> top_order" and p: "p \<in> set (?C (Free_list j))"
    show "PageBuddy z' p" "page_order z' p = of_nat j"
    proof -
      have e: "p = q \<Longrightarrow> j = k" using p j uniq [of j] F in_fblocks [of q j ?C] by blast
      have "p \<noteq> q \<Longrightarrow> p \<in> set (C (Free_list j))" using p unfolding setC by (auto split: if_splits)
      then show "PageBuddy z' p" "page_order z' p = of_nat j"
        using e D(6) [OF j, of p] D(9) [OF q] unfolding fl' by (auto simp: PageBuddy_set)
    qed
  next
    fix p :: page and j assume pj: "(unat p, j) \<in> A'" and j: "j < top_order"
    have "p \<noteq> q" using pj uniq [of j] t(2) by blast
    then show "\<not> PageBuddy z' p" using A' [OF pj j] unfolding fl' by (simp add: PageBuddy_set)
  next
    fix j p assume "j \<in> I - free_ids" "p \<in> set (?C j)"
    moreover from this have "j \<noteq> Free_list k" using k Free_list_in_ids by blast
    ultimately show "(unat p, 0) \<in> A'" using priv [of j p] by simp
  next
    fix p :: page assume "unat p < N_PAGES" then show "based z' p" using D(9) unfolding fl' by simp
  next
    fix j assume "j \<le> top_order"
    then show "nr_free z' j = of_nat (length (?C (Free_list j)))" using D(10) [of j] unfolding nr' by auto
  qed
qed

section \<open>Freeing a block\<close>

lemma dec_rmv_commute: "dec_nr_free k (rmv_page_order p z) = rmv_page_order p (dec_nr_free k z)"
  by (simp add: dec_nr_free_def rmv_page_order_def ClearPageBuddy_def set_page_private_def)

text \<open>Two allocated buddies can be regarded as one allocated block of the next order.\<close>

lemma core_join:
  assumes c: "core z I C A G f" and a: "(unat p, k) \<in> A" "(buddy_of (unat p) k, k) \<in> A" and k: "k < top_order"
    and priv: "\<And>i q. i \<in> I \<Longrightarrow> i \<notin> free_ids \<Longrightarrow> q \<in> set (C i) \<Longrightarrow> unat q \<noteq> unat p \<and> unat q \<noteq> buddy_of (unat p) k"
  shows "core z I C (insert (min (unat p) (buddy_of (unat p) k), Suc k) (A - {(unat p, k), (buddy_of (unat p) k, k)})) G f"
    (is "core z I C ?A G f")
proof -
  note D = coreD [OF c]
  let ?b = "buddy_of (unat p) k" and ?T = "fblocks C \<union> (A - {(unat p, k), (buddy_of (unat p) k, k)})"
  have un: "insert (unat p, k) (insert (?b, k) ?T) = fblocks C \<union> A" using a by blast
  have t: "tiling (insert (min (unat p) ?b, Suc k) ?T) N_PAGES"
    by (rule tiling_merge) (use D(3) k un a D(4) in auto)
  have al: "2 ^ k dvd unat p" using core_head(1) [OF c, of p k] a by blast
  have nothead: "(min (unat p) ?b, Suc k) \<notin> fblocks C \<union> A"
  proof
    assume m: "(min (unat p) ?b, Suc k) \<in> fblocks C \<union> A"
    have "(min (unat p) ?b, k) \<in> fblocks C \<union> A" using a by (auto simp: min_def)
    from core_head_unique [OF c m this] show False by simp
  qed
  show ?thesis unfolding core_def
  proof (intro conjI allI ballI impI)
    show "tiling (fblocks C \<union> ?A) N_PAGES" using t by simp
    show "fblocks C \<inter> ?A = {}" using D(4) nothead by blast
    fix q :: page and j assume q: "(unat q, j) \<in> ?A" and j: "j < top_order"
    show "\<not> PageBuddy z q"
    proof (cases "(unat q, j) \<in> A")
      case False
      then have "unat q = min (unat p) ?b" using q by blast
      then have "(unat q, k) \<in> A" using a by (auto simp: min_def)
      then show ?thesis using D(7) k by blast
    qed (use D(7) j in blast)
  next
    fix i q assume "i \<in> I - free_ids" "q \<in> set (C i)"
    then show "(unat q, 0) \<in> ?A" using D(8) priv by blast
  qed (use D in auto)
qed

text \<open>
  The merging loop. It ends with a block in hand that contains the block it was given and
  whose buddy is not free, and it has taken from the free lists what it has merged.
\<close>

definition mergeable :: "(list_id \<Rightarrow> page list) \<Rightarrow> list_id set \<Rightarrow> block set \<Rightarrow> bnode lptr set \<Rightarrow> page \<Rightarrow> nat \<Rightarrow> bool" where
  "mergeable C I A G p k \<longleftrightarrow> (unat p, k) \<in> A \<and> (\<forall>i \<in> I. p \<notin> set (C i)) \<and> lru p \<notin> G"

lemma buddy_is_free:
  assumes c: "core z I C A G f" and a: "(unat p, k) \<in> A" and k: "k < top_order" and u: "unat b = buddy_of (unat p) k"
  shows "PageBuddy z b \<and> page_order z b = of_nat k \<longleftrightarrow> b \<in> set (C (Free_list k))"
proof
  assume h: "PageBuddy z b \<and> page_order z b = of_nat k"
  have "(unat p, k) \<in> fblocks C \<union> A" using a by simp
  then obtain j where j: "j \<le> k" "(unat b, j) \<in> fblocks C \<union> A"
    using buddy_head [OF coreD(3) [OF c] _ k] unfolding u by (auto simp: top_order_def)
  have "(unat b, j) \<notin> A" using coreD(7) [OF c, of b j] h j(1) k by auto
  then have f: "j \<le> top_order" "b \<in> set (C (Free_list j))" using j(2) by (auto simp: in_fblocks)
  then have "(of_nat j :: u32) = of_nat k" using coreD(6) [OF c, of j b] h by auto
  moreover have "j < 2 ^ 32" "k < 2 ^ 32" using f(1) k by (simp_all add: top_order_def)
  then have "unat (of_nat j :: u32) = j" "unat (of_nat k :: u32) = k" by (simp_all add: unsigned_of_nat take_bit_nat_eq_self)
  ultimately have "j = k" by metis
  then show "b \<in> set (C (Free_list k))" using f by simp
qed (use coreD(6) [OF c, of k b] k in auto)

lemma merge_loop_core:
  assumes "core z I C A G f" and "mergeable C I A G p k" and "k \<le> top_order"
    and "merge_loop 0 (Suc top_order) p (page_to_pfn p) k bp z = (p', pfn', k', bp', z')"
  obtains C' A' where "core z' I C' A' G f" and "mergeable C' I A' G p' k'" and "k' \<le> top_order" and "k \<le> k'"
    and "k' < top_order \<longrightarrow> (buddy_of (unat p') k', k') \<notin> fblocks C'" and "pfn' = page_to_pfn p'"
    and "k' < top_order \<longrightarrow> bp' = find_buddy_pfn pfn' k'"
    and "pages_of (fblocks C') \<union> blk (unat p', k') = pages_of (fblocks C) \<union> blk (unat p, k)"
    and "A' - {(unat p', k')} = A - {(unat p, k)}" and "\<forall>i. i \<notin> free_ids \<longrightarrow> C' i = C i"
  using assms
proof (induction "top_order - k" arbitrary: z C A p k bp thesis)
  case 0
  then have k: "k = top_order" by simp
  then have "merge_loop 0 (Suc top_order) p (page_to_pfn p) k bp z = (p, page_to_pfn p, k, bp, z)"
    by (subst merge_loop.simps) simp
  then have "(p', pfn', k', bp', z') = (p, page_to_pfn p, k, bp, z)" using "0.prems"(5) by metis
  then have e: "p' = p" "pfn' = page_to_pfn p" "k' = k" "bp' = bp" "z' = z" unfolding prod.inject by blast+
  show ?case by (rule "0.prems"(1) [of C A]) (use "0.prems"(2-4) k e in auto)
next
  case (Suc n)
  have k: "k < top_order" using Suc.hyps(2) by simp
  have a: "(unat p, k) \<in> A" using Suc.prems(3) by (simp add: mergeable_def)
  note D = coreD [OF Suc.prems(2)]
  have al: "2 ^ k dvd unat p" "unat p < N_PAGES" using core_head [OF Suc.prems(2), of p k] a by auto
  define b where "b = p + (find_buddy_pfn (page_to_pfn p) k - page_to_pfn p)"
  define m where "m = p + ((find_buddy_pfn (page_to_pfn p) k AND page_to_pfn p) - page_to_pfn p)"
  have ub: "unat b = buddy_of (unat p) k" and um: "unat m = min (unat p) (buddy_of (unat p) k)"
    and pm: "page_to_pfn m = find_buddy_pfn (page_to_pfn p) k AND page_to_pfn p"
    using buddy_page [OF al(2,1) k] by (simp_all add: b_def m_def)
  have pm': "p + (page_to_pfn m - page_to_pfn p) = m" by (simp add: page_to_pfn_def)
  have step: "merge_loop 0 (Suc top_order) p (page_to_pfn p) k bp z =
    (if b \<notin> set (C (Free_list k)) then (p, page_to_pfn p, k, find_buddy_pfn (page_to_pfn p) k, z)
     else merge_loop 0 (Suc top_order) m (page_to_pfn m) (Suc k) (find_buddy_pfn (page_to_pfn p) k)
       (dec_nr_free k (rmv_page_order b (on_links (\<lambda>h. list_del h (lru b)) z))))"
    using buddy_is_free [OF Suc.prems(2) a k ub] k
    by (subst merge_loop.simps)
      (simp add: Let_def pfn_valid_within_def page_is_buddy_def dec_rmv_commute pm' flip: b_def pm)
  show ?case
  proof (cases "b \<in> set (C (Free_list k))")
    case False
    then have "(p', pfn', k', bp', z') = (p, page_to_pfn p, k, find_buddy_pfn (page_to_pfn p) k, z)"
      using Suc.prems(5) step by metis
    then have e: "p' = p" "pfn' = page_to_pfn p" "k' = k" "bp' = find_buddy_pfn (page_to_pfn p) k" "z' = z"
      unfolding prod.inject by blast+
    have "(buddy_of (unat p) k, k) \<notin> fblocks C" using False unfolding ub [symmetric] in_fblocks by blast
    then show ?thesis by (intro Suc.prems(1) [of C A]) (use Suc.prems(2-4) e in auto)
  next
    case True
    then obtain xs ys where l: "C (Free_list k) = xs @ b # ys" by (meson split_list)
    let ?z = "dec_nr_free k (rmv_page_order b (on_links (\<lambda>h. list_del h (lru b)) z))"
      and ?C = "C(Free_list k := xs @ ys)" and ?A1 = "insert (unat b, k) A"
    let ?A2 = "insert (unat m, Suc k) (?A1 - {(unat p, k), (unat b, k)})"
    have ids: "Free_list k \<in> I" using D(2) k by (auto simp: free_ids_def)
    have dist: "distinct (xs @ b # ys)" using lists_distinct [OF D(1) ids] l by simp
    have bF: "(unat b, k) \<in> fblocks C" using True k by (simp add: in_fblocks)
    have bnot: "b \<notin> set (?C i)" if "i \<in> I" for i
      using lists_other [OF D(1) ids that True] dist by (cases "i = Free_list k") auto
    have pnot: "p \<notin> set (?C i)" if "i \<in> I" for i
      using Suc.prems(3) that l unfolding mergeable_def by (metis Un_iff fun_upd_apply insert_iff list.simps(15) set_append)
    have c1: "core ?z I ?C ?A1 G f" by (rule core_take [OF Suc.prems(2) _ l]) (use k in simp)
    have c2: "core ?z I ?C ?A2 G f"
      unfolding um ub
    proof (rule core_join [OF c1 [unfolded ub] _ _ k])
      fix i q assume "i \<in> I" "q \<in> set (?C i)"
      then show "unat q \<noteq> unat p \<and> unat q \<noteq> buddy_of (unat p) k"
        using bnot pnot unfolding ub [symmetric] word_unat_eq_iff [symmetric] by blast
    qed (use a in auto)
    have mpb: "m = p \<or> m = b" using um unfolding ub [symmetric] word_unat_eq_iff by (auto simp: min_def)
    have "lru b \<notin> G" using D(1) ids True by (auto simp: lists_def)
    then have mg: "mergeable ?C I ?A2 G m (Suc k)"
      using mpb bnot pnot Suc.prems(3) unfolding mergeable_def by blast
    have F: "fblocks ?C = fblocks C - {(unat b, k)}" by (rule fblocks_take [of xs b ys C k, OF dist l]) (use k in simp)
    have pg: "pages_of (fblocks ?C) \<union> blk (unat m, Suc k) = pages_of (fblocks C) \<union> blk (unat p, k)"
    proof -
      have "pages_of (fblocks C) = pages_of (fblocks ?C) \<union> blk (unat b, k)"
        unfolding F using bF by (metis insert_Diff pages_of_insert(1) Un_commute)
      then show ?thesis unfolding um blk_pair(1) [OF al(1)] ub by blast
    qed
    have AA: "?A2 - {(unat m, Suc k)} = A - {(unat p, k)}"
    proof -
      have "(unat b, k) \<notin> A" using bF D(4) by blast
      moreover have "(unat m, Suc k) \<notin> A"
      proof
        assume "(unat m, Suc k) \<in> A"
        moreover have "(unat m, k) \<in> fblocks C \<union> A" using mpb a bF by auto
        ultimately show False using core_head_unique [OF Suc.prems(2), of "unat m" "Suc k" k] by auto
      qed
      ultimately show ?thesis by auto
    qed
    have ml: "merge_loop 0 (Suc top_order) m (page_to_pfn m) (Suc k) (find_buddy_pfn (page_to_pfn p) k) ?z = (p', pfn', k', bp', z')"
      using Suc.prems(5) step True by simp
    have n: "n = top_order - Suc k" "Suc k \<le> top_order" using Suc.hyps(2) by simp_all
    show ?thesis
    proof (rule Suc.hyps(1) [OF n(1) _ c2 mg n(2) ml], goal_cases)
      case (1 C' A')
      show ?case
        by (rule Suc.prems(1) [of C' A']) (use 1 pg AA k in \<open>auto simp: free_ids_def\<close>)
    qed
  qed
qed

text \<open>\<open>__free_one_page\<close>: the block becomes free, and nothing else.\<close>

lemma free_one_page_core:
  assumes c: "core z I C A G f" and m: "mergeable C I A G p k"
  obtains C' where "core (free_one_page 0 p (page_to_pfn p) k z) I C' (A - {(unat p, k)}) G f"
    and "pages_of (fblocks C') = pages_of (fblocks C) \<union> blk (unat p, k)" and "\<forall>i. i \<notin> free_ids \<longrightarrow> C' i = C i"
proof -
  have a: "(unat p, k) \<in> A" using m by (simp add: mergeable_def)
  then have k: "k \<le> top_order" using core_head(2) [OF c, of p k] by blast
  have mo: "min MAX_ORDER (pageblock_order + 1) = Suc top_order"
    by (simp add: MAX_ORDER_def pageblock_order_def top_order_def)
  obtain p' pfn' k' bp' z' where ml: "merge_loop 0 (Suc top_order) p (page_to_pfn p) k 0 z = (p', pfn', k', bp', z')"
    using prod_cases5 by blast
  obtain C1 A1 where c1: "core z' I C1 A1 G f" and m1: "mergeable C1 I A1 G p' k'" and k1: "k' \<le> top_order"
    and b1: "k' < top_order \<longrightarrow> (buddy_of (unat p') k', k') \<notin> fblocks C1"
    and pg: "pages_of (fblocks C1) \<union> blk (unat p', k') = pages_of (fblocks C) \<union> blk (unat p, k)"
    and AA: "A1 - {(unat p', k')} = A - {(unat p, k)}" and oth: "\<forall>i. i \<notin> free_ids \<longrightarrow> C1 i = C i"
    by (rule merge_loop_core [OF c m k ml])
  define z1 where "z1 = set_page_order p' k' z'"
  obtain tail where fz: "free_one_page 0 p (page_to_pfn p) k z =
    inc_nr_free k' (if tail then on_links (\<lambda>h. list_add_tail h (lru p') (free_list k')) z1
      else on_links (\<lambda>h. list_add h (lru p') (free_list k')) z1)"
    unfolding free_one_page_def mo Let_def ml prod.case z1_def by blast
  let ?A = "A1 - {(unat p', k')}"
  have a1: "(unat p', k') \<in> A1" and nl: "\<forall>i \<in> I. p' \<notin> set (C1 i)" and g: "lru p' \<notin> G"
    using m1 by (simp_all add: mergeable_def)
  note D = coreD [OF c1]
  have un: "insert (unat p', k') (fblocks C1 \<union> ?A) = fblocks C1 \<union> A1" using a1 by blast
  have p': "unat p' < N_PAGES" using core_head(3) [OF c1, of p' k'] a1 by blast
  let ?C = "C1(Free_list k' := if tail then C1 (Free_list k') @ [p'] else p' # C1 (Free_list k'))"
  have core': "core (free_one_page 0 p (page_to_pfn p) k z) I ?C ?A G f"
  proof (rule core_put [OF c1 k1 p', where A' = ?A])
    show "tiling (insert (unat p', k') (fblocks C1 \<union> ?A)) N_PAGES" unfolding un by (rule D(3))
    show "(unat p', k') \<notin> fblocks C1 \<union> ?A" "fblocks C1 \<inter> ?A = {}" using a1 D(4) by blast+
    fix i q assume i: "i \<in> I" "i \<notin> free_ids" "q \<in> set (C1 i)"
    then have "q \<noteq> p'" using nl by blast
    then show "(unat q, 0) \<in> ?A \<and> q \<noteq> p'" using D(8) [OF i] by (simp flip: word_unat_eq_iff)
  qed (use D(7) b1 g in \<open>auto simp: fz z1_def\<close>)
  have "fblocks ?C = insert (unat p', k') (fblocks C1)" using k1 by (auto simp: fblocks_def split: if_splits)
  then have "pages_of (fblocks ?C) = pages_of (fblocks C) \<union> blk (unat p, k)" using pg by auto
  then show ?thesis using that [of ?C] core' AA oth k1 by (auto simp: free_ids_def)
qed

section \<open>Allocating a block\<close>

lemma half_size: "drop_bit 1 (push_bit (Suc k) (1 :: u32)) = push_bit k 1" if "Suc k < 32"
  using that by (intro bit_word_eqI) (auto simp: bit_simps)

text \<open>Splitting an allocated block and freeing its upper half.\<close>

lemma core_split_put:
  assumes c: "core z I C A {} f" and a: "(unat p, Suc k) \<in> A" and q: "q = p + push_bit k 1" and np: "\<not> PageBuddy z p"
  shows "core (set_page_order q k (inc_nr_free k (on_links (\<lambda>h. list_add h (lru q) (free_list k)) z))) I
      (C(Free_list k := q # C (Free_list k))) (insert (unat p, k) (A - {(unat p, Suc k)})) {} f"
    and "unat q = unat p + 2 ^ k"
proof -
  note D = coreD [OF c]
  let ?A = "insert (unat p, k) (A - {(unat p, Suc k)})"
  have al: "2 ^ Suc k dvd unat p" "Suc k \<le> top_order" "unat p + 2 ^ Suc k \<le> N_PAGES"
    using tiling_aligned [OF D(3), of "unat p" "Suc k"] a by blast+
  then have k: "k \<le> top_order" "k < top_order" "k < 32" by (simp_all add: top_order_def)
  show uq: "unat q = unat p + 2 ^ k"
    using al(3) unat_one_bit [OF k(3)] unfolding q by (simp add: unat_word_ariths(1))
  have un: "insert (unat p, Suc k) (fblocks C \<union> (A - {(unat p, Suc k)})) = fblocks C \<union> A" using a by blast
  have t: "tiling (insert (unat p, k) (insert (unat p + 2 ^ k, k) (fblocks C \<union> (A - {(unat p, Suc k)})))) N_PAGES"
    by (rule tiling_split) (use D(3,4) un a in auto)
  have only: "b = (unat p, Suc k)" if "b \<in> fblocks C \<union> A" "x \<in> blk b" "x \<in> blk (unat p, Suc k)" for b x
    using tiling_unique [OF D(3) that(1) _ that(2,3)] a by blast
  have qin: "unat q \<in> blk (unat p, Suc k)" unfolding uq by simp
  have N: "unat q < N_PAGES" using al(3) zero_less_power [of "2 :: nat" k] unfolding uq power_Suc by linarith
  have "core (set_page_order q k (inc_nr_free k (on_links (\<lambda>h. list_add h (lru q) (free_list k)) z))) I
      (C(Free_list k := if False then C (Free_list k) @ [q] else q # C (Free_list k))) ?A {} f"
  proof (rule core_put [OF c k(1) N, where A' = ?A])
    show "tiling (insert (unat q, k) (fblocks C \<union> ?A)) N_PAGES"
      using t unfolding uq by (simp add: insert_commute)
    show "(unat q, k) \<notin> fblocks C \<union> ?A"
      using only [of "(unat q, k)" "unat q"] qin uq by auto
    show "fblocks C \<inter> ?A = {}" using D(4) only [of "(unat p, k)" "unat p"] by auto
    fix r :: page and j assume "(unat r, j) \<in> ?A" "j < top_order"
    then show "\<not> PageBuddy z r"
    proof (cases "(unat r, j) \<in> A")
      case False
      then have r: "r = p" "j = k" using \<open>(unat r, j) \<in> ?A\<close> by (auto simp flip: word_unat_eq_iff)
      then show ?thesis using np by simp
    qed (use D(7) in blast)
  next
    fix i r assume i: "i \<in> I" "i \<notin> free_ids" "r \<in> set (C i)"
    have r: "(unat r, 0) \<in> A" by (rule D(8) [OF i])
    moreover have "r \<noteq> q" using only [OF UnI2 [OF r], of "unat r"] qin by auto
    ultimately show "(unat r, 0) \<in> ?A \<and> r \<noteq> q" by auto
  next
    have "buddy_of (unat q) k = unat p" unfolding uq by (rule buddy_of_halves(1) [OF al(1)])
    then show "(buddy_of (unat q) k, k) \<notin> fblocks C" using only [of "(unat p, k)" "unat p"] by auto
  qed (auto simp: PageBuddy_set fun_eq_iff)
  then show "core (set_page_order q k (inc_nr_free k (on_links (\<lambda>h. list_add h (lru q) (free_list k)) z))) I
      (C(Free_list k := q # C (Free_list k))) ?A {} f" by simp
qed

lemma blk_mono: "j \<le> k \<Longrightarrow> blk (p, j) \<subseteq> blk (p, k)"
proof
  fix x assume "j \<le> k" "x \<in> blk (p, j)"
  moreover have "(2 :: nat) ^ j \<le> 2 ^ k" using \<open>j \<le> k\<close> by (intro power_increasing) simp_all
  ultimately show "x \<in> blk (p, k)" unfolding in_blk by linarith
qed

lemma expand_core:
  assumes "core z I C A {} f" and "(unat p, high) \<in> A" and "low \<le> high" and "\<not> PageBuddy z p"
  obtains C' where "core (expand p low high (push_bit high 1) z) I C' (insert (unat p, low) (A - {(unat p, high)})) {} f"
    and "pages_of (fblocks C') = pages_of (fblocks C) \<union> (blk (unat p, high) - blk (unat p, low))"
    and "\<forall>i. i \<notin> free_ids \<longrightarrow> C' i = C i"
  using assms
proof (induction "high - low" arbitrary: z C A high thesis)
  case 0
  then have e: "expand p low high (push_bit high 1) z = z" "high = low" by (simp_all add: expand.simps)
  have "insert (unat p, low) (A - {(unat p, high)}) = A" using "0.prems"(3) e(2) by blast
  then show ?case using "0.prems"(1) [of C] "0.prems"(2) e by simp
next
  case (Suc n)
  define k where "k = high - 1"
  have k: "high = Suc k" "low \<le> k" "n = k - low" using Suc.hyps(2) by (simp_all add: k_def)
  define q where "q = p + push_bit k 1"
  let ?z = "set_page_order q k (inc_nr_free k (on_links (\<lambda>h. list_add h (lru q) (free_list k)) z))"
    and ?C = "C(Free_list k := q # C (Free_list k))" and ?A = "insert (unat p, k) (A - {(unat p, Suc k)})"
  have a: "(unat p, Suc k) \<in> A" using Suc.prems(3) k(1) by simp
  have k10: "Suc k \<le> top_order" using core_head(2) [OF Suc.prems(2), of p "Suc k"] a by blast
  have c: "core ?z I ?C ?A {} f" and uq: "unat q = unat p + 2 ^ k"
    using core_split_put [OF Suc.prems(2) a q_def Suc.prems(5)] by auto
  have "q \<noteq> p" using uq by (auto simp: word_unat_eq_iff)
  then have np: "\<not> PageBuddy ?z p" using Suc.prems(5) by (simp add: PageBuddy_set)
  have step: "expand p low high (push_bit high 1) z = expand p low k (push_bit k 1) ?z"
    using k half_size [of k] k10 by (subst expand.simps) (simp add: Let_def q_def top_order_def)
  have F: "fblocks ?C = insert (unat q, k) (fblocks C)" using k10 by (auto simp: fblocks_def split: if_splits)
  have notin: "(unat p, Suc k) \<notin> A - {(unat p, Suc k)}" "(unat p, k) \<notin> A"
    using core_head_unique [OF Suc.prems(2), of "unat p" k "Suc k"] a by auto
  have low_sub: "blk (unat p, low) \<subseteq> blk (unat p, k)" by (rule blk_mono [OF k(2)])
  show ?case
  proof (rule Suc.hyps(1) [OF k(3) _ c _ k(2) np], goal_cases)
    case (1 C')
    show ?case
    proof (rule Suc.prems(1) [of C'])
      show "core (expand p low high (push_bit high 1) z) I C' (insert (unat p, low) (A - {(unat p, high)})) {} f"
        unfolding step using 1(1) notin k(1) by (simp add: insert_Diff_if)
      have "blk (unat q, k) \<union> (blk (unat p, k) - blk (unat p, low)) = blk (unat p, Suc k) - blk (unat p, low)"
        using low_sub by (auto simp: uq)
      then show "pages_of (fblocks C') = pages_of (fblocks C) \<union> (blk (unat p, high) - blk (unat p, low))"
        using 1(2) unfolding F k(1) by auto
      show "\<forall>i. i \<notin> free_ids \<longrightarrow> C' i = C i" using 1(3) k10 by (auto simp: free_ids_def)
    qed
  qed simp
qed

text \<open>
  \<open>__rmqueue_smallest\<close>: it fails only when no list from the order on has a block, and then
  changes nothing; otherwise it takes the first entry of the first non-empty list.
\<close>

definition smallest :: "(list_id \<Rightarrow> page list) \<Rightarrow> nat \<Rightarrow> page option" where
  "smallest C order = (case filter (\<lambda>k. C (Free_list k) \<noteq> []) [order..<Suc top_order] of
     [] \<Rightarrow> None | k # _ \<Rightarrow> Some (hd (C (Free_list k))))"

lemma rmqueue_smallest_from_core:
  assumes c: "core z I C A {} f" and "order \<le> co" and "rmqueue_smallest_from order co z = (r, z')"
  shows "(r = None \<and> z' = z \<and> smallest C co = None) \<or>
    (\<exists>p k C'. r = Some p \<and> smallest C co = Some p \<and> k \<le> top_order \<and> co \<le> k \<and> (unat p, k) \<in> fblocks C \<and>
       core z' I C' (insert (unat p, order) A) {} f \<and>
       pages_of (fblocks C') = pages_of (fblocks C) - blk (unat p, order) \<and> (\<forall>i. i \<notin> free_ids \<longrightarrow> C' i = C i))"
  using assms
proof (induction "Suc top_order - co" arbitrary: co)
  case 0
  then have "rmqueue_smallest_from order co z = (None, z)"
    by (subst rmqueue_smallest_from.simps) (simp add: MAX_ORDER_def top_order_def)
  then show ?case using 0 by (simp add: smallest_def)
next
  case (Suc n)
  have co: "co \<le> top_order" using Suc.hyps(2) by simp
  then have lt: "co < MAX_ORDER" by (simp add: MAX_ORDER_def top_order_def)
  have i: "Free_list co \<in> I" using coreD(2) [OF c] co by (auto simp: free_ids_def)
  have first: "list_first_entry_or_null (links z) (free_list co) = (case C (Free_list co) of [] \<Rightarrow> None | p # _ \<Rightarrow> Some (lru p))"
    by (rule lists_first [OF coreD(1) [OF c] i])
  have up: "[co..<Suc top_order] = co # [Suc co..<Suc top_order]" using co by (simp add: upt_conv_Cons)
  show ?case
  proof (cases "C (Free_list co)")
    case Nil
    have "rmqueue_smallest_from order co z = rmqueue_smallest_from order (Suc co) z"
      using lt first Nil by (subst rmqueue_smallest_from.simps) simp
    moreover have "smallest C co = smallest C (Suc co)" unfolding smallest_def up using Nil by simp
    moreover have "n = Suc top_order - Suc co" "order \<le> Suc co" using Suc.hyps(2) Suc.prems(2) by simp_all
    ultimately have "(r = None \<and> z' = z \<and> smallest C co = None) \<or>
      (\<exists>p k C'. r = Some p \<and> smallest C co = Some p \<and> k \<le> top_order \<and> Suc co \<le> k \<and> (unat p, k) \<in> fblocks C \<and>
       core z' I C' (insert (unat p, order) A) {} f \<and>
       pages_of (fblocks C') = pages_of (fblocks C) - blk (unat p, order) \<and> (\<forall>i. i \<notin> free_ids \<longrightarrow> C' i = C i))"
      using Suc.hyps(1) [OF _ c] Suc.prems(3) by metis
    then show ?thesis using Suc_leD by blast
  next
    case (Cons p ys)
    let ?z1 = "dec_nr_free co (rmv_page_order p (on_links (\<lambda>h. list_del h (lru p)) z))" and ?C1 = "C(Free_list co := [] @ ys)"
    have l: "C (Free_list co) = [] @ p # ys" using Cons by simp
    have c1: "core ?z1 I ?C1 (insert (unat p, co) A) {} f" by (rule core_take [OF c co l])
    have pF: "(unat p, co) \<in> fblocks C" using co Cons by (simp add: in_fblocks)
    have dist: "distinct ([] @ p # ys)" using lists_distinct [OF coreD(1) [OF c] i] l by simp
    have F: "fblocks ?C1 = fblocks C - {(unat p, co)}" by (rule fblocks_take [of "[]" p ys C co, OF dist l co])
    have np: "\<not> PageBuddy ?z1 p" by (simp add: PageBuddy_rmv)
    have a1: "(unat p, co) \<in> insert (unat p, co) A" by simp
    obtain C' where C': "core (expand p order co (push_bit co 1) ?z1) I C' (insert (unat p, order) (insert (unat p, co) A - {(unat p, co)})) {} f"
      "pages_of (fblocks C') = pages_of (fblocks ?C1) \<union> (blk (unat p, co) - blk (unat p, order))"
      "\<forall>i. i \<notin> free_ids \<longrightarrow> C' i = ?C1 i"
      by (rule expand_core [OF c1 a1 Suc.prems(2) np])
    have eq: "rmqueue_smallest_from order co z = (Some p, expand p order co (push_bit co 1) ?z1)"
      using lt first Cons by (subst rmqueue_smallest_from.simps) (simp add: page_of_def Let_def)
    have rz: "r = Some p" "z' = expand p order co (push_bit co 1) ?z1" using eq Suc.prems(3) by simp_all
    have "(unat p, co) \<notin> A" using pF coreD(4) [OF c] by blast
    then have A: "insert (unat p, co) A - {(unat p, co)} = A" by simp
    have dj: "disjoint_set (fblocks C)"
      using coreD(3) [OF c] disjoint_set_subset unfolding tiling_def by blast
    have "pages_of (fblocks C) = pages_of (fblocks ?C1) \<union> blk (unat p, co)" "pages_of (fblocks ?C1) \<inter> blk (unat p, co) = {}"
    proof -
      have e: "fblocks C = insert (unat p, co) (fblocks ?C1)" "(unat p, co) \<notin> fblocks ?C1" using F pF by auto
      show "pages_of (fblocks C) = pages_of (fblocks ?C1) \<union> blk (unat p, co)" unfolding e(1) by auto
      show "pages_of (fblocks ?C1) \<inter> blk (unat p, co) = {}"
        using dj unfolding e(1) disjoint_set_insert [OF e(2)] by blast
    qed
    moreover have "blk (unat p, order) \<subseteq> blk (unat p, co)" by (rule blk_mono [OF Suc.prems(2)])
    ultimately have pg: "pages_of (fblocks C') = pages_of (fblocks C) - blk (unat p, order)" using C'(2) by blast
    have sm: "smallest C co = Some p" unfolding smallest_def up using Cons by simp
    show ?thesis
      using rz sm co pF C'(1) [unfolded A] pg C'(3) by (intro disjI2 exI [of _ p] exI [of _ co] exI [of _ C']) (auto simp: free_ids_def)
  qed
qed

end
