(* ===== verification/Buddy_Pcp.thy ===== *)
theory Buddy_Pcp
  imports Buddy_Correct
begin

text \<open>
  The per-cpu list in front of the buddy system: pages on it count as allocated for the buddy
  system and as available for the client. \<open>zone_inv z C H\<close> is the invariant of the whole
  allocator, where \<open>H\<close> are the blocks the client holds.
\<close>

section \<open>The private lists\<close>

definition all_ids :: "list_id set" where
  "all_ids = insert Pcp_list free_ids"

lemma ids_simps [simp]: "Pcp_list \<in> all_ids" "free_ids \<subseteq> all_ids" "Pcp_list \<notin> free_ids" "Local_list \<notin> free_ids" "Local_list \<notin> all_ids"
  by (auto simp: all_ids_def free_ids_def)

lemma fblocks_private [simp]: "i \<notin> free_ids \<Longrightarrow> fblocks (C(i := xs)) = fblocks C"
  by (auto simp: fblocks_def free_ids_def)

text \<open>Relinking pages of private lists changes nothing the buddy system looks at.\<close>

lemma core_private:
  assumes c: "core z I C A G f" and l: "lists (links z') I' C' G' f'" and I: "free_ids \<subseteq> I'"
    and s: "nr_free z' = nr_free z" "PageBuddy z' = PageBuddy z" "page_order z' = page_order z" "based z' = based z"
    and C': "\<And>i. i \<in> free_ids \<Longrightarrow> C' i = C i" and p: "\<And>i p. i \<in> I' - free_ids \<Longrightarrow> p \<in> set (C' i) \<Longrightarrow> (unat p, 0) \<in> A"
  shows "core z' I' C' A G' f'"
proof -
  have "C' (Free_list k) = C (Free_list k)" if "k \<le> top_order" for k using C' that by (simp add: Free_list_in_ids)
  moreover from this have "fblocks C' = fblocks C" by (auto simp: fblocks_def)
  ultimately show ?thesis using c l I p unfolding core_def s by auto
qed

lemma core_list_tail:
  assumes c: "core z I C A G f" and i: "i \<in> I" "i \<notin> free_ids" and p: "(unat p, 0) \<in> A" "\<forall>j \<in> I. p \<notin> set (C j)" "lru p \<notin> G"
  shows "core (on_links (\<lambda>h. list_add_tail h (lru p) (Node (Head i))) z) I (C(i := C i @ [p])) A G f"
    and "core (on_links (\<lambda>h. list_add h (lru p) (Node (Head i))) z) I (C(i := p # C i)) A G f"
  by (rule core_private [OF c]; use lists_insert [OF coreD(1) [OF c] i(1) p(2,3)] coreD(2,8) [OF c] i p(1) in \<open>auto split: if_splits\<close>)+

lemma core_unlist:
  assumes c: "core z I C A G f" and i: "i \<in> I" "i \<notin> free_ids" and l: "C i = xs @ p # ys"
  shows "core (on_links (\<lambda>h. list_del h (lru p)) z) I (C(i := xs @ ys)) A G f"
  by (rule core_private [OF c]; use lists_del [OF coreD(1) [OF c] i(1) l] coreD(2,8) [OF c] i l in \<open>auto split: if_splits\<close>)

lemma core_pcp_count [simp]: "core (add_pcp_count n z) I C A G f = core z I C A G f"
  by (simp add: core_def add_pcp_count_def PageBuddy_def page_order_def based_def)

lemma core_successors: "core z I C A {} f \<Longrightarrow> core z I C A {} g"
  by (simp add: core_def lists_def)

section \<open>The invariant of the allocator\<close>

definition pblocks :: "(list_id \<Rightarrow> page list) \<Rightarrow> block set" where
  "pblocks C = (\<lambda>p. (unat p, 0)) ` set (C Pcp_list)"

definition zone_inv :: "zone \<Rightarrow> (list_id \<Rightarrow> page list) \<Rightarrow> block set \<Rightarrow> bool" where
  "zone_inv z C H \<longleftrightarrow>
     core z all_ids C (H \<union> pblocks C) {} id \<and> H \<inter> pblocks C = {} \<and>
     pcp_count z = int (length (C Pcp_list)) \<and> 1 \<le> pcp_batch z \<and> pcp_batch z \<le> pcp_high z \<and> pcp_count z < pcp_high z"

definition avail :: "(list_id \<Rightarrow> page list) \<Rightarrow> nat set" where
  "avail C = pages_of (fblocks C) \<union> pages_of (pblocks C)"

lemma avail_complement: "zone_inv z C H \<Longrightarrow> avail C = {..<N_PAGES} - pages_of H"
proof -
  assume inv: "zone_inv z C H"
  then have c: "core z all_ids C (H \<union> pblocks C) {} id" and H: "H \<inter> pblocks C = {}" by (simp_all add: zone_inv_def)
  note t = coreD(3) [OF c] and d = coreD(4) [OF c] H
  have "pages_of (fblocks C \<union> pblocks C) \<inter> pages_of H = {}"
  proof -
    have "b \<noteq> c" if "b \<in> fblocks C \<union> pblocks C" "c \<in> H" for b c using d that by blast
    then show ?thesis using tiling_unique [OF t] unfolding pages_of_def by blast
  qed
  moreover have "pages_of (fblocks C \<union> pblocks C) \<union> pages_of H = {..<N_PAGES}" using t by (auto simp: tiling_def)
  ultimately show ?thesis by (auto simp: avail_def)
qed

section \<open>Allocating order-0 pages\<close>

lemma listed_head:
  assumes "core z I C A G f" and "i \<in> I" and "p \<in> set (C i)"
  obtains k where "(unat p, k) \<in> fblocks C \<union> A" and "i \<in> free_ids \<longrightarrow> (unat p, k) \<in> fblocks C" and "i \<notin> free_ids \<longrightarrow> (unat p, k) \<in> A"
proof (cases "i \<in> free_ids")
  case True
  then obtain k where "i = Free_list k" "k \<le> top_order" by (auto simp: free_ids_def)
  then show ?thesis using that [of k] True assms(3) by (simp add: in_fblocks)
next
  case False
  then show ?thesis using that [of 0] coreD(8) [OF assms(1,2)] assms(3) by blast
qed

text \<open>A page that has just been taken from the buddy system is on no list.\<close>

lemma fresh_page:
  assumes c: "core z I C A {} f" and c': "core z' I C' (insert (unat p, 0) A) {} f" and F: "(unat p, k) \<in> fblocks C"
    and oth: "\<forall>i. i \<notin> free_ids \<longrightarrow> C' i = C i"
  shows "\<forall>i \<in> I. p \<notin> set (C' i)" and "(unat p, 0) \<notin> A"
proof -
  show nA: "(unat p, 0) \<notin> A"
    using core_head_unique [OF c, of "unat p" 0 k] F coreD(4) [OF c] by blast
  show "\<forall>i \<in> I. p \<notin> set (C' i)"
  proof (intro ballI notI)
    fix i assume i: "i \<in> I" "p \<in> set (C' i)"
    then have "i \<notin> free_ids" using alloc_not_listed [OF c', of p 0 i] by blast
    then show False using coreD(8) [OF c i(1)] oth i nA by auto
  qed
qed

lemma rmqueue_smallest_pcp [simp]:
  "rmqueue_smallest_from k j z = (r, z') \<Longrightarrow> pcp_count z' = pcp_count z \<and> pcp_high z' = pcp_high z \<and> pcp_batch z' = pcp_batch z"
proof (induction k j z arbitrary: r z' rule: rmqueue_smallest_from.induct)
  case (1 order co z)
  have e: "pcp_count (expand p l h s y) = pcp_count y \<and> pcp_high (expand p l h s y) = pcp_high y \<and> pcp_batch (expand p l h s y) = pcp_batch y" for p l h s y
    by (induction p l h s y rule: expand.induct)
      (subst (1 2 3) expand.simps, simp add: Let_def on_links_def inc_nr_free_def set_page_order_def SetPageBuddy_def set_page_private_def)
  show ?case using 1
    by (subst (asm) (2) rmqueue_smallest_from.simps)
      (auto simp: e Let_def on_links_def dec_nr_free_def rmv_page_order_def ClearPageBuddy_def set_page_private_def split: if_splits option.splits)
qed

lemma smallest_None: "smallest C 0 = None \<longleftrightarrow> fblocks C = {}"
proof -
  have "smallest C 0 = None \<longleftrightarrow> filter (\<lambda>k. C (Free_list k) \<noteq> []) [0..<Suc top_order] = []"
    by (simp add: smallest_def split: list.splits del: upt_Suc)
  also have "\<dots> \<longleftrightarrow> (\<forall>k \<le> top_order. C (Free_list k) = [])"
    by (auto simp: filter_empty_conv less_Suc_eq_le simp del: upt_Suc)
  also have "\<dots> \<longleftrightarrow> (\<forall>(p :: page) k. (unat p, k) \<notin> fblocks C)" 
  proof (intro iffI allI impI)
    fix k assume "\<forall>(p :: page) k. (unat p, k) \<notin> fblocks C" "k \<le> top_order"
    then have "p \<notin> set (C (Free_list k))" for p by (simp add: in_fblocks)
    then show "C (Free_list k) = []" using list.set_sel(1) by blast
  qed (auto simp: in_fblocks)
  also have "\<dots> \<longleftrightarrow> fblocks C = {}" by (auto simp: fblocks_def)
  finally show ?thesis .
qed

lemma rmqueue_bulk_core:
  assumes "core z all_ids C A {} f" and "rmqueue_bulk count pcp_list n z = (n', z')"
  obtains C' ps where "core z' all_ids C' (A \<union> (\<lambda>p. (unat p, 0)) ` set ps) {} f" and "C' Pcp_list = C Pcp_list @ ps"
    and "n' = n + int (length ps)" and "length ps \<le> count" and "A \<inter> (\<lambda>p. (unat p, 0)) ` set ps = {}"
    and "pages_of (fblocks C') \<union> unat ` set ps = pages_of (fblocks C)" and "ps = [] \<longrightarrow> 0 < count \<longrightarrow> fblocks C = {}"
    and "pcp_count z' = pcp_count z" and "pcp_high z' = pcp_high z" and "pcp_batch z' = pcp_batch z"
  using assms
proof (induction count arbitrary: z C A n thesis)
  case 0
  show ?case by (rule "0.prems"(1) [of C "[]"]) (use "0.prems" in auto)
next
  case (Suc count)
  obtain r z1 where r: "rmqueue_smallest_from 0 0 z = (r, z1)" by fastforce
  note pcp = rmqueue_smallest_pcp [OF r]
  show ?case
  proof (cases r)
    case None
    then have e: "z1 = z" "fblocks C = {}"
      using rmqueue_smallest_from_core [OF Suc.prems(2) _ r] by (auto simp: smallest_None)
    have "rmqueue_bulk (Suc count) pcp_list n z = (n, z)" using r None e by (simp add: rmqueue_smallest_def)
    then have "n' = n" "z' = z" using Suc.prems(3) by auto
    then show ?thesis by (intro Suc.prems(1) [of C "[]"]) (use Suc.prems(2) e in auto)
  next
    case (Some p)
    then obtain k C1 where k: "(unat p, k) \<in> fblocks C" and c1: "core z1 all_ids C1 (insert (unat p, 0) A) {} f"
      and pg: "pages_of (fblocks C1) = pages_of (fblocks C) - blk (unat p, 0)" and oth: "\<forall>i. i \<notin> free_ids \<longrightarrow> C1 i = C i"
      using rmqueue_smallest_from_core [OF Suc.prems(2) _ r] by auto
    have fresh: "\<forall>i \<in> all_ids. p \<notin> set (C1 i)" "(unat p, 0) \<notin> A" using fresh_page [OF Suc.prems(2) c1 k oth] by auto
    let ?z = "on_links (\<lambda>h. list_add_tail h (lru p) pcp_list) z1" and ?C = "C1(Pcp_list := C1 Pcp_list @ [p])"
    have c2: "core ?z all_ids ?C (insert (unat p, 0) A) {} f" by (rule core_list_tail(1) [OF c1]) (use fresh in auto)
    have F2: "fblocks ?C = fblocks C1" by (rule fblocks_private) simp
    have step: "rmqueue_bulk count pcp_list (n + 1) ?z = (n', z')" using Suc.prems(3) r Some by (simp add: rmqueue_smallest_def)
    have pin: "unat p \<in> pages_of (fblocks C)" using k by (force simp: in_pages_of)
    show ?thesis
    proof (rule Suc.IH [OF _ c2 step], goal_cases)
      case (1 C' ps)
      show ?case
      proof (rule Suc.prems(1) [of C' "p # ps"])
        show "core z' all_ids C' (A \<union> (\<lambda>p. (unat p, 0)) ` set (p # ps)) {} f" using 1(1) by simp
        show "pages_of (fblocks C') \<union> unat ` set (p # ps) = pages_of (fblocks C)"
          using 1(6) pg pin unfolding F2 by (auto simp: blk_def)
      qed (use 1 fresh oth pcp in \<open>auto simp: on_links_def\<close>)
    qed
  qed
qed

text \<open>What an allocation promises, for every order.\<close>

definition alloc_ok :: "nat \<Rightarrow> (list_id \<Rightarrow> page list) \<Rightarrow> block set \<Rightarrow> page \<Rightarrow> zone \<Rightarrow> bool" where
  "alloc_ok order C H p z' \<longleftrightarrow>
     2 ^ order dvd unat p \<and> blk (unat p, order) \<subseteq> avail C \<and>
     (\<exists>C'. zone_inv z' C' (insert (unat p, order) H) \<and> avail C' = avail C - blk (unat p, order) \<and>
        (order \<noteq> 0 \<longrightarrow> C' Pcp_list = C Pcp_list))"

lemma pblocks_Cons: "C Pcp_list = p # ps \<Longrightarrow> pblocks C = insert (unat p, 0) (pblocks (C(Pcp_list := ps)))"
  by (simp add: pblocks_def)

lemma pages_pblocks: "pages_of (pblocks C) = unat ` set (C Pcp_list)"
  by (auto simp: pblocks_def pages_of_def blk_def)

text \<open>Taking the first page of the per-cpu list.\<close>

lemma pcp_take:
  assumes c: "core z all_ids C (H \<union> pblocks C) {} id" and d: "H \<inter> pblocks C = {}" and l: "C Pcp_list = p # ps"
    and cnt: "pcp_count z = int (length (C Pcp_list))" "1 \<le> pcp_batch z" "pcp_batch z \<le> pcp_high z" "pcp_count z \<le> pcp_high z"
  shows "alloc_ok 0 C H p (add_pcp_count (- 1) (on_links (\<lambda>h. list_del h (lru p)) z))"
proof -
  let ?z = "add_pcp_count (- 1) (on_links (\<lambda>h. list_del h (lru p)) z)" and ?C = "C(Pcp_list := [] @ ps)"
  have l': "C Pcp_list = [] @ p # ps" using l by simp
  have dist: "distinct (p # ps)" using lists_distinct [OF coreD(1) [OF c], of Pcp_list] l by simp
  have P: "pblocks C = insert (unat p, 0) (pblocks ?C)" using pblocks_Cons [of C, OF l] by simp
  have "core ?z all_ids ?C (H \<union> pblocks C) {} id" using core_unlist [OF c _ _ l'] by simp
  moreover have "H \<union> pblocks C = insert (unat p, 0) H \<union> pblocks ?C" using P by blast
  moreover have np: "(unat p, 0) \<notin> pblocks ?C" using dist by (auto simp: pblocks_def simp flip: word_unat_eq_iff)
  then have "insert (unat p, 0) H \<inter> pblocks ?C = {}" using d P by blast
  ultimately have inv: "zone_inv ?z ?C (insert (unat p, 0) H)"
    using cnt l by (simp add: zone_inv_def add_pcp_count_def on_links_def)
  have "avail C = insert (unat p) (avail ?C)" unfolding avail_def pages_pblocks l by auto
  moreover have "unat p \<notin> avail ?C" using avail_complement [OF inv] by auto
  ultimately show ?thesis unfolding alloc_ok_def using inv by (intro conjI exI [of _ ?C]) (auto simp: blk_def)
qed

lemma rmqueue_pcplist_spec:
  assumes inv: "zone_inv z C H" and r: "rmqueue_pcplist z = (r, z')"
  shows "case r of None \<Rightarrow> avail C = {} \<and> (\<exists>C'. zone_inv z' C' H) | Some p \<Rightarrow> alloc_ok 0 C H p z'"
proof -
  have c: "core z all_ids C (H \<union> pblocks C) {} id" and d: "H \<inter> pblocks C = {}"
    and cnt: "pcp_count z = int (length (C Pcp_list))" "1 \<le> pcp_batch z" "pcp_batch z \<le> pcp_high z" "pcp_count z < pcp_high z"
    using inv by (auto simp: zone_inv_def)
  have first: "list_first_entry (links y) pcp_list = lru p" if "core y all_ids D A {} g" "D Pcp_list = p # ps" for y D A g p ps
    using dlist_first [OF lists_dlist [OF coreD(1) [OF that(1)], of Pcp_list]] that(2) by (simp add: list_first_entry_def)
  have emp: "list_empty (links y) pcp_list \<longleftrightarrow> D Pcp_list = []" if "core y all_ids D A {} g" for y D A g
    using lists_empty [OF coreD(1) [OF that], of Pcp_list] by simp
  show ?thesis
  proof (cases "C Pcp_list")
    case (Cons p ps)
    then have "(r, z') = (Some p, add_pcp_count (- 1) (on_links (\<lambda>h. list_del h (lru p)) z))"
      using r emp [OF c] first [OF c Cons] by (simp add: rmqueue_pcplist_def raw_rmqueue_pcplist_def page_of_def Let_def)
    then show ?thesis using pcp_take [OF c d Cons] cnt by simp
  next
    case Nil
    obtain n z1 where b: "rmqueue_bulk (nat (pcp_batch z)) pcp_list 0 z = (n, z1)" by fastforce
    obtain C' ps where c1: "core z1 all_ids C' (H \<union> pblocks C \<union> (\<lambda>p. (unat p, 0)) ` set ps) {} id" and C': "C' Pcp_list = C Pcp_list @ ps"
      and n: "n = 0 + int (length ps)" "length ps \<le> nat (pcp_batch z)" and dj: "(H \<union> pblocks C) \<inter> (\<lambda>p. (unat p, 0)) ` set ps = {}"
      and pg: "pages_of (fblocks C') \<union> unat ` set ps = pages_of (fblocks C)" and none: "ps = [] \<longrightarrow> 0 < nat (pcp_batch z) \<longrightarrow> fblocks C = {}"
      and pcp: "pcp_count z1 = pcp_count z" "pcp_high z1 = pcp_high z" "pcp_batch z1 = pcp_batch z"
      by (rule rmqueue_bulk_core [OF c b])
    let ?z = "add_pcp_count n z1"
    have P: "pblocks C = {}" "pblocks C' = (\<lambda>p. (unat p, 0)) ` set ps" using Nil C' by (simp_all add: pblocks_def)
    have c2: "core ?z all_ids C' (H \<union> pblocks C') {} id" using c1 P by simp
    have d2: "H \<inter> pblocks C' = {}" using dj unfolding P(2) by blast
    have cnt2: "pcp_count ?z = int (length (C' Pcp_list))" "1 \<le> pcp_batch ?z" "pcp_batch ?z \<le> pcp_high ?z" "pcp_count ?z \<le> pcp_high ?z"
      using cnt n pcp Nil C' unfolding add_pcp_count_def by simp_all
    have av: "avail C' = avail C" unfolding avail_def pages_pblocks using pg C' Nil by auto
    have run: "rmqueue_pcplist z = (if list_empty (links ?z) pcp_list then (None, ?z)
      else (page_of (list_first_entry (links ?z) pcp_list), add_pcp_count (- 1) (on_links (\<lambda>h. list_del h (list_first_entry (links ?z) pcp_list)) ?z)))"
      using emp [OF c] Nil b by (simp add: rmqueue_pcplist_def raw_rmqueue_pcplist_def Let_def)
    show ?thesis
    proof (cases ps)
      case empty: Nil
      then have "r = None" "z' = ?z" using r run emp [OF c2] C' Nil by auto
      moreover have "avail C = {}" using none empty cnt(2) Nil by (simp add: avail_def pages_pblocks pblocks_def)
      moreover have "zone_inv ?z C' H" unfolding zone_inv_def using c2 d2 cnt2 empty C' Nil by simp
      ultimately show ?thesis by auto
    next
      case (Cons p qs)
      then have l: "C' Pcp_list = p # qs" using C' Nil by simp
      have "(r, z') = (Some p, add_pcp_count (- 1) (on_links (\<lambda>h. list_del h (lru p)) ?z))"
        using r run emp [OF c2] first [OF c2 l] l by (simp add: page_of_def)
      then show ?thesis using pcp_take [OF c2 d2 l cnt2] unfolding alloc_ok_def av by simp
    qed
  qed
qed

section \<open>Freeing order-0 pages\<close>

lemma merge_loop_pcp:
  "merge_loop fell mo p pfn k bp z = (p', pfn', k', bp', z') \<Longrightarrow>
   pcp_count z' = pcp_count z \<and> pcp_high z' = pcp_high z \<and> pcp_batch z' = pcp_batch z"
proof (induction fell mo p pfn k bp z rule: merge_loop.induct)
  case (1 fell mo p pfn k bp z)
  show ?case using 1
    by (subst (asm) (2) merge_loop.simps)
      (auto simp: Let_def on_links_def dec_nr_free_def rmv_page_order_def ClearPageBuddy_def set_page_private_def split: if_splits)
qed

lemma free_one_page_pcp [simp]:
  "pcp_count (free_one_page fell p pfn k z) = pcp_count z" "pcp_high (free_one_page fell p pfn k z) = pcp_high z"
  "pcp_batch (free_one_page fell p pfn k z) = pcp_batch z"
proof -
  obtain p' pfn' k' bp' z' where m: "merge_loop fell (min MAX_ORDER (pageblock_order + 1)) p pfn k 0 z = (p', pfn', k', bp', z')"
    using prod_cases5 by blast
  then show "pcp_count (free_one_page fell p pfn k z) = pcp_count z" "pcp_high (free_one_page fell p pfn k z) = pcp_high z"
    "pcp_batch (free_one_page fell p pfn k z) = pcp_batch z"
    using merge_loop_pcp [OF m] unfolding free_one_page_def Let_def m prod.case
    by (simp_all add: inc_nr_free_def on_links_def set_page_order_def SetPageBuddy_def set_page_private_def)
qed

lemma lists_init:
  assumes l: "lists h I C G f" and i: "i \<notin> I" and g: "Node (Head i) \<notin> G"
  shows "lists (INIT_LIST_HEAD h (Node (Head i))) (insert i I) (C(i := [])) G f"
proof -
  let ?h = "INIT_LIST_HEAD h (Node (Head i))"
  have ag: "agree (- {Node (Head i)}) h ?h" by (simp add: agree_def INIT_LIST_HEAD_def set_next_def set_prev_def)
  have same: "dlist ?h (Node (Head j)) (map lru (C j))" if "j \<in> I" for j
    using dlist_frame [OF ag, of "Node (Head j)" "map lru (C j)"] lists_dlist [OF l that] i that by auto
  have new: "dlist ?h (Node (Head i)) []" by (rule dlist_INIT_LIST_HEAD)
  have "family dlist ?h (insert i I) (\<lambda>i. Node (Head i)) (\<lambda>j. map lru ((C(i := [])) j))"
    using l same new i unfolding lists_def family_def by auto
  moreover have "nxt ?h n = f n" if "n \<in> G" for n
    using ag l g that unfolding agree_def lists_def by (metis ComplI singletonD)
  ultimately show ?thesis using l g i unfolding lists_def by (auto split: if_splits)
qed

definition detached :: "nat \<Rightarrow> (list_id \<Rightarrow> page list) \<Rightarrow> block set \<Rightarrow> (bnode lptr \<Rightarrow> bnode lptr) \<Rightarrow> zone \<Rightarrow> zone \<Rightarrow> bool" where
  "detached m C A f z z' \<longleftrightarrow>
     (\<exists>C' ds. core z' (insert Local_list all_ids) C' A {} f \<and> C Pcp_list = C' Pcp_list @ ds \<and>
        C' Local_list = C Local_list @ rev ds \<and> length ds = min m (length (C Pcp_list)) \<and> (\<forall>i \<in> free_ids. C' i = C i) \<and>
        pcp_count z' = pcp_count z - int (length ds) \<and> pcp_high z' = pcp_high z \<and> pcp_batch z' = pcp_batch z)"

lemma detachedE:
  assumes "detached m C A f z z'"
  obtains C' ds where "core z' (insert Local_list all_ids) C' A {} f" and "C Pcp_list = C' Pcp_list @ ds"
    and "C' Local_list = C Local_list @ rev ds" and "length ds = min m (length (C Pcp_list))" and "\<forall>i \<in> free_ids. C' i = C i"
    and "pcp_count z' = pcp_count z - int (length ds)" and "pcp_high z' = pcp_high z" and "pcp_batch z' = pcp_batch z"
  using assms unfolding detached_def by blast

lemma bulk_detach_core:
  assumes "core z (insert Local_list all_ids) C A {} f" and "C Pcp_list \<noteq> []"
  shows "detached (Suc n) C A f z (bulk_detach n z)"
  using assms
proof (induction n arbitrary: z C)
  let ?I = "insert Local_list all_ids"
  { fix n and z :: zone and C :: "list_id \<Rightarrow> page list"
    assume IH: "\<And>m z C. n = Suc m \<Longrightarrow> core z ?I C A {} f \<Longrightarrow> C Pcp_list \<noteq> [] \<Longrightarrow> detached (Suc m) C A f z (bulk_detach m z)"
      and c: "core z ?I C A {} f" and ne: "C Pcp_list \<noteq> []"
    obtain xs p where l: "C Pcp_list = xs @ p # []" using ne by (metis rev_exhaust)
    have last: "list_last_entry (links z) pcp_list = lru p"
      using dlist_last [OF lists_dlist [OF coreD(1) [OF c], of Pcp_list]] l by (simp add: list_last_entry_def)
    define z1 where "z1 = on_links (\<lambda>h. list_add_tail h (lru p) local_list) (add_pcp_count (- 1) (on_links (\<lambda>h. list_del h (lru p)) z))"
    define C1 where "C1 = C(Pcp_list := xs, Local_list := C Local_list @ [p])"
    have pA: "(unat p, 0) \<in> A" using coreD(8) [OF c, of Pcp_list p] l by simp
    have dist: "distinct (xs @ [p])" using lists_distinct [OF coreD(1) [OF c], of Pcp_list] l by simp
    have fresh: "\<forall>j \<in> ?I. p \<notin> set ((C(Pcp_list := xs @ [])) j)"
      using lists_other [OF coreD(1) [OF c], of Pcp_list _ p] l dist by auto
    have c1: "core (add_pcp_count (- 1) (on_links (\<lambda>h. list_del h (lru p)) z)) ?I (C(Pcp_list := xs @ [])) A {} f"
      using core_unlist [OF c _ _ l] by simp
    have C1: "C1 = (C(Pcp_list := xs @ []))(Local_list := (C(Pcp_list := xs @ [])) Local_list @ [p])" by (simp add: C1_def)
    have c2: "core z1 ?I C1 A {} f" unfolding z1_def C1 by (rule core_list_tail(1) [OF c1 _ _ pA fresh]) simp_all
    have emp: "list_empty (links z1) pcp_list \<longleftrightarrow> xs = []" using lists_empty [OF coreD(1) [OF c2], of Pcp_list] by (simp add: C1_def)
    have step: "bulk_detach n z = (if n \<noteq> 0 \<and> xs \<noteq> [] then bulk_detach (n - 1) z1 else z1)"
      using last emp by (subst bulk_detach.simps) (simp add: Let_def z1_def)
    have pcp: "pcp_count z1 = pcp_count z - 1" "pcp_high z1 = pcp_high z" "pcp_batch z1 = pcp_batch z"
      by (simp_all add: z1_def on_links_def add_pcp_count_def)
    have "detached (Suc n) C A f z (bulk_detach n z)"
    proof (cases "n \<noteq> 0 \<and> xs \<noteq> []")
      case True
      then have "detached n C1 A f z1 (bulk_detach (n - 1) z1)" using IH [OF _ c2, of "n - 1"] by (simp add: C1_def)
      then obtain C' ds where D: "core (bulk_detach (n - 1) z1) ?I C' A {} f" "C1 Pcp_list = C' Pcp_list @ ds"
        "C' Local_list = C1 Local_list @ rev ds" "length ds = min n (length (C1 Pcp_list))" "\<forall>i \<in> free_ids. C' i = C1 i"
        "pcp_count (bulk_detach (n - 1) z1) = pcp_count z1 - int (length ds)" "pcp_high (bulk_detach (n - 1) z1) = pcp_high z1"
        "pcp_batch (bulk_detach (n - 1) z1) = pcp_batch z1"
        by (rule detachedE)
      have C1s: "C1 Pcp_list = xs" "C1 Local_list = C Local_list @ [p]" by (simp_all add: C1_def)
      have "\<forall>i \<in> free_ids. C' i = C i" using D(5) by (auto simp: C1_def)
      then show ?thesis unfolding detached_def step using True D l pcp
        by (intro exI [of _ C'] exI [of _ "ds @ [p]"]) (simp add: C1s)
    next
      case False
      moreover have "\<forall>i \<in> free_ids. C1 i = C i" by (auto simp: C1_def)
      ultimately show ?thesis unfolding detached_def step using c2 l pcp
        by (intro exI [of _ C1] exI [of _ "[p]"]) (auto simp: C1_def min_def)
    qed }
  note main = this
  { case 0 show ?case by (rule main [OF _ 0]) simp }
  { case (Suc n) show ?case by (rule main [OF _ Suc.prems]) (use Suc.IH in simp) }
qed

text \<open>The walk of \<open>list_for_each_entry_safe\<close> follows the successors \<open>f\<close> of the pages still to free.\<close>

primrec walk :: "(bnode lptr \<Rightarrow> bnode lptr) \<Rightarrow> page list \<Rightarrow> bool" where
  "walk f [] \<longleftrightarrow> True"
| "walk f (x # xs) \<longleftrightarrow> f (lru x) = hd (map lru xs @ [local_list]) \<and> walk f xs"

definition zero_blocks :: "page list \<Rightarrow> block set" where
  "zero_blocks xs = (\<lambda>p. (unat p, 0)) ` set xs"

lemma free_each_core:
  assumes "core z all_ids C A (lru ` set xs) f" and "walk f xs" and "distinct xs" and "length xs \<le> fuel"
    and "zero_blocks xs \<subseteq> A"
  shows "\<exists>z' C'. free_each fuel 0 (hd (map lru xs @ [local_list])) z = Some z' \<and> core z' all_ids C' (A - zero_blocks xs) {} f \<and>
    pages_of (fblocks C') = pages_of (fblocks C) \<union> unat ` set xs \<and> C' Pcp_list = C Pcp_list \<and>
    pcp_count z' = pcp_count z \<and> pcp_high z' = pcp_high z \<and> pcp_batch z' = pcp_batch z"
  using assms
proof (induction xs arbitrary: z C A fuel)
  case Nil
  then show ?case by (subst free_each.simps) (auto simp: zero_blocks_def)
next
  case (Cons x xs)
  obtain n where n: "fuel = Suc n" "length xs \<le> n" using Cons.prems(4) by (cases fuel) auto
  have c: "core z all_ids C A (lru ` set xs) f" by (rule core_mono [OF Cons.prems(1)]) auto
  have succ: "nxt (links z) (lru x) = hd (map lru xs @ [local_list])"
    using coreD(1) [OF Cons.prems(1)] Cons.prems(2) by (simp add: lists_def)
  have "\<forall>i \<in> all_ids. x \<notin> set (C i)" using coreD(1) [OF Cons.prems(1)] by (auto simp: lists_def)
  then have m: "mergeable C all_ids A (lru ` set xs) x 0"
    using Cons.prems(3,5) by (auto simp: mergeable_def zero_blocks_def)
  let ?z = "free_one_page 0 x (page_to_pfn x) 0 z"
  obtain C1 where c1: "core ?z all_ids C1 (A - {(unat x, 0)}) (lru ` set xs) f"
    and pg: "pages_of (fblocks C1) = pages_of (fblocks C) \<union> blk (unat x, 0)" and oth: "\<forall>i. i \<notin> free_ids \<longrightarrow> C1 i = C i"
    by (rule free_one_page_core [OF c m])
  have sub: "zero_blocks xs \<subseteq> A - {(unat x, 0)}"
    using Cons.prems(3,5) by (auto simp: zero_blocks_def simp flip: word_unat_eq_iff)
  obtain z' C' where r: "free_each n 0 (hd (map lru xs @ [local_list])) ?z = Some z'" "core z' all_ids C' (A - {(unat x, 0)} - zero_blocks xs) {} f"
    "pages_of (fblocks C') = pages_of (fblocks C1) \<union> unat ` set xs" "C' Pcp_list = C1 Pcp_list"
    "pcp_count z' = pcp_count ?z" "pcp_high z' = pcp_high ?z" "pcp_batch z' = pcp_batch ?z"
    using Cons.IH [OF c1 _ _ n(2) sub] Cons.prems(2,3) by auto
  have "free_each fuel 0 (lru x) z = Some z'" using r(1) succ n(1) by (subst free_each.simps) (simp add: Let_def)
  moreover have "A - {(unat x, 0)} - zero_blocks xs = A - zero_blocks (x # xs)" by (auto simp: zero_blocks_def)
  ultimately show ?case using r pg oth by (intro exI [of _ z'] exI [of _ C']) (auto simp: blk_def)
qed

lemma walk_chain: "chain (nxt h) (prv h) a (map lru xs @ [local_list]) \<Longrightarrow> walk (nxt h) xs \<and> nxt h a = hd (map lru xs @ [local_list])"
  by (induction xs arbitrary: a) (auto simp: lnk_def)

text \<open>\<open>free_pcppages_bulk\<close> gives back pages from the tail of the per-cpu list.\<close>

lemma free_pcppages_bulk_spec:
  assumes c: "core z all_ids C (H \<union> pblocks C) {} id" and d: "H \<inter> pblocks C = {}" and n: "0 < count" and ne: "C Pcp_list \<noteq> []"
    and cnt: "pcp_count z = int (length (C Pcp_list))" "1 \<le> pcp_batch z" "pcp_batch z \<le> pcp_high z" "pcp_count z \<le> pcp_high z"
  shows "\<exists>z' C'. free_pcppages_bulk 0 count z = Some z' \<and> zone_inv z' C' H \<and> avail C' = avail C"
proof -
  let ?I = "insert Local_list all_ids"
  define z0 where "z0 = on_links (\<lambda>h. INIT_LIST_HEAD h local_list) z"
  let ?C0 = "C(Local_list := [])"
  have c0: "core z0 ?I ?C0 (H \<union> pblocks C) {} id"
    unfolding z0_def
  proof (rule core_private [OF c])
    show "free_ids \<subseteq> ?I" using ids_simps(2) by blast
  qed (use lists_init [OF coreD(1) [OF c], of Local_list] coreD(8) [OF c] in \<open>auto split: if_splits\<close>)
  define z1 where "z1 = bulk_detach (count - 1) z0"
  have "detached count ?C0 (H \<union> pblocks C) id z0 z1"
    using bulk_detach_core [OF c0, of "count - 1"] ne n by (simp add: z1_def)
  then obtain C1 ds where c1: "core z1 ?I C1 (H \<union> pblocks C) {} id" and D: "?C0 Pcp_list = C1 Pcp_list @ ds"
    "C1 Local_list = ?C0 Local_list @ rev ds" "length ds = min count (length (?C0 Pcp_list))" "\<forall>i \<in> free_ids. C1 i = ?C0 i"
    "pcp_count z1 = pcp_count z0 - int (length ds)" "pcp_high z1 = pcp_high z0" "pcp_batch z1 = pcp_batch z0"
    by (rule detachedE)
  have fr: "\<forall>i \<in> free_ids. C1 i = C i" using D(4) by auto
  have pl: "C Pcp_list = C1 Pcp_list @ ds" and loc: "C1 Local_list = rev ds" and len: "length ds = min count (length (C Pcp_list))"
    and pcp: "pcp_count z1 = pcp_count z - int (length ds)" "pcp_high z1 = pcp_high z" "pcp_batch z1 = pcp_batch z"
    using D by (simp_all add: z0_def on_links_def)
  have dl: "dlist (links z1) local_list (map lru (rev ds))" using lists_dlist [OF coreD(1) [OF c1], of Local_list] loc by simp
  then have w: "walk (nxt (links z1)) (rev ds)" "nxt (links z1) local_list = hd (map lru (rev ds) @ [local_list])"
    using walk_chain [of "links z1" local_list "rev ds"] by (simp_all add: dlist_def)
  have dist: "distinct (C1 Pcp_list @ ds)" using lists_distinct [OF coreD(1) [OF c], of Pcp_list] pl by simp
  have F: "fblocks C1 = fblocks C" using fr by (auto simp: fblocks_def Free_list_in_ids)
  have P: "pblocks C = pblocks C1 \<union> zero_blocks (rev ds)" "pblocks C1 \<inter> zero_blocks (rev ds) = {}"
    using pl dist by (auto simp: pblocks_def zero_blocks_def simp flip: word_unat_eq_iff)
  have c2: "core z1 all_ids C1 (H \<union> pblocks C) (lru ` set (rev ds)) (nxt (links z1))"
  proof (rule core_private [OF c1])
    have l: "lists (links z1) all_ids C1 {} id" by (rule lists_mono [OF coreD(1) [OF c1]]) auto
    have "lru p \<notin> set (Node (Head i) # map lru (C1 i))" if "p \<in> set ds" "i \<in> all_ids" for p i
      using lists_other [OF coreD(1) [OF c1], of Local_list i p] loc that by auto
    then show "lists (links z1) all_ids C1 (lru ` set (rev ds)) (nxt (links z1))" using l unfolding lists_def by auto
  qed (use coreD(8) [OF c1] in auto)
  obtain z' C' where r: "free_each (Suc count) 0 (hd (map lru (rev ds) @ [local_list])) z1 = Some z'"
    "core z' all_ids C' (H \<union> pblocks C - zero_blocks (rev ds)) {} (nxt (links z1))"
    "pages_of (fblocks C') = pages_of (fblocks C1) \<union> unat ` set (rev ds)" "C' Pcp_list = C1 Pcp_list"
    "pcp_count z' = pcp_count z1" "pcp_high z' = pcp_high z1" "pcp_batch z' = pcp_batch z1"
  proof -
    have "distinct (rev ds)" "length (rev ds) \<le> Suc count" "zero_blocks (rev ds) \<subseteq> H \<union> pblocks C"
      using dist len P(1) by auto
    from free_each_core [OF c2 w(1) this] show ?thesis using that by blast
  qed
  have A: "H \<union> pblocks C - zero_blocks (rev ds) = H \<union> pblocks C'"
    using P d r(4) by (auto simp: pblocks_def)
  have "free_pcppages_bulk 0 count z = Some z'"
    using r(1) w(2) by (simp add: free_pcppages_bulk_def Let_def z0_def z1_def)
  moreover have "zone_inv z' C' H"
    unfolding zone_inv_def
  proof (intro conjI)
    show "core z' all_ids C' (H \<union> pblocks C') {} id" using core_successors [OF r(2)] unfolding A .
    show "H \<inter> pblocks C' = {}" using d P(1) r(4) by (auto simp: pblocks_def)
    have "0 < length ds" using len n ne by simp
    then show "pcp_count z' < pcp_high z'" using r(5,6) pcp cnt(4) by linarith
    show "pcp_count z' = int (length (C' Pcp_list))" "1 \<le> pcp_batch z'" "pcp_batch z' \<le> pcp_high z'"
      using r(4-7) pcp cnt pl by auto
  qed
  moreover have "avail C' = avail C" unfolding avail_def pages_pblocks r(3) r(4) F pl by auto
  ultimately show ?thesis by blast
qed

lemma free_unref_page_spec:
  assumes inv: "zone_inv z C H" and p: "(unat p, 0) \<in> H"
  shows "\<exists>z' C'. free_unref_page 0 p z = Some z' \<and> zone_inv z' C' (H - {(unat p, 0)}) \<and> avail C' = avail C \<union> blk (unat p, 0)"
proof -
  let ?H = "H - {(unat p, 0)}" and ?C = "C(Pcp_list := p # C Pcp_list)"
  have c: "core z all_ids C (H \<union> pblocks C) {} id" and d: "H \<inter> pblocks C = {}"
    and cnt: "pcp_count z = int (length (C Pcp_list))" "1 \<le> pcp_batch z" "pcp_batch z \<le> pcp_high z" "pcp_count z < pcp_high z"
    using inv by (auto simp: zone_inv_def)
  have fresh: "\<forall>j \<in> all_ids. p \<notin> set (C j)"
  proof (intro ballI notI)
    fix j assume j: "j \<in> all_ids" "p \<in> set (C j)"
    then have "j \<notin> free_ids" using alloc_not_listed [OF c, of p 0 j] p by blast
    then have "j = Pcp_list" using j(1) by (auto simp: all_ids_def)
    then show False using d p j(2) by (auto simp: pblocks_def)
  qed
  define z1 where "z1 = add_pcp_count 1 (on_links (\<lambda>h. list_add h (lru p) pcp_list) z)"
  have c1: "core z1 all_ids ?C (H \<union> pblocks C) {} id"
    unfolding z1_def core_pcp_count by (rule core_list_tail(2) [OF c]) (use fresh p in auto)
  have P: "pblocks ?C = insert (unat p, 0) (pblocks C)" by (auto simp: pblocks_def)
  have A: "H \<union> pblocks C = ?H \<union> pblocks ?C" unfolding P using p by blast
  have dj: "?H \<inter> pblocks ?C = {}" unfolding P using d by blast
  have pcp: "pcp_count z1 = int (length (?C Pcp_list))" "1 \<le> pcp_batch z1" "pcp_batch z1 \<le> pcp_high z1" "pcp_count z1 \<le> pcp_high z1"
    using cnt by (simp_all add: z1_def add_pcp_count_def on_links_def)
  have av: "avail ?C = avail C \<union> blk (unat p, 0)" unfolding avail_def pages_pblocks by (auto simp: blk_def)
  have run: "free_unref_page 0 p z = (if pcp_count z1 \<ge> pcp_high z1 then free_pcppages_bulk 0 (nat (pcp_batch z1)) z1 else Some z1)"
    by (simp add: free_unref_page_def free_unref_page_commit_def Let_def z1_def)
  show ?thesis
  proof (cases "pcp_count z1 \<ge> pcp_high z1")
    case True
    have "\<exists>z' C'. free_pcppages_bulk 0 (nat (pcp_batch z1)) z1 = Some z' \<and> zone_inv z' C' ?H \<and> avail C' = avail ?C"
      by (rule free_pcppages_bulk_spec [OF c1 [unfolded A] dj _ _ pcp]) (use pcp(2) in auto)
    then show ?thesis using run True av by auto
  next
    case False
    have "zone_inv z1 ?C ?H" unfolding zone_inv_def using c1 [unfolded A] dj pcp False by auto
    then show ?thesis using run False av by (intro exI [of _ z1] exI [of _ ?C]) auto
  qed
qed

section \<open>The allocator\<close>

lemma free_pages_spec:
  assumes inv: "zone_inv z C H" and p: "(unat p, order) \<in> H"
  shows "\<exists>z' C'. free_pages 0 p order z = Some z' \<and> zone_inv z' C' (H - {(unat p, order)}) \<and>
    avail C' = avail C \<union> blk (unat p, order) \<and> (order \<noteq> 0 \<longrightarrow> C' Pcp_list = C Pcp_list)"
proof (cases "order = 0")
  case True
  then show ?thesis using free_unref_page_spec [OF inv] p by (simp add: free_pages_def free_the_page_def)
next
  case False
  have c: "core z all_ids C (H \<union> pblocks C) {} id" and d: "H \<inter> pblocks C = {}"
    and cnt: "pcp_count z = int (length (C Pcp_list))" "1 \<le> pcp_batch z" "pcp_batch z \<le> pcp_high z" "pcp_count z < pcp_high z"
    using inv by (auto simp: zone_inv_def)
  have "\<forall>j \<in> all_ids. p \<notin> set (C j)" using alloc_not_listed [OF c, of p order] p False by blast
  then have m: "mergeable C all_ids (H \<union> pblocks C) {} p order" using p by (simp add: mergeable_def)
  let ?z = "free_one_page 0 p (page_to_pfn p) order z"
  obtain C' where C': "core ?z all_ids C' (H \<union> pblocks C - {(unat p, order)}) {} id"
    "pages_of (fblocks C') = pages_of (fblocks C) \<union> blk (unat p, order)" "\<forall>i. i \<notin> free_ids \<longrightarrow> C' i = C i"
    by (rule free_one_page_core [OF c m])
  have P: "C' Pcp_list = C Pcp_list" "pblocks C' = pblocks C" using C'(3) by (simp_all add: pblocks_def)
  have "H \<union> pblocks C - {(unat p, order)} = (H - {(unat p, order)}) \<union> pblocks C'"
    unfolding P using d p by blast
  then have "zone_inv ?z C' (H - {(unat p, order)})" unfolding zone_inv_def using C'(1) P d cnt by auto
  moreover have "avail C' = avail C \<union> blk (unat p, order)" unfolding avail_def pages_pblocks C'(2) P by blast
  ultimately show ?thesis using False P by (auto simp: free_pages_def free_the_page_def free_pages_ok_def)
qed

lemma alloc_pages_spec:
  assumes inv: "zone_inv z C H" and o: "order \<le> top_order" and r: "alloc_pages order z = (r, z')"
  shows "case r of
      None \<Rightarrow> (\<exists>C'. zone_inv z' C' H) \<and>
        (if order = 0 then avail C = {} else z' = z \<and> (\<forall>k. order \<le> k \<longrightarrow> k \<le> top_order \<longrightarrow> C (Free_list k) = []))
    | Some p \<Rightarrow> alloc_ok order C H p z'"
proof (cases "order = 0")
  case True
  then have "rmqueue_pcplist z = (r, z')" using r by (simp add: alloc_pages_def get_page_from_freelist_def rmqueue_def)
  from rmqueue_pcplist_spec [OF inv this] show ?thesis using True by (auto split: option.splits)
next
  case False
  have c: "core z all_ids C (H \<union> pblocks C) {} id" and d: "H \<inter> pblocks C = {}"
    and cnt: "pcp_count z = int (length (C Pcp_list))" "1 \<le> pcp_batch z" "pcp_batch z \<le> pcp_high z" "pcp_count z < pcp_high z"
    using inv by (auto simp: zone_inv_def)
  have r': "rmqueue_smallest_from order order z = (r, z')"
    using r False by (simp add: alloc_pages_def get_page_from_freelist_def rmqueue_def rmqueue_smallest_def)
  note pcp = rmqueue_smallest_pcp [OF r']
  show ?thesis
  proof (cases r)
    case None
    then have n: "z' = z" "smallest C order = None" using rmqueue_smallest_from_core [OF c _ r'] by auto
    have "filter (\<lambda>k. C (Free_list k) \<noteq> []) [order..<Suc top_order] = []"
      using n(2) unfolding smallest_def by (auto split: list.splits simp del: upt_Suc)
    then have "C (Free_list k) = []" if "order \<le> k" "k \<le> top_order" for k
      using that by (auto simp: filter_empty_conv less_Suc_eq_le simp del: upt_Suc)
    then show ?thesis using None n(1) inv False by auto
  next
    case (Some p)
    then obtain k C' where k: "order \<le> k" "(unat p, k) \<in> fblocks C"
      and C': "core z' all_ids C' (insert (unat p, order) (H \<union> pblocks C)) {} id"
        "pages_of (fblocks C') = pages_of (fblocks C) - blk (unat p, order)" "\<forall>i. i \<notin> free_ids \<longrightarrow> C' i = C i"
      using rmqueue_smallest_from_core [OF c _ r'] by auto
    have P: "C' Pcp_list = C Pcp_list" "pblocks C' = pblocks C" using C'(3) by (simp_all add: pblocks_def)
    have np: "(unat p, order) \<notin> pblocks C" using False by (auto simp: pblocks_def)
    have i': "zone_inv z' C' (insert (unat p, order) H)"
      unfolding zone_inv_def using C'(1) P d np cnt pcp by auto
    have sub: "blk (unat p, order) \<subseteq> pages_of (fblocks C)"
      using blk_mono [OF k(1), of "unat p"] k(2) unfolding pages_of_def by blast
    have "blk (unat p, order) \<inter> pages_of (pblocks C) = {}"
      using avail_complement [OF i'] P unfolding avail_def by auto
    then have "avail C' = avail C - blk (unat p, order)" unfolding avail_def P C'(2) by blast
    moreover have "2 ^ order dvd unat p" using core_head(1) [OF C'(1), of p order] by blast
    moreover have "blk (unat p, order) \<subseteq> avail C" using sub by (auto simp: avail_def)
    ultimately have "alloc_ok order C H p z'" unfolding alloc_ok_def using i' P(1) by blast
    then show ?thesis using Some by simp
  qed
qed

end
