(* ===== verification/Buddy_Alloc.thy ===== *)
theory Buddy_Alloc
  imports Buddy_Pcp
begin

text \<open>
  What the page allocator promises: initialisation, allocation, freeing, any interleaving of the
  two, each with what it needs of the value that \<open>page_is_buddy\<close> leaves where it has no \<open>return\<close>.
\<close>

unbundle bit_operations_syntax

section \<open>Initialisation\<close>

definition boot_blocks :: "block set" where
  "boot_blocks = {(0, 10), (1024, 10), (2048, 10), (3072, 10)}"

lemma boot_tiling: "tiling boot_blocks N_PAGES"
proof -
  have "disjoint_set boot_blocks" by (auto simp: disjoint_set_def boot_blocks_def blk_def)
  moreover have "pages_of boot_blocks = {..<N_PAGES}" by (auto simp: boot_blocks_def blk_def)
  ultimately show ?thesis by (auto simp: tiling_def boot_blocks_def aligned_def top_order_def)
qed

lemma init_pages_based:
  "n \<le> N_PAGES \<Longrightarrow> unat p < n \<Longrightarrow> based (fold (\<lambda>i. init_page (of_nat i)) [0..<n] z) p"
proof (induction n)
  case (Suc n)
  have "(t OR PAGE_TYPE_BASE) AND PAGE_TYPE_BASE = PAGE_TYPE_BASE" for t by (rule bit_word_eqI) (auto simp: bit_simps)
  moreover have "p = of_nat n" if "unat p = n" using that by (auto simp flip: that)
  ultimately show ?case using Suc by (auto simp: init_page_def based_def on_links_def less_Suc_eq)
qed simp

lemma init_area_parts:
  "links (init_area n z) = INIT_LIST_HEAD (links z) (free_list n)" "nr_free (init_area n z) = (nr_free z)(n := 0)"
  "page_type (init_area n z) = page_type z"
  by (simp_all add: init_area_def on_links_def)

lemma fold_upt_Suc: "fold g [0..<Suc n] z = g n (fold g [0..<n] z)"
  by simp

lemma init_areas_lists: "lists (links (fold init_area [0..<n] z)) (Free_list ` {..<n}) (\<lambda>_. []) {} id"
proof (induction n)
  case 0
  then show ?case by (simp add: lists_def family_def)
next
  case (Suc n)
  have "lists (INIT_LIST_HEAD (links (fold init_area [0..<n] z)) (free_list n)) (insert (Free_list n) (Free_list ` {..<n}))
      ((\<lambda>_. [])(Free_list n := [])) {} id"
    by (rule lists_init [OF Suc]) auto
  moreover have "(\<lambda>_. [])(Free_list n := []) = (\<lambda>_. [] :: page list)" by auto
  ultimately show ?case unfolding fold_upt_Suc init_area_parts lessThan_Suc image_insert by (simp flip: id_def)
qed

lemma init_areas_parts:
  "page_type (fold init_area [0..<n] z) = page_type z" "k < n \<Longrightarrow> nr_free (fold init_area [0..<n] z) k = 0"
  by (induction n) (auto simp: init_area_parts less_Suc_eq)

lemma boot_core:
  assumes "z' = fold init_area [0..<MAX_ORDER] (fold (\<lambda>i. init_page (of_nat i)) [0..<N_PAGES] z)"
  shows "core z' free_ids (\<lambda>_. []) boot_blocks {} id"
proof -
  have ids: "free_ids = Free_list ` {..<MAX_ORDER}"
    unfolding free_ids_def by (simp add: MAX_ORDER_def top_order_def lessThan_Suc_atMost [symmetric])
  have b: "based z' p" if "unat p < N_PAGES" for p
    using init_pages_based [OF _ that, of z] unfolding assms based_def init_areas_parts by simp
  have F: "fblocks (\<lambda>_. []) = {}" by (simp add: fblocks_def)
  show ?thesis unfolding core_def F
  proof (intro conjI allI ballI impI)
    show "lists (links z') free_ids (\<lambda>_. []) {} id" unfolding assms ids by (rule init_areas_lists)
    show "tiling ({} \<union> boot_blocks) N_PAGES" using boot_tiling by simp
    fix k assume "k \<le> top_order"
    then have "k < MAX_ORDER" by (simp add: MAX_ORDER_def top_order_def)
    then show "nr_free z' k = of_nat (length ([] :: page list))" unfolding assms by (simp add: init_areas_parts)
  qed (use b in \<open>auto simp: coalesced_def boot_blocks_def top_order_def\<close>)
qed

lemma ctz_10: "(\<forall>i < 10. \<not> bit (w :: u32) i) \<Longrightarrow> min (MAX_ORDER - 1) (builtin_ctz w) = 10"
proof -
  assume "\<forall>i < 10. \<not> bit w i"
  then have "takeWhile (\<lambda>i. \<not> bit w i) ([0..<10] @ [10..<32]) = [0..<10] @ takeWhile (\<lambda>i. \<not> bit w i) [10..<32]"
    by (intro takeWhile_append2) auto
  moreover have "[0..<10] @ [10..<32] = [0..<32]" using upt_add_eq_append [of 0 10 22] by (simp del: upt_conv_Nil upt_rec_numeral)
  ultimately have "10 \<le> builtin_ctz w" by (simp add: builtin_ctz_def)
  then show ?thesis by (simp add: MAX_ORDER_def)
qed

lemma init_loop_step:
  assumes "j < 4"
  shows "init_free_loop fell (0x60000 + 1024 * of_nat j) 0x61000 z =
    free_pages fell (1024 * of_nat j) 10 z \<bind> init_free_loop fell (0x60000 + 1024 * of_nat (Suc j)) 0x61000"
proof -
  let ?s = "0x60000 + 1024 * of_nat j :: u32"
  have j: "j = 0 \<or> j = 1 \<or> j = 2 \<or> j = 3" using assms by auto
  have "\<forall>i < 10. \<not> bit ?s i"
  proof (intro allI impI)
    fix i :: nat assume "i < 10"
    have "?s = push_bit 10 (384 + of_nat j)" by (simp add: push_bit_eq_mult algebra_simps)
    then show "\<not> bit ?s i" using \<open>i < 10\<close> by (simp only: bit_push_bit_iff) simp
  qed
  then have o: "min (MAX_ORDER - 1) (builtin_ctz ?s) = 10" by (rule ctz_10)
  have sh: "shrink_order ?s 0x61000 10 = Some 10" using j by (subst shrink_order.simps) auto
  have lt: "?s < 0x61000" using j by auto
  have pg: "pfn_to_page ?s = 1024 * of_nat j" by (simp add: pfn_to_page_def PFN_OFFSET_eq)
  have nx: "?s + push_bit 10 1 = 0x60000 + 1024 * of_nat (Suc j)" by (simp add: algebra_simps)
  show ?thesis
    by (subst init_free_loop.simps) (simp only: lt o sh pg nx if_True Option.bind.bind_lunit)
qed

text \<open>Each of the four passes of the loop frees one block of the highest order.\<close>

lemma boot_free:
  assumes c: "core z free_ids C A {} id" and p: "(unat p, 10) \<in> A" and o: "\<forall>i \<in> free_ids. p \<notin> set (C i)"
  obtains z' C' where "free_pages 0 p 10 z = Some z'" and "core z' free_ids C' (A - {(unat p, 10)}) {} id"
    and "pages_of (fblocks C') = pages_of (fblocks C) \<union> blk (unat p, 10)"
proof -
  have m: "mergeable C free_ids A {} p 10" using p o by (simp add: mergeable_def)
  obtain C' where "core (free_one_page 0 p (page_to_pfn p) 10 z) free_ids C' (A - {(unat p, 10)}) {} id"
    "pages_of (fblocks C') = pages_of (fblocks C) \<union> blk (unat p, 10)" "\<forall>i. i \<notin> free_ids \<longrightarrow> C' i = C i"
    by (rule free_one_page_core [OF c m])
  then show ?thesis using that [of "free_one_page 0 p (page_to_pfn p) 10 z" C']
    by (simp add: free_pages_def free_the_page_def free_pages_ok_def)
qed

lemma boot_loop:
  assumes "core z free_ids C ((\<lambda>i. (1024 * i, 10)) ` {j..<4}) {} id" and "j \<le> 4"
  shows "\<exists>z' C'. init_free_loop 0 (0x60000 + 1024 * of_nat j) 0x61000 z = Some z' \<and> core z' free_ids C' {} {} id"
  using assms
proof (induction "4 - j" arbitrary: j z C)
  case 0
  then have "j = 4" by simp
  then show ?case using "0.prems"(1) by (subst init_free_loop.simps) (auto simp flip: id_def)
next
  case (Suc n)
  have j: "j < 4" using Suc.hyps(2) by simp
  let ?p = "1024 * of_nat j :: page" and ?A = "(\<lambda>i. (1024 * i, 10)) ` {j..<4} :: block set"
  have "j = 0 \<or> j = 1 \<or> j = 2 \<or> j = 3" using j by auto
  then have u: "unat ?p = 1024 * j" by auto
  have p: "(unat ?p, 10) \<in> ?A" using j u by auto
  have "\<forall>i \<in> free_ids. ?p \<notin> set (C i)" using alloc_not_listed [OF Suc.prems(1) p] by blast
  then obtain z1 C1 where z1: "free_pages 0 ?p 10 z = Some z1" "core z1 free_ids C1 (?A - {(unat ?p, 10)}) {} id"
    by (rule boot_free [OF Suc.prems(1) p])
  have "?A - {(unat ?p, 10)} = (\<lambda>i. (1024 * i, 10)) ` {Suc j..<4}" unfolding u by auto
  then show ?case using Suc.hyps(1) [of "Suc j" z1 C1] Suc.hyps(2) z1 init_loop_step [OF j, of 0 z] by auto
qed

lemma pageset_init_parts [simp]:
  "links (pageset_init z) = INIT_LIST_HEAD (links z) pcp_list" "nr_free (pageset_init z) = nr_free z"
  "PageBuddy (pageset_init z) = PageBuddy z" "page_order (pageset_init z) = page_order z" "based (pageset_init z) = based z"
  "pcp_count (pageset_init z) = 0" "pcp_high (pageset_init z) = 12" "pcp_batch (pageset_init z) = 2"
  by (auto simp: pageset_init_def pageset_update_def on_links_def PageBuddy_def page_order_def based_def BATCH_SIZE_def)

lemma memory_init_spec: "\<exists>z' C. memory_init 0 z = Some z' \<and> zone_inv z' C {} \<and> fblocks C = boot_blocks \<and> C Pcp_list = []"
proof -
  let ?zm = "z\<lparr>managed_pages := 4096\<rparr>"
  define z0 where "z0 = fold init_area [0..<MAX_ORDER] (fold (\<lambda>i. init_page (of_nat i)) [0..<N_PAGES] ?zm)"
  have c0: "core z0 free_ids (\<lambda>_. []) boot_blocks {} id" by (rule boot_core [OF z0_def])
  have "{0..<4 :: nat} = {0, 1, 2, 3}" by auto
  then have "boot_blocks = (\<lambda>i. (1024 * i, 10)) ` {0..<4}" by (simp add: boot_blocks_def)
  then obtain z1 C1 where z1: "init_free_loop 0 0x60000 0x61000 z0 = Some z1" "core z1 free_ids C1 {} {} id"
    using boot_loop [of z0 "\<lambda>_. []" 0] c0 by auto
  have nr: "MEMORY_SIZE div PAGE_SIZE = 4096" "PFN_UP PHYS_OFFSET = 0x60000" "PFN_DOWN (PHYS_OFFSET + MEMORY_SIZE) = 0x61000"
    by (simp_all add: MEMORY_SIZE_def PAGE_SIZE_def PAGE_SHIFT_def PFN_UP_def PFN_DOWN_def PHYS_OFFSET_def drop_bit_eq_div word_div_def)
  have "memory_init 0 z = Some (pageset_init z1)"
    unfolding memory_init_def Let_def nr using z1(1) by (simp add: z0_def del: fold_upt_Suc)
  moreover have c2: "core (pageset_init z1) all_ids (C1(Pcp_list := [])) {} {} id"
    by (rule core_private [OF z1(2)])
      (use lists_init [OF coreD(1) [OF z1(2)], of Pcp_list] in \<open>auto simp: all_ids_def\<close>)
  moreover have "pblocks (C1(Pcp_list := [])) = {}" by (simp add: pblocks_def)
  ultimately have inv: "zone_inv (pageset_init z1) (C1(Pcp_list := [])) {}" by (simp add: zone_inv_def)
  have "fblocks (C1(Pcp_list := [])) = boot_blocks"
  proof (rule coalesced_unique)
    show "pages_of (fblocks (C1(Pcp_list := []))) = pages_of boot_blocks"
      using coreD(3) [OF c2] boot_tiling by (simp add: tiling_def)
  qed (use coreD(3,5) [OF c2] boot_tiling in \<open>auto simp: tiling_def coalesced_def boot_blocks_def top_order_def\<close>)
  then show ?thesis using inv \<open>memory_init 0 z = Some (pageset_init z1)\<close> by auto
qed

section \<open>Properties\<close>

text \<open>
  C28: \<open>memory_init\<close>, whatever the memory from \<open>malloc\<close> holds, returns and leaves the allocator in
  its invariant with nothing held: four free blocks of order 10 that cover all 4096 pages (the
  first sixteen of which hold \<open>mem_map\<close> itself), and an empty per-cpu list.
\<close>

theorem buddy_memory_init:
  "\<exists>z' C. memory_init 0 z = Some z' \<and> zone_inv z' C {} \<and> fblocks C = boot_blocks \<and> C Pcp_list = [] \<and> avail C = {..<4096}"
proof -
  obtain z' C where m: "memory_init 0 z = Some z'" "zone_inv z' C {}" "fblocks C = boot_blocks" "C Pcp_list = []"
    using memory_init_spec by blast
  have "avail C = {..<4096}" using avail_complement [OF m(2)] by simp
  then show ?thesis using m by blast
qed

definition zero_zone :: zone where
  "zero_zone = \<lparr>links = \<lparr>nxt = (\<lambda>p. p), prv = (\<lambda>p. p)\<rparr>, page_type = (\<lambda>_. 0), page_private = (\<lambda>_. 0), nr_free = (\<lambda>_. 0),
     pcp_count = 0, pcp_high = 0, pcp_batch = 0, managed_pages = 0\<rparr>"

text \<open>
  C29: an allocation of any order keeps the invariant. A block it returns is aligned to its size,
  was available and is now held, and nothing else changes hands. It fails for a block of several
  pages only when no free list from that order on has a block, and for a single page only when
  no page is available at all.
\<close>

theorem buddy_alloc_correct:
  assumes "zone_inv z C H" and "order \<le> top_order"
  shows "\<exists>r z'. alloc_pages order z = (r, z') \<and>
    (case r of
       None \<Rightarrow> (\<exists>C'. zone_inv z' C' H) \<and>
         (if order = 0 then avail C = {} else z' = z \<and> (\<forall>k. order \<le> k \<longrightarrow> k \<le> top_order \<longrightarrow> C (Free_list k) = []))
     | Some p \<Rightarrow> alloc_ok order C H p z')"
proof -
  obtain r z' where r: "alloc_pages order z = (r, z')" by fastforce
  show ?thesis using alloc_pages_spec [OF assms r] r by blast
qed

lemma boot_top: "fblocks C = boot_blocks \<Longrightarrow> C (Free_list 10) \<noteq> []"
proof
  assume f: "fblocks C = boot_blocks" and e: "C (Free_list 10) = []"
  have "(0, 10) \<in> fblocks C" unfolding f by (simp add: boot_blocks_def)
  then show False using e by (auto simp: fblocks_def)
qed

lemma boot_alloc:
  assumes "order \<noteq> 0" and "order \<le> 10"
  obtains z C p z' where "memory_init 0 zero_zone = Some z" and "zone_inv z C {}" and "fblocks C = boot_blocks"
    and "alloc_pages order z = (Some p, z')" and "alloc_ok order C {} p z'"
proof -
  obtain z C where m: "memory_init 0 zero_zone = Some z" "zone_inv z C {}" "fblocks C = boot_blocks"
    using memory_init_spec by blast
  have ne: "C (Free_list 10) \<noteq> []" by (rule boot_top [OF m(3)])
  have o: "order \<le> top_order" "10 \<le> top_order" using assms(2) by (simp_all add: top_order_def)
  obtain r z' where r: "alloc_pages order z = (r, z')" by fastforce
  note a = alloc_pages_spec [OF m(2) o(1) r]
  show ?thesis
  proof (cases r)
    case None
    then have "C (Free_list 10) = []" using a assms o(2) by simp
    then show ?thesis using ne by simp
  next
    case (Some p)
    then show ?thesis using that [OF m] r a by simp
  qed
qed

theorem buddy_alloc_correct_witness:
  "\<exists>z C p z'. memory_init 0 zero_zone = Some z \<and> alloc_pages 4 z = (Some p, z') \<and> alloc_ok 4 C {} p z'"
proof -
  obtain z C p z' where m: "memory_init 0 zero_zone = Some z" "zone_inv z C {}" "fblocks C = boot_blocks"
    "alloc_pages 4 z = (Some p, z')" "alloc_ok 4 C {} p z'"
    by (rule boot_alloc [of 4]) simp_all
  have "4 \<le> top_order" by (simp add: top_order_def)
  from buddy_alloc_correct [OF m(2) this] have "alloc_ok 4 C {} p z'" using m(4) by auto
  then show ?thesis using m by blast
qed

text \<open>
  The value that \<open>page_is_buddy\<close> leaves where it has no \<open>return\<close> matters only when a block is merged:
  not for a page that stays on the per-cpu list, nor for a block of the highest order.
\<close>

lemma free_pages_any:
  assumes "fell = 0 \<or> order = 0 \<and> pcp_count z + 1 < pcp_high z \<or> order = top_order"
  shows "free_pages fell p order z = free_pages 0 p order z"
  using assms
proof (elim disjE conjE)
  assume "order = 0" "pcp_count z + 1 < pcp_high z"
  then show ?thesis
    by (simp add: free_pages_def free_the_page_def free_unref_page_def free_unref_page_commit_def on_links_def add_pcp_count_def)
next
  assume "order = top_order"
  then show ?thesis
    by (simp add: free_pages_def free_the_page_def free_pages_ok_def free_one_page_def top_order_def MAX_ORDER_def
        pageblock_order_def merge_loop.simps)
qed simp

text \<open>
  C30: giving back a held block returns, keeps the invariant and makes exactly its pages available
  again, provided that \<open>page_is_buddy\<close> leaves 0 where it has no \<open>return\<close>, or that the free merges
  nothing: a single page that stays on the per-cpu list, or a block of the highest order.
\<close>

theorem buddy_free_correct:
  assumes "zone_inv z C H" and "(unat p, order) \<in> H"
    and "fell = 0 \<or> order = 0 \<and> pcp_count z + 1 < pcp_high z \<or> order = top_order"
  shows "\<exists>z' C'. free_pages fell p order z = Some z' \<and> zone_inv z' C' (H - {(unat p, order)}) \<and>
    avail C' = avail C \<union> blk (unat p, order)"
  unfolding free_pages_any [OF assms(3)] using free_pages_spec [OF assms(1,2)] by blast

theorem buddy_free_correct_witness:
  "\<exists>z p z' z'' C. memory_init 0 zero_zone = Some z \<and> alloc_pages 4 z = (Some p, z') \<and> free_pages 0 p 4 z' = Some z'' \<and> zone_inv z'' C {}"
proof -
  obtain z C p z' where m: "memory_init 0 zero_zone = Some z" "zone_inv z C {}" "fblocks C = boot_blocks"
    "alloc_pages 4 z = (Some p, z')" "alloc_ok 4 C {} p z'"
    by (rule boot_alloc [of 4]) simp_all
  then obtain C' where "zone_inv z' C' (insert (unat p, 4) {})" by (auto simp: alloc_ok_def)
  from buddy_free_correct [OF this, of p 4 0] show ?thesis using m by auto
qed

text \<open>
  C31: allocating a block of several pages and giving it back restores the set of free blocks
  exactly: whatever was split is merged again, and nothing else is. This supposes that
  \<open>page_is_buddy\<close> leaves 0 where it has no \<open>return\<close>.
\<close>

theorem buddy_alloc_free_restores:
  assumes "zone_inv z C H" and "order \<noteq> 0" and "order \<le> top_order" and "alloc_pages order z = (Some p, z1)" and "fell = 0"
  shows "\<exists>z2 C2. free_pages fell p order z1 = Some z2 \<and> zone_inv z2 C2 H \<and> fblocks C2 = fblocks C"
proof -
  obtain C1 where C1: "zone_inv z1 C1 (insert (unat p, order) H)" "avail C1 = avail C - blk (unat p, order)"
    "C1 Pcp_list = C Pcp_list" and sub: "blk (unat p, order) \<subseteq> avail C"
    using alloc_pages_spec [OF assms(1,3,4)] assms(2) by (auto simp: alloc_ok_def)
  have "(unat p, order) \<notin> H"
  proof
    assume "(unat p, order) \<in> H"
    then have "unat p \<in> pages_of H" by (force simp: in_pages_of)
    moreover have "unat p \<in> avail C" by (rule subsetD [OF sub head_in_blk])
    ultimately show False using avail_complement [OF assms(1)] by simp
  qed
  then have H: "insert (unat p, order) H - {(unat p, order)} = H" by simp
  obtain z2 C2 where C2: "free_pages 0 p order z1 = Some z2" "zone_inv z2 C2 H" "avail C2 = avail C1 \<union> blk (unat p, order)"
    "C2 Pcp_list = C1 Pcp_list"
    using free_pages_spec [OF C1(1), of p order] assms(2) unfolding H by auto
  have pg: "pages_of (fblocks D) = {..<N_PAGES} - pages_of H - pages_of (pblocks D)" if "zone_inv z D H" for z D
  proof -
    have "fblocks D \<inter> pblocks D = {}" "tiling (fblocks D \<union> (H \<union> pblocks D)) N_PAGES"
      using that coreD(3,4) unfolding zone_inv_def by blast+
    then have "pages_of (fblocks D) \<inter> pages_of (pblocks D) = {}"
      using tiling_unique unfolding pages_of_def by blast
    then show ?thesis using avail_complement [OF that] unfolding avail_def by blast
  qed
  have "pblocks C2 = pblocks C" using C2(4) C1(3) by (simp add: pblocks_def)
  then have "pages_of (fblocks C2) = pages_of (fblocks C)" unfolding pg [OF C2(2)] pg [OF assms(1)] by simp
  moreover have free: "(\<forall>b \<in> fblocks D. aligned b) \<and> disjoint_set (fblocks D) \<and> coalesced (fblocks D)" if "zone_inv z D H" for z D
  proof -
    have c: "core z all_ids D (H \<union> pblocks D) {} id" using that by (simp add: zone_inv_def)
    then show ?thesis using coreD(3,5) [OF c] disjoint_set_subset unfolding tiling_def by blast
  qed
  ultimately have "fblocks C2 = fblocks C"
    using free [OF C2(2)] free [OF assms(1)] by (intro coalesced_unique) simp_all
  then show ?thesis using C2 assms(5) by blast
qed

theorem buddy_alloc_free_restores_witness:
  "\<exists>z p z1 z2 C2. memory_init 0 zero_zone = Some z \<and> alloc_pages 3 z = (Some p, z1) \<and> free_pages 0 p 3 z1 = Some z2 \<and>
     zone_inv z2 C2 {} \<and> fblocks C2 = boot_blocks"
proof -
  obtain z C p z1 where m: "memory_init 0 zero_zone = Some z" "zone_inv z C {}" "fblocks C = boot_blocks"
    "alloc_pages 3 z = (Some p, z1)" "alloc_ok 3 C {} p z1"
    by (rule boot_alloc [of 3]) simp_all
  have "(3 :: nat) \<noteq> 0" "3 \<le> top_order" by (simp_all add: top_order_def)
  from buddy_alloc_free_restores [OF m(2) this m(4) refl] show ?thesis using m by auto
qed

text \<open>
  The states a client can reach, with the blocks it holds; \<open>fell\<close> is what \<open>page_is_buddy\<close> leaves where
  it has no \<open>return\<close>.
\<close>

inductive buddy_run :: "int \<Rightarrow> zone \<Rightarrow> block set \<Rightarrow> bool" for fell where
  boot: "memory_init fell z0 = Some z \<Longrightarrow> buddy_run fell z {}"
| alloc: "buddy_run fell z H \<Longrightarrow> order \<le> top_order \<Longrightarrow> alloc_pages order z = (Some p, z') \<Longrightarrow>
    buddy_run fell z' (insert (unat p, order) H)"
| alloc_fail: "buddy_run fell z H \<Longrightarrow> order \<le> top_order \<Longrightarrow> alloc_pages order z = (None, z') \<Longrightarrow> buddy_run fell z' H"
| free: "buddy_run fell z H \<Longrightarrow> (unat p, order) \<in> H \<Longrightarrow> free_pages fell p order z = Some z' \<Longrightarrow>
    buddy_run fell z' (H - {(unat p, order)})"

lemma buddy_run_inv: "buddy_run 0 z H \<Longrightarrow> \<exists>C. zone_inv z C H"
proof (induction rule: buddy_run.induct)
  case (boot z0 z)
  then show ?case using memory_init_spec [of z0] by auto
next
  case (alloc z H order p z')
  then obtain C where "zone_inv z C H" by blast
  from alloc_pages_spec [OF this alloc(2,3)] show ?case by (auto simp: alloc_ok_def)
next
  case (alloc_fail z H order z')
  then obtain C where "zone_inv z C H" by blast
  from alloc_pages_spec [OF this alloc_fail(2,3)] show ?case by auto
next
  case (free z H p order z')
  then obtain C where "zone_inv z C H" by blast
  from free_pages_spec [OF this free(2)] show ?case using free(3) by auto
qed

text \<open>
  C32: provided that \<open>page_is_buddy\<close> leaves 0 where it has no \<open>return\<close>, after any sequence of
  allocations and frees the blocks a client holds are aligned,
  pairwise disjoint and inside the memory, every page it does not hold is available, the number
  of pages kept on the per-cpu list stays below its high mark, and every further free of a
  held block returns.
\<close>

theorem buddy_clients:
  assumes "buddy_run fell z H" and "fell = 0"
  shows "disjoint_set H \<and> (\<forall>b \<in> H. aligned b \<and> blk b \<subseteq> {..<4096}) \<and> (\<exists>C. zone_inv z C H \<and> avail C = {..<4096} - pages_of H) \<and>
    pcp_count z < pcp_high z \<and> (\<forall>p order. (unat p, order) \<in> H \<longrightarrow> (\<exists>z'. free_pages fell p order z = Some z'))"
proof -
  obtain C where inv: "zone_inv z C H" using buddy_run_inv assms by blast
  then have c: "core z all_ids C (H \<union> pblocks C) {} id" by (simp add: zone_inv_def)
  have "disjoint_set H" "\<forall>b \<in> H. aligned b \<and> blk b \<subseteq> {..<4096}"
    using coreD(3) [OF c] disjoint_set_subset unfolding tiling_def pages_of_def by blast+
  moreover have "pcp_count z < pcp_high z" using inv by (simp add: zone_inv_def)
  ultimately show ?thesis using avail_complement [OF inv] inv free_pages_spec [OF inv] assms(2) by blast
qed

theorem buddy_clients_witness:
  "\<exists>z p z'. buddy_run 0 z {(unat p, 4)} \<and> free_pages 0 p 4 z = Some z' \<and> buddy_run 0 z' {} \<and> aligned (unat p, 4) \<and>
     (\<exists>C. avail C = {..<4096} - blk (unat p, 4) \<and> zone_inv z C {(unat p, 4)}) \<and> (\<exists>C. avail C = {..<4096} \<and> zone_inv z' C {})"
proof -
  obtain z0 C p z where m: "memory_init 0 zero_zone = Some z0" "zone_inv z0 C {}" "fblocks C = boot_blocks"
    "alloc_pages 4 z0 = (Some p, z)" "alloc_ok 4 C {} p z"
    by (rule boot_alloc [of 4]) simp_all
  have r: "buddy_run 0 z {(unat p, 4)}"
    using buddy_run.alloc [OF buddy_run.boot [OF m(1)] _ m(4)] by (simp add: top_order_def)
  obtain z' where z': "free_pages 0 p 4 z = Some z'"
    using buddy_clients [OF r refl] by auto
  have r': "buddy_run 0 z' {}"
    using buddy_run.free [OF r _ z'] by simp
  show ?thesis
    using buddy_clients [OF r refl] buddy_clients [OF r' refl] r r' z' by (auto simp: pages_of_def)
qed

end
