(* ===== verification/Rb_Tree.thy ===== *)
theory Rb_Tree
  imports Prelude
begin

text \<open>
  The intrusive red-black tree of \<open>Algorithem/tree/rb-tree/Basic\<close>: \<open>rbtree.h\<close>,
  \<open>rbtree.c\<close> and the insertion routine of \<open>rb_run.c\<close>. A pointer is its 64-bit
  address, \<open>NULL\<close> is 0, and the memory keeps one function per field of
  \<open>struct rb_node\<close>; the colour lives in the low bits of \<open>__rb_parent_color\<close>
  exactly as in the source. Loops that walk along pointers are partial functions into
  \<open>option\<close>, so that a walk that does not end has the value \<open>None\<close>.
\<close>

section \<open>Memory\<close>

record rb_mem =
  rb_parent_color :: "ulong \<Rightarrow> ulong"
  rb_right :: "ulong \<Rightarrow> ulong"
  rb_left :: "ulong \<Rightarrow> ulong"
  rb_node :: ulong
  rb_leftmost :: ulong

text \<open>Assignments to \<open>p->__rb_parent_color\<close>, \<open>p->rb_right\<close>, \<open>p->rb_left\<close> and \<open>root->rb_node\<close>.\<close>

definition put_pc :: "rb_mem \<Rightarrow> ulong \<Rightarrow> ulong \<Rightarrow> rb_mem" where
  "put_pc m p v = m\<lparr>rb_parent_color := (rb_parent_color m)(p := v)\<rparr>"

definition put_right :: "rb_mem \<Rightarrow> ulong \<Rightarrow> ulong \<Rightarrow> rb_mem" where
  "put_right m p v = m\<lparr>rb_right := (rb_right m)(p := v)\<rparr>"

definition put_left :: "rb_mem \<Rightarrow> ulong \<Rightarrow> ulong \<Rightarrow> rb_mem" where
  "put_left m p v = m\<lparr>rb_left := (rb_left m)(p := v)\<rparr>"

definition put_root :: "rb_mem \<Rightarrow> ulong \<Rightarrow> rb_mem" where
  "put_root m v = m\<lparr>rb_node := v\<rparr>"

text \<open>A \<open>struct rb_node **\<close> is the address of one of the three kinds of link.\<close>

datatype rb_link = Root_link | Left_link ulong | Right_link ulong

fun link_get :: "rb_mem \<Rightarrow> rb_link \<Rightarrow> ulong" where
  "link_get m Root_link = rb_node m"
| "link_get m (Left_link p) = rb_left m p"
| "link_get m (Right_link p) = rb_right m p"

fun link_put :: "rb_mem \<Rightarrow> rb_link \<Rightarrow> ulong \<Rightarrow> rb_mem" where
  "link_put m Root_link v = put_root m v"
| "link_put m (Left_link p) v = put_left m p v"
| "link_put m (Right_link p) v = put_right m p v"

section \<open>Macros and inline functions of rbtree.h\<close>

definition RB_RED :: ulong where "RB_RED = 0"

definition RB_BLACK :: ulong where "RB_BLACK = 1"

definition pc_parent :: "ulong \<Rightarrow> ulong" where
  "pc_parent pc = pc AND NOT 3"

definition pc_color :: "ulong \<Rightarrow> ulong" where
  "pc_color pc = pc AND 1"

definition pc_is_black :: "ulong \<Rightarrow> bool" where
  "pc_is_black pc \<longleftrightarrow> pc_color pc \<noteq> 0"

definition pc_is_red :: "ulong \<Rightarrow> bool" where
  "pc_is_red pc \<longleftrightarrow> \<not> pc_color pc \<noteq> 0"

definition rb_parent :: "rb_mem \<Rightarrow> ulong \<Rightarrow> ulong" where
  "rb_parent m r = rb_parent_color m r AND NOT 3"

definition rb_color :: "rb_mem \<Rightarrow> ulong \<Rightarrow> ulong" where
  "rb_color m rb = pc_color (rb_parent_color m rb)"

definition rb_is_red :: "rb_mem \<Rightarrow> ulong \<Rightarrow> bool" where
  "rb_is_red m rb = pc_is_red (rb_parent_color m rb)"

definition rb_is_black :: "rb_mem \<Rightarrow> ulong \<Rightarrow> bool" where
  "rb_is_black m rb = pc_is_black (rb_parent_color m rb)"

definition RB_EMPTY_ROOT :: "rb_mem \<Rightarrow> bool" where
  "RB_EMPTY_ROOT m \<longleftrightarrow> rb_node m = 0"

definition RB_EMPTY_NODE :: "rb_mem \<Rightarrow> ulong \<Rightarrow> bool" where
  "RB_EMPTY_NODE m node \<longleftrightarrow> rb_parent_color m node = node"

definition RB_CLEAR_NODE :: "rb_mem \<Rightarrow> ulong \<Rightarrow> rb_mem" where
  "RB_CLEAR_NODE m node = put_pc m node node"

definition rb_link_node :: "rb_mem \<Rightarrow> ulong \<Rightarrow> ulong \<Rightarrow> rb_link \<Rightarrow> rb_mem" where
  "rb_link_node m node parent rb_link =
     (let m = put_pc m node parent;
          m = put_right m node 0;
          m = put_left m node (rb_right m node)
      in link_put m rb_link node)"

definition rb_set_parent_color :: "rb_mem \<Rightarrow> ulong \<Rightarrow> ulong \<Rightarrow> ulong \<Rightarrow> rb_mem" where
  "rb_set_parent_color m rb p color = put_pc m rb (p OR color)"

definition rb_change_child :: "rb_mem \<Rightarrow> ulong \<Rightarrow> ulong \<Rightarrow> ulong \<Rightarrow> rb_mem" where
  "rb_change_child m old new parent =
     (if parent \<noteq> 0
      then if rb_left m parent = old then put_left m parent new
           else put_right m parent new
      else put_root m new)"

definition rb_set_parent :: "rb_mem \<Rightarrow> ulong \<Rightarrow> ulong \<Rightarrow> rb_mem" where
  "rb_set_parent m rb p = put_pc m rb (rb_color m rb OR p)"

text \<open>The augmentation callbacks act on the memory; the plain tree passes the dummies.\<close>

record rb_augment_callbacks =
  aug_propagate :: "ulong \<Rightarrow> ulong \<Rightarrow> rb_mem \<Rightarrow> rb_mem"
  aug_copy :: "ulong \<Rightarrow> ulong \<Rightarrow> rb_mem \<Rightarrow> rb_mem"
  aug_rotate :: "ulong \<Rightarrow> ulong \<Rightarrow> rb_mem \<Rightarrow> rb_mem"

definition dummy_propagate :: "ulong \<Rightarrow> ulong \<Rightarrow> rb_mem \<Rightarrow> rb_mem" where
  "dummy_propagate node stop m = m"

definition dummy_copy :: "ulong \<Rightarrow> ulong \<Rightarrow> rb_mem \<Rightarrow> rb_mem" where
  "dummy_copy old new m = m"

definition dummy_rotate :: "ulong \<Rightarrow> ulong \<Rightarrow> rb_mem \<Rightarrow> rb_mem" where
  "dummy_rotate old new m = m"

definition dummy_callbacks :: rb_augment_callbacks where
  "dummy_callbacks =
     \<lparr>aug_propagate = dummy_propagate, aug_copy = dummy_copy, aug_rotate = dummy_rotate\<rparr>"

section \<open>Insertion\<close>

definition rb_set_black :: "rb_mem \<Rightarrow> ulong \<Rightarrow> rb_mem" where
  "rb_set_black m rb = put_pc m rb (rb_parent_color m rb OR RB_BLACK)"

definition rb_red_parent :: "rb_mem \<Rightarrow> ulong \<Rightarrow> ulong" where
  "rb_red_parent m red = rb_parent_color m red"

definition rb_rotate_set_parents :: "rb_mem \<Rightarrow> ulong \<Rightarrow> ulong \<Rightarrow> ulong \<Rightarrow> rb_mem" where
  "rb_rotate_set_parents m old new color =
     (let parent = rb_parent m old;
          m = put_pc m new (rb_parent_color m old);
          m = rb_set_parent_color m old new color
      in rb_change_child m old new parent)"

text \<open>
  One iteration of the loop of \<open>__rb_insert\<close> below a red parent, for the parent on the left
  and on the right of its own parent. The result holds the next \<open>node\<close> and \<open>parent\<close>
  when the iteration ends in \<open>continue\<close> or falls through to the next round, and \<open>None\<close>
  on \<open>break\<close>. The right-hand side of the source has no \<open>break\<close> after its rotation.
\<close>

type_synonym rb_round = "rb_mem \<times> (ulong \<times> ulong) option"

definition rb_insert_left ::
  "(ulong \<Rightarrow> ulong \<Rightarrow> rb_mem \<Rightarrow> rb_mem) \<Rightarrow> rb_mem \<Rightarrow> ulong \<Rightarrow> ulong \<Rightarrow> ulong \<Rightarrow> ulong \<Rightarrow> rb_round" where
  "rb_insert_left augment_rotate m node parent gparent tmp =
     (if tmp \<noteq> 0 \<and> rb_is_red m tmp then
        let m = rb_set_parent_color m tmp gparent RB_BLACK;
            m = rb_set_parent_color m parent gparent RB_BLACK;
            node = gparent;
            parent = rb_parent m node;
            m = rb_set_parent_color m node parent RB_RED
        in (m, Some (node, parent))
      else
        let tmp = rb_right m parent;
            (m, parent, tmp) =
              (if node = tmp then
                 let tmp = rb_left m node;
                     m = put_right m parent tmp;
                     m = put_left m node parent;
                     m = (if tmp \<noteq> 0 then rb_set_parent_color m tmp parent RB_BLACK else m);
                     m = rb_set_parent_color m parent node RB_RED;
                     m = augment_rotate parent node m
                 in (m, node, rb_right m node)
               else (m, parent, tmp));
            m = put_left m gparent tmp;
            m = put_right m parent gparent;
            m = (if tmp \<noteq> 0 then rb_set_parent_color m tmp gparent RB_BLACK else m);
            m = rb_rotate_set_parents m gparent parent RB_RED;
            m = augment_rotate gparent parent m
        in (m, None))"

definition rb_insert_right ::
  "(ulong \<Rightarrow> ulong \<Rightarrow> rb_mem \<Rightarrow> rb_mem) \<Rightarrow> rb_mem \<Rightarrow> ulong \<Rightarrow> ulong \<Rightarrow> ulong \<Rightarrow> rb_round" where
  "rb_insert_right augment_rotate m node parent gparent =
     (let tmp = rb_left m gparent in
      if tmp \<noteq> 0 \<and> rb_is_red m tmp then
        let m = rb_set_parent_color m tmp gparent RB_BLACK;
            m = rb_set_parent_color m parent gparent RB_BLACK;
            node = gparent;
            parent = rb_parent m node;
            m = rb_set_parent_color m node parent RB_RED
        in (m, Some (node, parent))
      else
        let tmp = rb_left m parent;
            (m, parent, tmp) =
              (if node = tmp then
                 let tmp = rb_right m node;
                     m = put_left m parent tmp;
                     m = put_right m node parent;
                     m = (if tmp \<noteq> 0 then rb_set_parent_color m tmp parent RB_BLACK else m);
                     m = rb_set_parent_color m parent node RB_RED;
                     m = augment_rotate parent node m
                 in (m, node, rb_left m node)
               else (m, parent, tmp));
            m = put_right m gparent tmp;
            m = put_left m parent gparent;
            m = (if tmp \<noteq> 0 then rb_set_parent_color m tmp gparent RB_BLACK else m);
            m = rb_rotate_set_parents m gparent parent RB_RED;
            m = augment_rotate gparent parent m
        in (m, Some (node, parent)))"

partial_function (option) rb_insert_loop ::
  "(ulong \<Rightarrow> ulong \<Rightarrow> rb_mem \<Rightarrow> rb_mem) \<Rightarrow> rb_mem \<Rightarrow> ulong \<Rightarrow> ulong \<Rightarrow> rb_mem option" where
  "rb_insert_loop augment_rotate m node parent =
     (if parent = 0 then Some (rb_set_parent_color m node 0 RB_BLACK)
      else if rb_is_black m parent then Some m
      else
        let gparent = rb_red_parent m parent;
            tmp = rb_right m gparent
        in case (if parent \<noteq> tmp then rb_insert_left augment_rotate m node parent gparent tmp
                 else rb_insert_right augment_rotate m node parent gparent) of
             (m, None) \<Rightarrow> Some m
           | (m, Some (node, parent)) \<Rightarrow> rb_insert_loop augment_rotate m node parent)"

definition rb_insert ::
  "rb_mem \<Rightarrow> ulong \<Rightarrow> bool \<Rightarrow> (ulong \<Rightarrow> ulong \<Rightarrow> rb_mem \<Rightarrow> rb_mem) \<Rightarrow> rb_mem option" where
  "rb_insert m node newleft augment_rotate =
     (let parent = rb_red_parent m node;
          m = (if newleft then m\<lparr>rb_leftmost := node\<rparr> else m)
      in rb_insert_loop augment_rotate m node parent)"

definition rb_insert_color :: "rb_mem \<Rightarrow> ulong \<Rightarrow> rb_mem option" where
  "rb_insert_color m node = rb_insert m node False dummy_rotate"

section \<open>Walking through the tree\<close>

partial_function (option) walk_left :: "rb_mem \<Rightarrow> ulong \<Rightarrow> ulong option" where
  "walk_left m n = (if rb_left m n \<noteq> 0 then walk_left m (rb_left m n) else Some n)"

partial_function (option) walk_right :: "rb_mem \<Rightarrow> ulong \<Rightarrow> ulong option" where
  "walk_right m n = (if rb_right m n \<noteq> 0 then walk_right m (rb_right m n) else Some n)"

definition rb_first :: "rb_mem \<Rightarrow> ulong option" where
  "rb_first m = (let n = rb_node m in if n = 0 then Some 0 else walk_left m n)"

definition rb_last :: "rb_mem \<Rightarrow> ulong option" where
  "rb_last m = (let n = rb_node m in if n = 0 then Some 0 else walk_right m n)"

partial_function (option) up_while_right :: "rb_mem \<Rightarrow> ulong \<Rightarrow> ulong option" where
  "up_while_right m node =
     (let parent = rb_parent m node in
      if parent \<noteq> 0 \<and> node = rb_right m parent then up_while_right m parent else Some parent)"

partial_function (option) up_while_left :: "rb_mem \<Rightarrow> ulong \<Rightarrow> ulong option" where
  "up_while_left m node =
     (let parent = rb_parent m node in
      if parent \<noteq> 0 \<and> node = rb_left m parent then up_while_left m parent else Some parent)"

definition rb_next :: "rb_mem \<Rightarrow> ulong \<Rightarrow> ulong option" where
  "rb_next m node =
     (if RB_EMPTY_NODE m node then Some 0
      else if rb_right m node \<noteq> 0 then walk_left m (rb_right m node)
      else up_while_right m node)"

definition rb_prev :: "rb_mem \<Rightarrow> ulong \<Rightarrow> ulong option" where
  "rb_prev m node =
     (if RB_EMPTY_NODE m node then Some 0
      else if rb_left m node \<noteq> 0 then walk_right m (rb_left m node)
      else up_while_left m node)"

definition rb_replace_node :: "rb_mem \<Rightarrow> ulong \<Rightarrow> ulong \<Rightarrow> rb_mem" where
  "rb_replace_node m victim new =
     (let parent = rb_parent m victim;
          m = put_pc m new (rb_parent_color m victim);
          m = put_right m new (rb_right m victim);
          m = put_left m new (rb_left m victim);
          m = (if rb_left m victim \<noteq> 0 then rb_set_parent m (rb_left m victim) new else m);
          m = (if rb_right m victim \<noteq> 0 then rb_set_parent m (rb_right m victim) new else m)
      in rb_change_child m victim new parent)"

partial_function (option) rb_left_deepest_node :: "rb_mem \<Rightarrow> ulong \<Rightarrow> ulong option" where
  "rb_left_deepest_node m node =
     (if rb_left m node \<noteq> 0 then rb_left_deepest_node m (rb_left m node)
      else if rb_right m node \<noteq> 0 then rb_left_deepest_node m (rb_right m node)
      else Some node)"

definition rb_next_postorder :: "rb_mem \<Rightarrow> ulong \<Rightarrow> ulong option" where
  "rb_next_postorder m node =
     (if node = 0 then Some 0 else
      let parent = rb_parent m node in
      if parent \<noteq> 0 \<and> node = rb_left m parent \<and> rb_right m parent \<noteq> 0
      then rb_left_deepest_node m (rb_right m parent)
      else Some parent)"

definition rb_first_postorder :: "rb_mem \<Rightarrow> ulong option" where
  "rb_first_postorder m =
     (if rb_node m = 0 then Some 0 else rb_left_deepest_node m (rb_node m))"

text \<open>
  The two loops over a whole tree, with the visited nodes in order: the loop of \<open>main\<close> over
  \<open>rb_first\<close> and \<open>rb_next\<close>, its mirror image, and
  \<open>rbtree_postorder_for_each_entry_safe\<close>, whose body may overwrite the current node.
\<close>

partial_function (option) rb_next_loop :: "rb_mem \<Rightarrow> ulong \<Rightarrow> ulong list option" where
  "rb_next_loop m node =
     (if node = 0 then Some [] else
      Option.bind (rb_next m node) (\<lambda>n.
      Option.bind (rb_next_loop m n) (\<lambda>ns. Some (node # ns))))"

definition rb_for_each :: "rb_mem \<Rightarrow> ulong list option" where
  "rb_for_each m = Option.bind (rb_first m) (rb_next_loop m)"

partial_function (option) postorder_loop ::
  "(ulong \<Rightarrow> rb_mem \<Rightarrow> rb_mem) \<Rightarrow> rb_mem \<Rightarrow> ulong \<Rightarrow> (ulong list \<times> rb_mem) option" where
  "postorder_loop body m pos =
     (if pos = 0 then Some ([], m) else
      Option.bind (rb_next_postorder m pos) (\<lambda>n.
      Option.bind (postorder_loop body (body pos m) n) (\<lambda>r. Some (pos # fst r, snd r))))"

definition rbtree_postorder_for_each_entry_safe ::
  "(ulong \<Rightarrow> rb_mem \<Rightarrow> rb_mem) \<Rightarrow> rb_mem \<Rightarrow> (ulong list \<times> rb_mem) option" where
  "rbtree_postorder_for_each_entry_safe body m =
     Option.bind (rb_first_postorder m) (postorder_loop body m)"

section \<open>Removal\<close>

text \<open>The \<open>do\<close> loop that finds the successor below the right child.\<close>

partial_function (option) erase_successor :: "rb_mem \<Rightarrow> ulong \<Rightarrow> ulong \<Rightarrow> (ulong \<times> ulong) option" where
  "erase_successor m successor tmp =
     (let parent = successor;
          successor = tmp;
          tmp = rb_left m tmp
      in if tmp \<noteq> 0 then erase_successor m successor tmp else Some (parent, successor))"

text \<open>
  \<open>cached\<close> says that the \<open>leftmost\<close> argument is not \<open>NULL\<close>. The result is the memory
  and the \<open>rebalance\<close> pointer.
\<close>

definition rb_erase_one_child ::
  "rb_mem \<Rightarrow> ulong \<Rightarrow> ulong \<Rightarrow> rb_mem \<times> ulong \<times> ulong" where
  "rb_erase_one_child m node child =
     (let pc = rb_parent_color m node;
          parent = pc_parent pc;
          m = rb_change_child m node child parent
      in if child \<noteq> 0 then (put_pc m child pc, 0, parent)
         else (m, if pc_is_black pc then parent else 0, parent))"

definition rb_erase_left_child ::
  "rb_mem \<Rightarrow> ulong \<Rightarrow> ulong \<Rightarrow> rb_mem \<times> ulong \<times> ulong" where
  "rb_erase_left_child m node tmp =
     (let pc = rb_parent_color m node;
          m = put_pc m tmp pc;
          parent = pc_parent pc;
          m = rb_change_child m node tmp parent
      in (m, 0, parent))"

definition rb_erase_two_children ::
  "rb_augment_callbacks \<Rightarrow> rb_mem \<Rightarrow> ulong \<Rightarrow> ulong \<Rightarrow> (rb_mem \<times> ulong \<times> ulong) option" where
  "rb_erase_two_children augment m node child =
     Option.bind
       (let successor = child;
            tmp = rb_left m child
        in if tmp = 0 then
             let parent = successor;
                 child2 = rb_right m successor;
                 m = aug_copy augment node successor m
             in Some (m, parent, successor, child2)
           else
             Option.bind (erase_successor m successor tmp) (\<lambda>(parent, successor).
             let child2 = rb_right m successor;
                 m = put_left m parent child2;
                 m = put_right m successor child;
                 m = rb_set_parent m child successor;
                 m = aug_copy augment node successor m;
                 m = aug_propagate augment parent successor m
             in Some (m, parent, successor, child2)))
       (\<lambda>(m, parent, successor, child2).
        let tmp = rb_left m node;
            m = put_left m successor tmp;
            m = rb_set_parent m tmp successor;
            pc = rb_parent_color m node;
            tmp = pc_parent pc;
            m = rb_change_child m node successor tmp
        in if child2 \<noteq> 0 then
             let m = put_pc m successor pc;
                 m = rb_set_parent_color m child2 parent RB_BLACK
             in Some (m, 0, successor)
           else
             let pc2 = rb_parent_color m successor;
                 m = put_pc m successor pc;
                 rebalance = (if pc_is_black pc2 then parent else 0)
             in Some (m, rebalance, successor))"

definition rb_erase_augmented ::
  "rb_mem \<Rightarrow> ulong \<Rightarrow> bool \<Rightarrow> rb_augment_callbacks \<Rightarrow> (rb_mem \<times> ulong) option" where
  "rb_erase_augmented m node cached augment =
     (let child = rb_right m node;
          tmp = rb_left m node
      in Option.bind
           (if cached \<and> node = rb_leftmost m
            then Option.bind (rb_next m node) (\<lambda>n. Some (m\<lparr>rb_leftmost := n\<rparr>)) else Some m)
           (\<lambda>m. Option.bind
              (if tmp = 0 then Some (rb_erase_one_child m node child)
               else if child = 0 then Some (rb_erase_left_child m node tmp)
               else rb_erase_two_children augment m node child)
              (\<lambda>(m, rebalance, tmp). Some (aug_propagate augment tmp 0 m, rebalance))))"

text \<open>
  One iteration of the loop of \<open>____rb_erase_color\<close>, for the short subtree on the left and
  on the right of \<open>parent\<close>: the rotation that turns a red sibling into a black one (case 1),
  the recolouring (case 2), the rotation at the sibling (case 3) and the final rotation (case 4).
\<close>

definition rb_erase_sibling_left ::
  "(ulong \<Rightarrow> ulong \<Rightarrow> rb_mem \<Rightarrow> rb_mem) \<Rightarrow> rb_mem \<Rightarrow> ulong \<Rightarrow> ulong \<Rightarrow> rb_mem \<times> ulong" where
  "rb_erase_sibling_left augment_rotate m parent sibling =
     (if rb_is_red m sibling then
        let tmp1 = rb_left m sibling;
            m = put_right m parent tmp1;
            m = put_left m sibling parent;
            m = rb_set_parent_color m tmp1 parent RB_BLACK;
            m = rb_rotate_set_parents m parent sibling RB_RED;
            m = augment_rotate parent sibling m
        in (m, tmp1)
      else (m, sibling))"

definition rb_erase_flip_left :: "rb_mem \<Rightarrow> ulong \<Rightarrow> ulong \<Rightarrow> rb_round" where
  "rb_erase_flip_left m parent sibling =
     (let m = rb_set_parent_color m sibling parent RB_RED in
      if rb_is_red m parent then (rb_set_black m parent, None)
      else
        let node = parent;
            parent = rb_parent m node
        in if parent \<noteq> 0 then (m, Some (node, parent)) else (m, None))"

definition rb_erase_rotate_left ::
  "(ulong \<Rightarrow> ulong \<Rightarrow> rb_mem \<Rightarrow> rb_mem) \<Rightarrow> rb_mem \<Rightarrow> ulong \<Rightarrow> ulong \<Rightarrow> ulong \<Rightarrow> rb_round" where
  "rb_erase_rotate_left augment_rotate m parent sibling tmp1 =
     (let tmp2 = rb_left m sibling;
          m = put_right m parent tmp2;
          m = put_left m sibling parent;
          m = rb_set_parent_color m tmp1 sibling RB_BLACK;
          m = (if tmp2 \<noteq> 0 then rb_set_parent m tmp2 parent else m);
          m = rb_rotate_set_parents m parent sibling RB_BLACK;
          m = augment_rotate parent sibling m
      in (m, None))"

definition rb_erase_black_left ::
  "(ulong \<Rightarrow> ulong \<Rightarrow> rb_mem \<Rightarrow> rb_mem) \<Rightarrow> rb_mem \<Rightarrow> ulong \<Rightarrow> ulong \<Rightarrow> rb_round" where
  "rb_erase_black_left augment_rotate m parent sibling =
     (let tmp1 = rb_right m sibling in
      if tmp1 = 0 \<or> rb_is_black m tmp1 then
        let tmp2 = rb_left m sibling in
        if tmp2 = 0 \<or> rb_is_black m tmp2 then rb_erase_flip_left m parent sibling
        else
          let tmp1 = rb_right m tmp2;
              m = put_left m sibling tmp1;
              m = put_right m tmp2 sibling;
              m = put_right m parent tmp2;
              m = (if tmp1 \<noteq> 0 then rb_set_parent_color m tmp1 sibling RB_BLACK else m);
              m = augment_rotate sibling tmp2 m;
              tmp1 = sibling;
              sibling = tmp2
          in rb_erase_rotate_left augment_rotate m parent sibling tmp1
      else rb_erase_rotate_left augment_rotate m parent sibling tmp1)"

definition rb_erase_sibling_right ::
  "(ulong \<Rightarrow> ulong \<Rightarrow> rb_mem \<Rightarrow> rb_mem) \<Rightarrow> rb_mem \<Rightarrow> ulong \<Rightarrow> ulong \<Rightarrow> rb_mem \<times> ulong" where
  "rb_erase_sibling_right augment_rotate m parent sibling =
     (if rb_is_red m sibling then
        let tmp1 = rb_right m sibling;
            m = put_left m parent tmp1;
            m = put_right m sibling parent;
            m = rb_set_parent_color m tmp1 parent RB_BLACK;
            m = rb_rotate_set_parents m parent sibling RB_RED;
            m = augment_rotate parent sibling m
        in (m, tmp1)
      else (m, sibling))"

definition rb_erase_flip_right :: "rb_mem \<Rightarrow> ulong \<Rightarrow> ulong \<Rightarrow> rb_round" where
  "rb_erase_flip_right m parent sibling =
     (let m = rb_set_parent_color m sibling parent RB_RED in
      if rb_is_red m parent then (rb_set_black m parent, None)
      else
        let node = parent;
            parent = rb_parent m node
        in if parent \<noteq> 0 then (m, Some (node, parent)) else (m, None))"

definition rb_erase_rotate_right ::
  "(ulong \<Rightarrow> ulong \<Rightarrow> rb_mem \<Rightarrow> rb_mem) \<Rightarrow> rb_mem \<Rightarrow> ulong \<Rightarrow> ulong \<Rightarrow> ulong \<Rightarrow> rb_round" where
  "rb_erase_rotate_right augment_rotate m parent sibling tmp1 =
     (let tmp2 = rb_right m sibling;
          m = put_left m parent tmp2;
          m = put_right m sibling parent;
          m = rb_set_parent_color m tmp1 sibling RB_BLACK;
          m = (if tmp2 \<noteq> 0 then rb_set_parent m tmp2 parent else m);
          m = rb_rotate_set_parents m parent sibling RB_BLACK;
          m = augment_rotate parent sibling m
      in (m, None))"

definition rb_erase_black_right ::
  "(ulong \<Rightarrow> ulong \<Rightarrow> rb_mem \<Rightarrow> rb_mem) \<Rightarrow> rb_mem \<Rightarrow> ulong \<Rightarrow> ulong \<Rightarrow> rb_round" where
  "rb_erase_black_right augment_rotate m parent sibling =
     (let tmp1 = rb_left m sibling in
      if tmp1 = 0 \<or> rb_is_black m tmp1 then
        let tmp2 = rb_right m sibling in
        if tmp2 = 0 \<or> rb_is_black m tmp2 then rb_erase_flip_right m parent sibling
        else
          let tmp1 = rb_left m tmp2;
              m = put_right m sibling tmp1;
              m = put_left m tmp2 sibling;
              m = put_left m parent tmp2;
              m = (if tmp1 \<noteq> 0 then rb_set_parent_color m tmp1 sibling RB_BLACK else m);
              m = augment_rotate sibling tmp2 m;
              tmp1 = sibling;
              sibling = tmp2
          in rb_erase_rotate_right augment_rotate m parent sibling tmp1
      else rb_erase_rotate_right augment_rotate m parent sibling tmp1)"

definition rb_erase_color_left ::
  "(ulong \<Rightarrow> ulong \<Rightarrow> rb_mem \<Rightarrow> rb_mem) \<Rightarrow> rb_mem \<Rightarrow> ulong \<Rightarrow> ulong \<Rightarrow> rb_round" where
  "rb_erase_color_left augment_rotate m parent sibling =
     (let (m, sibling) = rb_erase_sibling_left augment_rotate m parent sibling
      in rb_erase_black_left augment_rotate m parent sibling)"

definition rb_erase_color_right ::
  "(ulong \<Rightarrow> ulong \<Rightarrow> rb_mem \<Rightarrow> rb_mem) \<Rightarrow> rb_mem \<Rightarrow> ulong \<Rightarrow> rb_round" where
  "rb_erase_color_right augment_rotate m parent =
     (let sibling = rb_left m parent;
          (m, sibling) = rb_erase_sibling_right augment_rotate m parent sibling
      in rb_erase_black_right augment_rotate m parent sibling)"

partial_function (option) rb_erase_color_loop ::
  "(ulong \<Rightarrow> ulong \<Rightarrow> rb_mem \<Rightarrow> rb_mem) \<Rightarrow> rb_mem \<Rightarrow> ulong \<Rightarrow> ulong \<Rightarrow> rb_mem option" where
  "rb_erase_color_loop augment_rotate m node parent =
     (let sibling = rb_right m parent in
      case (if node \<noteq> sibling then rb_erase_color_left augment_rotate m parent sibling
            else rb_erase_color_right augment_rotate m parent) of
        (m, None) \<Rightarrow> Some m
      | (m, Some (node, parent)) \<Rightarrow> rb_erase_color_loop augment_rotate m node parent)"

definition rb_erase_color ::
  "rb_mem \<Rightarrow> ulong \<Rightarrow> (ulong \<Rightarrow> ulong \<Rightarrow> rb_mem \<Rightarrow> rb_mem) \<Rightarrow> rb_mem option" where
  "rb_erase_color m parent augment_rotate = rb_erase_color_loop augment_rotate m 0 parent"

definition rb_erase :: "rb_mem \<Rightarrow> ulong \<Rightarrow> rb_mem option" where
  "rb_erase m node =
     Option.bind (rb_erase_augmented m node False dummy_callbacks) (\<lambda>(m, rebalance).
     if rebalance \<noteq> 0 then rb_erase_color m rebalance dummy_rotate else Some m)"

section \<open>The insertion routine of rb_run.c\<close>

text \<open>
  The embedding \<open>struct node\<close> starts with its \<open>rb_node\<close>, so \<open>rb_entry\<close> keeps the
  address; \<open>runtime\<close> gives the key stored with a node. The difference of two keys is
  truncated to the 32-bit \<open>int result\<close>. \<open>None\<close> in the inner option is the early
  \<open>return 0\<close> on a key that compares equal.
\<close>

partial_function (option) rbtree_insert_search ::
  "(ulong \<Rightarrow> ulong) \<Rightarrow> rb_mem \<Rightarrow> ulong \<Rightarrow> rb_link \<Rightarrow> ulong \<Rightarrow> (rb_link \<times> ulong) option option" where
  "rbtree_insert_search runtime m node new parent =
     (if link_get m new \<noteq> 0 then
        let this = link_get m new;
            result = sint (ucast (runtime this - runtime node) :: 32 word);
            parent = link_get m new
        in if result < 0 then
             rbtree_insert_search runtime m node (Right_link (link_get m new)) parent
           else if result > 0 then
             rbtree_insert_search runtime m node (Left_link (link_get m new)) parent
           else Some None
      else Some (Some (new, parent)))"

definition rbtree_insert :: "(ulong \<Rightarrow> ulong) \<Rightarrow> rb_mem \<Rightarrow> ulong \<Rightarrow> rb_mem option" where
  "rbtree_insert runtime m node =
     Option.bind (rbtree_insert_search runtime m node Root_link 0) (\<lambda>found.
     case found of
       None \<Rightarrow> Some m
     | Some (new, parent) \<Rightarrow> rb_insert_color (rb_link_node m node parent new) node)"

end
