(* ===== verification/Rb_Shape.thy ===== *)
theory Rb_Shape
  imports Rb_Tree
begin

text \<open>
  What a red-black tree in memory is. \<open>tree_at m par p t\<close> says that the nodes below
  \<open>p\<close> form the tree \<open>t\<close>, with parent pointers and colours packed as the source packs
  them; \<open>ctx_at m k p\<close> says the same of everything around a hole that is filled by
  \<open>p\<close>, as a list of frames from the hole up to the root. The rewrite rules collected in
  \<open>rb_simps\<close> evaluate assignments against these predicates, and the red-black conditions
  are split along a context.
\<close>

named_theorems rb_defs \<open>unfolding rules of the operations on rb_node fields\<close>
named_theorems rb_simps \<open>effect of assignments on field reads and tree predicates\<close>

section \<open>Trees and contexts\<close>

datatype rb_colour = Red | Black

datatype ptree = Lf | Nd ptree ulong rb_colour ptree

datatype frame = LeftOf ulong rb_colour ptree | RightOf ptree ulong rb_colour

type_synonym ctx = "frame list"

fun inord :: "ptree \<Rightarrow> ulong list" where
  "inord Lf = []"
| "inord (Nd l p c r) = inord l @ p # inord r"

fun root_ptr :: "ptree \<Rightarrow> ulong" where
  "root_ptr Lf = 0"
| "root_ptr (Nd l p c r) = p"

fun colour :: "ptree \<Rightarrow> rb_colour" where
  "colour Lf = Black"
| "colour (Nd l p c r) = c"

fun paint :: "rb_colour \<Rightarrow> ptree \<Rightarrow> ptree" where
  "paint c Lf = Lf"
| "paint c (Nd l p _ r) = Nd l p c r"

fun plug :: "ctx \<Rightarrow> ptree \<Rightarrow> ptree" where
  "plug [] t = t"
| "plug (LeftOf p c r # k) t = plug k (Nd t p c r)"
| "plug (RightOf l p c # k) t = plug k (Nd l p c t)"

fun up :: "ctx \<Rightarrow> ulong" where
  "up [] = 0"
| "up (LeftOf p c r # k) = p"
| "up (RightOf l p c # k) = p"

fun before :: "ctx \<Rightarrow> ulong list" where
  "before [] = []"
| "before (LeftOf p c r # k) = before k"
| "before (RightOf l p c # k) = before k @ inord l @ [p]"

fun after :: "ctx \<Rightarrow> ulong list" where
  "after [] = []"
| "after (LeftOf p c r # k) = p # inord r @ after k"
| "after (RightOf l p c # k) = after k"

lemma inord_plug [simp]: "inord (plug k t) = before k @ inord t @ after k"
  by (induction k t rule: plug.induct) auto

lemma inord_paint [simp]: "inord (paint c t) = inord t"
  by (cases t) auto

lemma root_ptr_paint [simp]: "root_ptr (paint c t) = root_ptr t"
  by (cases t) auto

lemma colour_paint [simp]: "colour (paint c t) = (if t = Lf then Black else c)"
  by (cases t) auto

lemma paint_same [simp]: "colour t = c \<Longrightarrow> paint c t = t"
  by (cases t) auto

section \<open>Addresses and the packed parent and colour\<close>

text \<open>\<open>struct rb_node\<close> is aligned to \<open>sizeof(long)\<close>, so the low bits of its address are 0.\<close>

definition node_ok :: "ulong \<Rightarrow> bool" where
  "node_ok p \<longleftrightarrow> p \<noteq> 0 \<and> p AND 7 = 0"

fun colour_word :: "rb_colour \<Rightarrow> ulong" where
  "colour_word Red = RB_RED"
| "colour_word Black = RB_BLACK"

definition pack :: "ulong \<Rightarrow> rb_colour \<Rightarrow> ulong" where
  "pack p c = p OR colour_word c"

definition ptr_ok :: "ulong \<Rightarrow> bool" where
  "ptr_ok p \<longleftrightarrow> p = 0 \<or> node_ok p"

lemma node_ok_ptr_ok [simp]: "node_ok p \<Longrightarrow> ptr_ok p"
  by (simp add: ptr_ok_def)

lemma ptr_ok_zero [simp]: "ptr_ok 0"
  by (simp add: ptr_ok_def)

lemma node_ok_nz [simp]: "node_ok p \<Longrightarrow> p \<noteq> 0"
  by (simp add: node_ok_def)

lemma low_bits:
  assumes "ptr_ok p"
  shows "p AND 3 = 0" and "p AND 1 = 0"
proof -
  have 7: "p AND 7 = 0"
    using assms unfolding ptr_ok_def node_ok_def by (elim disjE conjE) (simp_all only: bit.conj_zero_left)
  have "7 AND 3 = (3 :: ulong)" "7 AND 1 = (1 :: ulong)"
    by simp_all
  then have "(p AND 7) AND 3 = p AND 3" and "(p AND 7) AND 1 = p AND 1"
    by (simp_all only: and.assoc)
  then show "p AND 3 = 0" and "p AND 1 = 0"
    by (simp_all only: 7 bit.conj_zero_left)
qed

lemma pack_fields:
  assumes "ptr_ok p"
  shows "pack p c AND NOT 3 = p" and "pack p c AND 1 = colour_word c" and "pack p Red = p"
proof -
  have "(p AND 3) OR (p AND NOT 3) = p"
    unfolding bit.conj_disj_distrib [symmetric] bit.disj_cancel_right by simp
  then have masked: "p AND NOT 3 = p"
    unfolding low_bits [OF assms] by simp
  have col: "colour_word c AND NOT 3 = 0" "colour_word c AND 1 = colour_word c"
    by (cases c; simp add: RB_RED_def RB_BLACK_def)+
  show "pack p c AND NOT 3 = p" and "pack p c AND 1 = colour_word c"
    unfolding pack_def bit.conj_disj_distrib2 masked low_bits [OF assms] col by simp_all
  show "pack p Red = p"
    by (simp add: pack_def RB_RED_def)
qed

lemma colour_word_zero: "colour_word c = 0 \<longleftrightarrow> c = Red"
  by (cases c; simp add: RB_RED_def RB_BLACK_def)

lemma pack_tests [simp]:
  assumes "ptr_ok p"
  shows "pc_parent (pack p c) = p" and "pc_color (pack p c) = colour_word c"
    and "pc_is_black (pack p c) \<longleftrightarrow> c = Black" and "pc_is_red (pack p c) \<longleftrightarrow> c = Red"
    and "pack p Red = p"
  unfolding pc_parent_def pc_color_def pc_is_black_def pc_is_red_def pack_fields [OF assms]
    colour_word_zero
  by (cases c; simp)+

lemma ptr_tests [simp]:
  assumes "ptr_ok p"
  shows "pc_parent p = p" and "pc_color p = RB_RED" and "\<not> pc_is_black p" and "pc_is_red p"
  using assms pack_tests(1-4) [of p Red] by simp_all

lemma or_colour [simp]:
  "p OR RB_RED = pack p Red" "p OR RB_BLACK = pack p Black" "colour_word c OR p = pack p c"
  by (simp_all add: pack_def or.commute)

lemma put_black [rb_simps]: "put_pc m p RB_BLACK = put_pc m p (pack 0 Black)"
  by (simp add: pack_def del: or_colour)

lemma pack_black [simp]: "pack (pack p c) Black = pack p Black"
  unfolding pack_def by (cases c) (simp_all add: RB_RED_def or.assoc del: or_colour)

lemma pack_black_not_ptr [simp]: "ptr_ok p \<Longrightarrow> ptr_ok q \<Longrightarrow> pack q Black \<noteq> p"
  by (metis pack_tests(3,5) rb_colour.distinct(1))

section \<open>Reads after assignments\<close>

lemma read_put [rb_simps]:
  "rb_parent_color (put_pc m p v) q = (if q = p then v else rb_parent_color m q)"
  "rb_parent_color (put_left m p v) = rb_parent_color m"
  "rb_parent_color (put_right m p v) = rb_parent_color m"
  "rb_parent_color (put_root m v) = rb_parent_color m"
  "rb_left (put_left m p v) q = (if q = p then v else rb_left m q)"
  "rb_left (put_pc m p v) = rb_left m"
  "rb_left (put_right m p v) = rb_left m"
  "rb_left (put_root m v) = rb_left m"
  "rb_right (put_right m p v) q = (if q = p then v else rb_right m q)"
  "rb_right (put_pc m p v) = rb_right m"
  "rb_right (put_left m p v) = rb_right m"
  "rb_right (put_root m v) = rb_right m"
  "rb_node (put_root m v) = v"
  "rb_node (put_pc m p v) = rb_node m"
  "rb_node (put_left m p v) = rb_node m"
  "rb_node (put_right m p v) = rb_node m"
  "rb_leftmost (put_root m v) = rb_leftmost m"
  "rb_leftmost (put_pc m p v) = rb_leftmost m"
  "rb_leftmost (put_left m p v) = rb_leftmost m"
  "rb_leftmost (put_right m p v) = rb_leftmost m"
  by (simp_all add: put_pc_def put_left_def put_right_def put_root_def)

lemma rb_parent_pc: "rb_parent m p = pc_parent (rb_parent_color m p)"
  by (simp add: rb_parent_def pc_parent_def)

lemmas rb_op_defs [rb_defs] =
  rb_parent_pc rb_color_def rb_is_red_def rb_is_black_def rb_set_parent_color_def
  rb_set_parent_def rb_red_parent_def rb_set_black_def dummy_rotate_def dummy_copy_def
  dummy_propagate_def Let_def

section \<open>Trees in memory\<close>

fun tree_at :: "rb_mem \<Rightarrow> ulong \<Rightarrow> ptree \<Rightarrow> bool" where
  "tree_at m par Lf \<longleftrightarrow> True"
| "tree_at m par (Nd l q c r) \<longleftrightarrow>
     node_ok q \<and> rb_parent_color m q = pack par c \<and>
     rb_left m q = root_ptr l \<and> rb_right m q = root_ptr r \<and> tree_at m q l \<and> tree_at m q r"

fun ctx_at :: "rb_mem \<Rightarrow> ctx \<Rightarrow> ulong \<Rightarrow> bool" where
  "ctx_at m [] p \<longleftrightarrow> rb_node m = p"
| "ctx_at m (LeftOf q c r # k) p \<longleftrightarrow>
     node_ok q \<and> rb_parent_color m q = pack (up k) c \<and>
     rb_left m q = p \<and> rb_right m q = root_ptr r \<and> tree_at m q r \<and> ctx_at m k q"
| "ctx_at m (RightOf l q c # k) p \<longleftrightarrow>
     node_ok q \<and> rb_parent_color m q = pack (up k) c \<and>
     rb_left m q = root_ptr l \<and> rb_right m q = p \<and> tree_at m q l \<and> ctx_at m k q"

definition rb_tree_at :: "rb_mem \<Rightarrow> ptree \<Rightarrow> bool" where
  "rb_tree_at m t \<longleftrightarrow> rb_node m = root_ptr t \<and> tree_at m 0 t \<and> distinct (inord t)"

definition focus :: "rb_mem \<Rightarrow> ctx \<Rightarrow> ptree \<Rightarrow> bool" where
  "focus m k t \<longleftrightarrow> ctx_at m k (root_ptr t) \<and> tree_at m (up k) t \<and> distinct (inord (plug k t))"

lemma tree_at_ptr_ok [simp]: "tree_at m par t \<Longrightarrow> ptr_ok (root_ptr t)"
  by (cases t) auto

lemma ctx_up_ok [simp]: "ctx_at m k p \<Longrightarrow> ptr_ok (up k)"
  by (cases "(k, Lf)" rule: plug.cases) auto

lemma tree_at_nodes_ok: "tree_at m par t \<Longrightarrow> q \<in> set (inord t) \<Longrightarrow> node_ok q"
  by (induction t arbitrary: par) auto

lemma tree_at_null: "tree_at m par t \<Longrightarrow> 0 \<notin> set (inord t)"
  using tree_at_nodes_ok node_ok_nz by blast

lemma root_ptr_zero: "tree_at m par t \<Longrightarrow> root_ptr t = 0 \<longleftrightarrow> t = Lf"
  by (cases t) auto

lemma plug_at:
  "rb_node m = root_ptr (plug k t) \<and> tree_at m 0 (plug k t) \<longleftrightarrow>
     ctx_at m k (root_ptr t) \<and> tree_at m (up k) t"
  by (induction k t rule: plug.induct) auto

lemma focus_plug: "focus m k t \<longleftrightarrow> rb_tree_at m (plug k t)"
  using plug_at [of m k t] by (auto simp: focus_def rb_tree_at_def)

text \<open>Moving the focus between a node and its parent.\<close>

lemma focus_up:
  "focus m (LeftOf p c r # k) t \<longleftrightarrow> focus m k (Nd t p c r)"
  "focus m (RightOf l p c # k) t \<longleftrightarrow> focus m k (Nd l p c t)"
  by (simp_all add: focus_plug)

text \<open>The parent of the focus is one of the nodes of the context, if there is one.\<close>

lemma up_in: "k \<noteq> [] \<Longrightarrow> up k \<in> set (before k) \<union> set (after k)"
  by (cases "(k, Lf)" rule: plug.cases) auto

lemma up_fresh:
  assumes "ctx_at m k p" "tree_at m par t" "distinct (inord (plug k t))"
  shows "up k \<notin> set (inord t)"
  using assms tree_at_null [OF assms(2)] up_in [of k] by (cases "k = []") auto

lemma up_cases: "up k \<in> set (before k) \<or> up k \<in> set (after k) \<or> up k = 0"
  using up_in [of k] by (cases "k = []") auto

text \<open>Assignments to nodes outside a tree or context.\<close>

lemma tree_at_put [rb_simps]:
  "q \<notin> set (inord t) \<Longrightarrow> tree_at (put_pc m q v) par t = tree_at m par t"
  "q \<notin> set (inord t) \<Longrightarrow> tree_at (put_left m q v) par t = tree_at m par t"
  "q \<notin> set (inord t) \<Longrightarrow> tree_at (put_right m q v) par t = tree_at m par t"
  "tree_at (put_root m v) par t = tree_at m par t"
  by (induction t arbitrary: par) (auto simp: rb_simps)

lemma ctx_at_put [rb_simps]:
  "q \<notin> set (before k) \<Longrightarrow> q \<notin> set (after k) \<Longrightarrow> ctx_at (put_pc m q v) k p = ctx_at m k p"
  "q \<notin> set (before k) \<Longrightarrow> q \<notin> set (after k) \<Longrightarrow> ctx_at (put_left m q v) k p = ctx_at m k p"
  "q \<notin> set (before k) \<Longrightarrow> q \<notin> set (after k) \<Longrightarrow> ctx_at (put_right m q v) k p = ctx_at m k p"
  by (induction k p rule: ctx_at.induct) (auto simp: rb_simps)

text \<open>Changing the child pointer of a context.\<close>

lemma ctx_change_child [rb_simps]:
  assumes "ctx_at m k old" "old \<noteq> 0" "old \<notin> set (before k)" "old \<notin> set (after k)"
    and "distinct (before k)" "distinct (after k)" "set (before k) \<inter> set (after k) = {}"
  shows "ctx_at (rb_change_child m old new (up k)) k new"
proof (cases "(k, Lf)" rule: plug.cases)
  case (1 t)
  with assms show ?thesis by (simp add: rb_change_child_def rb_simps)
next
  case (2 p c r k' t)
  with assms show ?thesis by (auto simp: rb_change_child_def rb_simps)
next
  case (3 l p c k' t)
  then have "rb_left m p \<noteq> old"
    using assms by (cases l) auto
  with 3 assms show ?thesis by (auto simp: rb_change_child_def rb_simps)
qed

lemma tree_change_child [rb_simps]:
  "up k \<notin> set (inord t) \<Longrightarrow> tree_at (rb_change_child m old new (up k)) par t = tree_at m par t"
  by (auto simp: rb_change_child_def rb_simps)

lemma read_change_child [rb_simps]:
  "rb_parent_color (rb_change_child m old new par) = rb_parent_color m"
  "q \<noteq> par \<Longrightarrow> rb_left (rb_change_child m old new par) q = rb_left m q"
  "q \<noteq> par \<Longrightarrow> rb_right (rb_change_child m old new par) q = rb_right m q"
  by (auto simp: rb_change_child_def rb_simps)

text \<open>
  Giving the root of a subtree, when there is one, a new parent and colour: the source tests
  for \<open>NULL\<close> first where the subtree may be empty.
\<close>

definition adopt :: "rb_mem \<Rightarrow> ulong \<Rightarrow> ulong \<Rightarrow> rb_colour \<Rightarrow> rb_mem" where
  "adopt m p q c = (if p \<noteq> 0 then put_pc m p (pack q c) else m)"

lemma tree_at_adopt [rb_simps]:
  "tree_at m par t \<Longrightarrow> distinct (inord t) \<Longrightarrow> colour t = c \<Longrightarrow> tree_at (adopt m (root_ptr t) q c) q t"
  "set (inord t) \<inter> set (inord t') = {} \<Longrightarrow>
     tree_at (adopt m (root_ptr t) q c) par t' = tree_at m par t'"
  by (cases t; simp add: adopt_def rb_simps)+

lemma ctx_at_adopt [rb_simps]:
  "set (inord t) \<inter> set (before k) = {} \<Longrightarrow> set (inord t) \<inter> set (after k) = {} \<Longrightarrow>
     ctx_at (adopt m (root_ptr t) q c) k p = ctx_at m k p"
  by (cases t; simp add: adopt_def rb_simps)

lemma read_adopt [rb_simps]:
  "r \<notin> set (inord t) \<Longrightarrow> rb_parent_color (adopt m (root_ptr t) q c) r = rb_parent_color m r"
  "rb_left (adopt m p q c) = rb_left m"
  "rb_right (adopt m p q c) = rb_right m"
  "rb_node (adopt m p q c) = rb_node m"
  by (cases t; simp add: adopt_def rb_simps)+

definition adopt_keep :: "rb_mem \<Rightarrow> ulong \<Rightarrow> ulong \<Rightarrow> rb_mem" where
  "adopt_keep m p q = (if p \<noteq> 0 then rb_set_parent m p q else m)"

lemma adopt_keep_tree [rb_simps]:
  "tree_at m par t \<Longrightarrow> ptr_ok par \<Longrightarrow> adopt_keep m (root_ptr t) q = adopt m (root_ptr t) q (colour t)"
  by (cases t) (auto simp: adopt_keep_def adopt_def rb_set_parent_def rb_color_def)

text \<open>The colour tests of the source, which take \<open>NULL\<close> as black.\<close>

definition red_ptr :: "rb_mem \<Rightarrow> ulong \<Rightarrow> bool" where
  "red_ptr m p \<longleftrightarrow> p \<noteq> 0 \<and> rb_is_red m p"

lemma adopt_fold:
  "(if p \<noteq> 0 then rb_set_parent_color m p q RB_BLACK else m) = adopt m p q Black"
  "(if p \<noteq> 0 then rb_set_parent m p q else m) = adopt_keep m p q"
  "(p \<noteq> 0 \<and> rb_is_red m p) = red_ptr m p"
  "(p = 0 \<or> rb_is_black m p) = (\<not> red_ptr m p)"
  by (auto simp: adopt_def adopt_keep_def rb_defs red_ptr_def pc_is_black_def pc_is_red_def)

lemma red_ptr_tree [rb_simps]:
  "tree_at m par t \<Longrightarrow> ptr_ok par \<Longrightarrow> red_ptr m (root_ptr t) \<longleftrightarrow> colour t = Red"
  by (cases t) (auto simp: red_ptr_def rb_defs)

lemma red_ptr_Nd [rb_simps]:
  "node_ok p \<Longrightarrow> red_ptr m p \<longleftrightarrow> pc_is_red (rb_parent_color m p)"
  by (auto simp: red_ptr_def rb_defs)

section \<open>Memory outside a set of nodes\<close>

definition same_outside :: "ulong set \<Rightarrow> rb_mem \<Rightarrow> rb_mem \<Rightarrow> bool" where
  "same_outside S m m' \<longleftrightarrow>
     rb_leftmost m' = rb_leftmost m \<and>
     (\<forall>q. q \<notin> S \<longrightarrow> rb_parent_color m' q = rb_parent_color m q \<and>
        rb_left m' q = rb_left m q \<and> rb_right m' q = rb_right m q)"

lemma same_outside_refl [simp]: "same_outside S m m"
  by (simp add: same_outside_def)

lemma same_outside_trans [trans]:
  "same_outside S m m' \<Longrightarrow> same_outside S m' m'' \<Longrightarrow> same_outside S m m''"
  by (simp add: same_outside_def)

lemma same_outside_put [rb_simps]:
  "q \<in> S \<Longrightarrow> same_outside S m (put_pc m' q v) = same_outside S m m'"
  "q \<in> S \<Longrightarrow> same_outside S m (put_left m' q v) = same_outside S m m'"
  "q \<in> S \<Longrightarrow> same_outside S m (put_right m' q v) = same_outside S m m'"
  "same_outside S m (put_root m' v) = same_outside S m m'"
  by (auto simp: same_outside_def rb_simps)

lemma same_outside_adopt [rb_simps]:
  "set (inord t) \<subseteq> S \<Longrightarrow> same_outside S m (adopt m' (root_ptr t) q c) = same_outside S m m'"
  by (cases t; simp add: adopt_def rb_simps)

lemma same_outside_change_child [rb_simps]:
  "q \<in> S \<or> q = 0 \<Longrightarrow> same_outside S m (rb_change_child m' old new q) = same_outside S m m'"
  by (auto simp: rb_change_child_def rb_simps)

section \<open>Local steps\<close>

text \<open>
  \<open>rb_step S m m' k t\<close>: the step from \<open>m\<close> to \<open>m'\<close> leaves the tree \<open>t\<close> in the hole of
  \<open>k\<close> and wrote only to nodes of \<open>S\<close>. Every rotation and recolouring of the source is
  proved in this form: the elimination rule below lists what is known of the memory, and
  \<open>rb_step_simps\<close> computes the assignments.
\<close>

definition rb_step :: "ulong set \<Rightarrow> rb_mem \<Rightarrow> rb_mem \<Rightarrow> ctx \<Rightarrow> ptree \<Rightarrow> bool" where
  "rb_step S m m' k t \<longleftrightarrow> focus m' k t \<and> same_outside S m m'"

lemma focusE:
  assumes "focus m k t" "set (inord (plug k t)) \<subseteq> S"
  obtains "ctx_at m k (root_ptr t)" "tree_at m (up k) t" "distinct (before k @ inord t @ after k)"
    "up k \<notin> set (inord t)" "up k \<in> S \<or> up k = 0" "set (inord t) \<subseteq> S" "ptr_ok (up k)"
proof -
  have at: "ctx_at m k (root_ptr t)" "tree_at m (up k) t" "distinct (before k @ inord t @ after k)"
    using assms(1) by (simp_all add: focus_def)
  moreover have "up k \<notin> set (inord t)"
    using up_fresh [OF at(1,2)] at(3) by simp
  moreover have "up k \<in> S \<or> up k = 0" "set (inord t) \<subseteq> S"
    using up_cases [of k] assms(2) by auto
  moreover have "ptr_ok (up k)"
    using at(1) by simp
  ultimately show thesis
    by (rule that)
qed

lemma root_fresh: "x \<notin> set (inord t) \<Longrightarrow> node_ok x \<Longrightarrow> x \<noteq> root_ptr t"
  by (cases t) auto

lemmas disjoint_simps = Int_Un_distrib Int_Un_distrib2 Int_commute

lemmas rb_step_simps =
  rb_step_def focus_def rb_rotate_set_parents_def rb_defs rb_simps root_fresh disjoint_simps

section \<open>Red-black conditions\<close>

fun bheight :: "ptree \<Rightarrow> nat" where
  "bheight Lf = 0"
| "bheight (Nd l p c r) = (if c = Black then bheight l + 1 else bheight l)"

fun invc :: "ptree \<Rightarrow> bool" where
  "invc Lf \<longleftrightarrow> True"
| "invc (Nd l p c r) \<longleftrightarrow> (c = Red \<longrightarrow> colour l = Black \<and> colour r = Black) \<and> invc l \<and> invc r"

fun invh :: "ptree \<Rightarrow> bool" where
  "invh Lf \<longleftrightarrow> True"
| "invh (Nd l p c r) \<longleftrightarrow> bheight l = bheight r \<and> invh l \<and> invh r"

definition rbt :: "ptree \<Rightarrow> bool" where
  "rbt t \<longleftrightarrow> invc t \<and> invh t \<and> colour t = Black"

fun ctx_colour :: "ctx \<Rightarrow> rb_colour" where
  "ctx_colour [] = Red"
| "ctx_colour (LeftOf p c r # k) = c"
| "ctx_colour (RightOf l p c # k) = c"

text \<open>
  The colour of the empty context counts as red because a root has to be black.
\<close>

fun invc_ctx :: "ctx \<Rightarrow> bool" where
  "invc_ctx [] \<longleftrightarrow> True"
| "invc_ctx (LeftOf p c r # k) \<longleftrightarrow>
     invc r \<and> (c = Red \<longrightarrow> colour r = Black \<and> ctx_colour k = Black) \<and> invc_ctx k"
| "invc_ctx (RightOf l p c # k) \<longleftrightarrow>
     invc l \<and> (c = Red \<longrightarrow> colour l = Black \<and> ctx_colour k = Black) \<and> invc_ctx k"

fun invh_ctx :: "ctx \<Rightarrow> nat \<Rightarrow> bool" where
  "invh_ctx [] h \<longleftrightarrow> True"
| "invh_ctx (LeftOf p c r # k) h \<longleftrightarrow>
     invh r \<and> bheight r = h \<and> invh_ctx k (if c = Black then h + 1 else h)"
| "invh_ctx (RightOf l p c # k) h \<longleftrightarrow>
     invh l \<and> bheight l = h \<and> invh_ctx k (if c = Black then h + 1 else h)"

lemma not_Red [simp]: "c \<noteq> Red \<longleftrightarrow> c = Black" "c \<noteq> Black \<longleftrightarrow> c = Red"
  by (cases c; simp)+

lemma invc_plug: "invc (plug k t) \<and> colour (plug k t) = Black \<longleftrightarrow>
    invc_ctx k \<and> invc t \<and> (colour t = Red \<longrightarrow> ctx_colour k = Black)"
proof (induction k t rule: plug.induct)
  case (1 t)
  then show ?case by (cases "colour t") auto
qed (auto split: if_splits)

lemma invh_plug: "invh (plug k t) \<longleftrightarrow> invh t \<and> invh_ctx k (bheight t)"
  by (induction k t rule: plug.induct) (auto split: if_splits)

lemma rbt_plug: "rbt (plug k t) \<longleftrightarrow>
    invc_ctx k \<and> invc t \<and> (colour t = Red \<longrightarrow> ctx_colour k = Black) \<and> invh t \<and> invh_ctx k (bheight t)"
  using invc_plug [of k t] invh_plug [of k t] by (auto simp: rbt_def)

text \<open>What the rebalancing loops promise: they end, in a red-black tree with the nodes \<open>xs\<close> in order.\<close>

definition repaired :: "ulong set \<Rightarrow> rb_mem \<Rightarrow> rb_mem option \<Rightarrow> ulong list \<Rightarrow> bool" where
  "repaired S m r xs \<longleftrightarrow>
     (\<exists>m' t. r = Some m' \<and> rb_tree_at m' t \<and> rbt t \<and> inord t = xs \<and> same_outside S m m')"

lemma repairedI:
  "rb_step S m m' k t \<Longrightarrow> rbt (plug k t) \<Longrightarrow> xs = before k @ inord t @ after k \<Longrightarrow>
     repaired S m (Some m') xs"
  unfolding repaired_def rb_step_def focus_plug by fastforce

lemma repaired_trans: "same_outside S m m1 \<Longrightarrow> repaired S m1 r xs \<Longrightarrow> repaired S m r xs"
  unfolding repaired_def using same_outside_trans by blast

text \<open>The height of a red-black tree is logarithmic in its number of nodes.\<close>

fun tree_height :: "ptree \<Rightarrow> nat" where
  "tree_height Lf = 0"
| "tree_height (Nd l p c r) = Suc (max (tree_height l) (tree_height r))"

lemma tree_height_bheight:
  "invc t \<Longrightarrow> invh t \<Longrightarrow> tree_height t \<le> 2 * bheight t + (if colour t = Red then 1 else 0)"
  by (induction t) (auto split: if_splits)

lemma bheight_size: "invh t \<Longrightarrow> 2 ^ bheight t \<le> length (inord t) + 1"
proof (induction t)
  case (Nd l p c r)
  then have "2 ^ bheight l \<le> length (inord l) + 1" "2 ^ bheight l \<le> length (inord r) + 1"
    by auto
  then show ?case
    by simp
qed simp

end
