(* ===== verification/Rb_Insert.thy ===== *)
theory Rb_Insert
  imports Rb_Shape
begin

text \<open>
  Correctness of \<open>rb_insert_color\<close>: from a red node hung into a red-black tree, the loop of
  \<open>__rb_insert\<close> ends, keeps the order of the nodes and restores the colour conditions, also
  on the right-hand side, which leaves its rotation without a \<open>break\<close> and stops in the next
  round only because the parent has become black.
\<close>

section \<open>The cases of one round\<close>

lemmas insert_left_fold = rb_insert_left_def [unfolded adopt_fold]
lemmas insert_right_fold = rb_insert_right_def [unfolded adopt_fold]

lemma insert_left_flip:
  assumes "focus m k (Nd (Nd a p Red c) g Black (Nd d u Red e))"
    and "set (inord (plug k (Nd (Nd a p Red c) g Black (Nd d u Red e)))) \<subseteq> S"
  shows "\<exists>m'. rb_insert_left dummy_rotate m n p g (rb_right m g) = (m', Some (g, up k)) \<and>
     rb_step S m m' k (Nd (Nd a p Black c) g Red (Nd d u Black e))"
  by (rule focusE [OF assms], simp add: disjoint_simps, elim conjE,
      simp add: insert_left_fold rb_step_simps)

lemma insert_right_flip:
  assumes "focus m k (Nd (Nd d u Red e) g Black (Nd a p Red c))"
    and "set (inord (plug k (Nd (Nd d u Red e) g Black (Nd a p Red c)))) \<subseteq> S"
  shows "\<exists>m'. rb_insert_right dummy_rotate m n p g = (m', Some (g, up k)) \<and>
     rb_step S m m' k (Nd (Nd d u Black e) g Red (Nd a p Black c))"
  by (rule focusE [OF assms], simp add: disjoint_simps, elim conjE,
      simp add: insert_right_fold rb_step_simps)

lemma insert_left_outer:
  assumes "focus m k (Nd (Nd (Nd a n Red b) p Red c) g Black d)"
    and "set (inord (plug k (Nd (Nd (Nd a n Red b) p Red c) g Black d))) \<subseteq> S"
    and "colour c = Black" "colour d = Black"
  shows "\<exists>m'. rb_insert_left dummy_rotate m n p g (rb_right m g) = (m', None) \<and>
     rb_step S m m' k (Nd (Nd a n Red b) p Black (Nd c g Red d))"
  by (rule focusE [OF assms(1,2)], insert assms(3-), simp add: disjoint_simps, elim conjE,
      simp add: insert_left_fold rb_step_simps)

lemma insert_left_inner:
  assumes "focus m k (Nd (Nd a p Red (Nd b n Red c)) g Black d)"
    and "set (inord (plug k (Nd (Nd a p Red (Nd b n Red c)) g Black d))) \<subseteq> S"
    and "colour b = Black" "colour c = Black" "colour d = Black"
  shows "\<exists>m'. rb_insert_left dummy_rotate m n p g (rb_right m g) = (m', None) \<and>
     rb_step S m m' k (Nd (Nd a p Red b) n Black (Nd c g Red d))"
  by (rule focusE [OF assms(1,2)], insert assms(3-), simp add: disjoint_simps, elim conjE,
      simp add: insert_left_fold rb_step_simps)

text \<open>The rotations on the right ask for another round at a parent that is now black.\<close>

lemma insert_right_outer:
  assumes "focus m k (Nd d g Black (Nd c p Red (Nd a n Red b)))"
    and "set (inord (plug k (Nd d g Black (Nd c p Red (Nd a n Red b))))) \<subseteq> S"
    and "colour c = Black" "colour d = Black"
  shows "\<exists>m'. rb_insert_right dummy_rotate m n p g = (m', Some (n, p)) \<and>
     p \<noteq> 0 \<and> rb_is_black m' p \<and>
     rb_step S m m' k (Nd (Nd d g Red c) p Black (Nd a n Red b))"
  by (rule focusE [OF assms(1,2)], insert assms(3-), simp add: disjoint_simps, elim conjE,
      simp add: insert_right_fold rb_step_simps)

lemma insert_right_inner:
  assumes "focus m k (Nd d g Black (Nd (Nd b n Red c) p Red a))"
    and "set (inord (plug k (Nd d g Black (Nd (Nd b n Red c) p Red a)))) \<subseteq> S"
    and "colour b = Black" "colour c = Black" "colour d = Black"
  shows "\<exists>m'. rb_insert_right dummy_rotate m n p g = (m', Some (n, n)) \<and>
     n \<noteq> 0 \<and> rb_is_black m' n \<and>
     rb_step S m m' k (Nd (Nd d g Red b) n Black (Nd c p Red a))"
  by (rule focusE [OF assms(1,2)], insert assms(3-), simp add: disjoint_simps, elim conjE,
      simp add: insert_right_fold rb_step_simps)

section \<open>The loop\<close>

lemma insert_loop_left:
  assumes "focus m k (Nd (Nd a p Red c) g Black d)"
  shows "rb_insert_loop aug m n p =
     (case rb_insert_left aug m n p g (rb_right m g) of
        (m', None) \<Rightarrow> Some m' | (m', Some (n', p')) \<Rightarrow> rb_insert_loop aug m' n' p')"
  by (rule focusE [OF assms order_refl], subst rb_insert_loop.simps, simp add: disjoint_simps,
      elim conjE, simp add: rb_step_simps)

lemma insert_loop_right:
  assumes "focus m k (Nd d g Black (Nd a p Red c))"
  shows "rb_insert_loop aug m n p =
     (case rb_insert_right aug m n p g of
        (m', None) \<Rightarrow> Some m' | (m', Some (n', p')) \<Rightarrow> rb_insert_loop aug m' n' p')"
  by (rule focusE [OF assms order_refl], subst rb_insert_loop.simps, simp add: disjoint_simps,
      elim conjE, simp add: rb_step_simps)

lemma insert_loop_black: "p \<noteq> 0 \<Longrightarrow> rb_is_black m p \<Longrightarrow> rb_insert_loop aug m n p = Some m"
  by (simp add: rb_insert_loop.simps)

lemma insert_loop_root:
  assumes "focus m [] (Nd a n Red b)" "rbt (Nd a n Black b)" "set (inord (Nd a n Red b)) \<subseteq> S"
  shows "repaired S m (rb_insert_loop aug m n 0) (inord (Nd a n Red b))"
proof -
  have "rb_step S m (rb_set_parent_color m n 0 RB_BLACK) [] (Nd a n Black b)"
    using assms by (simp add: rb_step_simps)
  with assms(2) show ?thesis
    by (simp add: rb_insert_loop.simps repairedI)
qed

text \<open>The two sides, with the induction hypothesis of the loop as a premise.\<close>

lemma insert_round_left:
  assumes f: "focus m k (Nd t g Black d)"
    and t: "t = Nd (Nd a n Red b) p Red c \<or> t = Nd c p Red (Nd a n Red b)"
    and inv: "invc_ctx k" "invc a" "invc b" "invc c" "invc d"
      "colour a = Black" "colour b = Black" "colour c = Black"
      "invh a" "invh b" "invh c" "invh d"
      "bheight b = bheight a" "bheight c = bheight a" "bheight d = bheight a" "invh_ctx k (bheight a + 1)"
    and S: "set (inord (plug k (Nd t g Black d))) \<subseteq> S"
    and IH: "\<And>m' a' b'. \<lbrakk>focus m' k (Nd a' g Red b'); invc (Nd a' g Red b'); invh (Nd a' g Red b');
        bheight a' = bheight a + 1; set (inord (plug k (Nd a' g Red b'))) \<subseteq> S\<rbrakk> \<Longrightarrow>
        repaired S m' (rb_insert_loop dummy_rotate m' g (up k)) (inord (plug k (Nd a' g Red b')))"
  shows "repaired S m (rb_insert_loop dummy_rotate m n p) (inord (plug k (Nd t g Black d)))"
proof (cases "colour d")
  case Red
  then obtain e u e' where d: "d = Nd e u Red e'"
    by (cases d) auto
  obtain x y where xy: "t = Nd x p Red y" "invc (Nd x p Black y)" "invh (Nd x p Red y)" "bheight x = bheight a"
    using t inv by fastforce
  obtain m' where m': "rb_insert_left dummy_rotate m n p g (rb_right m g) = (m', Some (g, up k))"
      "rb_step S m m' k (Nd (Nd x p Black y) g Red (Nd e u Black e'))"
    using insert_left_flip f S unfolding d xy by blast
  have "repaired S m' (rb_insert_loop dummy_rotate m' g (up k))
     (inord (plug k (Nd (Nd x p Black y) g Red (Nd e u Black e'))))"
    using m'(2) inv xy S by (intro IH) (auto simp: rb_step_def d)
  with m' show ?thesis
    by (auto simp: insert_loop_left [OF f [unfolded xy]] d xy rb_step_def intro: repaired_trans)
next
  case Black
  have *: "rb_insert_loop dummy_rotate m n p = Some m'"
    if "rb_insert_left dummy_rotate m n p g (rb_right m g) = (m', None)" for m'
    using t that f by (elim disjE) (simp_all add: insert_loop_left)
  from t show ?thesis
  proof
    assume t: "t = Nd (Nd a n Red b) p Red c"
    obtain m' where m': "rb_insert_left dummy_rotate m n p g (rb_right m g) = (m', None)"
        "rb_step S m m' k (Nd (Nd a n Red b) p Black (Nd c g Red d))"
      using insert_left_outer f S inv Black unfolding t by blast
    show ?thesis
      using inv Black unfolding * [OF m'(1)]
      by (intro repairedI [OF m'(2)]) (auto simp: rbt_plug t)
  next
    assume t: "t = Nd c p Red (Nd a n Red b)"
    obtain m' where m': "rb_insert_left dummy_rotate m n p g (rb_right m g) = (m', None)"
        "rb_step S m m' k (Nd (Nd c p Red a) n Black (Nd b g Red d))"
      using insert_left_inner f S inv Black unfolding t by blast
    show ?thesis
      using inv Black unfolding * [OF m'(1)]
      by (intro repairedI [OF m'(2)]) (auto simp: rbt_plug t)
  qed
qed

lemma insert_round_right:
  assumes f: "focus m k (Nd d g Black t)"
    and t: "t = Nd (Nd a n Red b) p Red c \<or> t = Nd c p Red (Nd a n Red b)"
    and inv: "invc_ctx k" "invc a" "invc b" "invc c" "invc d"
      "colour a = Black" "colour b = Black" "colour c = Black"
      "invh a" "invh b" "invh c" "invh d"
      "bheight b = bheight a" "bheight c = bheight a" "bheight d = bheight a" "invh_ctx k (bheight a + 1)"
    and S: "set (inord (plug k (Nd d g Black t))) \<subseteq> S"
    and IH: "\<And>m' a' b'. \<lbrakk>focus m' k (Nd a' g Red b'); invc (Nd a' g Red b'); invh (Nd a' g Red b');
        bheight a' = bheight a + 1; set (inord (plug k (Nd a' g Red b'))) \<subseteq> S\<rbrakk> \<Longrightarrow>
        repaired S m' (rb_insert_loop dummy_rotate m' g (up k)) (inord (plug k (Nd a' g Red b')))"
  shows "repaired S m (rb_insert_loop dummy_rotate m n p) (inord (plug k (Nd d g Black t)))"
proof (cases "colour d")
  case Red
  then obtain e u e' where d: "d = Nd e u Red e'"
    by (cases d) auto
  obtain x y where xy: "t = Nd x p Red y" "invc (Nd x p Black y)" "invh (Nd x p Red y)" "bheight x = bheight a"
    using t inv by fastforce
  obtain m' where m': "rb_insert_right dummy_rotate m n p g = (m', Some (g, up k))"
      "rb_step S m m' k (Nd (Nd e u Black e') g Red (Nd x p Black y))"
    using insert_right_flip f S unfolding d xy by blast
  have "repaired S m' (rb_insert_loop dummy_rotate m' g (up k))
     (inord (plug k (Nd (Nd e u Black e') g Red (Nd x p Black y))))"
    using m'(2) inv xy S by (intro IH) (auto simp: rb_step_def d)
  with m' show ?thesis
    by (auto simp: insert_loop_right [OF f [unfolded xy]] d xy rb_step_def intro: repaired_trans)
next
  case Black
  have *: "rb_insert_loop dummy_rotate m n p = Some m'"
    if "rb_insert_right dummy_rotate m n p g = (m', Some (n, q))" "q \<noteq> 0 \<and> rb_is_black m' q" for m' q
    using t that f by (elim disjE) (simp_all add: insert_loop_right insert_loop_black)
  from t show ?thesis
  proof
    assume t: "t = Nd c p Red (Nd a n Red b)"
    obtain m' where m': "rb_insert_right dummy_rotate m n p g = (m', Some (n, p))"
        "p \<noteq> 0 \<and> rb_is_black m' p" "rb_step S m m' k (Nd (Nd d g Red c) p Black (Nd a n Red b))"
      using insert_right_outer f S inv Black unfolding t by blast
    show ?thesis
      using inv Black unfolding * [OF m'(1,2)]
      by (intro repairedI [OF m'(3)]) (auto simp: rbt_plug t)
  next
    assume t: "t = Nd (Nd a n Red b) p Red c"
    obtain m' where m': "rb_insert_right dummy_rotate m n p g = (m', Some (n, n))"
        "n \<noteq> 0 \<and> rb_is_black m' n" "rb_step S m m' k (Nd (Nd d g Red a) n Black (Nd b p Red c))"
      using insert_right_inner f S inv Black unfolding t by blast
    show ?thesis
      using inv Black unfolding * [OF m'(1,2)]
      by (intro repairedI [OF m'(3)]) (auto simp: rbt_plug t)
  qed
qed

lemma rb_insert_loop_repairs:
  assumes "focus m k (Nd a n Red b)" "invc_ctx k" "invc (Nd a n Red b)" "invh (Nd a n Red b)"
    and "invh_ctx k (bheight a)" "set (inord (plug k (Nd a n Red b))) \<subseteq> S"
  shows "repaired S m (rb_insert_loop dummy_rotate m n (up k)) (inord (plug k (Nd a n Red b)))"
  using assms
proof (induction "length k" arbitrary: m k a n b rule: less_induct)
  case less
  note inv = less.prems
  show ?case
  proof (cases "ctx_colour k = Black")
    case True
    then have "up k \<noteq> 0" "rb_is_black m (up k)"
      using inv(1) by (cases "(k, Lf)" rule: plug.cases; auto simp: focus_def rb_defs)+
    moreover have "rb_step S m m k (Nd a n Red b)"
      using inv(1) by (simp add: rb_step_def)
    ultimately show ?thesis
      using inv True by (auto simp: insert_loop_black rbt_plug intro!: repairedI)
  next
    case False
    show ?thesis
    proof (cases "k = []")
      case True
      with inv insert_loop_root [of m a n b S] show ?thesis
        by (simp add: rbt_def)
    next
      case False
      with \<open>ctx_colour k \<noteq> Black\<close> obtain f g k' where k: "k = f # g # k'"
          and g: "ctx_colour (g # k') = Black"
        using inv(2) by (cases "(k, Lf)" rule: plug.cases; cases "tl k") auto
      have IH: "repaired S m' (rb_insert_loop dummy_rotate m' q (up k'))
            (inord (plug k' (Nd a' q Red b')))"
        if "focus m' k' (Nd a' q Red b')" "invc (Nd a' q Red b')" "invh (Nd a' q Red b')"
          "bheight a' = bheight a + 1" "set (inord (plug k' (Nd a' q Red b'))) \<subseteq> S" for m' a' q b'
        using that inv(2,5) g \<open>ctx_colour k \<noteq> Black\<close>
        by (intro less.hyps) (cases f; cases g; auto simp: k)+
      obtain t p c where t: "t = Nd (Nd a n Red b) p Red c \<or> t = Nd c p Red (Nd a n Red b)"
          and c: "invc c" "colour c = Black" "invh c" "bheight c = bheight a" "up k = p"
          and plug: "plug k (Nd a n Red b) = plug (g # k') t"
        using inv(2,5) \<open>ctx_colour k \<noteq> Black\<close> by (cases f) (auto simp: k)
      have tg: "focus m (g # k') t" "set (inord (plug (g # k') t)) \<subseteq> S" "invc_ctx (g # k')"
          "invh_ctx (g # k') (bheight a)"
        using inv(1,2,5,6) plug \<open>ctx_colour k \<noteq> Black\<close> by (cases f; auto simp: focus_plug k)+
      show ?thesis
        unfolding plug \<open>up k = p\<close>
      proof (cases g)
        case (LeftOf q gc d)
        with t c tg inv(3,4) g IH
          insert_round_left [of m k' t q d a n b p c S]
        show "repaired S m (rb_insert_loop dummy_rotate m n p) (inord (plug (g # k') t))"
          by (simp add: focus_up)
      next
        case (RightOf d q gc)
        with t c tg inv(3,4) g IH
          insert_round_right [of m k' d q t a n b p c S]
        show "repaired S m (rb_insert_loop dummy_rotate m n p) (inord (plug (g # k') t))"
          by (simp add: focus_up)
      qed
    qed
  qed
qed

end
