(* ===== verification/Rb_Erase.thy ===== *)
theory Rb_Erase
  imports Rb_Shape
begin

text \<open>
  Correctness of \<open>rb_erase\<close>: the node is unlinked, with its successor moved into its place
  when it has two children, and the loop of \<open>____rb_erase_color\<close> restores equal black
  heights.
\<close>

section \<open>The cases of one round\<close>

lemmas erase_left_fold = rb_erase_black_left_def [unfolded adopt_fold]
  rb_erase_rotate_left_def [unfolded adopt_fold] rb_erase_flip_left_def
lemmas erase_right_fold = rb_erase_black_right_def [unfolded adopt_fold]
  rb_erase_rotate_right_def [unfolded adopt_fold] rb_erase_flip_right_def

lemma erase_sibling_left:
  assumes "focus m k (Nd t p Black (Nd (Nd x r Black y) q Red sr))"
    and "set (inord (plug k (Nd t p Black (Nd (Nd x r Black y) q Red sr)))) \<subseteq> S"
  shows "\<exists>m'. rb_erase_sibling_left dummy_rotate m p q = (m', r) \<and>
     rb_step S m m' k (Nd (Nd t p Red (Nd x r Black y)) q Black sr)"
  by (rule focusE [OF assms], simp add: disjoint_simps, elim conjE,
      simp add: rb_erase_sibling_left_def rb_step_simps)

lemma erase_flip_left:
  assumes "focus m k (Nd t p c (Nd sl q Black sr))"
    and "set (inord (plug k (Nd t p c (Nd sl q Black sr)))) \<subseteq> S"
    and "colour sl = Black" "colour sr = Black"
  shows "\<exists>m'. rb_erase_black_left dummy_rotate m p q =
       (m', if c = Red \<or> up k = 0 then None else Some (p, up k)) \<and>
     rb_step S m m' k (Nd t p Black (Nd sl q Red sr))"
  by (rule focusE [OF assms(1,2)], insert assms(3-), simp add: disjoint_simps, elim conjE,
      cases c; simp add: erase_left_fold rb_step_simps)

lemma erase_outer_left:
  assumes "focus m k (Nd t p c (Nd sl q Black (Nd x r Red y)))"
    and "set (inord (plug k (Nd t p c (Nd sl q Black (Nd x r Red y))))) \<subseteq> S"
  shows "\<exists>m'. rb_erase_black_left dummy_rotate m p q = (m', None) \<and>
     rb_step S m m' k (Nd (Nd t p Black sl) q c (Nd x r Black y))"
  by (rule focusE [OF assms(1,2)], simp add: disjoint_simps, elim conjE,
      simp add: erase_left_fold rb_step_simps)

lemma erase_inner_left:
  assumes "focus m k (Nd t p c (Nd (Nd x r Red y) q Black sr))"
    and "set (inord (plug k (Nd t p c (Nd (Nd x r Red y) q Black sr)))) \<subseteq> S"
    and "colour y = Black" "colour sr = Black"
  shows "\<exists>m'. rb_erase_black_left dummy_rotate m p q = (m', None) \<and>
     rb_step S m m' k (Nd (Nd t p Black x) r c (Nd y q Black sr))"
  by (rule focusE [OF assms(1,2)], insert assms(3-), simp add: disjoint_simps, elim conjE,
      simp add: erase_left_fold rb_step_simps)

lemma erase_sibling_right:
  assumes "focus m k (Nd (Nd sr q Red (Nd x r Black y)) p Black t)"
    and "set (inord (plug k (Nd (Nd sr q Red (Nd x r Black y)) p Black t))) \<subseteq> S"
  shows "\<exists>m'. rb_erase_sibling_right dummy_rotate m p q = (m', r) \<and>
     rb_step S m m' k (Nd sr q Black (Nd (Nd x r Black y) p Red t))"
  by (rule focusE [OF assms], simp add: disjoint_simps, elim conjE,
      simp add: rb_erase_sibling_right_def rb_step_simps)

lemma erase_flip_right:
  assumes "focus m k (Nd (Nd sr q Black sl) p c t)"
    and "set (inord (plug k (Nd (Nd sr q Black sl) p c t))) \<subseteq> S"
    and "colour sl = Black" "colour sr = Black"
  shows "\<exists>m'. rb_erase_black_right dummy_rotate m p q =
       (m', if c = Red \<or> up k = 0 then None else Some (p, up k)) \<and>
     rb_step S m m' k (Nd (Nd sr q Red sl) p Black t)"
  by (rule focusE [OF assms(1,2)], insert assms(3-), simp add: disjoint_simps, elim conjE,
      cases c; simp add: erase_right_fold rb_step_simps)

lemma erase_outer_right:
  assumes "focus m k (Nd (Nd (Nd x r Red y) q Black sl) p c t)"
    and "set (inord (plug k (Nd (Nd (Nd x r Red y) q Black sl) p c t))) \<subseteq> S"
  shows "\<exists>m'. rb_erase_black_right dummy_rotate m p q = (m', None) \<and>
     rb_step S m m' k (Nd (Nd x r Black y) q c (Nd sl p Black t))"
  by (rule focusE [OF assms(1,2)], simp add: disjoint_simps, elim conjE,
      simp add: erase_right_fold rb_step_simps)

lemma erase_inner_right:
  assumes "focus m k (Nd (Nd sr q Black (Nd x r Red y)) p c t)"
    and "set (inord (plug k (Nd (Nd sr q Black (Nd x r Red y)) p c t))) \<subseteq> S"
    and "colour x = Black" "colour sr = Black"
  shows "\<exists>m'. rb_erase_black_right dummy_rotate m p q = (m', None) \<and>
     rb_step S m m' k (Nd (Nd sr q Black x) r c (Nd y p Black t))"
  by (rule focusE [OF assms(1,2)], insert assms(3-), simp add: disjoint_simps, elim conjE,
      simp add: erase_right_fold rb_step_simps)

section \<open>The loop\<close>

definition erase_continue :: "rb_round \<Rightarrow> rb_mem option" where
  "erase_continue r =
     (case r of (m, None) \<Rightarrow> Some m
      | (m, Some (n, p)) \<Rightarrow> rb_erase_color_loop dummy_rotate m n p)"

text \<open>A subtree whose root is black and whose black height is \<open>h\<close>, one less than it should be.\<close>

definition short_by_one :: "ptree \<Rightarrow> nat \<Rightarrow> bool" where
  "short_by_one t h \<longleftrightarrow> invc t \<and> invh t \<and> colour t = Black \<and> bheight t = h"

lemma up_nonzero: "ctx_at m k p \<Longrightarrow> k \<noteq> [] \<Longrightarrow> up k \<noteq> 0"
  by (cases "(k, Lf)" rule: plug.cases) auto

text \<open>A round with a black sibling, the short subtree being on the left.\<close>

lemma erase_black_left_repairs:
  assumes f: "focus m k (Nd t p c (Nd sl q Black sr))"
    and S: "set (inord (plug k (Nd t p c (Nd sl q Black sr)))) \<subseteq> S"
    and inv: "invc_ctx k" "c = Red \<longrightarrow> ctx_colour k = Black" "short_by_one t (bheight t)"
      "invc sl" "invc sr" "invh sl" "invh sr" "bheight sl = bheight t" "bheight sr = bheight t"
      "invh_ctx k (bheight t + (if c = Black then 2 else 1))"
    and IH: "\<And>m' t'. \<lbrakk>c = Black; k \<noteq> []; focus m' k t'; set (inord (plug k t')) \<subseteq> S;
        short_by_one t' (bheight t + 1); root_ptr t' = p\<rbrakk> \<Longrightarrow>
        repaired S m' (rb_erase_color_loop dummy_rotate m' p (up k)) (inord (plug k t'))"
  shows "repaired S m (erase_continue (rb_erase_black_left dummy_rotate m p q))
     (inord (plug k (Nd t p c (Nd sl q Black sr))))"
proof -
  consider (flip) "colour sl = Black" "colour sr = Black"
    | (outer) x r y where "sr = Nd x r Red y"
    | (inner) x r y where "sl = Nd x r Red y" "colour sr = Black"
    by (cases sl; cases sr) (metis colour.simps not_Red(1))+
  then show ?thesis
  proof cases
    case flip
    let ?t = "Nd t p Black (Nd sl q Red sr)"
    have t: "short_by_one ?t (bheight t + 1)" "inord (plug k ?t) = inord (plug k (Nd t p c (Nd sl q Black sr)))"
      using inv flip by (auto simp: short_by_one_def)
    obtain m' where m': "rb_erase_black_left dummy_rotate m p q =
         (m', if c = Red \<or> up k = 0 then None else Some (p, up k))" "rb_step S m m' k ?t"
      using erase_flip_left [OF f S flip] by blast
    show ?thesis
    proof (cases "c = Red \<or> k = []")
      case True
      then have "rbt (plug k ?t)"
        using inv t(1) by (auto simp: rbt_plug short_by_one_def)
      with True m' t(2) show ?thesis
        by (auto simp: erase_continue_def intro!: repairedI [OF m'(2)])
    next
      case False
      have "up k \<noteq> 0"
        using f False by (auto simp: focus_def dest: up_nonzero)
      moreover have "repaired S m' (rb_erase_color_loop dummy_rotate m' p (up k)) (inord (plug k ?t))"
        using False m'(2) S t by (intro IH) (auto simp: rb_step_def)
      ultimately show ?thesis
        using False m' t(2) by (auto simp: erase_continue_def rb_step_def intro: repaired_trans)
    qed
  next
    case outer
    obtain m' where m': "rb_erase_black_left dummy_rotate m p q = (m', None)"
        "rb_step S m m' k (Nd (Nd t p Black sl) q c (Nd x r Black y))"
      using erase_outer_left f S unfolding outer by blast
    then show ?thesis
      using inv unfolding outer
      by (auto simp: erase_continue_def rbt_plug short_by_one_def intro!: repairedI [OF m'(2)])
  next
    case inner
    have "colour x = Black" "colour y = Black"
      using inv inner by auto
    then obtain m' where m': "rb_erase_black_left dummy_rotate m p q = (m', None)"
        "rb_step S m m' k (Nd (Nd t p Black x) r c (Nd y q Black sr))"
      using erase_inner_left f S inner(2) unfolding inner(1) by blast
    then show ?thesis
      using inv inner(2) unfolding inner(1)
      by (auto simp: erase_continue_def rbt_plug short_by_one_def intro!: repairedI [OF m'(2)])
  qed
qed

text \<open>A round with a black sibling, the short subtree being on the right.\<close>

lemma erase_black_right_repairs:
  assumes f: "focus m k (Nd (Nd sr q Black sl) p c t)"
    and S: "set (inord (plug k (Nd (Nd sr q Black sl) p c t))) \<subseteq> S"
    and inv: "invc_ctx k" "c = Red \<longrightarrow> ctx_colour k = Black" "short_by_one t (bheight t)"
      "invc sl" "invc sr" "invh sl" "invh sr" "bheight sl = bheight t" "bheight sr = bheight t"
      "invh_ctx k (bheight t + (if c = Black then 2 else 1))"
    and IH: "\<And>m' t'. \<lbrakk>c = Black; k \<noteq> []; focus m' k t'; set (inord (plug k t')) \<subseteq> S;
        short_by_one t' (bheight t + 1); root_ptr t' = p\<rbrakk> \<Longrightarrow>
        repaired S m' (rb_erase_color_loop dummy_rotate m' p (up k)) (inord (plug k t'))"
  shows "repaired S m (erase_continue (rb_erase_black_right dummy_rotate m p q))
     (inord (plug k (Nd (Nd sr q Black sl) p c t)))"
proof -
  consider (flip) "colour sl = Black" "colour sr = Black"
    | (outer) x r y where "sr = Nd x r Red y"
    | (inner) x r y where "sl = Nd x r Red y" "colour sr = Black"
    by (cases sl; cases sr) (metis colour.simps not_Red(1))+
  then show ?thesis
  proof cases
    case flip
    let ?t = "Nd (Nd sr q Red sl) p Black t"
    have t: "short_by_one ?t (bheight t + 1)" "inord (plug k ?t) = inord (plug k (Nd (Nd sr q Black sl) p c t))"
      using inv flip by (auto simp: short_by_one_def)
    obtain m' where m': "rb_erase_black_right dummy_rotate m p q =
         (m', if c = Red \<or> up k = 0 then None else Some (p, up k))" "rb_step S m m' k ?t"
      using erase_flip_right [OF f S flip] by blast
    show ?thesis
    proof (cases "c = Red \<or> k = []")
      case True
      then have "rbt (plug k ?t)"
        using inv t(1) by (auto simp: rbt_plug short_by_one_def)
      with True m' t(2) show ?thesis
        by (auto simp: erase_continue_def intro!: repairedI [OF m'(2)])
    next
      case False
      have "up k \<noteq> 0"
        using f False by (auto simp: focus_def dest: up_nonzero)
      moreover have "repaired S m' (rb_erase_color_loop dummy_rotate m' p (up k)) (inord (plug k ?t))"
        using False m'(2) S t by (intro IH) (auto simp: rb_step_def)
      ultimately show ?thesis
        using False m' t(2) by (auto simp: erase_continue_def rb_step_def intro: repaired_trans)
    qed
  next
    case outer
    obtain m' where m': "rb_erase_black_right dummy_rotate m p q = (m', None)"
        "rb_step S m m' k (Nd (Nd x r Black y) q c (Nd sl p Black t))"
      using erase_outer_right f S unfolding outer by blast
    then show ?thesis
      using inv unfolding outer
      by (auto simp: erase_continue_def rbt_plug short_by_one_def intro!: repairedI [OF m'(2)])
  next
    case inner
    have "colour x = Black" "colour y = Black"
      using inv inner by auto
    then obtain m' where m': "rb_erase_black_right dummy_rotate m p q = (m', None)"
        "rb_step S m m' k (Nd (Nd sr q Black x) r c (Nd y p Black t))"
      using erase_inner_right f S inner(2) unfolding inner(1) by blast
    then show ?thesis
      using inv inner(2) unfolding inner(1)
      by (auto simp: erase_continue_def rbt_plug short_by_one_def intro!: repairedI [OF m'(2)])
  qed
qed

lemma erase_loop_left:
  assumes "focus m k (Nd t p c (Nd a q sc b))"
  shows "rb_erase_color_loop dummy_rotate m (root_ptr t) p =
      erase_continue (rb_erase_color_left dummy_rotate m p q)"
    and "sc = Black \<Longrightarrow> rb_erase_color_left dummy_rotate m p q = rb_erase_black_left dummy_rotate m p q"
    and "rb_erase_sibling_left dummy_rotate m p q = (m', r) \<Longrightarrow>
      rb_erase_color_left dummy_rotate m p q = rb_erase_black_left dummy_rotate m' p r"
proof -
  have at: "rb_right m p = q \<and> rb_left m p = root_ptr t \<and> root_ptr t \<noteq> q"
    using assms by (cases t) (auto simp: focus_def)
  show "rb_erase_color_loop dummy_rotate m (root_ptr t) p =
      erase_continue (rb_erase_color_left dummy_rotate m p q)"
    by (subst rb_erase_color_loop.simps) (simp add: at erase_continue_def)
  have "sc = Black \<Longrightarrow> rb_erase_sibling_left dummy_rotate m p q = (m, q)"
    by (rule focusE [OF assms order_refl], simp add: disjoint_simps, elim conjE,
      simp add: rb_erase_sibling_left_def rb_step_simps)
  then show "sc = Black \<Longrightarrow> rb_erase_color_left dummy_rotate m p q = rb_erase_black_left dummy_rotate m p q"
    by (simp add: rb_erase_color_left_def at)
  show "rb_erase_sibling_left dummy_rotate m p q = (m', r) \<Longrightarrow>
      rb_erase_color_left dummy_rotate m p q = rb_erase_black_left dummy_rotate m' p r"
    by (simp add: rb_erase_color_left_def at)
qed

lemma erase_loop_right:
  assumes "focus m k (Nd (Nd a q sc b) p c t)"
  shows "rb_erase_color_loop dummy_rotate m (root_ptr t) p =
      erase_continue (rb_erase_color_right dummy_rotate m p)"
    and "sc = Black \<Longrightarrow> rb_erase_color_right dummy_rotate m p = rb_erase_black_right dummy_rotate m p q"
    and "rb_erase_sibling_right dummy_rotate m p q = (m', r) \<Longrightarrow>
      rb_erase_color_right dummy_rotate m p = rb_erase_black_right dummy_rotate m' p r"
proof -
  have at: "rb_left m p = q \<and> rb_right m p = root_ptr t \<and> root_ptr t \<noteq> q"
    using assms by (cases t) (auto simp: focus_def)
  show "rb_erase_color_loop dummy_rotate m (root_ptr t) p =
      erase_continue (rb_erase_color_right dummy_rotate m p)"
    by (subst rb_erase_color_loop.simps) (simp add: at erase_continue_def)
  have "sc = Black \<Longrightarrow> rb_erase_sibling_right dummy_rotate m p q = (m, q)"
    by (rule focusE [OF assms order_refl], simp add: disjoint_simps, elim conjE,
      simp add: rb_erase_sibling_right_def rb_step_simps)
  then show "sc = Black \<Longrightarrow> rb_erase_color_right dummy_rotate m p = rb_erase_black_right dummy_rotate m p q"
    by (simp add: rb_erase_color_right_def at)
  show "rb_erase_sibling_right dummy_rotate m p q = (m', r) \<Longrightarrow>
      rb_erase_color_right dummy_rotate m p = rb_erase_black_right dummy_rotate m' p r"
    by (simp add: rb_erase_color_right_def at)
qed

lemma erase_round_left:
  assumes f: "focus m k (Nd t p c s)"
    and S: "set (inord (plug k (Nd t p c s))) \<subseteq> S"
    and inv: "invc_ctx k" "c = Red \<longrightarrow> colour s = Black \<and> ctx_colour k = Black" "short_by_one t (bheight t)"
      "invc s" "invh s" "bheight s = bheight t + 1"
      "invh_ctx k (bheight t + (if c = Black then 2 else 1))"
    and IH: "\<And>m' t'. \<lbrakk>c = Black; k \<noteq> []; focus m' k t'; set (inord (plug k t')) \<subseteq> S;
        short_by_one t' (bheight t + 1); root_ptr t' = p\<rbrakk> \<Longrightarrow>
        repaired S m' (rb_erase_color_loop dummy_rotate m' p (up k)) (inord (plug k t'))"
  shows "repaired S m (rb_erase_color_loop dummy_rotate m (root_ptr t) p) (inord (plug k (Nd t p c s)))"
proof (cases "colour s")
  case Black
  then obtain sl q sr where s: "s = Nd sl q Black sr"
    using inv by (cases s) auto
  note f = f [unfolded s] and S = S [unfolded s]
  have "repaired S m (erase_continue (rb_erase_black_left dummy_rotate m p q))
     (inord (plug k (Nd t p c (Nd sl q Black sr))))"
    using inv s IH by (intro erase_black_left_repairs [OF f S]) auto
  then show ?thesis
    unfolding s by (simp add: erase_loop_left [OF f])
next
  case Red
  with inv obtain x r y q sr where s: "s = Nd (Nd x r Black y) q Red sr" and c: "c = Black"
    by (cases s rule: ptree.exhaust; auto) (metis colour.simps(2) bheight.simps(1) nat.simps(3) ptree.exhaust)
  note f = f [unfolded s c] and S = S [unfolded s c]
  let ?k = "LeftOf q Black sr # k"
  obtain m' where m': "rb_erase_sibling_left dummy_rotate m p q = (m', r)"
      "rb_step S m m' k (Nd (Nd t p Red (Nd x r Black y)) q Black sr)"
    using erase_sibling_left [OF f S] by blast
  have f': "focus m' ?k (Nd t p Red (Nd x r Black y))"
    and S': "set (inord (plug ?k (Nd t p Red (Nd x r Black y)))) \<subseteq> S"
    using m'(2) S by (simp_all add: rb_step_def focus_up)
  have "repaired S m' (erase_continue (rb_erase_black_left dummy_rotate m' p r))
     (inord (plug ?k (Nd t p Red (Nd x r Black y))))"
    using inv s c by (intro erase_black_left_repairs [OF f' S']) auto
  moreover have "inord (plug ?k (Nd t p Red (Nd x r Black y))) = inord (plug k (Nd t p c s))"
    by (simp add: s)
  ultimately show ?thesis
    using m'(2) unfolding erase_loop_left(1) [OF f] erase_loop_left(3) [OF f m'(1)] rb_step_def
    by (metis repaired_trans)
qed

lemma erase_round_right:
  assumes f: "focus m k (Nd s p c t)"
    and S: "set (inord (plug k (Nd s p c t))) \<subseteq> S"
    and inv: "invc_ctx k" "c = Red \<longrightarrow> colour s = Black \<and> ctx_colour k = Black" "short_by_one t (bheight t)"
      "invc s" "invh s" "bheight s = bheight t + 1"
      "invh_ctx k (bheight t + (if c = Black then 2 else 1))"
    and IH: "\<And>m' t'. \<lbrakk>c = Black; k \<noteq> []; focus m' k t'; set (inord (plug k t')) \<subseteq> S;
        short_by_one t' (bheight t + 1); root_ptr t' = p\<rbrakk> \<Longrightarrow>
        repaired S m' (rb_erase_color_loop dummy_rotate m' p (up k)) (inord (plug k t'))"
  shows "repaired S m (rb_erase_color_loop dummy_rotate m (root_ptr t) p) (inord (plug k (Nd s p c t)))"
proof (cases "colour s")
  case Black
  then obtain sl q sr where s: "s = Nd sr q Black sl"
    using inv by (cases s) auto
  note f = f [unfolded s] and S = S [unfolded s]
  have "repaired S m (erase_continue (rb_erase_black_right dummy_rotate m p q))
     (inord (plug k (Nd (Nd sr q Black sl) p c t)))"
    using inv s IH by (intro erase_black_right_repairs [OF f S]) auto
  then show ?thesis
    unfolding s by (simp add: erase_loop_right [OF f])
next
  case Red
  with inv obtain x r y q sr where s: "s = Nd sr q Red (Nd x r Black y)" and c: "c = Black"
    by (cases s rule: ptree.exhaust; auto) (metis colour.simps(2) bheight.simps(1) nat.simps(3) ptree.exhaust)
  note f = f [unfolded s c] and S = S [unfolded s c]
  let ?k = "RightOf sr q Black # k"
  obtain m' where m': "rb_erase_sibling_right dummy_rotate m p q = (m', r)"
      "rb_step S m m' k (Nd sr q Black (Nd (Nd x r Black y) p Red t))"
    using erase_sibling_right [OF f S] by blast
  have f': "focus m' ?k (Nd (Nd x r Black y) p Red t)"
    and S': "set (inord (plug ?k (Nd (Nd x r Black y) p Red t))) \<subseteq> S"
    using m'(2) S by (simp_all add: rb_step_def focus_up)
  have "repaired S m' (erase_continue (rb_erase_black_right dummy_rotate m' p r))
     (inord (plug ?k (Nd (Nd x r Black y) p Red t)))"
    using inv s c by (intro erase_black_right_repairs [OF f' S']) auto
  moreover have "inord (plug ?k (Nd (Nd x r Black y) p Red t)) = inord (plug k (Nd s p c t))"
    by (simp add: s)
  ultimately show ?thesis
    using m'(2) unfolding erase_loop_right(1) [OF f] erase_loop_right(3) [OF f m'(1)] rb_step_def
    by (metis repaired_trans)
qed

lemma rb_erase_color_loop_repairs:
  assumes "focus m k t" "k \<noteq> []" "invc_ctx k" "short_by_one t h" "invh_ctx k (h + 1)"
    and "set (inord (plug k t)) \<subseteq> S"
  shows "repaired S m (rb_erase_color_loop dummy_rotate m (root_ptr t) (up k)) (inord (plug k t))"
  using assms
proof (induction "length k" arbitrary: m k t h rule: less_induct)
  case less
  obtain f k' where k: "k = f # k'"
    using less.prems(2) by (cases k) auto
  have h: "h = bheight t" "short_by_one t (bheight t)"
    using less.prems(4) by (auto simp: short_by_one_def)
  have IH: "repaired S m' (rb_erase_color_loop dummy_rotate m' p (up k')) (inord (plug k' t'))"
    if "ctx_colour k = Black" "k' \<noteq> []" "focus m' k' t'" "set (inord (plug k' t')) \<subseteq> S"
      "short_by_one t' (bheight t + 1)" "root_ptr t' = p" for m' t' p
    using less.hyps [of k' m' t' "bheight t + 1"] that less.prems(3,5) by (cases f) (auto simp: k h)
  show ?case
  proof (cases f)
    case (LeftOf p c s)
    with less.prems h IH show ?thesis
      using erase_round_left [of m k' t p c s S] by (simp add: k focus_up split: if_splits)
  next
    case (RightOf s p c)
    with less.prems h IH show ?thesis
      using erase_round_right [of m k' s p c t S] by (simp add: k focus_up split: if_splits)
  qed
qed

end
