(* ===== verification/Rb_Unlink.thy ===== *)
theory Rb_Unlink
  imports Rb_Erase
begin

text \<open>
  The first half of \<open>rb_erase\<close>, \<open>__rb_erase_augmented\<close>: which tree it leaves behind, and
  which node it hands to the rebalancing loop.
\<close>

section \<open>At most one child\<close>

lemma erase_leaf:
  assumes "focus m k (Nd Lf n c Lf)" "set (inord (plug k (Nd Lf n c Lf))) \<subseteq> S"
  shows "\<exists>m'. rb_erase_one_child m n 0 = (m', if c = Black then up k else 0, up k) \<and>
     rb_step S m m' k Lf"
  by (rule focusE [OF assms], simp add: disjoint_simps, elim conjE,
      simp add: rb_erase_one_child_def rb_step_simps)

lemma erase_right_only:
  assumes "focus m k (Nd Lf n c (Nd a x d b))" "set (inord (plug k (Nd Lf n c (Nd a x d b)))) \<subseteq> S"
  shows "\<exists>m'. rb_erase_one_child m n x = (m', 0, up k) \<and> rb_step S m m' k (Nd a x c b)"
  by (rule focusE [OF assms], simp add: disjoint_simps, elim conjE,
      simp add: rb_erase_one_child_def rb_step_simps)

lemma erase_left_only:
  assumes "focus m k (Nd (Nd a x d b) n c Lf)" "set (inord (plug k (Nd (Nd a x d b) n c Lf))) \<subseteq> S"
  shows "\<exists>m'. rb_erase_left_child m n x = (m', 0, up k) \<and> rb_step S m m' k (Nd a x c b)"
  by (rule focusE [OF assms], simp add: disjoint_simps, elim conjE,
      simp add: rb_erase_left_child_def rb_step_simps)

section \<open>Two children\<close>

lemma plug_append [simp]:
  "plug (k1 @ k2) t = plug k2 (plug k1 t)"
  "before (k1 @ k2) = before k2 @ before k1"
  "after (k1 @ k2) = after k1 @ after k2"
  by (induction k1 t rule: plug.induct) auto

fun left_spine :: "ctx \<Rightarrow> bool" where
  "left_spine [] \<longleftrightarrow> True"
| "left_spine (LeftOf p c r # k) \<longleftrightarrow> left_spine k"
| "left_spine (RightOf l p c # k) \<longleftrightarrow> False"

lemma left_spine_append [simp]: "left_spine (k1 @ k2) \<longleftrightarrow> left_spine k1 \<and> left_spine k2"
  by (induction k1 rule: left_spine.induct) auto

lemma up_append: "k1 \<noteq> [] \<Longrightarrow> up (k1 @ k2) = up k1"
  by (cases "(k1, Lf)" rule: plug.cases) auto

text \<open>The loop for the successor finds the first node of a subtree.\<close>

lemma erase_successor_first:
  "tree_at m par t \<Longrightarrow> t \<noteq> Lf \<Longrightarrow>
   \<exists>kr s sc r2. t = plug kr (Nd Lf s sc r2) \<and> left_spine kr \<and>
     (\<forall>q. erase_successor m q (root_ptr t) = Some (if kr = [] then q else up kr, s))"
proof (induction t arbitrary: par)
  case (Nd l y yc r)
  show ?case
  proof (cases l)
    case Lf
    with Nd.prems have "\<forall>q. erase_successor m q y = Some (q, y)"
      by (simp add: erase_successor.simps)
    with Lf show ?thesis
      by (intro exI [of _ "[]"]) auto
  next
    case (Nd l1 z zc l2)
    then have "tree_at m y l" "l \<noteq> Lf" and z: "rb_left m y = z" "z \<noteq> 0"
      using Nd.prems by auto
    then obtain kr s sc r2 where kr: "l = plug kr (Nd Lf s sc r2)" "left_spine kr"
        "\<forall>q. erase_successor m q (root_ptr l) = Some (if kr = [] then q else up kr, s)"
      using Nd.IH(1) by blast
    have "\<forall>q. erase_successor m q y = Some (up (kr @ [LeftOf y yc r]), s)"
      using kr(3) z Nd by (subst erase_successor.simps) (auto simp: up_append)
    with kr show ?thesis
      by (intro exI [of _ "kr @ [LeftOf y yc r]"]) auto
  qed
qed simp

text \<open>The successor takes the place of the erased node.\<close>

definition take_place :: "rb_mem \<Rightarrow> ulong \<Rightarrow> ulong \<Rightarrow> ulong \<Rightarrow> ulong \<Rightarrow> ulong \<Rightarrow> rb_mem" where
  "take_place m n s lp rp pc =
     (let m = put_right m s rp;
          m = rb_set_parent m rp s;
          m = put_left m s lp;
          m = rb_set_parent m lp s;
          m = rb_change_child m n s (pc_parent pc)
      in put_pc m s pc)"

lemma take_place_step:
  assumes "focus m k (Nd (Nd a lp lc b) n c (Nd d rp rc e))"
    and "set (inord (plug k (Nd (Nd a lp lc b) n c (Nd d rp rc e)))) \<subseteq> S"
    and "node_ok s" "s \<in> S" "s \<notin> set (inord (plug k (Nd (Nd a lp lc b) n c (Nd d rp rc e))))"
  shows "rb_step S m (take_place m n s lp rp (pack (up k) c)) k (Nd (Nd a lp lc b) s c (Nd d rp rc e))"
proof -
  have "s \<noteq> up k"
    using assms(3,5) up_cases [of k] by (auto simp del: node_ok_nz dest: node_ok_nz)
  then show ?thesis
    by (rule_tac focusE [OF assms(1,2)], insert assms(3-), simp add: disjoint_simps, elim conjE,
        simp add: take_place_def rb_step_simps)
qed

text \<open>Writing one packed field commutes with the other assignments.\<close>

lemma put_pc_swap: "x \<noteq> y \<Longrightarrow> put_pc (put_pc m x v) y w = put_pc (put_pc m y w) x v"
  by (simp add: put_pc_def fun_upd_twist)

lemma put_pc_out:
  "put_left (put_pc m x v) p w = put_pc (put_left m p w) x v"
  "put_right (put_pc m x v) p w = put_pc (put_right m p w) x v"
  "rb_change_child (put_pc m x v) old new par = put_pc (rb_change_child m old new par) x v"
  by (simp_all add: put_pc_def put_left_def put_right_def put_root_def rb_change_child_def)

lemma take_place_pc:
  assumes "x \<noteq> s" "x \<noteq> lp" "x \<noteq> rp"
  shows "take_place (put_pc m x v) n s lp rp pc = put_pc (take_place m n s lp rp pc) x v"
  using assms
  by (simp add: take_place_def rb_defs rb_simps put_pc_out put_pc_swap [of x s] put_pc_swap [of x lp]
      put_pc_swap [of x rp])

lemmas erase_two_fold = rb_erase_two_children_def dummy_callbacks_def

lemma erase_next_leaf:
  assumes "focus m k (Nd (Nd a lp lc b) n c (Nd Lf s sc Lf))"
    and "set (inord (plug k (Nd (Nd a lp lc b) n c (Nd Lf s sc Lf)))) \<subseteq> S"
  shows "\<exists>m'. rb_erase_two_children dummy_callbacks m n s = Some (m', if sc = Black then s else 0, s) \<and>
     rb_step S m m' k (Nd (Nd a lp lc b) s c Lf)"
  by (rule focusE [OF assms], simp add: disjoint_simps, elim conjE,
      simp add: erase_two_fold rb_step_simps)

lemma erase_next_child:
  assumes "focus m k (Nd (Nd a lp lc b) n c (Nd Lf s sc (Nd d x xc e)))"
    and "set (inord (plug k (Nd (Nd a lp lc b) n c (Nd Lf s sc (Nd d x xc e))))) \<subseteq> S"
  shows "\<exists>m'. rb_erase_two_children dummy_callbacks m n s = Some (m', 0, s) \<and>
     rb_step S m m' k (Nd (Nd a lp lc b) s c (Nd d x Black e))"
  by (rule focusE [OF assms], simp add: disjoint_simps, elim conjE,
      simp add: erase_two_fold rb_step_simps)

text \<open>A successor further down is first unlinked from its own place.\<close>

lemma spine_root:
  "k \<noteq> [] \<Longrightarrow> left_spine k \<Longrightarrow> plug k t \<noteq> Lf \<and> root_ptr (plug k t) \<in> set (after k) \<and>
     root_ptr (plug k t) = root_ptr (plug k t')"
proof (induction k arbitrary: t t' rule: left_spine.induct)
  case (2 p c r k)
  then show ?case by (cases "k = []") auto
qed auto

lemma spine_before: "left_spine k \<Longrightarrow> before k = []"
  by (induction k rule: left_spine.induct) auto

lemma spine_left:
  "k \<noteq> [] \<Longrightarrow> left_spine k \<Longrightarrow> t \<noteq> Lf \<Longrightarrow> tree_at m par (plug k t) \<Longrightarrow>
     rb_left m (root_ptr (plug k t)) \<noteq> 0"
proof (induction k arbitrary: t rule: left_spine.induct)
  case (2 p c r k)
  then show ?case by (cases "k = []"; cases t) auto
qed auto

lemma unlink_leaf:
  assumes "focus m (LeftOf p pc pr # k) (Nd Lf s sc Lf)"
    and "set (inord (plug (LeftOf p pc pr # k) (Nd Lf s sc Lf))) \<subseteq> S"
  shows "rb_step S m (put_left m p 0) (LeftOf p pc pr # k) Lf"
  using assms by (auto simp: rb_step_simps)

lemma unlink_child:
  assumes "focus m (LeftOf p pc pr # k) (Nd Lf s sc (Nd d x xc e))"
    and "set (inord (plug (LeftOf p pc pr # k) (Nd Lf s sc (Nd d x xc e)))) \<subseteq> S"
  shows "rb_step S m (put_pc (put_left m p x) x (pack p Black)) (LeftOf p pc pr # k) (Nd d x Black e)"
  using assms by (auto simp: rb_step_simps)

lemma erase_two_far:
  assumes "rb_left m y \<noteq> 0" "erase_successor m y (rb_left m y) = Some (p, s)"
    and "rb_left m n = lp" "rb_parent_color m n = pack par c" "ptr_ok par"
    and "rb_parent_color m s = pack p sc" "ptr_ok p"
    and "n \<noteq> p" "n \<noteq> s" "n \<noteq> y" "n \<noteq> lp" "s \<noteq> y" "s \<noteq> lp" "lp \<noteq> y"
  shows "rb_erase_two_children dummy_callbacks m n y =
    (let x = rb_right m s; m' = take_place (put_left m p x) n s lp y (pack par c) in
     if x = 0 then Some (m', if sc = Black then p else 0, s)
     else Some (put_pc m' x (pack p Black), 0, s))"
  using assms by (simp add: erase_two_fold take_place_def rb_defs rb_simps)

text \<open>
  Removing a node with two children, whatever the distance to its successor: the successor
  \<open>s\<close> replaces it, and the successor's only child, if any, is painted black.
\<close>

definition moved_up :: "ulong set \<Rightarrow> rb_mem \<Rightarrow> rb_mem \<Rightarrow> ulong \<Rightarrow> ctx \<Rightarrow> rb_colour \<Rightarrow> ptree \<Rightarrow> bool" where
  "moved_up S m m' reb k sc r2 \<longleftrightarrow>
     rb_step S m m' k (paint Black r2) \<and>
     reb = (if r2 = Lf \<and> sc = Black then up k else 0)"

lemma erase_near_successor:
  assumes "focus m k (Nd (Nd a lp lc b) n c (Nd Lf s sc r2))"
    and "set (inord (plug k (Nd (Nd a lp lc b) n c (Nd Lf s sc r2)))) \<subseteq> S"
  shows "\<exists>m' reb. rb_erase_two_children dummy_callbacks m n s = Some (m', reb, s) \<and>
     moved_up S m m' reb (RightOf (Nd a lp lc b) s c # k) sc r2"
proof (cases r2)
  case Lf
  show ?thesis
    using erase_next_leaf [OF assms [unfolded Lf]]
    by (auto simp: moved_up_def Lf rb_step_def focus_up)
next
  case (Nd d x xc e)
  show ?thesis
    using erase_next_child [OF assms [unfolded Nd]]
    by (auto simp: moved_up_def Nd rb_step_def focus_up)
qed

lemma erase_far_successor:
  assumes f: "focus m k (Nd (Nd a lp lc b) n c r)"
    and S: "set (inord (plug k (Nd (Nd a lp lc b) n c r))) \<subseteq> S"
    and kr: "r = plug kr (Nd Lf s sc r2)" "left_spine kr" "kr \<noteq> []"
      "\<forall>q. erase_successor m q (root_ptr r) = Some (up kr, s)"
  shows "\<exists>m' reb. rb_erase_two_children dummy_callbacks m n (root_ptr r) = Some (m', reb, s) \<and>
     moved_up S m m' reb (kr @ RightOf (Nd a lp lc b) s c # k) sc r2"
proof -
  let ?l = "Nd a lp lc b" and ?y = "root_ptr r"
  obtain p pcol pr kr' where kr': "kr = LeftOf p pcol pr # kr'"
    using kr(2,3) by (cases kr rule: left_spine.cases) auto
  let ?K = "LeftOf p pcol pr # kr' @ RightOf ?l n c # k"
  have fK: "focus m ?K (Nd Lf s sc r2)" and SK: "set (inord (plug ?K (Nd Lf s sc r2))) \<subseteq> S"
    using f S by (simp_all add: focus_plug kr(1) kr')
  have at: "rb_parent_color m s = pack p sc" "rb_right m s = root_ptr r2" "node_ok s" "node_ok p"
      "rb_left m n = lp" "rb_parent_color m n = pack (up k) c" "ptr_ok (up k)" "tree_at m n r"
      "tree_at m s r2"
    using fK f by (auto simp: focus_def)
  have y: "?y \<in> set (after kr)" "rb_left m ?y \<noteq> 0"
    using spine_root [OF kr(3,2)] spine_left [OF kr(3,2) _ at(8) [unfolded kr(1)]] by (auto simp: kr(1))
  have dist: "distinct (before k @ inord ?l @ n # (s # inord r2) @ after kr @ after k)"
    using f kr(2) by (simp add: focus_def kr(1) spine_before)
  define m1 where "m1 = put_left m p (root_ptr r2)"
  define m2 where "m2 = (if r2 = Lf then m1 else put_pc m1 (root_ptr r2) (pack p Black))"
  have "rb_step S m m2 ?K (paint Black r2)"
    using unlink_leaf unlink_child fK SK by (cases r2) (simp_all add: m2_def m1_def)
  then have f2: "focus m2 k (Nd ?l n c (plug kr (paint Black r2)))" and s2: "same_outside S m m2"
    by (simp_all add: rb_step_def focus_plug kr')
  obtain d yc e where plug: "plug kr (paint Black r2) = Nd d ?y yc e"
    using spine_root [OF kr(3,2)] unfolding kr(1) by (metis ptree.exhaust root_ptr.simps(2))
  have inord: "before kr @ inord r2 @ after kr = inord d @ ?y # inord e"
    using arg_cong [OF plug, of inord] by simp
  define m3 where "m3 = take_place m2 n s lp ?y (pack (up k) c)"
  have setd: "insert ?y (set (inord d) \<union> set (inord e)) = set (inord r2) \<union> set (after kr)"
    using arg_cong [OF inord, of set] kr(2) by (simp add: spine_before)
  have "rb_step S m2 m3 k (Nd ?l s c (Nd d ?y yc e))"
    unfolding m3_def
  proof (rule take_place_step [OF f2 [unfolded plug] _ at(3)])
    show "set (inord (plug k (Nd ?l n c (Nd d ?y yc e)))) \<subseteq> S" "s \<in> S"
      using SK setd kr' by auto
    show "s \<notin> set (inord (plug k (Nd ?l n c (Nd d ?y yc e))))"
      using dist setd by auto
  qed
  then have "rb_step S m m3 (kr @ RightOf ?l s c # k) (paint Black r2)"
    using s2 same_outside_trans unfolding rb_step_def focus_plug by (auto simp: plug)
  moreover have neq: "n \<noteq> p" "n \<noteq> s" "n \<noteq> ?y" "n \<noteq> lp" "s \<noteq> ?y" "s \<noteq> lp" "lp \<noteq> ?y"
      "r2 \<noteq> Lf \<Longrightarrow> root_ptr r2 \<noteq> s \<and> root_ptr r2 \<noteq> lp \<and> root_ptr r2 \<noteq> ?y"
    using dist y(1) kr' by (cases r2; auto)+
  have "erase_successor m ?y (rb_left m ?y) = Some (p, s)"
    using kr(4) y(2) kr' by (simp add: erase_successor.simps [of m _ ?y])
  then have "rb_erase_two_children dummy_callbacks m n ?y = 
      Some (m3, if r2 = Lf \<and> sc = Black then p else 0, s)"
    using neq at y(2) root_ptr_zero [OF at(9)]
    by (subst erase_two_far [where p = p and s = s and sc = sc and lp = lp and par = "up k" and c = c])
      (auto simp: m3_def m2_def m1_def take_place_pc Let_def)
  ultimately show ?thesis
    by (auto simp: moved_up_def kr')
qed

section \<open>The whole removal\<close>

text \<open>The effect of \<open>__rb_erase_augmented\<close> on a red-black tree.\<close>

definition unlinked :: "ulong set \<Rightarrow> rb_mem \<Rightarrow> (rb_mem \<times> ulong) option \<Rightarrow> ulong list \<Rightarrow> bool" where
  "unlinked S m r xs \<longleftrightarrow>
     (\<exists>m'. r = Some (m', 0) \<and> repaired S m (Some m') xs) \<or>
     (\<exists>m' k. r = Some (m', up k) \<and> k \<noteq> [] \<and> rb_step S m m' k Lf \<and> invc_ctx k \<and> invh_ctx k 1 \<and>
        before k @ after k = xs)"

lemma unlinkedI:
  assumes "rb_step S m m' k (paint Black r2)" "reb = (if r2 = Lf \<and> sc = Black then up k else 0)"
    and "rbt (plug k (Nd Lf s sc r2))"
  shows "unlinked S m (Some (m', reb)) (before k @ inord r2 @ after k)"
proof -
  have inv: "invc_ctx k" "invc (Nd Lf s sc r2)" "sc = Red \<longrightarrow> ctx_colour k = Black"
      "invh (Nd Lf s sc r2)" "invh_ctx k (if sc = Black then 1 else 0)"
    using assms(3) by (auto simp: rbt_plug split: if_splits)
  show ?thesis
  proof (cases "r2 = Lf \<and> sc = Black \<and> k \<noteq> []")
    case True
    with assms inv show ?thesis
      by (auto simp: unlinked_def)
  next
    case False
    then have "reb = 0"
      using assms(2) by auto
    have "rbt (plug k (paint Black r2))"
      using False inv by (cases r2) (auto simp: rbt_plug split: if_splits)
    then have "repaired S m (Some m') (before k @ inord r2 @ after k)"
      by (intro repairedI [OF assms(1)]) auto
    with \<open>reb = 0\<close> show ?thesis
      by (auto simp: unlinked_def)
  qed
qed

lemma erase_augmented_unlinks:
  assumes f: "focus m k (Nd l n c r)" and rbt: "rbt (plug k (Nd l n c r))"
    and S: "set (inord (plug k (Nd l n c r))) \<subseteq> S"
  shows "unlinked S m (rb_erase_augmented m n False dummy_callbacks)
     (before k @ inord l @ inord r @ after k)"
proof -
  have at: "rb_right m n = root_ptr r" "rb_left m n = root_ptr l" "tree_at m n l" "tree_at m n r"
    using f by (simp_all add: focus_def)
  have inv: "invc_ctx k" "invc (Nd l n c r)" "c = Red \<longrightarrow> ctx_colour k = Black"
      "invh (Nd l n c r)" "invh_ctx k (bheight (Nd l n c r))"
    using rbt by (auto simp: rbt_plug)
  have ptrs: "root_ptr l = 0 \<longleftrightarrow> l = Lf" "root_ptr r = 0 \<longleftrightarrow> r = Lf"
    using at(3,4) by (simp_all add: root_ptr_zero)
  note aug = rb_erase_augmented_def Let_def at(1,2) ptrs dummy_callbacks_def dummy_propagate_def
  show ?thesis
  proof (cases l)
    case Lf
    note l = this
    obtain m' where "rb_erase_one_child m n (root_ptr r) = (m', if r = Lf \<and> c = Black then up k else 0, up k)"
        "rb_step S m m' k (paint Black r)"
    proof (cases r)
      case Lf
      show thesis
        using erase_leaf [OF f [unfolded l Lf] S [unfolded l Lf]] that by (auto simp: Lf)
    next
      case (Nd a x d b)
      then have "c = Black"
        using inv l by (cases c) (auto split: if_splits)
      then show thesis
        using erase_right_only [OF f [unfolded l Nd] S [unfolded l Nd]] that by (auto simp: Nd)
    qed
    with unlinkedI [of S m m' k r _ c n] rbt l show ?thesis
      by (simp add: aug)
  next
    case l: (Nd a x d b)
    then have "x \<noteq> 0"
      using at(3) by auto
    show ?thesis
    proof (cases r)
      case Lf
      then have c: "c = Black" "d = Red"
        using inv l by (cases c; auto split: if_splits)+
      obtain m' where m': "rb_erase_left_child m n x = (m', 0, up k)" "rb_step S m m' k (Nd a x c b)"
        using erase_left_only f S unfolding l Lf by blast
      have "repaired S m (Some m') (before k @ inord l @ inord r @ after k)"
        using inv c l Lf by (intro repairedI [OF m'(2)]) (auto simp: rbt_plug)
      with m'(1) l Lf \<open>x \<noteq> 0\<close> show ?thesis
        by (simp add: aug unlinked_def)
    next
      case (Nd e y yc g)
      obtain kr s sc r2 where kr: "r = plug kr (Nd Lf s sc r2)" "left_spine kr"
          "\<forall>q. erase_successor m q (root_ptr r) = Some (if kr = [] then q else up kr, s)"
        using erase_successor_first [OF at(4)] Nd by blast
      obtain m' reb where m': "rb_erase_two_children dummy_callbacks m n (root_ptr r) = Some (m', reb, s)"
          "moved_up S m m' reb (kr @ RightOf l s c # k) sc r2"
      proof (cases "kr = []")
        case True
        with erase_near_successor [of m k a x d b n c s sc r2 S] f S kr(1) l that show thesis
          by auto
      next
        case False
        with erase_far_successor [of m k a x d b n c r S kr s sc r2] f S kr l that show thesis
          by auto
      qed
      have "rbt (plug (kr @ RightOf l s c # k) (Nd Lf s sc r2))"
        using rbt by (simp add: rbt_plug flip: kr(1))
      with m'(2) have "unlinked S m (Some (m', reb))
          (before (kr @ RightOf l s c # k) @ inord r2 @ after (kr @ RightOf l s c # k))"
        unfolding moved_up_def by (intro unlinkedI) auto
      moreover have "rb_erase_augmented m n False dummy_callbacks = Some (m', reb)"
        using m'(1) l Nd ptrs by (simp add: aug)
      ultimately show ?thesis
        using kr(2) by (simp add: kr(1) spine_before)
    qed
  qed
qed

lemma rb_erase_repairs:
  assumes f: "focus m k (Nd l n c r)" and rbt: "rbt (plug k (Nd l n c r))"
    and S: "set (inord (plug k (Nd l n c r))) \<subseteq> S"
  shows "repaired S m (rb_erase m n) (before k @ inord l @ inord r @ after k)"
  using erase_augmented_unlinks [OF assms] unfolding unlinked_def
proof (elim disjE exE conjE)
  fix m' k'
  assume r: "rb_erase_augmented m n False dummy_callbacks = Some (m', up k')" "k' \<noteq> []"
      "rb_step S m m' k' Lf" "invc_ctx k'" "invh_ctx k' 1"
      "before k' @ after k' = before k @ inord l @ inord r @ after k"
  have "set (inord (plug k' Lf)) \<subseteq> S"
    using S arg_cong [OF r(6), of set] by auto
  then have "repaired S m' (rb_erase_color_loop dummy_rotate m' 0 (up k')) (inord (plug k' Lf))"
    using rb_erase_color_loop_repairs [of m' k' Lf 0 S] r by (simp add: short_by_one_def rb_step_def)
  moreover have "up k' \<noteq> 0"
    using r(2,3) up_nonzero by (auto simp: rb_step_def focus_def)
  ultimately show ?thesis
    using r by (auto simp: rb_erase_def rb_erase_color_def rb_step_def intro: repaired_trans)
qed (simp add: rb_erase_def)

end
