(* ===== verification/Rb_Walk.thy ===== *)
theory Rb_Walk
  imports Rb_Insert Rb_Unlink
begin

text \<open>
  The walks of \<open>rbtree.c\<close> and the properties of the tree that clients rely on: insertion,
  removal and replacement of nodes, iteration in order and in post-order, and the insertion
  routine of \<open>rb_run.c\<close>.
\<close>

section \<open>Finding a node\<close>

text \<open>The first element of a list of nodes as the walks return it, with \<open>NULL\<close> at the end.\<close>

fun first_ptr :: "ulong list \<Rightarrow> ulong" where
  "first_ptr [] = 0"
| "first_ptr (p # ps) = p"

lemma first_ptr_append [simp]:
  "first_ptr (xs @ ys) = (if xs = [] then first_ptr ys else first_ptr xs)"
  by (cases xs) auto

lemma node_in_tree: "n \<in> set (inord t) \<Longrightarrow> \<exists>k l c r. t = plug k (Nd l n c r)"
proof (induction t)
  case (Nd l p c r)
  then consider "n = p" | "n \<in> set (inord l)" | "n \<in> set (inord r)"
    by auto
  then show ?case
  proof cases
    case 1
    then show ?thesis by (intro exI [of _ "[]"]) auto
  next
    case 2
    then obtain k l' c' r' where "l = plug k (Nd l' n c' r')"
      using Nd.IH by blast
    then show ?thesis by (intro exI [of _ "k @ [LeftOf p c r]"]) auto
  next
    case 3
    then obtain k l' c' r' where "r = plug k (Nd l' n c' r')"
      using Nd.IH by blast
    then show ?thesis by (intro exI [of _ "k @ [RightOf l p c]"]) auto
  qed
qed simp

lemma append_cons_unique:
  "distinct (xs @ n # ys) \<Longrightarrow> xs @ n # ys = xs' @ n # ys' \<Longrightarrow> xs' = xs \<and> ys' = ys"
  by (auto simp: append_eq_append_conv2 append_eq_Cons_conv Cons_eq_append_conv)

lemma focus_at:
  assumes "rb_tree_at m t" "inord t = xs @ n # ys"
  obtains k l c r where "t = plug k (Nd l n c r)" "focus m k (Nd l n c r)"
    "xs = before k @ inord l" "ys = inord r @ after k"
proof -
  obtain k l c r where t: "t = plug k (Nd l n c r)"
    using node_in_tree [of n t] assms(2) by auto
  moreover have "focus m k (Nd l n c r)"
    using assms(1) t by (simp add: focus_plug)
  moreover have "distinct (xs @ n # ys)" "xs @ n # ys = (before k @ inord l) @ n # (inord r @ after k)"
    using assms t by (simp_all add: rb_tree_at_def flip: assms(2))
  ultimately show thesis
    using append_cons_unique [of xs n ys "before k @ inord l" "inord r @ after k"]
    by (intro that) auto
qed

section \<open>Walks\<close>

lemma walk_left_first: "tree_at m par t \<Longrightarrow> t \<noteq> Lf \<Longrightarrow> walk_left m (root_ptr t) = Some (first_ptr (inord t))"
proof (induction t arbitrary: par)
  case (Nd l p c r)
  then show ?case
    by (cases l) (auto simp: walk_left.simps [of _ p])
qed simp

lemma walk_right_last: "tree_at m par t \<Longrightarrow> t \<noteq> Lf \<Longrightarrow> walk_right m (root_ptr t) = Some (last (inord t))"
proof (induction t arbitrary: par)
  case (Nd l p c r)
  then show ?case
    by (cases r) (auto simp: walk_right.simps [of _ p])
qed simp

text \<open>The neighbourhood of the focus, as the walks upwards see it.\<close>

lemma focus_root: "focus m k t \<Longrightarrow> t \<noteq> Lf \<Longrightarrow> rb_parent m (root_ptr t) = up k \<and> root_ptr t \<noteq> 0"
  by (cases t) (auto simp: focus_def rb_defs)

lemma focus_siblings:
  "focus m (LeftOf p c r # k) t \<Longrightarrow> t \<noteq> Lf \<Longrightarrow>
      p \<noteq> 0 \<and> rb_left m p = root_ptr t \<and> rb_right m p = root_ptr r \<and> root_ptr t \<noteq> root_ptr r"
  "focus m (RightOf l p c # k) t \<Longrightarrow> t \<noteq> Lf \<Longrightarrow>
      p \<noteq> 0 \<and> rb_left m p = root_ptr l \<and> rb_right m p = root_ptr t \<and> root_ptr t \<noteq> root_ptr l"
  by (cases t; cases r; auto simp: focus_def) (cases t; cases l; auto simp: focus_def)

lemma up_while_right_next:
  "focus m k t \<Longrightarrow> t \<noteq> Lf \<Longrightarrow> up_while_right m (root_ptr t) = Some (first_ptr (after k))"
proof (induction k t rule: plug.induct)
  case (1 t)
  then show ?case
    using focus_root [of m "[]" t] by (simp add: up_while_right.simps)
next
  case (2 p c r k t)
  then show ?case
    using focus_root [OF 2(2,3)] focus_siblings(1) [OF 2(2,3)]
    by (simp add: up_while_right.simps [of _ "root_ptr t"])
next
  case (3 l p c k t)
  then show ?case
    using focus_root [OF 3(2,3)] focus_siblings(2) [OF 3(2,3)]
    by (simp add: up_while_right.simps [of _ "root_ptr t"] focus_up)
qed

lemma up_while_left_prev:
  "focus m k t \<Longrightarrow> t \<noteq> Lf \<Longrightarrow> up_while_left m (root_ptr t) = Some (first_ptr (rev (before k)))"
proof (induction k t rule: plug.induct)
  case (1 t)
  then show ?case
    using focus_root [of m "[]" t] by (simp add: up_while_left.simps)
next
  case (2 p c r k t)
  then show ?case
    using focus_root [OF 2(2,3)] focus_siblings(1) [OF 2(2,3)]
    by (simp add: up_while_left.simps [of _ "root_ptr t"] focus_up)
next
  case (3 l p c k t)
  then show ?case
    using focus_root [OF 3(2,3)] focus_siblings(2) [OF 3(2,3)]
    by (simp add: up_while_left.simps [of _ "root_ptr t"])
qed

lemma not_empty_node:
  assumes "focus m k (Nd l n c r)"
  shows "\<not> RB_EMPTY_NODE m n"
proof -
  have "node_ok n" "ptr_ok (up k)" "rb_parent_color m n = pack (up k) c"
    using assms by (auto simp: focus_def)
  moreover have "up k \<noteq> n"
    using assms up_fresh [of m k n "up k" "Nd l n c r"] by (auto simp: focus_def)
  ultimately show ?thesis
    using pack_black_not_ptr [of n "up k"] by (cases c) (auto simp: RB_EMPTY_NODE_def)
qed

lemma rb_next_focus:
  assumes "focus m k (Nd l n c r)"
  shows "rb_next m n = Some (first_ptr (inord r @ after k))"
proof (cases r)
  case Lf
  with assms not_empty_node [OF assms] up_while_right_next [OF assms] show ?thesis
    by (simp add: rb_next_def focus_def)
next
  case (Nd a p d b)
  with assms not_empty_node [OF assms] walk_left_first [of m n r] show ?thesis
    by (simp add: rb_next_def focus_def)
qed

lemma rb_prev_focus:
  assumes "focus m k (Nd l n c r)"
  shows "rb_prev m n = Some (first_ptr (rev (before k @ inord l)))"
proof (cases l)
  case Lf
  with assms not_empty_node [OF assms] up_while_left_prev [OF assms] show ?thesis
    by (simp add: rb_prev_def focus_def)
next
  case (Nd a p d b)
  then have "last (inord l) = first_ptr (rev (inord l) @ rev (before k))"
    by (cases "inord l" rule: rev_cases) auto
  with Nd assms not_empty_node [OF assms] walk_right_last [of m n l] show ?thesis
    by (simp add: rb_prev_def focus_def)
qed

section \<open>Iteration\<close>

lemma rb_next_loop_suffix:
  "rb_tree_at m t \<Longrightarrow> inord t = xs @ ys \<Longrightarrow> rb_next_loop m (first_ptr ys) = Some ys"
proof (induction ys arbitrary: xs)
  case (Cons n ys)
  obtain k l c r where "t = plug k (Nd l n c r)" and k: "focus m k (Nd l n c r)"
      and "xs = before k @ inord l" and ys: "ys = inord r @ after k"
    by (rule focus_at [OF Cons.prems])
  moreover have "n \<noteq> 0"
    using k by (auto simp: focus_def)
  moreover have "rb_next_loop m (first_ptr ys) = Some ys"
    using Cons.IH [of "xs @ [n]"] Cons.prems by simp
  ultimately show ?case
    using rb_next_focus [OF k] by (simp add: rb_next_loop.simps [of _ n] flip: ys)
qed (simp add: rb_next_loop.simps)

lemma rb_first_last:
  assumes "rb_tree_at m t"
  shows "rb_first m = Some (first_ptr (inord t))" and "rb_last m = Some (first_ptr (rev (inord t)))"
proof -
  have t: "rb_node m = root_ptr t" "tree_at m 0 t"
    using assms by (simp_all add: rb_tree_at_def)
  show "rb_first m = Some (first_ptr (inord t))"
    using t root_ptr_zero [OF t(2)] walk_left_first [OF t(2)] by (auto simp: rb_first_def)
  have "t \<noteq> Lf \<Longrightarrow> last (inord t) = first_ptr (rev (inord t))"
    by (cases "inord t" rule: rev_cases; cases t) auto
  then show "rb_last m = Some (first_ptr (rev (inord t)))"
    using t root_ptr_zero [OF t(2)] walk_right_last [OF t(2)] by (auto simp: rb_last_def)
qed

section \<open>Post-order\<close>

fun postord :: "ptree \<Rightarrow> ulong list" where
  "postord Lf = []"
| "postord (Nd l p c r) = postord l @ postord r @ [p]"

fun post_before :: "ctx \<Rightarrow> ulong list" where
  "post_before [] = []"
| "post_before (LeftOf p c r # k) = post_before k"
| "post_before (RightOf l p c # k) = post_before k @ postord l"

fun post_after :: "ctx \<Rightarrow> ulong list" where
  "post_after [] = []"
| "post_after (LeftOf p c r # k) = postord r @ p # post_after k"
| "post_after (RightOf l p c # k) = p # post_after k"

lemma postord_plug: "postord (plug k t) = post_before k @ postord t @ post_after k"
  by (induction k t rule: plug.induct) auto

lemma set_postord [simp]: "set (postord t) = set (inord t)"
  by (induction t) auto

lemma distinct_postord: "distinct (inord t) \<Longrightarrow> distinct (postord t)"
  by (induction t) auto

lemma postord_Nil [simp]: "postord t = [] \<longleftrightarrow> t = Lf"
  by (cases t) auto

lemma left_deepest_first:
  "tree_at m par t \<Longrightarrow> t \<noteq> Lf \<Longrightarrow> rb_left_deepest_node m (root_ptr t) = Some (first_ptr (postord t))"
proof (induction t arbitrary: par)
  case (Nd l p c r)
  then show ?case
    using root_ptr_zero [of m p l] root_ptr_zero [of m p r]
    by (cases "l = Lf"; cases "r = Lf") (auto simp: rb_left_deepest_node.simps [of _ p])
qed simp

text \<open>
  The body of the loop may overwrite the nodes already visited: \<open>m'\<close> has to agree with the
  tree only on the current node and those still to come.
\<close>

definition agree_on :: "ulong set \<Rightarrow> rb_mem \<Rightarrow> rb_mem \<Rightarrow> bool" where
  "agree_on S m m' \<longleftrightarrow> (\<forall>q\<in>S. rb_parent_color m' q = rb_parent_color m q \<and>
     rb_left m' q = rb_left m q \<and> rb_right m' q = rb_right m q)"

lemma agree_on_mono: "agree_on S m m' \<Longrightarrow> T \<subseteq> S \<Longrightarrow> agree_on T m m'"
  by (auto simp: agree_on_def)

lemma agree_on_trans: "agree_on S m m' \<Longrightarrow> agree_on S m' m'' \<Longrightarrow> agree_on S m m''"
  by (simp add: agree_on_def)

lemma tree_at_agree: "agree_on S m m' \<Longrightarrow> set (inord t) \<subseteq> S \<Longrightarrow> tree_at m par t \<Longrightarrow> tree_at m' par t"
  by (induction t arbitrary: par) (auto simp: agree_on_def)

lemma rb_next_postorder_focus:
  assumes f: "focus m k t" "t \<noteq> Lf" and ag: "agree_on (insert (root_ptr t) (set (post_after k))) m m'"
  shows "rb_next_postorder m' (root_ptr t) = Some (first_ptr (post_after k))"
proof -
  have n: "rb_parent m' (root_ptr t) = up k" "root_ptr t \<noteq> 0"
    using focus_root [OF f] ag by (auto simp: rb_parent_def agree_on_def)
  show ?thesis
  proof (cases "(k, t)" rule: plug.cases)
    case (1 t')
    with n show ?thesis by (simp add: rb_next_postorder_def)
  next
    case (2 p c r k' t')
    then have p: "p \<noteq> 0" "rb_left m' p = root_ptr t" "rb_right m' p = root_ptr r"
      using f focus_siblings(1) [of m p c r k' t] ag by (auto simp: agree_on_def)
    have r: "tree_at m' p r"
      using f(1) 2 by (intro tree_at_agree [OF ag]) (auto simp: focus_def)
    show ?thesis
      using 2 n p root_ptr_zero [OF r] left_deepest_first [OF r]
      by (auto simp: rb_next_postorder_def)
  next
    case (3 l p c k' t')
    then have "p \<noteq> 0" "rb_left m' p \<noteq> root_ptr t"
      using f focus_siblings(2) [of m l p c k' t] ag by (auto simp: agree_on_def)
    with 3 n show ?thesis
      by (auto simp: rb_next_postorder_def)
  qed
qed

lemma postorder_loop_suffix:
  assumes body: "\<And>p m'. agree_on (- {p}) m' (body p m')"
  shows "rb_tree_at m t \<Longrightarrow> postord t = xs @ ys \<Longrightarrow> agree_on (set ys) m m' \<Longrightarrow>
     \<exists>m''. postorder_loop body m' (first_ptr ys) = Some (ys, m'')"
proof (induction ys arbitrary: xs m')
  case (Cons n ys)
  then have "n \<in> set (inord t)"
    using set_postord [of t] by auto
  then obtain k l c r where t: "t = plug k (Nd l n c r)"
    using node_in_tree by blast
  have "distinct (postord t)"
    using Cons.prems(1) by (intro distinct_postord) (simp add: rb_tree_at_def)
  then have ys: "ys = post_after k"
    using append_cons_unique [of xs n ys "post_before k @ postord l @ postord r" "post_after k"]
      Cons.prems(2) by (simp add: t postord_plug)
  have f: "focus m k (Nd l n c r)"
    using Cons.prems(1) by (simp add: focus_plug t)
  have "n \<notin> set ys"
    using \<open>distinct (postord t)\<close> Cons.prems(2) by simp
  then have "agree_on (set ys) m (body n m')"
    using agree_on_mono [OF Cons.prems(3), of "set ys"] agree_on_mono [OF body [of n m'], of "set ys"]
    by (auto intro: agree_on_trans)
  then obtain m'' where "postorder_loop body (body n m') (first_ptr ys) = Some (ys, m'')"
    using Cons.IH [of "xs @ [n]"] Cons.prems(1,2) by auto
  moreover have "rb_next_postorder m' n = Some (first_ptr ys)"
    using rb_next_postorder_focus [OF f, of m'] Cons.prems(3) ys by simp
  moreover have "n \<noteq> 0"
    using f by (auto simp: focus_def)
  ultimately show ?case
    by (simp add: postorder_loop.simps [of _ _ n])
qed (simp add: postorder_loop.simps)

section \<open>Replacement\<close>

lemmas replace_fold = rb_replace_node_def [unfolded Let_def, unfolded adopt_fold]

lemma rb_replace_node_step:
  assumes "focus m k (Nd l n c r)" "set (inord (plug k (Nd l n c r))) \<subseteq> S"
    and "node_ok new" "new \<in> S" "new \<notin> set (inord (plug k (Nd l n c r)))"
  shows "rb_step S m (rb_replace_node m n new) k (Nd l new c r)"
proof -
  have "new \<noteq> up k"
    using assms(3,5) up_cases [of k] by (auto simp del: node_ok_nz dest: node_ok_nz)
  then show ?thesis
    by (rule_tac focusE [OF assms(1,2)], insert assms(3-), simp add: disjoint_simps, elim conjE,
        simp add: replace_fold rb_step_simps)
qed

end
