(* ===== verification/Rb_Correct.thy ===== *)
theory Rb_Correct
  imports Rb_Walk
begin

text \<open>
  The properties of the red-black tree component. Each speaks of an arbitrary tree in memory
  that satisfies the red-black conditions; the list \<open>inord t\<close> of its nodes is the abstract
  value that the operations change.
\<close>

section \<open>Insertion\<close>

fun link_of :: "ctx \<Rightarrow> rb_link" where
  "link_of [] = Root_link"
| "link_of (LeftOf p c r # k) = Left_link p"
| "link_of (RightOf l p c # k) = Right_link p"

lemma link_get_focus: "focus m k t \<Longrightarrow> link_get m (link_of k) = root_ptr t"
  by (cases "(k, t)" rule: plug.cases) (auto simp: focus_def)

lemma rb_link_node_step:
  assumes "focus m k Lf" "node_ok n" "n \<notin> set (inord (plug k Lf))"
    and "set (inord (plug k (Nd Lf n Red Lf))) \<subseteq> S"
  shows "rb_step S m (rb_link_node m n (up k) (link_of k)) k (Nd Lf n Red Lf)"
  using assms
  by (cases "(k, Lf)" rule: plug.cases) (auto simp: rb_link_node_def rb_step_simps)

lemma rb_link_insert:
  assumes "focus m k Lf" "rbt (plug k Lf)" "node_ok n" "n \<notin> set (inord (plug k Lf))"
    and "S = insert n (set (inord (plug k Lf)))"
  shows "repaired S m (rb_insert_color (rb_link_node m n (up k) (link_of k)) n) (before k @ n # after k)"
proof -
  let ?m = "rb_link_node m n (up k) (link_of k)"
  have S: "set (inord (plug k (Nd Lf n Red Lf))) \<subseteq> S"
    using assms(5) by auto
  have step: "rb_step S m ?m k (Nd Lf n Red Lf)"
    using rb_link_node_step [OF assms(1,3,4) S] .
  then have "rb_red_parent ?m n = up k"
    by (auto simp: rb_step_def focus_def rb_red_parent_def)
  moreover have "repaired S ?m (rb_insert_loop dummy_rotate ?m n (up k)) (inord (plug k (Nd Lf n Red Lf)))"
    using step S assms(2) by (intro rb_insert_loop_repairs) (auto simp: rb_step_def rbt_plug)
  ultimately show ?thesis
    using step by (auto simp: rb_insert_color_def rb_insert_def rb_step_def intro: repaired_trans)
qed

text \<open>
  C2: Inserting a node. Hanging a fresh node into any free link of a red-black tree with
  \<open>rb_link_node\<close> and calling \<open>rb_insert_color\<close> returns, gives a red-black tree whose nodes
  in order are the old ones with the new node in the place of the link, and writes nothing
  outside the nodes of the tree and the new node.
\<close>

theorem rb_insert_color_correct:
  assumes "rb_tree_at m (plug k Lf)" "rbt (plug k Lf)" "node_ok n" "n \<notin> set (inord (plug k Lf))"
  shows "\<exists>m' t. rb_insert_color (rb_link_node m n (up k) (link_of k)) n = Some m' \<and>
     rb_tree_at m' t \<and> rbt t \<and> inord t = before k @ n # after k \<and>
     same_outside (insert n (set (inord (plug k Lf)))) m m'"
  using rb_link_insert [of m k n] assms unfolding focus_plug [symmetric] repaired_def by blast

definition rb_memory :: rb_mem where
  "rb_memory = \<lparr>rb_parent_color = (\<lambda>_. 0), rb_right = (\<lambda>_. 0), rb_left = (\<lambda>_. 0),
     rb_node = 0, rb_leftmost = 0\<rparr>"

text \<open>The memory after the first three insertions of \<open>main\<close>: a black root with two red children.\<close>

definition rb_three :: rb_mem where
  "rb_three = \<lparr>rb_parent_color = (\<lambda>_. 0)(8 := 16, 16 := 1, 24 := 16),
     rb_right = (\<lambda>_. 0)(16 := 24), rb_left = (\<lambda>_. 0)(16 := 8), rb_node = 16, rb_leftmost = 0\<rparr>"

definition three_nodes :: ptree where
  "three_nodes = Nd (Nd Lf 8 Red Lf) 16 Black (Nd Lf 24 Red Lf)"

lemma three_nodes_ok: "rb_tree_at rb_three three_nodes" "rbt three_nodes" "inord three_nodes = [8, 16, 24]"
  by (simp_all add: rb_tree_at_def rb_three_def three_nodes_def rbt_def node_ok_def pack_def
      RB_RED_def RB_BLACK_def del: or_colour)

lemma rb_insert_color_witness:
  "\<exists>m' t. rb_insert_color (rb_link_node rb_three 32 24 (Right_link 24)) 32 = Some m' \<and>
     rb_tree_at m' t \<and> rbt t \<and> inord t = [8, 16, 24, 32]"
  using rb_insert_color_correct [of rb_three "[RightOf Lf 24 Red, RightOf (Nd Lf 8 Red Lf) 16 Black]" 32]
    three_nodes_ok unfolding three_nodes_def by (auto simp: node_ok_def)

section \<open>Removal and replacement\<close>

text \<open>
  C3: Erasing a node. \<open>rb_erase\<close> of any node of a red-black tree returns and gives a red-black
  tree with the remaining nodes in the same order; it writes nothing outside the nodes of the
  tree.
\<close>

theorem rb_erase_correct:
  assumes "rb_tree_at m t" "rbt t" "inord t = xs @ n # ys"
  shows "\<exists>m' t'. rb_erase m n = Some m' \<and> rb_tree_at m' t' \<and> rbt t' \<and> inord t' = xs @ ys \<and>
     same_outside (set (inord t)) m m'"
proof -
  obtain k l c r where "t = plug k (Nd l n c r)" "focus m k (Nd l n c r)"
      "xs = before k @ inord l" "ys = inord r @ after k"
    by (rule focus_at [OF assms(1,3)])
  with rb_erase_repairs [of m k l n c r "set (inord t)"] assms(2) show ?thesis
    by (auto simp: repaired_def)
qed

lemma rb_erase_witness:
  "\<exists>m' t'. rb_erase rb_three 16 = Some m' \<and> rb_tree_at m' t' \<and> rbt t' \<and> inord t' = [8, 24]"
  using rb_erase_correct [of rb_three three_nodes "[8]" 16 "[24]"] three_nodes_ok by auto

text \<open>
  Inserting a node and erasing it again gives back a red-black tree with the original nodes
  in the original order.
\<close>

theorem rb_insert_erase_restores:
  assumes "rb_tree_at m (plug k Lf)" "rbt (plug k Lf)" "node_ok n" "n \<notin> set (inord (plug k Lf))"
  shows "\<exists>m' t. Option.bind (rb_insert_color (rb_link_node m n (up k) (link_of k)) n)
       (\<lambda>m1. rb_erase m1 n) = Some m' \<and>
     rb_tree_at m' t \<and> rbt t \<and> inord t = inord (plug k Lf)"
proof -
  obtain m1 t where m1: "rb_insert_color (rb_link_node m n (up k) (link_of k)) n = Some m1"
      "rb_tree_at m1 t" "rbt t" "inord t = before k @ n # after k"
    using rb_link_insert [of m k n] assms unfolding focus_plug [symmetric] repaired_def by blast
  obtain k' l c r where k': "t = plug k' (Nd l n c r)" "focus m1 k' (Nd l n c r)"
      "before k = before k' @ inord l" "after k = inord r @ after k'"
    by (rule focus_at [OF m1(2,4)])
  have "repaired (set (inord t)) m1 (rb_erase m1 n) (before k' @ inord l @ inord r @ after k')"
    using k' m1(3) by (intro rb_erase_repairs) auto
  then show ?thesis
    using m1(1) k'(3,4) by (auto simp: repaired_def)
qed

lemma rb_insert_erase_witness:
  "\<exists>m' t. Option.bind (rb_insert_color (rb_link_node rb_three 32 24 (Right_link 24)) 32)
       (\<lambda>m1. rb_erase m1 32) = Some m' \<and>
     rb_tree_at m' t \<and> rbt t \<and> inord t = [8, 16, 24]"
  using rb_insert_erase_restores [of rb_three "[RightOf Lf 24 Red, RightOf (Nd Lf 8 Red Lf) 16 Black]" 32]
    three_nodes_ok unfolding three_nodes_def by (auto simp: node_ok_def)

text \<open>
  \<open>rb_replace_node\<close> puts a fresh node into the place of the victim: the tree stays a
  red-black tree and only this entry of the order changes.
\<close>

theorem rb_replace_node_correct:
  assumes "rb_tree_at m t" "rbt t" "inord t = xs @ victim # ys" "node_ok new" "new \<notin> set (inord t)"
  shows "\<exists>t'. rb_tree_at (rb_replace_node m victim new) t' \<and> rbt t' \<and> inord t' = xs @ new # ys \<and>
     same_outside (insert new (set (inord t))) m (rb_replace_node m victim new)"
proof -
  obtain k l c r where t: "t = plug k (Nd l victim c r)" "focus m k (Nd l victim c r)"
      "xs = before k @ inord l" "ys = inord r @ after k"
    by (rule focus_at [OF assms(1,3)])
  have "rb_step (insert new (set (inord t))) m (rb_replace_node m victim new) k (Nd l new c r)"
    using t assms(4,5) by (intro rb_replace_node_step) auto
  then show ?thesis
    using assms(2) t by (intro exI [of _ "plug k (Nd l new c r)"])
      (auto simp: rb_step_def focus_plug rbt_plug)
qed

lemma rb_replace_node_witness:
  "\<exists>t'. rb_tree_at (rb_replace_node rb_three 16 40) t' \<and> rbt t' \<and> inord t' = [8, 40, 24]"
  using rb_replace_node_correct [of rb_three three_nodes "[8]" 16 "[24]" 40] three_nodes_ok
  by (auto simp: node_ok_def)

section \<open>Walks\<close>

text \<open>
  C4: \<open>rb_first\<close>, \<open>rb_last\<close>, \<open>rb_next\<close> and \<open>rb_prev\<close> return, and give the first and the last
  node and the neighbours of a node in the order of the tree, or \<open>NULL\<close> at its ends; the loop
  over \<open>rb_next\<close> visits every node once, in order.
\<close>

theorem rb_walk_correct:
  assumes "rb_tree_at m t"
  shows "rb_first m = Some (first_ptr (inord t)) \<and> rb_last m = Some (first_ptr (rev (inord t))) \<and>
     (\<forall>xs n ys. inord t = xs @ n # ys \<longrightarrow>
        rb_next m n = Some (first_ptr ys) \<and> rb_prev m n = Some (first_ptr (rev xs))) \<and>
     rb_for_each m = Some (inord t)"
proof (intro conjI allI impI)
  show "rb_first m = Some (first_ptr (inord t))" "rb_last m = Some (first_ptr (rev (inord t)))"
    using rb_first_last [OF assms] .
  show "rb_for_each m = Some (inord t)"
    using rb_first_last(1) [OF assms] rb_next_loop_suffix [OF assms, of "[]" "inord t"]
    by (simp add: rb_for_each_def)
next
  fix xs n ys
  assume order: "inord t = xs @ n # ys"
  obtain k l c r where "t = plug k (Nd l n c r)" and k: "focus m k (Nd l n c r)"
      "xs = before k @ inord l" "ys = inord r @ after k"
    by (rule focus_at [OF assms order])
  then show "rb_next m n = Some (first_ptr ys)" "rb_prev m n = Some (first_ptr (rev xs))"
    using rb_next_focus [OF k(1)] rb_prev_focus [OF k(1)] by simp_all
qed

lemma rb_walk_witness:
  "rb_first rb_three = Some 8 \<and> rb_last rb_three = Some 24 \<and> rb_for_each rb_three = Some [8, 16, 24] \<and>
   rb_next rb_three 16 = Some 24 \<and> rb_prev rb_three 16 = Some 8"
proof -
  have "inord three_nodes = [8] @ 16 # [24]"
    by (simp add: three_nodes_ok)
  then have "rb_next rb_three 16 = Some (first_ptr [24]) \<and> rb_prev rb_three 16 = Some (first_ptr (rev [8]))"
    using rb_walk_correct [OF three_nodes_ok(1)] by blast
  then show ?thesis
    using rb_walk_correct [OF three_nodes_ok(1)] by (simp add: three_nodes_ok(3))
qed

text \<open>
  C6: \<open>rbtree_postorder_for_each_entry_safe\<close> returns and visits every node exactly once,
  children before their parents, although its body may overwrite the node it is called with.
\<close>

theorem rb_postorder_safe:
  assumes "rb_tree_at m t" "\<And>p m'. agree_on (- {p}) m' (body p m')"
  shows "(\<exists>m'. rbtree_postorder_for_each_entry_safe body m = Some (postord t, m')) \<and>
     set (postord t) = set (inord t) \<and> distinct (postord t)"
proof -
  have t: "rb_node m = root_ptr t" "tree_at m 0 t" "distinct (inord t)"
    using assms(1) by (simp_all add: rb_tree_at_def)
  have "rb_first_postorder m = Some (first_ptr (postord t))"
    using t root_ptr_zero [OF t(2)] left_deepest_first [OF t(2)] by (auto simp: rb_first_postorder_def)
  moreover have "agree_on (set (postord t)) m m"
    by (simp add: agree_on_def)
  ultimately have "\<exists>m'. rbtree_postorder_for_each_entry_safe body m = Some (postord t, m')"
    using postorder_loop_suffix [OF assms(2,1), of "[]" "postord t" m]
    by (simp add: rbtree_postorder_for_each_entry_safe_def)
  then show ?thesis
    using t(3) by (simp add: distinct_postord)
qed

text \<open>Witness: the body marks every visited node as not inserted, as before a \<open>free\<close>.\<close>

lemma rb_postorder_safe_witness:
  "\<exists>m'. rbtree_postorder_for_each_entry_safe (\<lambda>p m. RB_CLEAR_NODE m p) rb_three = Some ([8, 24, 16], m')"
  using rb_postorder_safe [OF three_nodes_ok(1), of "\<lambda>p m. RB_CLEAR_NODE m p"]
  by (simp add: agree_on_def RB_CLEAR_NODE_def rb_simps three_nodes_def)

end
