(* ===== verification/Rb_Client.thy ===== *)
theory Rb_Client
  imports Rb_Correct
begin

text \<open>
  The insertion routine of \<open>rb_run.c\<close>, which searches the free link for a key and relies
  on the contract of \<open>rb_link_node\<close> and \<open>rb_insert_color\<close> for the rest.
\<close>

section \<open>Comparing keys\<close>

text \<open>For keys below 0x80000000 the truncated difference has the sign of the comparison.\<close>

lemma key_difference:
  fixes x y :: ulong
  assumes "x < 2 ^ 31" "y < 2 ^ 31"
  shows "sint (ucast (x - y) :: 32 word) = uint x - uint y"
proof -
  have b: "0 \<le> uint x" "uint x < 2147483648" "0 \<le> uint y" "uint y < 2147483648"
    using assms by (simp_all add: word_less_def)
  have "(ucast (x - y) :: 32 word) = word_of_int (uint x - uint y)"
    using ucast_down_wi [where 'a = 64 and 'b = 32, of "uint x - uint y"]
    by (simp add: is_down_def source_size_def target_size_def word_size wi_hom_sub)
  then have "sint (ucast (x - y) :: 32 word) = (uint x - uint y + 2147483648) mod 4294967296 - 2147483648"
    by (simp only: int_word_sint) simp
  moreover have "(uint x - uint y + 2147483648) mod 4294967296 = uint x - uint y + 2147483648"
    by (rule mod_pos_pos_trivial) (use b in linarith)+
  ultimately show ?thesis
    by simp
qed

section \<open>Searching\<close>

definition keys_ok :: "(ulong \<Rightarrow> ulong) \<Rightarrow> ulong list \<Rightarrow> bool" where
  "keys_ok runtime ps \<longleftrightarrow>
     sorted_wrt (\<lambda>p q. runtime p < runtime q) ps \<and> (\<forall>p\<in>set ps. runtime p < 2 ^ 31)"

lemma result_sign:
  fixes x y :: ulong
  assumes "x < 2 ^ 31" "y < 2 ^ 31"
  shows "sint (ucast (x - y) :: 32 word) < 0 \<longleftrightarrow> x < y" "0 < sint (ucast (x - y) :: 32 word) \<longleftrightarrow> y < x"
  by (simp_all only: key_difference [OF assms]) (simp_all add: word_less_def)

text \<open>
  The search ends at a key that is already there, or at the free link whose place in the
  order fits the new key.
\<close>

definition search_ok ::
  "(ulong \<Rightarrow> ulong) \<Rightarrow> ulong \<Rightarrow> ptree \<Rightarrow> ulong set \<Rightarrow> (rb_link \<times> ulong) option option \<Rightarrow> bool" where
  "search_ok runtime n t ps r \<longleftrightarrow>
     (if \<exists>p\<in>ps. runtime p = runtime n then r = Some None
      else \<exists>k. r = Some (Some (link_of k, up k)) \<and> plug k Lf = t \<and>
        (\<forall>p\<in>set (before k). runtime p < runtime n) \<and> (\<forall>p\<in>set (after k). runtime n < runtime p))"

lemma search_ok_subset:
  "search_ok runtime n t ps r \<Longrightarrow> \<forall>p\<in>qs - ps. runtime p \<noteq> runtime n \<Longrightarrow> ps \<subseteq> qs \<Longrightarrow>
     search_ok runtime n t qs r"
  unfolding search_ok_def by (smt (verit) DiffI subsetD)

lemma insert_search:
  assumes "focus m k t" "keys_ok runtime (inord (plug k t))" "runtime n < 2 ^ 31"
    and "\<forall>p\<in>set (before k). runtime p < runtime n" "\<forall>p\<in>set (after k). runtime n < runtime p"
  shows "search_ok runtime n (plug k t) (set (inord t)) (rbtree_insert_search runtime m n (link_of k) (up k))"
  using assms
proof (induction t arbitrary: k)
  case Lf
  then show ?case
    using link_get_focus [of m k Lf] by (auto simp: rbtree_insert_search.simps search_ok_def)
next
  case (Nd l q c r)
  let ?s = "rbtree_insert_search runtime m n"
  have q: "link_get m (link_of k) = q" "q \<noteq> 0" "runtime q < 2 ^ 31"
    using link_get_focus [OF Nd.prems(1)] Nd.prems(1,2) by (auto simp: focus_def keys_ok_def)
  have keys: "\<forall>p\<in>set (inord l). runtime p < runtime q" "\<forall>p\<in>set (inord r). runtime q < runtime p"
    using Nd.prems(2) by (auto simp: keys_ok_def sorted_wrt_append)
  note sign = result_sign [OF q(3) Nd.prems(3)]
  consider "runtime q < runtime n" | "runtime n < runtime q" | "runtime q = runtime n"
    by fastforce
  then show ?case
  proof cases
    case 1
    then have l: "\<forall>p\<in>set (inord l). runtime p < runtime n"
      using keys(1) order.strict_trans by blast
    have "?s (link_of k) (up k) = ?s (link_of (RightOf l q c # k)) (up (RightOf l q c # k))"
      using 1 by (subst rbtree_insert_search.simps) (simp add: q sign)
    moreover have "search_ok runtime n (plug k (Nd l q c r)) (set (inord r))
        (?s (link_of (RightOf l q c # k)) (up (RightOf l q c # k)))"
      using Nd.IH(2) [of "RightOf l q c # k"] Nd.prems l 1 by (simp add: focus_up ball_Un)
    ultimately show ?thesis
      using l 1 by (auto elim!: search_ok_subset)
  next
    case 2
    then have r: "\<forall>p\<in>set (inord r). runtime n < runtime p"
      using keys(2) order.strict_trans by blast
    have "?s (link_of k) (up k) = ?s (link_of (LeftOf q c r # k)) (up (LeftOf q c r # k))"
      using 2 less_not_sym [OF 2] by (subst rbtree_insert_search.simps) (simp add: q sign)
    moreover have "search_ok runtime n (plug k (Nd l q c r)) (set (inord l))
        (?s (link_of (LeftOf q c r # k)) (up (LeftOf q c r # k)))"
      using Nd.IH(1) [of "LeftOf q c r # k"] Nd.prems r 2 by (simp add: focus_up ball_Un)
    ultimately show ?thesis
      using r 2 by (auto elim!: search_ok_subset)
  next
    case 3
    then have "?s (link_of k) (up k) = Some None"
      by (subst rbtree_insert_search.simps) (simp add: q)
    with 3 show ?thesis
      by (auto simp: search_ok_def)
  qed
qed

section \<open>The client of the insertion contract\<close>

text \<open>
  What \<open>rbtree_insert\<close> relies on: an operation that hangs a fresh node into a free link and
  leaves a red-black tree with the node in the place of the link.
\<close>

locale node_insertion =
  fixes insert_at :: "rb_mem \<Rightarrow> ulong \<Rightarrow> ulong \<Rightarrow> rb_link \<Rightarrow> rb_mem option"
  assumes insert_at:
    "\<lbrakk>rb_tree_at m (plug k Lf); rbt (plug k Lf); node_ok n; n \<notin> set (inord (plug k Lf))\<rbrakk> \<Longrightarrow>
     \<exists>m' t. insert_at m n (up k) (link_of k) = Some m' \<and> rb_tree_at m' t \<and> rbt t \<and>
       inord t = before k @ n # after k"
begin

lemma insert_found:
  assumes "rb_tree_at m t" "rbt t" "keys_ok runtime (inord t)" "runtime n < 2 ^ 31"
    and "node_ok n" "n \<notin> set (inord t)"
    and "search_ok runtime n t (set (inord t)) (Some (Some (new, parent)))"
  shows "\<exists>m' t'. insert_at m n parent new = Some m' \<and> rb_tree_at m' t' \<and> rbt t' \<and>
     keys_ok runtime (inord t') \<and> set (inord t') = insert n (set (inord t))"
proof -
  obtain k where k: "new = link_of k" "parent = up k" "plug k Lf = t"
      "\<forall>p\<in>set (before k). runtime p < runtime n" "\<forall>p\<in>set (after k). runtime n < runtime p"
    using assms(7) by (auto simp: search_ok_def split: if_splits)
  obtain m' t' where m': "insert_at m n parent new = Some m'" "rb_tree_at m' t'" "rbt t'"
      "inord t' = before k @ n # after k"
    using insert_at [of m k n] assms k by auto
  moreover have "keys_ok runtime (before k @ n # after k)" and "set (inord t) = set (before k) \<union> set (after k)"
    using assms(3,4) k(4,5) by (simp_all add: keys_ok_def sorted_wrt_append ball_Un flip: k(3))
  ultimately show ?thesis
    by auto
qed

end

interpretation rb_core: node_insertion
  "\<lambda>m n parent new. rb_insert_color (rb_link_node m n parent new) n"
proof
  fix m k n
  assume "rb_tree_at m (plug k Lf)" "rbt (plug k Lf)" "node_ok n" "n \<notin> set (inord (plug k Lf))"
  then show "\<exists>m' t. rb_insert_color (rb_link_node m n (up k) (link_of k)) n = Some m' \<and>
      rb_tree_at m' t \<and> rbt t \<and> inord t = before k @ n # after k"
    using rb_link_insert [of m k n] unfolding focus_plug [symmetric] repaired_def by blast
qed

text \<open>
  C5: \<open>rbtree_insert\<close> of \<open>rb_run.c\<close>, for keys below 0x80000000, returns; it leaves the memory
  alone when the key is present and otherwise gives a red-black tree that is sorted by the keys
  and holds the old nodes and the new one.
\<close>

theorem rbtree_insert_correct:
  assumes "rb_tree_at m t" "rbt t" "keys_ok runtime (inord t)" "runtime n < 2 ^ 31"
    and "node_ok n" "n \<notin> set (inord t)"
  shows "if \<exists>p\<in>set (inord t). runtime p = runtime n then rbtree_insert runtime m n = Some m
     else \<exists>m' t'. rbtree_insert runtime m n = Some m' \<and> rb_tree_at m' t' \<and> rbt t' \<and>
       keys_ok runtime (inord t') \<and> set (inord t') = insert n (set (inord t))"
proof -
  have s: "search_ok runtime n t (set (inord t)) (rbtree_insert_search runtime m n Root_link 0)"
    using insert_search [of m "[]" t runtime n] assms by (simp add: focus_plug)
  show ?thesis
  proof (cases "\<exists>p\<in>set (inord t). runtime p = runtime n")
    case True
    with s show ?thesis
      by (simp add: search_ok_def rbtree_insert_def)
  next
    case False
    with s obtain new parent where np: "rbtree_insert_search runtime m n Root_link 0 = Some (Some (new, parent))"
      by (auto simp: search_ok_def)
    then show ?thesis
      using False rb_core.insert_found [OF assms, of new parent] s by (simp add: rbtree_insert_def)
  qed
qed

lemma rbtree_insert_witness:
  "\<exists>m' t'. rbtree_insert (\<lambda>p. p) rb_three 32 = Some m' \<and> rb_tree_at m' t' \<and> rbt t' \<and>
     keys_ok (\<lambda>p. p) (inord t') \<and> set (inord t') = {8, 16, 24, 32}"
  using rbtree_insert_correct [of rb_three three_nodes "\<lambda>p. p" 32] three_nodes_ok
  by (simp add: keys_ok_def node_ok_def insert_commute)

text \<open>
  The keys are 64 bits wide, but their difference is kept in an \<open>int\<close>: a key that differs
  from one in the tree by a multiple of 0x100000000 is taken for a duplicate and its node is
  never inserted.
\<close>

theorem rbtree_insert_drops_key:
  assumes "rb_node m = q" "q \<noteq> 0" "runtime n = runtime q + 0x100000000 * j"
  shows "rbtree_insert runtime m n = Some m"
proof -
  have "runtime q - runtime n = push_bit 32 (- j)"
    using assms(3) by (simp add: push_bit_eq_mult)
  then have "(ucast (runtime q - runtime n) :: 32 word) = 0"
    by (simp only:) (rule bit_word_eqI, simp add: bit_simps)
  then show ?thesis
    using assms(1,2) by (simp add: rbtree_insert_def rbtree_insert_search.simps)
qed

lemma rbtree_insert_drops_key_witness:
  "rbtree_insert ((\<lambda>p. p)(32 := 0x100000010)) rb_three 32 = Some rb_three"
  using rbtree_insert_drops_key [of rb_three 16 "(\<lambda>p. p)(32 := 0x100000010)" 32 1]
  by (simp add: rb_three_def)

end
