(* ===== verification/Radix_Tree.thy ===== *)
theory Radix_Tree
  imports Bitops
begin

text \<open>
  The radix tree of \<open>Algorithem/tree/radix-tree/Basic\<close> (\<open>radix.h\<close>, \<open>radix.c\<close>). Its Makefile
  compiles for a 64-bit \<open>unsigned long\<close> without \<open>CONFIG_64BIT\<close>, so \<open>BITS_PER_LONG\<close> is 32 while
  words have 64 bits, and with \<open>CONFIG_BASE_SMALL=0\<close>, so a node has 64 slots.

  Pointers and entries are 64-bit words; an entry with the low bits 01 points to a node. The
  memory has one root, the nodes by address, the addresses that \<open>malloc\<close> hands out next
  (\<open>pool\<close>), whose contents are whatever the memory holds there, and the addresses that were
  given to \<open>free\<close>. A slot is the field \<open>rnode\<close> of the root or an element of the slots of a node.
  \<open>BUG\<close> is an endless loop: an operation that reaches it, or follows a null pointer, or does
  not end, has no result (\<open>None\<close>). The field \<open>root\<close> of a node is never read and is left out.
\<close>

section \<open>Data\<close>

record radix_tree_node =
  rn_shift :: "8 word"
  rn_offset :: "8 word"
  rn_count :: "8 word"
  rn_exceptional :: "8 word"
  rn_parent :: ulong
  rn_slots :: "ulong list"
  rn_tags :: "ulong list list"

record radix_mem =
  gfp_mask :: u32
  rnode :: ulong
  nodes :: "ulong \<Rightarrow> radix_tree_node"
  pool :: "ulong list"
  freed :: "ulong list"

datatype rslot = Root_slot | Slot ulong nat

definition RT_BITS_PER_LONG :: nat where "RT_BITS_PER_LONG = 32"

definition RADIX_TREE_MAP_SHIFT :: nat where "RADIX_TREE_MAP_SHIFT = 6"

definition RADIX_TREE_MAP_SIZE :: nat where "RADIX_TREE_MAP_SIZE = 2 ^ RADIX_TREE_MAP_SHIFT"

definition RADIX_TREE_TAG_LONGS :: nat where
  "RADIX_TREE_TAG_LONGS = (RADIX_TREE_MAP_SIZE + RT_BITS_PER_LONG - 1) div RT_BITS_PER_LONG"

definition RADIX_TREE_MAX_TAGS :: nat where "RADIX_TREE_MAX_TAGS = 3"

definition IDR_FREE :: nat where "IDR_FREE = 0"

definition ROOT_IS_IDR :: u32 where "ROOT_IS_IDR = 4"

definition ROOT_TAG_SHIFT :: nat where "ROOT_TAG_SHIFT = 23"

definition GFP_ATOMIC :: u32 where "GFP_ATOMIC = 0x20 OR 80000 OR 0x400000"

definition RT_ENOMEM :: int where "RT_ENOMEM = 12"

definition RT_EEXIST :: int where "RT_EEXIST = 17"

abbreviation upd_node :: "ulong \<Rightarrow> (radix_tree_node \<Rightarrow> radix_tree_node) \<Rightarrow> radix_mem \<Rightarrow> radix_mem" where
  "upd_node p f m \<equiv> m\<lparr>nodes := (nodes m)(p := f (nodes m p))\<rparr>"

section \<open>Entries\<close>

definition radix_tree_is_internal_node :: "ulong \<Rightarrow> bool" where
  "radix_tree_is_internal_node ptr \<longleftrightarrow> ptr AND 3 = 1"

definition radix_tree_exceptional_entry :: "ulong \<Rightarrow> bool" where
  "radix_tree_exceptional_entry arg \<longleftrightarrow> arg AND 2 \<noteq> 0"

definition node_to_entry :: "ulong \<Rightarrow> ulong" where
  "node_to_entry ptr = ptr OR 1"

definition entry_to_node :: "ulong \<Rightarrow> ulong" where
  "entry_to_node ptr = ptr AND NOT 1"

definition RADIX_TREE_RETRY :: ulong where
  "RADIX_TREE_RETRY = node_to_entry 0"

definition INIT_RADIX_TREE :: "u32 \<Rightarrow> radix_mem \<Rightarrow> radix_mem" where
  "INIT_RADIX_TREE flags m = m\<lparr>gfp_mask := flags, rnode := 0\<rparr>"

definition radix_tree_empty :: "radix_mem \<Rightarrow> bool" where
  "radix_tree_empty m \<longleftrightarrow> rnode m = 0"

definition shift_maxindex :: "nat \<Rightarrow> ulong" where
  "shift_maxindex s = push_bit s (of_nat RADIX_TREE_MAP_SIZE) - 1"

definition node_maxindex :: "radix_mem \<Rightarrow> ulong \<Rightarrow> ulong" where
  "node_maxindex m node = shift_maxindex (unat (rn_shift (nodes m node)))"

text \<open>The root entry, the largest index of the tree, and the shift above the root.\<close>

definition radix_tree_load_root :: "radix_mem \<Rightarrow> ulong \<times> ulong \<times> nat" where
  "radix_tree_load_root m =
     (let node = rnode m
      in if radix_tree_is_internal_node node
         then let p = entry_to_node node
              in (node, node_maxindex m p, unat (rn_shift (nodes m p)) + RADIX_TREE_MAP_SHIFT)
         else (node, 0, 0))"

section \<open>Tags\<close>

definition is_idr :: "radix_mem \<Rightarrow> bool" where
  "is_idr m \<longleftrightarrow> gfp_mask m AND ROOT_IS_IDR \<noteq> 0"

definition root_tag_set :: "nat \<Rightarrow> radix_mem \<Rightarrow> radix_mem" where
  "root_tag_set tag m = m\<lparr>gfp_mask := gfp_mask m OR push_bit (tag + ROOT_TAG_SHIFT) 1\<rparr>"

definition root_tag_get :: "radix_mem \<Rightarrow> nat \<Rightarrow> bool" where
  "root_tag_get m tag \<longleftrightarrow> gfp_mask m AND push_bit (tag + ROOT_TAG_SHIFT) 1 \<noteq> 0"

definition root_tags_get :: "radix_mem \<Rightarrow> u32" where
  "root_tags_get m = drop_bit ROOT_TAG_SHIFT (gfp_mask m)"

definition root_tag_clear :: "nat \<Rightarrow> radix_mem \<Rightarrow> radix_mem" where
  "root_tag_clear tag m = m\<lparr>gfp_mask := gfp_mask m AND NOT (push_bit (tag + ROOT_TAG_SHIFT) 1)\<rparr>"

definition root_tag_clear_all :: "radix_mem \<Rightarrow> radix_mem" where
  "root_tag_clear_all m = m\<lparr>gfp_mask := gfp_mask m AND (push_bit ROOT_TAG_SHIFT 1 - 1)\<rparr>"

text \<open>
  \<open>bitmap_fill\<close> counts longs by their real size and fills one; the bit operations count them
  by \<open>BITS_PER_LONG\<close> and use the low halves of two.
\<close>

definition all_tag_set :: "ulong \<Rightarrow> nat \<Rightarrow> radix_mem \<Rightarrow> radix_mem" where
  "all_tag_set node tag m = upd_node node
     (\<lambda>n. n\<lparr>rn_tags := (rn_tags n)[tag := replicate ((RADIX_TREE_MAP_SIZE + 63) div 64) (- 1)
                          @ drop ((RADIX_TREE_MAP_SIZE + 63) div 64) (rn_tags n ! tag)]\<rparr>) m"

definition tag_set :: "ulong \<Rightarrow> nat \<Rightarrow> nat \<Rightarrow> radix_mem \<Rightarrow> radix_mem" where
  "tag_set node tag off m = upd_node node
     (\<lambda>n. n\<lparr>rn_tags := (rn_tags n)[tag := (rn_tags n ! tag)
        [off div RT_BITS_PER_LONG := (rn_tags n ! tag) ! (off div RT_BITS_PER_LONG)
           OR push_bit (off mod RT_BITS_PER_LONG) 1]]\<rparr>) m"

definition tag_get :: "radix_mem \<Rightarrow> ulong \<Rightarrow> nat \<Rightarrow> nat \<Rightarrow> bool" where
  "tag_get m node tag off \<longleftrightarrow>
     1 AND drop_bit (off AND (RT_BITS_PER_LONG - 1)) ((rn_tags (nodes m node) ! tag) ! (off div RT_BITS_PER_LONG)) \<noteq> 0"

definition tag_clear :: "ulong \<Rightarrow> nat \<Rightarrow> nat \<Rightarrow> radix_mem \<Rightarrow> radix_mem" where
  "tag_clear node tag off m = upd_node node
     (\<lambda>n. n\<lparr>rn_tags := (rn_tags n)[tag := (rn_tags n ! tag)
        [off div RT_BITS_PER_LONG := (rn_tags n ! tag) ! (off div RT_BITS_PER_LONG)
           AND NOT (push_bit (off mod RT_BITS_PER_LONG) 1)]]\<rparr>) m"

definition get_slot_offset :: "ulong \<Rightarrow> rslot \<Rightarrow> nat" where
  "get_slot_offset parent slot = (if parent \<noteq> 0 then case slot of Slot _ o' \<Rightarrow> o' | Root_slot \<Rightarrow> 0 else 0)"

definition node_tag_get :: "radix_mem \<Rightarrow> ulong \<Rightarrow> nat \<Rightarrow> nat \<Rightarrow> bool" where
  "node_tag_get m node tag off = (if node \<noteq> 0 then tag_get m node tag off else root_tag_get m tag)"

definition any_tag_set :: "radix_mem \<Rightarrow> ulong \<Rightarrow> nat \<Rightarrow> bool" where
  "any_tag_set m node tag \<longleftrightarrow> list_ex (\<lambda>idx. (rn_tags (nodes m node) ! tag) ! idx \<noteq> 0) [0..<RADIX_TREE_TAG_LONGS]"

partial_function (option) node_tag_set :: "radix_mem \<Rightarrow> ulong \<Rightarrow> nat \<Rightarrow> nat \<Rightarrow> radix_mem option" where
  "node_tag_set m node tag off =
     (if node \<noteq> 0
      then if tag_get m node tag off then Some m
           else let m = tag_set node tag off m
                in node_tag_set m (rn_parent (nodes m node)) tag (unat (rn_offset (nodes m node)))
      else if \<not> root_tag_get m tag then Some (root_tag_set tag m) else Some m)"

partial_function (option) node_tag_clear :: "radix_mem \<Rightarrow> ulong \<Rightarrow> nat \<Rightarrow> nat \<Rightarrow> radix_mem option" where
  "node_tag_clear m node tag off =
     (if node \<noteq> 0
      then if \<not> tag_get m node tag off then Some m
           else let m = tag_clear node tag off m
                in if any_tag_set m node tag then Some m
                   else node_tag_clear m (rn_parent (nodes m node)) tag (unat (rn_offset (nodes m node)))
      else if root_tag_get m tag then Some (root_tag_clear tag m) else Some m)"

section \<open>Allocation and growth\<close>

definition radix_tree_node_alloc ::
  "radix_mem \<Rightarrow> ulong \<Rightarrow> nat \<Rightarrow> nat \<Rightarrow> nat \<Rightarrow> nat \<Rightarrow> (ulong \<times> radix_mem) option"
where
  "radix_tree_node_alloc m parent sh off cnt exc =
     (let (ret, m) = (case pool m of [] \<Rightarrow> (0, m) | p # ps \<Rightarrow> (p, m\<lparr>pool := ps\<rparr>))
      in if radix_tree_is_internal_node ret then None
         else if ret \<noteq> 0
         then Some (ret, upd_node ret (\<lambda>n. n\<lparr>rn_shift := of_nat sh, rn_offset := of_nat off, rn_count := of_nat cnt,
                rn_exceptional := of_nat exc, rn_parent := parent\<rparr>) m)
         else Some (ret, m))"

text \<open>\<open>while (index > shift_maxindex(maxshift)) maxshift += RADIX_TREE_MAP_SHIFT;\<close>\<close>

function find_maxshift :: "ulong \<Rightarrow> nat \<Rightarrow> nat" where
  "find_maxshift index s = (if shift_maxindex s < index then find_maxshift index (s + RADIX_TREE_MAP_SHIFT) else s)"
  by auto
termination
proof (relation "measure (\<lambda>(_, s). 64 - s)")
  fix index :: ulong and s :: nat
  assume less: "shift_maxindex s < index"
  have "s < 58"
  proof (rule ccontr)
    assume "\<not> s < 58"
    then have "(2 :: ulong) ^ (s + 6) = 0"
      by (simp add: exp_eq_zero_iff)
    then have "push_bit s (64 :: ulong) = 0"
      by (simp add: push_bit_eq_mult power_add mult.commute)
    then have "shift_maxindex s = - 1"
      by (simp add: shift_maxindex_def RADIX_TREE_MAP_SIZE_def RADIX_TREE_MAP_SHIFT_def)
    then show False
      using less word_order.extremum [of index] by simp
  qed
  then show "((index, s + RADIX_TREE_MAP_SHIFT), index, s) \<in> measure (\<lambda>(_, s). 64 - s)"
    by (simp add: RADIX_TREE_MAP_SHIFT_def)
qed simp

declare find_maxshift.simps [simp del]

text \<open>The tags of a node that \<open>radix_tree_extend\<close> puts above the root.\<close>

definition extend_tags :: "ulong \<Rightarrow> radix_mem \<Rightarrow> radix_mem" where
  "extend_tags node m =
     (if is_idr m
      then let m = all_tag_set node IDR_FREE m
           in if \<not> root_tag_get m IDR_FREE then root_tag_set IDR_FREE (tag_clear node IDR_FREE 0 m) else m
      else fold (\<lambda>tag m. if root_tag_get m tag then tag_set node tag 0 m else m) [0..<RADIX_TREE_MAX_TAGS] m)"

text \<open>
  One round of its loop: memory is exhausted, a \<open>BUG_ON\<close> holds, or the memory and the new root entry.
\<close>

datatype extend_result = Extend_nomem radix_mem | Extend_bug | Extend_next radix_mem ulong

definition extend_round :: "radix_mem \<Rightarrow> ulong \<Rightarrow> nat \<Rightarrow> extend_result" where
  "extend_round m entry sh =
     (case radix_tree_node_alloc m 0 sh 0 1 0 of
        None \<Rightarrow> Extend_bug
      | Some (node, m) \<Rightarrow>
          if node = 0 then Extend_nomem m
          else let m = extend_tags node m
          in if RT_BITS_PER_LONG < sh then Extend_bug
          else let m = (if radix_tree_is_internal_node entry
                        then upd_node (entry_to_node entry) (\<lambda>n. n\<lparr>rn_parent := node\<rparr>) m
                        else if radix_tree_exceptional_entry entry
                        then upd_node node (\<lambda>n. n\<lparr>rn_exceptional := 1\<rparr>) m
                        else m);
                   m = upd_node node (\<lambda>n. n\<lparr>rn_slots := (rn_slots n)[0 := entry]\<rparr>) m;
                   entry = node_to_entry node;
                   m = m\<lparr>rnode := entry\<rparr>
          in Extend_next m entry)"

function extend_loop :: "radix_mem \<Rightarrow> ulong \<Rightarrow> nat \<Rightarrow> nat \<Rightarrow> (int \<times> radix_mem) option" where
  "extend_loop m entry sh maxshift =
     (case extend_round m entry sh of
        Extend_nomem m \<Rightarrow> Some (- RT_ENOMEM, m)
      | Extend_bug \<Rightarrow> None
      | Extend_next m entry \<Rightarrow>
          let sh' = sh + RADIX_TREE_MAP_SHIFT
          in if sh' \<le> maxshift then extend_loop m entry sh' maxshift
             else Some (int (maxshift + RADIX_TREE_MAP_SHIFT), m))"
  by auto
termination
  by (relation "measure (\<lambda>(_, _, sh, maxshift). Suc maxshift - sh)") (auto simp: RADIX_TREE_MAP_SHIFT_def)

declare extend_loop.simps [simp del]

definition radix_tree_extend :: "radix_mem \<Rightarrow> ulong \<Rightarrow> nat \<Rightarrow> (int \<times> radix_mem) option" where
  "radix_tree_extend m index sh =
     (let maxshift = find_maxshift index sh;
          entry = rnode m
      in if entry = 0 \<and> (\<not> is_idr m \<or> root_tag_get m IDR_FREE)
         then Some (int (maxshift + RADIX_TREE_MAP_SHIFT), m)
         else extend_loop m entry sh maxshift)"

definition radix_tree_descend :: "radix_mem \<Rightarrow> ulong \<Rightarrow> ulong \<Rightarrow> ulong \<times> nat" where
  "radix_tree_descend m parent index =
     (let off = unat (drop_bit (unat (rn_shift (nodes m parent))) index AND of_nat (RADIX_TREE_MAP_SIZE - 1))
      in (rn_slots (nodes m parent) ! off, off))"

definition read_slot :: "radix_mem \<Rightarrow> rslot \<Rightarrow> ulong" where
  "read_slot m slot = (case slot of Root_slot \<Rightarrow> rnode m | Slot p i \<Rightarrow> rn_slots (nodes m p) ! i)"

definition write_slot :: "rslot \<Rightarrow> ulong \<Rightarrow> radix_mem \<Rightarrow> radix_mem" where
  "write_slot slot x m =
     (case slot of Root_slot \<Rightarrow> m\<lparr>rnode := x\<rparr>
                 | Slot p i \<Rightarrow> upd_node p (\<lambda>n. n\<lparr>rn_slots := (rn_slots n)[i := x]\<rparr>) m)"

section \<open>Insertion\<close>

text \<open>
  The loop of \<open>__radix_tree_create\<close>: the error, the node and the slot, and the memory. Shifts are
  multiples of 6, so that subtracting 6 from a positive one does not wrap.
\<close>

function create_loop ::
  "radix_mem \<Rightarrow> ulong \<Rightarrow> nat \<Rightarrow> nat \<Rightarrow> ulong \<Rightarrow> ulong \<Rightarrow> nat \<Rightarrow> rslot \<Rightarrow> (int \<times> ulong \<times> rslot \<times> radix_mem) option"
where
  "create_loop m index order sh child node off slot =
     (if order < sh
      then let sh' = sh - RADIX_TREE_MAP_SHIFT;
               descend = (\<lambda>m child.
                 let node = entry_to_node child
                 in if node = 0 then None
                    else let (child, off) = radix_tree_descend m node index
                         in create_loop m index order sh' child node off (Slot node off))
           in if child = 0
              then case radix_tree_node_alloc m node sh' off 0 0 of
                     None \<Rightarrow> None
                   | Some (child, m) \<Rightarrow>
                       if child = 0 then Some (- RT_ENOMEM, node, slot, m)
                       else let m = write_slot slot (node_to_entry child) m;
                                m = (if node \<noteq> 0 then upd_node node (\<lambda>n. n\<lparr>rn_count := rn_count n + 1\<rparr>) m else m)
                            in descend m child
              else if \<not> radix_tree_is_internal_node child then Some (0, node, slot, m)
              else descend m child
      else Some (0, node, slot, m))"
  by pat_completeness auto
termination
  by (relation "measure (\<lambda>(_, _, _, sh, _). sh)") (auto simp: RADIX_TREE_MAP_SHIFT_def)

declare create_loop.simps [simp del]

definition radix_tree_create ::
  "radix_mem \<Rightarrow> ulong \<Rightarrow> nat \<Rightarrow> (int \<times> ulong \<times> rslot \<times> radix_mem) option"
where
  "radix_tree_create m index order =
     (let max = index OR (push_bit order 1 - 1);
          (child, maxindex, sh) = radix_tree_load_root m;
          max = (if 0 < order \<and> max = push_bit order 1 - 1 then max + 1 else max)
      in if maxindex < max
         then case radix_tree_extend m max sh of
                None \<Rightarrow> None
              | Some (error, m) \<Rightarrow>
                  if error < 0 then Some (error, 0, Root_slot, m)
                  else create_loop m index order (nat error) (rnode m) 0 0 Root_slot
         else create_loop m index order sh child 0 0 Root_slot)"

definition insert_entires :: "ulong \<Rightarrow> rslot \<Rightarrow> ulong \<Rightarrow> radix_mem \<Rightarrow> int \<times> radix_mem" where
  "insert_entires node slot item m =
     (if read_slot m slot \<noteq> 0 then (- RT_EEXIST, m)
      else let m = write_slot slot item m;
               m = (if node \<noteq> 0
                    then let m = upd_node node (\<lambda>n. n\<lparr>rn_count := rn_count n + 1\<rparr>) m
                         in if radix_tree_exceptional_entry item
                            then upd_node node (\<lambda>n. n\<lparr>rn_exceptional := rn_exceptional n + 1\<rparr>) m else m
                    else m)
           in (1, m))"

definition raw_radix_tree_insert ::
  "radix_mem \<Rightarrow> ulong \<Rightarrow> nat \<Rightarrow> ulong \<Rightarrow> (int \<times> radix_mem) option"
where
  "raw_radix_tree_insert m index order item =
     (if radix_tree_is_internal_node item then None
      else case radix_tree_create m index order of
             None \<Rightarrow> None
           | Some (error, node, slot, m) \<Rightarrow>
               if error \<noteq> 0 then Some (error, m)
               else let (error, m) = insert_entires node slot item m
               in if error < 0 then Some (error, m)
               else if node \<noteq> 0
               then let off = get_slot_offset node slot
                    in if tag_get m node 0 off \<or> tag_get m node 1 off \<or> tag_get m node 2 off then None
                       else Some (0, m)
               else if root_tags_get m \<noteq> 0 then None else Some (0, m))"

definition radix_tree_insert :: "radix_mem \<Rightarrow> ulong \<Rightarrow> ulong \<Rightarrow> (int \<times> radix_mem) option" where
  "radix_tree_insert m index entry = raw_radix_tree_insert m index 0 entry"

section \<open>Lookup\<close>

text \<open>
  The loop of \<open>__radix_tree_lookup\<close>: the entry found, its node and its slot. A retry entry
  starts the search again at the root.
\<close>

partial_function (option) lookup_loop ::
  "radix_mem \<Rightarrow> ulong \<Rightarrow> ulong \<Rightarrow> ulong \<Rightarrow> rslot \<Rightarrow> (ulong \<times> ulong \<times> rslot) option"
where
  "lookup_loop m index node parent slot =
     (if radix_tree_is_internal_node node
      then if node = RADIX_TREE_RETRY then lookup_loop m index (rnode m) 0 Root_slot
           else let parent = entry_to_node node;
                    (node, off) = radix_tree_descend m parent index
                in lookup_loop m index node parent (Slot parent off)
      else Some (node, parent, slot))"

text \<open>The inner \<open>None\<close> is the result \<open>NULL\<close> for an index beyond the tree, which stores no slot.\<close>

definition raw_radix_tree_lookup :: "radix_mem \<Rightarrow> ulong \<Rightarrow> (ulong \<times> ulong \<times> rslot) option option" where
  "raw_radix_tree_lookup m index =
     (let (node, maxindex, _) = radix_tree_load_root m
      in if maxindex < index then Some None
         else map_option Some (lookup_loop m index node 0 Root_slot))"

definition radix_tree_lookup :: "radix_mem \<Rightarrow> ulong \<Rightarrow> ulong option" where
  "radix_tree_lookup m index =
     map_option (\<lambda>r. case r of None \<Rightarrow> 0 | Some (node, _, _) \<Rightarrow> node) (raw_radix_tree_lookup m index)"

section \<open>Deletion\<close>

definition replace_slot :: "rslot \<Rightarrow> ulong \<Rightarrow> ulong \<Rightarrow> int \<Rightarrow> int \<Rightarrow> radix_mem \<Rightarrow> radix_mem" where
  "replace_slot slot item node cnt exc m =
     (if radix_tree_is_internal_node item then m
      else let m = (if node \<noteq> 0 \<and> (cnt \<noteq> 0 \<or> exc \<noteq> 0)
                    then upd_node node (\<lambda>n. n\<lparr>rn_count := rn_count n + of_int cnt,
                           rn_exceptional := rn_exceptional n + of_int exc\<rparr>) m
                    else m)
           in write_slot slot item m)"

definition radix_tree_node_free :: "ulong \<Rightarrow> radix_mem \<Rightarrow> radix_mem" where
  "radix_tree_node_free node m = m\<lparr>freed := node # freed m\<rparr>"

text \<open>\<open>update_node\<close> is a callback on the memory, or \<open>None\<close> for \<open>NULL\<close>.\<close>

partial_function (option) shrink_loop ::
  "(ulong \<Rightarrow> radix_mem \<Rightarrow> radix_mem) option \<Rightarrow> radix_mem \<Rightarrow> bool \<Rightarrow> (bool \<times> radix_mem) option"
where
  "shrink_loop update_node m shrunk =
     (let entry = rnode m;
          node = entry_to_node entry;
          child = rn_slots (nodes m node) ! 0
      in if \<not> radix_tree_is_internal_node entry then Some (shrunk, m)
         else if rn_count (nodes m node) \<noteq> 1 then Some (shrunk, m)
         else if child = 0 then Some (shrunk, m)
         else if \<not> radix_tree_is_internal_node child \<and> rn_shift (nodes m node) \<noteq> 0 then Some (shrunk, m)
         else let m = (if radix_tree_is_internal_node child
                       then upd_node (entry_to_node child) (\<lambda>n. n\<lparr>rn_parent := 0\<rparr>) m else m);
                  m = m\<lparr>rnode := child\<rparr>;
                  m = (if is_idr m \<and> \<not> tag_get m node IDR_FREE 0 then root_tag_clear IDR_FREE m else m);
                  m = upd_node node (\<lambda>n. n\<lparr>rn_count := 0\<rparr>) m;
                  m = (if \<not> radix_tree_is_internal_node child
                       then let m = upd_node node (\<lambda>n. n\<lparr>rn_slots := (rn_slots n)[0 := RADIX_TREE_RETRY]\<rparr>) m
                            in (case update_node of None \<Rightarrow> m | Some f \<Rightarrow> f node m)
                       else m);
                  m = radix_tree_node_free node m
              in shrink_loop update_node m True)"

definition radix_tree_shrink ::
  "(ulong \<Rightarrow> radix_mem \<Rightarrow> radix_mem) option \<Rightarrow> radix_mem \<Rightarrow> (bool \<times> radix_mem) option"
where
  "radix_tree_shrink update_node m = shrink_loop update_node m False"

partial_function (option) delete_loop ::
  "(ulong \<Rightarrow> radix_mem \<Rightarrow> radix_mem) option \<Rightarrow> radix_mem \<Rightarrow> ulong \<Rightarrow> bool \<Rightarrow> (bool \<times> radix_mem) option"
where
  "delete_loop update_node m node deleted =
     (if rn_count (nodes m node) \<noteq> 0
      then if node_to_entry node = rnode m
           then map_option (\<lambda>(b, m). (deleted \<or> b, m)) (radix_tree_shrink update_node m)
           else Some (deleted, m)
      else let par = rn_parent (nodes m node);
               m = (if par \<noteq> 0
                    then upd_node par (\<lambda>n. n\<lparr>rn_slots := (rn_slots n)[unat (rn_offset (nodes m node)) := 0],
                           rn_count := rn_count n - 1\<rparr>) m
                    else let m = (if \<not> is_idr m then root_tag_clear_all m else m)
                         in m\<lparr>rnode := 0\<rparr>);
               m = radix_tree_node_free node m
           in if par \<noteq> 0 then delete_loop update_node m par True else Some (True, m))"

definition delete_node ::
  "(ulong \<Rightarrow> radix_mem \<Rightarrow> radix_mem) option \<Rightarrow> radix_mem \<Rightarrow> ulong \<Rightarrow> (bool \<times> radix_mem) option"
where
  "delete_node update_node m node = delete_loop update_node m node False"

text \<open>\<open>for (tag = 0; tag < RADIX_TREE_MAX_TAGS; tag++) node_tag_clear(root, node, tag, offset);\<close>\<close>

primrec clear_tags :: "nat list \<Rightarrow> radix_mem \<Rightarrow> ulong \<Rightarrow> nat \<Rightarrow> radix_mem option" where
  "clear_tags [] m node off = Some m"
| "clear_tags (tag # ts) m node off =
     (case node_tag_clear m node tag off of None \<Rightarrow> None | Some m \<Rightarrow> clear_tags ts m node off)"

definition raw_radix_tree_delete :: "radix_mem \<Rightarrow> ulong \<Rightarrow> rslot \<Rightarrow> (bool \<times> radix_mem) option" where
  "raw_radix_tree_delete m node slot =
     (let old = read_slot m slot;
          exc = (if radix_tree_exceptional_entry old then - 1 else 0);
          off = get_slot_offset node slot
      in case (if is_idr m then node_tag_set m node IDR_FREE off
               else clear_tags [0..<RADIX_TREE_MAX_TAGS] m node off) of
           None \<Rightarrow> None
         | Some m \<Rightarrow>
             let m = replace_slot slot 0 node (- 1) exc m
             in if node \<noteq> 0 then delete_node None m node else Some (False, m))"

definition radix_tree_delete_item :: "radix_mem \<Rightarrow> ulong \<Rightarrow> ulong \<Rightarrow> (ulong \<times> radix_mem) option" where
  "radix_tree_delete_item m index item =
     (case raw_radix_tree_lookup m index of
        None \<Rightarrow> None
      | Some None \<Rightarrow> Some (0, m)
      | Some (Some (entry, node, slot)) \<Rightarrow>
          if entry = 0 \<and> (\<not> is_idr m \<or> node_tag_get m node IDR_FREE (get_slot_offset node slot)) then Some (0, m)
          else if item \<noteq> 0 \<and> entry \<noteq> item then Some (0, m)
          else map_option (\<lambda>(_, m). (entry, m)) (raw_radix_tree_delete m node slot))"

definition radix_tree_delete :: "radix_mem \<Rightarrow> ulong \<Rightarrow> (ulong \<times> radix_mem) option" where
  "radix_tree_delete m index = radix_tree_delete_item m index 0"

end
