(* ===== verification/Radix_Shape.thy ===== *)
theory Radix_Shape
  imports Radix_Tree
begin

text \<open>
  What a radix tree in memory is. \<open>rep ns par off k e t\<close> says that the entry \<open>e\<close> stands for the
  tree \<open>t\<close> of height \<open>k\<close>, whose root is slot \<open>off\<close> of the node \<open>par\<close>. A tree of height \<open>k\<close> holds the
  indices below \<open>64 ^ k\<close>; \<open>rget\<close> reads it as a function on indices, where 0 means no item.
\<close>

section \<open>Trees\<close>

datatype rtree = Empty | Item ulong | Inner ulong "rtree list"

fun ptrs :: "rtree \<Rightarrow> ulong list" where
  "ptrs (Inner p ts) = p # concat (map ptrs ts)"
| "ptrs _ = []"

definition digit :: "nat \<Rightarrow> nat \<Rightarrow> nat" where
  "digit j i = i div 64 ^ j mod 64"

fun rget :: "nat \<Rightarrow> nat \<Rightarrow> rtree \<Rightarrow> ulong" where
  "rget k i Empty = 0"
| "rget k i (Item x) = x"
| "rget 0 i (Inner p ts) = 0"
| "rget (Suc j) i (Inner p ts) = rget j i (ts ! digit j i)"

text \<open>Storing \<open>x\<close> at an index whose path exists; 0 removes.\<close>

fun rput :: "nat \<Rightarrow> nat \<Rightarrow> ulong \<Rightarrow> rtree \<Rightarrow> rtree" where
  "rput 0 i x t = (if x = 0 then Empty else Item x)"
| "rput (Suc j) i x (Inner p ts) = Inner p (ts[digit j i := rput j i x (ts ! digit j i)])"
| "rput (Suc j) i x t = t"

text \<open>The node and the slot where the search for an index ends, when its path exists.\<close>

fun bottom :: "nat \<Rightarrow> nat \<Rightarrow> ulong \<Rightarrow> rslot \<Rightarrow> rtree \<Rightarrow> (ulong \<times> rslot) option" where
  "bottom 0 i n s t = Some (n, s)"
| "bottom (Suc j) i n s (Inner p ts) = bottom j i p (Slot p (digit j i)) (ts ! digit j i)"
| "bottom (Suc j) i n s t = None"

definition filled :: "rtree list \<Rightarrow> nat" where
  "filled ts = length (filter (\<lambda>t. t \<noteq> Empty) ts)"

fun exceptional_item :: "rtree \<Rightarrow> bool" where
  "exceptional_item (Item x) = radix_tree_exceptional_entry x"
| "exceptional_item _ = False"

definition exceptionals :: "rtree list \<Rightarrow> nat" where
  "exceptionals ts = length (filter exceptional_item ts)"

definition ptr_ok :: "ulong \<Rightarrow> bool" where
  "ptr_ok p \<longleftrightarrow> p \<noteq> 0 \<and> p AND 3 = 0"

definition item_ok :: "ulong \<Rightarrow> bool" where
  "item_ok x \<longleftrightarrow> x \<noteq> 0 \<and> \<not> radix_tree_is_internal_node x"

definition no_tags :: "ulong list list" where
  "no_tags = replicate RADIX_TREE_MAX_TAGS (replicate RADIX_TREE_TAG_LONGS 0)"

definition node_is :: "radix_tree_node \<Rightarrow> ulong \<Rightarrow> nat \<Rightarrow> nat \<Rightarrow> rtree list \<Rightarrow> bool" where
  "node_is n par off j ts \<longleftrightarrow>
     rn_shift n = of_nat (6 * j) \<and> rn_offset n = of_nat off \<and> rn_parent n = par \<and>
     rn_count n = of_nat (filled ts) \<and> rn_exceptional n = of_nat (exceptionals ts) \<and>
     rn_tags n = no_tags \<and> length (rn_slots n) = 64 \<and> length ts = 64"

function rep :: "(ulong \<Rightarrow> radix_tree_node) \<Rightarrow> ulong \<Rightarrow> nat \<Rightarrow> nat \<Rightarrow> ulong \<Rightarrow> rtree \<Rightarrow> bool" where
  "rep ns par off k e Empty \<longleftrightarrow> e = 0"
| "rep ns par off k e (Item x) \<longleftrightarrow> k = 0 \<and> e = x \<and> item_ok x"
| "rep ns par off 0 e (Inner p ts) \<longleftrightarrow> False"
| "rep ns par off (Suc j) e (Inner p ts) \<longleftrightarrow>
     e = node_to_entry p \<and> ptr_ok p \<and> node_is (ns p) par off j ts \<and>
     (\<forall>i<length ts. rep ns p i j (rn_slots (ns p) ! i) (ts ! i))"
  by pat_completeness auto
termination by (relation "measure (\<lambda>(_, _, _, k, _, _). k)") auto

text \<open>The invariant of the whole tree, and the memory \<open>malloc\<close> has left.\<close>

definition radix :: "radix_mem \<Rightarrow> nat \<Rightarrow> rtree \<Rightarrow> bool" where
  "radix m k t \<longleftrightarrow> rep (nodes m) 0 0 k (rnode m) t \<and> distinct (ptrs t) \<and> k \<le> 11 \<and> (t = Empty \<longrightarrow> k = 0) \<and>
     \<not> is_idr m \<and> root_tags_get m = 0"

definition blank :: "radix_tree_node \<Rightarrow> bool" where
  "blank n \<longleftrightarrow> rn_slots n = replicate 64 0 \<and> rn_tags n = no_tags"

definition pool_ok :: "radix_mem \<Rightarrow> ulong list \<Rightarrow> bool" where
  "pool_ok m used \<longleftrightarrow> distinct (pool m) \<and> set (pool m) \<inter> set used = {} \<and>
     (\<forall>p\<in>set (pool m). ptr_ok p \<and> blank (nodes m p))"

definition contents :: "nat \<Rightarrow> rtree \<Rightarrow> ulong \<Rightarrow> ulong" where
  "contents k t index = (if unat index < 64 ^ k then rget k (unat index) t else 0)"

text \<open>What a client sees: a function from indices to items, in a tree of at most \<open>h\<close> levels or of any height.\<close>

definition holds :: "nat \<Rightarrow> radix_mem \<Rightarrow> (ulong \<Rightarrow> ulong) \<Rightarrow> bool" where
  "holds h m f \<longleftrightarrow> (\<exists>k t. radix m k t \<and> pool_ok m (ptrs t) \<and> f = contents k t \<and> k \<le> h)"

definition represents :: "radix_mem \<Rightarrow> (ulong \<Rightarrow> ulong) \<Rightarrow> bool" where
  "represents m f \<longleftrightarrow> (\<exists>k t. radix m k t \<and> pool_ok m (ptrs t) \<and> f = contents k t)"

lemma holds_11: "holds 11 m f \<longleftrightarrow> represents m f"
  by (auto simp: holds_def represents_def radix_def)

lemma holdsI: "radix m k t \<Longrightarrow> pool_ok m (ptrs t) \<Longrightarrow> k \<le> h \<Longrightarrow> contents k t = f \<Longrightarrow> holds h m f"
  unfolding holds_def by blast

section \<open>Entries and digits\<close>

lemma and_3_cases: "(x :: ulong) AND 3 = (if bit x 0 then 1 else 0) + (if bit x 1 then 2 else 0)"
proof -
  have "x AND 3 = take_bit 2 x"
    by (simp add: take_bit_eq_mask mask_eq_exp_minus_1)
  also have "\<dots> = (if bit x 0 then 1 else 0) + (if bit x 1 then 2 else 0)"
    by (simp add: numeral_2_eq_2 take_bit_Suc bit_Suc bit_0 mod_2_eq_odd)
  finally show ?thesis .
qed

lemma ptr_ok_bits: "ptr_ok p \<Longrightarrow> \<not> bit p 0 \<and> \<not> bit p 1"
  by (auto simp: ptr_ok_def and_3_cases split: if_splits)

lemma entry_of_node [simp]: "ptr_ok p \<Longrightarrow> entry_to_node (node_to_entry p) = p"
  using ptr_ok_bits [of p]
  by (auto simp: entry_to_node_def node_to_entry_def bit_and_iff bit_or_iff bit_not_iff bit_1_iff intro!: bit_eqI gr0I)

lemma internal_node_entry [simp]: "ptr_ok p \<Longrightarrow> radix_tree_is_internal_node (node_to_entry p)"
  using ptr_ok_bits [of p]
  by (simp add: radix_tree_is_internal_node_def and_3_cases node_to_entry_def bit_or_iff bit_1_iff del: bit_0)

lemma node_entry_not_retry [simp]: "ptr_ok p \<Longrightarrow> node_to_entry p \<noteq> RADIX_TREE_RETRY"
proof
  assume p: "ptr_ok p" and "node_to_entry p = RADIX_TREE_RETRY"
  then have "p = entry_to_node RADIX_TREE_RETRY"
    by (metis entry_of_node)
  then show False
    using p by (simp add: RADIX_TREE_RETRY_def node_to_entry_def entry_to_node_def ptr_ok_def)
qed

lemma ptr_not_internal [simp]: "ptr_ok p \<Longrightarrow> \<not> radix_tree_is_internal_node p"
  by (simp add: ptr_ok_def radix_tree_is_internal_node_def)

lemma entry_of_ptr [simp]: "ptr_ok p \<Longrightarrow> entry_to_node p = p"
  using ptr_ok_bits [of p]
  by (auto simp: entry_to_node_def bit_and_iff bit_not_iff bit_1_iff intro!: bit_eqI gr0I)

lemma internal_0 [simp]: "\<not> radix_tree_is_internal_node 0"
  by (simp add: radix_tree_is_internal_node_def)

lemma node_entry_nonzero [simp]: "ptr_ok p \<Longrightarrow> node_to_entry p \<noteq> 0"
  by (metis internal_0 internal_node_entry)

lemma digit_less [simp]: "digit j i < 64"
  by (simp add: digit_def)

lemma power_64: "(64 :: nat) ^ j = 2 ^ (6 * j)"
  by (simp add: power_mult)

lemma unat_shift: "j \<le> 10 \<Longrightarrow> unat (of_nat (6 * j) :: 8 word) = 6 * j"
  unfolding unsigned_of_nat by (simp add: take_bit_nat_eq_self)

lemma descend_shift:
  assumes "rn_shift (nodes m p) = of_nat (6 * j)" "j \<le> 10"
  shows "radix_tree_descend m p index = (rn_slots (nodes m p) ! digit j (unat index), digit j (unat index))"
proof -
  have "(63 :: ulong) = mask 6"
    by (simp add: mask_eq_exp_minus_1)
  then have "unat (drop_bit (6 * j) index AND 63) = take_bit 6 (drop_bit (6 * j) (unat index))"
    by (simp only: take_bit_eq_mask [symmetric] unsigned_take_bit_eq unat_drop_bit_eq)
  also have "\<dots> = digit j (unat index)"
    by (simp add: digit_def take_bit_eq_mod drop_bit_eq_div power_64)
  finally show ?thesis
    using assms unat_shift [of j]
    by (simp add: radix_tree_descend_def Let_def RADIX_TREE_MAP_SIZE_def RADIX_TREE_MAP_SHIFT_def)
qed

lemma descend_eq:
  "node_is (nodes m p) par off j ts \<Longrightarrow> j \<le> 10 \<Longrightarrow>
   radix_tree_descend m p index = (rn_slots (nodes m p) ! digit j (unat index), digit j (unat index))"
  by (rule descend_shift) (simp_all add: node_is_def)

lemma shift_maxindex_less:
  assumes "j \<le> 10"
  shows "shift_maxindex (6 * j) < index \<longleftrightarrow> 64 ^ Suc j \<le> unat index"
proof (cases "j = 10")
  case True
  have "(2 :: ulong) ^ 66 = 0"
    by (simp add: exp_eq_zero_iff)
  then have "shift_maxindex (6 * j) = - 1"
    using True by (simp add: shift_maxindex_def RADIX_TREE_MAP_SIZE_def RADIX_TREE_MAP_SHIFT_def push_bit_eq_mult)
  moreover have "unat index < 2 ^ 64"
    using unsigned_less [of index, where ?'a = nat] by simp
  ultimately show ?thesis
    using True word_order.extremum [of index] by (simp add: not_less [symmetric])
next
  case False
  then have j: "6 * j + 6 \<le> 60"
    using assms by simp
  then have "(2 :: nat) ^ (6 * j + 6) < 2 ^ 64"
    by (intro power_strict_increasing) simp_all
  then have "take_bit 64 ((2 :: nat) ^ (6 * j + 6)) = 2 ^ (6 * j + 6)"
    by (rule take_bit_nat_eq_self)
  then have "unat (word_of_nat (2 ^ (6 * j + 6)) :: ulong) = 2 ^ (6 * j + 6)"
    unfolding unsigned_of_nat by simp
  then have p: "unat (2 ^ (6 * j + 6) :: ulong) = 2 ^ (6 * j + 6)" "(2 :: ulong) ^ (6 * j + 6) \<noteq> 0"
    using j by (simp_all add: exp_eq_zero_iff)
  have "shift_maxindex (6 * j) = 2 ^ (6 * j + 6) - 1"
    by (simp add: shift_maxindex_def RADIX_TREE_MAP_SIZE_def RADIX_TREE_MAP_SHIFT_def push_bit_eq_mult power_add)
  then have "unat (shift_maxindex (6 * j)) = 2 ^ (6 * j + 6) - 1"
    using p by (simp add: unat_minus_one)
  moreover have "(64 :: nat) ^ Suc j = 2 ^ (6 * j + 6)"
    by (simp add: power_64 power_add)
  moreover have "0 < (2 :: nat) ^ (6 * j + 6)"
    by simp
  ultimately show ?thesis
    by (simp only: word_less_nat_alt) linarith
qed

section \<open>Frame lemmas\<close>

lemma ptrs_child: "d < length ts \<Longrightarrow> set (ptrs (ts ! d)) \<subseteq> set (ptrs (Inner p ts))"
  by auto

lemma rep_cong:
  "(\<And>p. p \<in> set (ptrs t) \<Longrightarrow> ns' p = ns p) \<Longrightarrow> rep ns' par off k e t \<longleftrightarrow> rep ns par off k e t"
proof (induction ns par off k e t rule: rep.induct)
  case (4 ns par off j e p ts)
  have "ns' p = ns p"
    using "4.prems" by simp
  moreover have "rep ns' p i j (rn_slots (ns p) ! i) (ts ! i) \<longleftrightarrow> rep ns p i j (rn_slots (ns p) ! i) (ts ! i)"
    if "i < length ts" for i
    using "4.IH" [OF that] "4.prems" ptrs_child [OF that, of p] by (auto simp del: ptrs.simps)
  ultimately show ?case
    by simp
qed simp_all

lemma ptrs_ok: "rep ns par off k e t \<Longrightarrow> p \<in> set (ptrs t) \<Longrightarrow> ptr_ok p"
proof (induction ns par off k e t rule: rep.induct)
  case (4 ns par off j e q ts)
  then consider "p = q" | x where "x < length ts" "p \<in> set (ptrs (ts ! x))"
    by (auto simp: in_set_conv_nth [of _ ts])
  then show ?case
    using 4 by cases auto
qed simp_all

lemma rep_entry: "rep ns par off k e t \<Longrightarrow> e = 0 \<longleftrightarrow> t = Empty"
  by (cases "(ns, par, off, k, e, t)" rule: rep.cases) (auto simp: item_ok_def)

lemma rep_internal: "rep ns par off k e t \<Longrightarrow> radix_tree_is_internal_node e \<longleftrightarrow> (\<exists>p ts. t = Inner p ts)"
  by (cases "(ns, par, off, k, e, t)" rule: rep.cases) (auto simp: item_ok_def)

lemma distinct_children:
  assumes "distinct (ptrs (Inner p ts))" "d < length ts"
  shows "distinct (ptrs (ts ! d))" "p \<notin> set (ptrs (ts ! d))"
    "\<And>i. i < length ts \<Longrightarrow> i \<noteq> d \<Longrightarrow> set (ptrs (ts ! i)) \<inter> set (ptrs (ts ! d)) = {}"
proof -
  have ts: "ts = take d ts @ ts ! d # drop (Suc d) ts"
    using assms(2) by (simp add: id_take_nth_drop)
  have dist: "distinct (concat (map ptrs ts))" "p \<notin> set (concat (map ptrs ts))"
    using assms(1) by simp_all
  show "distinct (ptrs (ts ! d))"
    using dist(1) by (subst (asm) ts) auto
  show "p \<notin> set (ptrs (ts ! d))"
    using dist(2) assms(2) by auto
  fix i
  assume i: "i < length ts" "i \<noteq> d"
  have "take d ts ! i \<in> set (take d ts)" if "i < d"
    using that assms(2) by (intro nth_mem) simp
  moreover have "drop (Suc d) ts ! (i - Suc d) \<in> set (drop (Suc d) ts)" if "d < i"
    using that i by (intro nth_mem) simp
  ultimately have "ts ! i \<in> set (take d ts) \<union> set (drop (Suc d) ts)"
    using assms(2) i by (cases "i < d") auto
  then show "set (ptrs (ts ! i)) \<inter> set (ptrs (ts ! d)) = {}"
    using dist(1) by (subst (asm) ts) auto
qed

text \<open>Replacing one child.\<close>

lemma ptrs_update:
  assumes "d < length ts"
  shows "set (ptrs (Inner p (ts[d := t]))) \<subseteq> set (ptrs (Inner p ts)) \<union> set (ptrs t)"
  using set_update_subset_insert [of ts d t] by (auto dest!: subsetD)

lemma distinct_update:
  assumes "distinct (ptrs (Inner p ts))" "d < length ts" "distinct (ptrs t)"
    and "set (ptrs t) \<inter> (set (ptrs (Inner p ts)) - set (ptrs (ts ! d))) = {}"
  shows "distinct (ptrs (Inner p (ts[d := t])))"
proof -
  have ts: "ts = take d ts @ ts ! d # drop (Suc d) ts"
    using assms(2) by (simp add: id_take_nth_drop)
  have upd: "ts[d := t] = take d ts @ t # drop (Suc d) ts"
    using assms(2) by (simp add: upd_conv_take_nth_drop)
  have "distinct (p # concat (map ptrs (take d ts)) @ ptrs (ts ! d) @ concat (map ptrs (drop (Suc d) ts)))"
    using assms(1) by (subst (asm) ts) simp
  moreover have "set (ptrs (Inner p ts)) = {p} \<union> set (concat (map ptrs (take d ts))) \<union> set (ptrs (ts ! d))
      \<union> set (concat (map ptrs (drop (Suc d) ts)))"
    by (subst ts) auto
  ultimately show ?thesis
    using assms(3,4) unfolding upd by (simp del: set_concat) blast
qed

lemma filter_update:
  assumes "d < length ts"
  shows "length (filter P (ts[d := t])) + of_bool (P (ts ! d)) = length (filter P ts) + of_bool (P t)"
proof -
  have "ts = take d ts @ ts ! d # drop (Suc d) ts" "ts[d := t] = take d ts @ t # drop (Suc d) ts"
    using assms by (simp_all add: id_take_nth_drop upd_conv_take_nth_drop)
  then have "filter P ts = filter P (take d ts) @ filter P [ts ! d] @ filter P (drop (Suc d) ts)"
      "filter P (ts[d := t]) = filter P (take d ts) @ filter P [t] @ filter P (drop (Suc d) ts)"
    by (metis append_Cons append_Nil filter_append)+
  then show ?thesis
    by simp
qed

lemmas filled_update = filter_update [where P = "\<lambda>t. t \<noteq> Empty", folded filled_def]
lemmas exceptionals_update = filter_update [where P = exceptional_item, folded exceptionals_def]

section \<open>Reading and writing trees\<close>

lemma rget_item: "rep ns par off k e t \<Longrightarrow> rget k i t = 0 \<or> item_ok (rget k i t)"
proof (induction ns par off k e t rule: rep.induct)
  case (4 ns par off j e p ts)
  then have "length ts = 64"
    by (simp add: node_is_def)
  then show ?case
    using 4 by simp
qed simp_all

lemma rget_bottom: "rep ns par off k e t \<Longrightarrow> rget k i t \<noteq> 0 \<Longrightarrow> \<exists>n s. bottom k i par' s' t = Some (n, s)"
proof (induction ns par off k e t arbitrary: par' s' rule: rep.induct)
  case (4 ns par off j e p ts)
  then have "length ts = 64"
    by (simp add: node_is_def)
  then show ?case
    using 4 by simp
qed simp_all

lemma bottom_node:
  "rep ns par off k e t \<Longrightarrow> bottom k i par' s' t = Some (n, s) \<Longrightarrow> k \<noteq> 0 \<Longrightarrow>
   n \<in> set (ptrs t) \<and> s = Slot n (digit 0 i)"
proof (induction ns par off k e t arbitrary: par' s' rule: rep.induct)
  case (4 ns par off j e p ts)
  have len: "digit j i < length ts"
    using "4.prems"(1) by (simp add: node_is_def)
  show ?case
  proof (cases j)
    case 0
    then show ?thesis
      using 4 by auto
  next
    case (Suc j')
    then have "n \<in> set (ptrs (ts ! digit j i)) \<and> s = Slot n (digit 0 i)"
      using "4.IH" [OF len] "4.prems" len by simp
    then show ?thesis
      using ptrs_child [OF len, of p] by auto
  qed
next
  case (1 ns par off k e)
  then show ?case
    by (cases k) auto
qed simp_all

lemma digit_mod: "j < k \<Longrightarrow> digit j (i mod 64 ^ k) = digit j i"
proof -
  assume "j < k"
  then obtain d where k: "k = j + Suc d"
    using less_imp_Suc_add by auto
  have "i mod 64 ^ k div 64 ^ j = i div 64 ^ j mod 64 ^ Suc d"
    unfolding k power_add by (simp add: mod_mult2_eq)
  moreover have "x mod 64 ^ Suc d mod 64 = x mod 64" for x :: nat
    by (rule mod_mod_cancel) simp
  ultimately show "digit j (i mod 64 ^ k) = digit j i"
    by (simp add: digit_def del: power_Suc)
qed

lemma same_index: "i mod 64 ^ Suc j = i' mod 64 ^ Suc j \<longleftrightarrow> digit j i = digit j i' \<and> i mod 64 ^ j = i' mod 64 ^ j"
proof -
  have split: "x mod 64 ^ Suc j = digit j x * 64 ^ j + x mod 64 ^ j" for x
    using mod_mult2_eq [of x "64 ^ j" 64] by (simp add: digit_def mult.commute)
  have lt: "x mod 64 ^ j < 64 ^ j" for x :: nat
    by simp
  have "digit j i = digit j i' \<and> i mod 64 ^ j = i' mod 64 ^ j"
    if eq: "digit j i * 64 ^ j + i mod 64 ^ j = digit j i' * 64 ^ j + i' mod 64 ^ j"
  proof -
    have "(digit j i * 64 ^ j + i mod 64 ^ j) div 64 ^ j = digit j i" "(digit j i' * 64 ^ j + i' mod 64 ^ j) div 64 ^ j = digit j i'"
      by simp_all
    then show ?thesis
      using eq by simp
  qed
  then show ?thesis
    unfolding split by auto
qed

lemma rget_rput:
  "rep ns par off k e t \<Longrightarrow> bottom k i par' s' t = Some b \<Longrightarrow>
   rget k i' (rput k i x t) = (if i' mod 64 ^ k = i mod 64 ^ k then x else rget k i' t)"
proof (induction ns par off k e t arbitrary: par' s' rule: rep.induct)
  case (4 ns par off j e p ts)
  have len: "digit j i < length ts" "digit j i' < length ts"
    using "4.prems"(1) by (simp_all add: node_is_def)
  have IH: "rget j i' (rput j i x (ts ! digit j i)) = (if i' mod 64 ^ j = i mod 64 ^ j then x else rget j i' (ts ! digit j i))"
    using "4.IH" [OF len(1)] "4.prems" len by simp
  show ?case
    using IH len same_index [of i' j i] by (auto simp: nth_list_update)
next
  case (1 ns par off k e)
  then show ?case
    by (cases k) auto
qed auto

text \<open>What storing \<open>x\<close> in place of \<open>old\<close> does to the fields of the node.\<close>

definition store_item :: "nat \<Rightarrow> ulong \<Rightarrow> ulong \<Rightarrow> radix_tree_node \<Rightarrow> radix_tree_node" where
  "store_item d x old n = n\<lparr>rn_slots := (rn_slots n)[d := x],
     rn_count := rn_count n + of_bool (x \<noteq> 0) - of_bool (old \<noteq> 0),
     rn_exceptional := rn_exceptional n + of_bool (radix_tree_exceptional_entry x)
       - of_bool (radix_tree_exceptional_entry old)\<rparr>"

lemma exceptional_0 [simp]: "\<not> radix_tree_exceptional_entry 0"
  by (simp add: radix_tree_exceptional_entry_def)

lemma of_nat_moved: "a + of_bool P = b + of_bool Q \<Longrightarrow> (of_nat a :: 8 word) = of_nat b + of_bool Q - of_bool P"
  by (auto simp: algebra_simps dest!: arg_cong [where f = "of_nat :: nat \<Rightarrow> 8 word"] split: if_splits)

lemma level_0: "rep ns par off 0 e t \<Longrightarrow> t = (if e = 0 then Empty else Item e)"
  by (cases t) (auto simp: item_ok_def)

lemma node_is_update:
  assumes "node_is n par off j ts" "d < 64"
    and "t \<noteq> Empty \<longleftrightarrow> x \<noteq> 0" "ts ! d \<noteq> Empty \<longleftrightarrow> old \<noteq> 0"
    and "exceptional_item t \<longleftrightarrow> radix_tree_exceptional_entry x" "exceptional_item (ts ! d) \<longleftrightarrow> radix_tree_exceptional_entry old"
  shows "node_is (store_item d x old n) par off j (ts[d := t])"
proof -
  have "d < length ts"
    using assms(1,2) by (simp add: node_is_def)
  then show ?thesis
    using of_nat_moved [OF filled_update, of d ts t] of_nat_moved [OF exceptionals_update, of d ts t] assms
    by (simp add: node_is_def store_item_def)
qed

lemma rep_rput:
  assumes "rep ns par off k e t" "distinct (ptrs t)" "bottom k i par' s' t = Some (n, s)" "k \<noteq> 0" "x = 0 \<or> item_ok x"
  shows "rep (ns(n := store_item (digit 0 i) x (rget k i t) (ns n))) par off k e (rput k i x t) \<and>
    ptrs (rput k i x t) = ptrs t"
  using assms
proof (induction ns par off k e t arbitrary: par' s' rule: rep.induct)
  case (4 ns par off j e p ts)
  let ?d = "digit j i"
  let ?ns = "ns(n := store_item (digit 0 i) x (rget (Suc j) i (Inner p ts)) (ns n))"
  have len: "length ts = 64" and d: "?d < length ts"
    using "4.prems"(1) by (simp_all add: node_is_def)
  have slots: "length (rn_slots (ns p)) = 64"
    using "4.prems"(1) by (simp add: node_is_def)
  note child = "4.prems"(1) [simplified, THEN conjunct2, THEN conjunct2, THEN conjunct2, rule_format]
  show ?case
  proof (cases j)
    case 0
    then have n: "n = p" "s = Slot p ?d"
      using "4.prems"(3) by auto
    have c: "ts ! l = (if rn_slots (ns p) ! l = 0 then Empty else Item (rn_slots (ns p) ! l))"
        "rep ns p l 0 (rn_slots (ns p) ! l) (ts ! l)" if "l < length ts" for l
      using level_0 [of ns p l] child [OF that] 0 by simp_all
    have rg: "rget j i (ts ! ?d) = rn_slots (ns p) ! ?d"
      using c [OF d] 0 by simp
    have "node_is (store_item ?d x (rn_slots (ns p) ! ?d) (ns p)) par off j (ts[?d := rput j i x (ts ! ?d)])"
      by (rule node_is_update) (use "4.prems"(1,5) c(1) [OF d] 0 in \<open>auto simp: item_ok_def\<close>)
    then have "node_is (?ns p) par off j (ts[?d := rput j i x (ts ! ?d)])"
      using n rg 0 by simp
    moreover have "rep ?ns p l j (rn_slots (?ns p) ! l) (ts[?d := rput j i x (ts ! ?d)] ! l)" if "l < length ts" for l
    proof (cases "l = ?d")
      case True
      then show ?thesis
        using 0 n len slots "4.prems"(5) by (auto simp: store_item_def)
    next
      case False
      then have "rep ?ns p l j (rn_slots (ns p) ! l) (ts ! l)"
        using c [OF that] 0 by (subst rep_cong [of _ _ ns]) (auto split: if_splits)
      then show ?thesis
        using False 0 n len by (simp add: store_item_def)
    qed
    moreover have "concat (map ptrs (ts[?d := rput j i x (ts ! ?d)])) = concat (map ptrs ts)"
      using c(1) [OF d] d 0 by (simp add: map_update) (metis list_update_id nth_map ptrs.simps(2,3))
    moreover have "e = node_to_entry p" "ptr_ok p"
      using "4.prems"(1) by simp_all
    ultimately show ?thesis
      unfolding rput.simps ptrs.simps rep.simps length_list_update by blast
  next
    case (Suc j')
    obtain q us where q: "ts ! ?d = Inner q us"
      using "4.prems"(3) Suc by (cases "ts ! ?d") auto
    have b: "bottom j i p (Slot p ?d) (ts ! ?d) = Some (n, s)"
      using "4.prems"(3) by simp
    note disj = distinct_children [OF "4.prems"(2) d]
    have IH: "rep ?ns p ?d j (rn_slots (ns p) ! ?d) (rput j i x (ts ! ?d))" "ptrs (rput j i x (ts ! ?d)) = ptrs (ts ! ?d)"
      using "4.IH" [OF d child [OF d] disj(1) b _ "4.prems"(5)] Suc unfolding rget.simps by blast+
    have n: "n \<in> set (ptrs (ts ! ?d))"
      using bottom_node [OF child [OF d] b] Suc by simp
    then have "?ns p = ns p"
      using disj(2) by auto
    have same: "rput j i x (ts ! ?d) = Inner q (us[digit j' i := rput j' i x (us ! digit j' i)])"
      using q Suc by simp
    have "node_is (ns p) par off j (ts[?d := rput j i x (ts ! ?d)])"
      using "4.prems"(1) filled_update [OF d, of "rput j i x (ts ! ?d)"] exceptionals_update [OF d, of "rput j i x (ts ! ?d)"] same q
      by (simp add: node_is_def)
    moreover have "rep ?ns p l j (rn_slots (ns p) ! l) (ts[?d := rput j i x (ts ! ?d)] ! l)" if "l < length ts" for l
    proof (cases "l = ?d")
      case True
      then show ?thesis
        using IH(1) d by simp
    next
      case False
      then show ?thesis
        using child [OF that] disj(3) [OF that False] n by (subst rep_cong [of _ _ ns]) auto
    qed
    moreover have "concat (map ptrs (ts[?d := rput j i x (ts ! ?d)])) = concat (map ptrs ts)"
      using IH(2) d by (simp add: map_update) (metis list_update_id nth_map)
    moreover have "e = node_to_entry p" "ptr_ok p"
      using "4.prems"(1) by simp_all
    ultimately show ?thesis
      unfolding rput.simps ptrs.simps rep.simps length_list_update \<open>?ns p = ns p\<close> by blast
  qed
next
  case (1 ns par off k e)
  then show ?case
    by (cases k) auto
qed simp_all

text \<open>One child of a node is exchanged and the node itself may change with it.\<close>

lemma rep_set_child:
  assumes "rep ns par off (Suc j) e (Inner p ts)" "d < 64"
    and "node_is (ns' p) par' off' j (ts[d := u])"
    and "\<And>l. l < 64 \<Longrightarrow> l \<noteq> d \<Longrightarrow> rn_slots (ns' p) ! l = rn_slots (ns p) ! l"
    and "rep ns' p d j (rn_slots (ns' p) ! d) u"
    and "\<And>l q. l < 64 \<Longrightarrow> l \<noteq> d \<Longrightarrow> q \<in> set (ptrs (ts ! l)) \<Longrightarrow> ns' q = ns q"
  shows "rep ns' par' off' (Suc j) e (Inner p (ts[d := u]))"
proof -
  have len: "length ts = 64"
    using assms(1) by (simp add: node_is_def)
  have "rep ns' p l j (rn_slots (ns' p) ! l) (ts[d := u] ! l)" if "l < length ts" for l
  proof (cases "l = d")
    case True
    then show ?thesis
      using assms(2,5) len by simp
  next
    case False
    then have "rep ns p l j (rn_slots (ns p) ! l) (ts ! l)"
      using assms(1) that by simp
    then show ?thesis
      using False assms(4,6) that len by (subst rep_cong [of _ _ ns]) auto
  qed
  then show ?thesis
    using assms(1,3) by simp
qed

lemma node_is_same:
  assumes "node_is n par off j ts" "d < 64" "u = Empty \<longleftrightarrow> ts ! d = Empty" "exceptional_item u \<longleftrightarrow> exceptional_item (ts ! d)"
  shows "node_is n par off j (ts[d := u])"
proof -
  have "d < length ts"
    using assms(1,2) by (simp add: node_is_def)
  from filled_update [OF this, of u] exceptionals_update [OF this, of u] show ?thesis
    using assms by (simp add: node_is_def)
qed

lemma node_of_rep: "rep ns par off k e t \<Longrightarrow> p \<in> set (ptrs t) \<Longrightarrow> rn_tags (ns p) = no_tags"
proof (induction ns par off k e t rule: rep.induct)
  case (4 ns par off j e q ts)
  then consider "p = q" | x where "x < length ts" "p \<in> set (ptrs (ts ! x))"
    by (auto simp: in_set_conv_nth [of _ ts])
  then show ?case
    using 4 by cases (auto simp: node_is_def)
qed simp_all

lemma tag_get_none: "rn_tags (nodes m p) = no_tags \<Longrightarrow> tag < 3 \<Longrightarrow> off < 64 \<Longrightarrow> \<not> tag_get m p tag off"
  by (simp add: tag_get_def no_tags_def RADIX_TREE_MAX_TAGS_def RADIX_TREE_TAG_LONGS_def RADIX_TREE_MAP_SIZE_def
      RADIX_TREE_MAP_SHIFT_def RT_BITS_PER_LONG_def less_mult_imp_div_less)

lemma root_tag_none: "root_tags_get m = 0 \<Longrightarrow> \<not> root_tag_get m tag"
proof -
  assume "root_tags_get m = 0"
  then have "\<not> bit (drop_bit 23 (gfp_mask m)) tag"
    by (simp add: root_tags_get_def ROOT_TAG_SHIFT_def)
  then have "\<not> bit (gfp_mask m) (23 + tag)"
    by (simp add: bit_drop_bit_eq)
  then have "gfp_mask m AND push_bit (tag + 23) 1 = 0"
    by (intro bit_eqI) (auto simp: bit_and_iff bit_exp_iff add.commute)
  then show "\<not> root_tag_get m tag"
    by (simp add: root_tag_get_def ROOT_TAG_SHIFT_def)
qed

text \<open>The slot at the end of a path holds the item.\<close>

lemma read_bottom:
  "rep (nodes m) par off k e t \<Longrightarrow> bottom k i par' s' t = Some (n, s) \<Longrightarrow> k \<noteq> 0 \<Longrightarrow> read_slot m s = rget k i t"
proof (induction "nodes m" par off k e t arbitrary: par' s' rule: rep.induct)
  case (4 par off j e p ts)
  have len: "digit j i < length ts"
    using "4.prems"(1) by (simp add: node_is_def)
  show ?case
  proof (cases j)
    case 0
    then have c: "rep (nodes m) p (digit 0 i) 0 (rn_slots (nodes m p) ! digit 0 i) (ts ! digit 0 i)" "s = Slot p (digit 0 i)"
      using "4.prems"(1,2) len by auto
    show ?thesis
      using level_0 [OF c(1)] c(2) 0 by (simp add: read_slot_def)
  next
    case (Suc j')
    then show ?thesis
      using "4.hyps" [OF len] "4.prems" len by simp
  qed
next
  case (1 par off k e)
  then show ?case
    by (cases k) auto
qed simp_all

section \<open>Lookup\<close>

lemma lookup_loop_rep:
  "rep (nodes m) par off k e t \<Longrightarrow> k \<le> 11 \<Longrightarrow>
   \<exists>n' s'. lookup_loop m index e n s = Some (rget k (unat index) t, n', s') \<and>
     (rget k (unat index) t \<noteq> 0 \<longrightarrow> bottom k (unat index) n s t = Some (n', s'))"
proof (induction "nodes m" par off k e t arbitrary: n s rule: rep.induct)
  case (4 par off j e p ts)
  let ?d = "digit j (unat index)"
  have len: "?d < length ts" and node: "node_is (nodes m p) par off j ts" and p: "ptr_ok p" "e = node_to_entry p"
    and child: "rep (nodes m) p ?d j (rn_slots (nodes m p) ! ?d) (ts ! ?d)"
    using "4.prems"(1) by (simp_all add: node_is_def)
  have "lookup_loop m index e n s = lookup_loop m index (rn_slots (nodes m p) ! ?d) p (Slot p ?d)"
    using p descend_eq [OF node] "4.prems"(2) by (subst lookup_loop.simps) simp
  then show ?case
    using "4.hyps" [OF len child] "4.prems"(2) by simp
qed (auto simp: lookup_loop.simps item_ok_def)

lemma load_root:
  assumes "radix m k t"
  shows "\<exists>mx. radix_tree_load_root m = (rnode m, mx, 6 * k) \<and> (\<forall>index. mx < index \<longleftrightarrow> 64 ^ k \<le> unat index)"
proof -
  have r: "rep (nodes m) 0 0 k (rnode m) t" and k: "k \<le> 11" "t = Empty \<longrightarrow> k = 0"
    using assms by (simp_all add: radix_def)
  show ?thesis
  proof (cases t)
    case (Inner p ts)
    then obtain j where j: "k = Suc j"
      using r by (cases k) auto
    have node: "node_is (nodes m p) 0 0 j ts" "ptr_ok p" "rnode m = node_to_entry p"
      using r j Inner by simp_all
    have "unat (rn_shift (nodes m p)) = 6 * j"
      using node(1) unat_shift [of j] j k(1) by (simp add: node_is_def)
    then show ?thesis
      using node shift_maxindex_less [of j] j k(1)
      by (auto simp: radix_tree_load_root_def node_maxindex_def Let_def RADIX_TREE_MAP_SHIFT_def)
  next
    case Empty
    then show ?thesis
      using r k by (auto simp: radix_tree_load_root_def Let_def word_less_nat_alt)
  next
    case (Item x)
    then show ?thesis
      using r by (auto simp: radix_tree_load_root_def Let_def item_ok_def word_less_nat_alt)
  qed
qed

lemma raw_lookup:
  assumes "radix m k t"
  shows "(if unat index < 64 ^ k
     then \<exists>n s. raw_radix_tree_lookup m index = Some (Some (contents k t index, n, s)) \<and>
       (contents k t index \<noteq> 0 \<longrightarrow> bottom k (unat index) 0 Root_slot t = Some (n, s))
     else raw_radix_tree_lookup m index = Some None \<and> contents k t index = 0)"
proof -
  obtain mx where mx: "radix_tree_load_root m = (rnode m, mx, 6 * k)" "mx < index \<longleftrightarrow> 64 ^ k \<le> unat index"
    using load_root [OF assms] by blast
  have "rep (nodes m) 0 0 k (rnode m) t" "k \<le> 11"
    using assms by (simp_all add: radix_def)
  from lookup_loop_rep [OF this, of index 0 Root_slot] show ?thesis
    using mx by (auto simp: raw_radix_tree_lookup_def contents_def)
qed

end
