(* ===== verification/Radix_Insert.thy ===== *)
theory Radix_Insert
  imports Radix_Shape
begin

text \<open>
  Correctness of \<open>radix_tree_insert\<close>: growing the tree at the root, creating the path to an
  index, and storing the item. All of it relies on \<open>malloc\<close> returning zeroed memory, which
  \<open>pool_ok\<close> states.
\<close>

section \<open>Allocation\<close>

lemma filled_replicate [simp]: "filled (replicate n Empty) = 0"
  by (simp add: filled_def)

lemma exceptionals_replicate [simp]: "exceptionals (replicate n Empty) = 0"
  by (simp add: exceptionals_def)

lemma pool_ok_mono: "pool_ok m xs \<Longrightarrow> set ys \<subseteq> set xs \<Longrightarrow> pool_ok m ys"
  unfolding pool_ok_def by blast

definition fresh_node :: "ulong \<Rightarrow> nat \<Rightarrow> nat \<Rightarrow> nat \<Rightarrow> radix_tree_node \<Rightarrow> radix_tree_node" where
  "fresh_node par sh off cnt n = n\<lparr>rn_shift := of_nat sh, rn_offset := of_nat off, rn_count := of_nat cnt,
     rn_exceptional := 0, rn_parent := par\<rparr>"

lemma alloc_cons:
  assumes "pool m = q # ps" "ptr_ok q"
  shows "radix_tree_node_alloc m par sh off cnt 0 =
    Some (q, m\<lparr>pool := ps, nodes := (nodes m)(q := fresh_node par sh off cnt (nodes m q))\<rparr>)"
  using assms by (simp add: radix_tree_node_alloc_def fresh_node_def ptr_ok_def [THEN iffD1, THEN conjunct1])

lemma alloc_cases:
  assumes "pool_ok m used"
  shows "radix_tree_node_alloc m par sh off cnt 0 =
    (case pool m of [] \<Rightarrow> Some (0, m)
     | q # ps \<Rightarrow> Some (q, m\<lparr>pool := ps, nodes := (nodes m)(q := fresh_node par sh off cnt (nodes m q))\<rparr>))"
  using assms alloc_cons [of m] by (auto simp: radix_tree_node_alloc_def pool_ok_def split: list.splits)

lemma fresh_rep:
  assumes "blank n" "ptr_ok q" "ns q = fresh_node par (6 * j) off 0 n"
  shows "rep ns par off (Suc j) (node_to_entry q) (Inner q (replicate 64 Empty))"
  using assms by (simp add: node_is_def fresh_node_def blank_def)

lemma ptrs_fresh [simp]: "ptrs (Inner q (replicate n Empty)) = [q]"
  by simp

section \<open>Creating the path\<close>

text \<open>What creating a path leaves alone.\<close>

definition grown :: "radix_mem \<Rightarrow> radix_mem \<Rightarrow> ulong set \<Rightarrow> bool" where
  "grown m m' A \<longleftrightarrow> rnode m' = rnode m \<and> gfp_mask m' = gfp_mask m \<and> freed m' = freed m \<and>
     set (pool m') \<subseteq> set (pool m) \<and> (\<forall>q. q \<notin> A \<longrightarrow> q \<notin> set (pool m) \<longrightarrow> nodes m' q = nodes m q)"

lemma grown_refl [simp]: "grown m m A"
  by (simp add: grown_def)

lemma grown_trans:
  "grown m m1 A \<Longrightarrow> grown m1 m2 B \<Longrightarrow> B \<subseteq> A \<union> set (pool m) \<Longrightarrow> grown m m2 A"
  unfolding grown_def by (metis (no_types, lifting) UnE subset_iff)

definition create_post ::
  "radix_mem \<Rightarrow> ulong \<Rightarrow> nat \<Rightarrow> nat \<Rightarrow> ulong \<Rightarrow> ulong \<Rightarrow> rtree \<Rightarrow> nat \<Rightarrow> ulong \<Rightarrow> rslot \<Rightarrow>
   (int \<times> ulong \<times> rslot \<times> radix_mem) option \<Rightarrow> rtree \<Rightarrow> bool"
where
  "create_post m par off k e p t i n0 s0 r t' \<longleftrightarrow> (\<exists>err n s m'. r = Some (err, n, s, m') \<and>
     rep (nodes m') par off k e t' \<and> distinct (ptrs t') \<and> (\<exists>us. t' = Inner p us) \<and>
     set (ptrs t') \<subseteq> set (ptrs t) \<union> set (pool m) \<and> pool_ok m' (ptrs t') \<and>
     grown m m' (set (ptrs t)) \<and> (\<forall>x. rget k x t' = rget k x t) \<and>
     (err = 0 \<and> bottom k i n0 s0 t' = Some (n, s) \<or> err = - RT_ENOMEM \<and> pool m' = [] \<and> rget k i t = 0))"

text \<open>A created child goes back into its parent.\<close>

lemma create_post_child:
  assumes rep: "rep (nodes m) par off (Suc j) e (Inner p ts)" and dist: "distinct (ptrs (Inner p ts))"
    and pool: "pool_ok m (ptrs (Inner p ts))" and d: "d = digit j i" and q: "ts ! d = Inner q us"
    and post: "create_post m p d j (rn_slots (nodes m p) ! d) q (ts ! d) i p (Slot p d) r u"
  shows "create_post m par off (Suc j) e p (Inner p ts) i n0 s0 r (Inner p (ts[d := u]))"
proof -
  have len: "length ts = 64" and d64: "d < 64" and node: "node_is (nodes m p) par off j ts"
    using rep d by (simp_all add: node_is_def)
  then have d': "d < length ts"
    by simp
  note disj = distinct_children [OF dist d']
  obtain err n s m' vs where r: "r = Some (err, n, s, m')" and u: "rep (nodes m') p d j (rn_slots (nodes m p) ! d) u"
      "distinct (ptrs u)" "u = Inner q vs" "set (ptrs u) \<subseteq> set (ptrs (ts ! d)) \<union> set (pool m)" "pool_ok m' (ptrs u)"
      "grown m m' (set (ptrs (ts ! d)))" "\<And>x. rget j x u = rget j x (ts ! d)"
      "err = 0 \<and> bottom j i p (Slot p d) u = Some (n, s) \<or> err = - RT_ENOMEM \<and> pool m' = [] \<and> rget j i (ts ! d) = 0"
    using post unfolding create_post_def by blast
  have frame: "nodes m' x = nodes m x" if "x \<in> set (ptrs (Inner p ts))" "x \<notin> set (ptrs (ts ! d))" for x
    using that u(6) pool unfolding grown_def pool_ok_def by blast
  have p: "nodes m' p = nodes m p"
    using frame [of p] disj(2) by simp
  have "rep (nodes m') par off (Suc j) e (Inner p (ts[d := u]))"
  proof (rule rep_set_child [OF rep d64])
    show "node_is (nodes m' p) par off j (ts[d := u])"
      using node_is_same [OF node d64, of u] p u(3) q by simp
    show "rep (nodes m') p d j (rn_slots (nodes m' p) ! d) u"
      using u(1) p by simp
    show "nodes m' x = nodes m x" if "l < 64" "l \<noteq> d" "x \<in> set (ptrs (ts ! l))" for l x
      using frame [of x] that disj(3) [of l] ptrs_child [of l ts p] len by auto
  qed (use p in simp)
  moreover have "set (ptrs u) \<inter> (set (ptrs (Inner p ts)) - set (ptrs (ts ! d))) = {}"
    using u(4) pool unfolding pool_ok_def by blast
  then have "distinct (ptrs (Inner p (ts[d := u])))"
    using distinct_update [OF dist d' u(2)] by blast
  moreover have sub: "set (ptrs (Inner p (ts[d := u]))) \<subseteq> set (ptrs (Inner p ts)) \<union> set (ptrs u)"
    by (rule ptrs_update [OF d'])
  then have "set (ptrs (Inner p (ts[d := u]))) \<subseteq> set (ptrs (Inner p ts)) \<union> set (pool m)"
    using u(4) ptrs_child [OF d', of p] by blast
  moreover have "pool_ok m' (ptrs (Inner p (ts[d := u])))"
    using u(5,6) pool sub unfolding pool_ok_def grown_def by blast
  moreover have "grown m m' (set (ptrs (Inner p ts)))"
    using u(6) ptrs_child [OF d', of p] unfolding grown_def by blast
  moreover have "rget (Suc j) x (Inner p (ts[d := u])) = rget (Suc j) x (Inner p ts)" for x
    using u(7) d' by (simp add: nth_list_update)
  moreover have "bottom (Suc j) i n0 s0 (Inner p (ts[d := u])) = bottom j i p (Slot p d) u"
      "rget (Suc j) i (Inner p ts) = rget j i (ts ! d)"
    using d d' by simp_all
  ultimately show ?thesis
    using u(8) unfolding create_post_def r by (intro exI [of _ err] exI [of _ n] exI [of _ s] exI [of _ m']) simp
qed

lemma create_post_trans:
  assumes "create_post m1 par off k e p t1 i n0 s0 r t'" "grown m m1 (set (ptrs t))"
    and "set (ptrs t1) \<subseteq> set (ptrs t) \<union> set (pool m)" "\<And>x. rget k x t1 = rget k x t"
  shows "create_post m par off k e p t i n0 s0 r t'"
proof -
  have "set (pool m1) \<subseteq> set (pool m)"
    using assms(2) by (simp add: grown_def)
  moreover have "grown m m' (set (ptrs t))" if "grown m1 m' (set (ptrs t1))" for m'
    using grown_trans [OF assms(2) that] assms(3) .
  ultimately show ?thesis
    using assms(1,3,4) unfolding create_post_def by auto blast+
qed

lemma create_post_refl:
  assumes "rep (nodes m) par off k e (Inner p ts)" "distinct (ptrs (Inner p ts))" "pool_ok m (ptrs (Inner p ts))"
    and "err = 0 \<and> bottom k i n0 s0 (Inner p ts) = Some (n, s) \<or> err = - RT_ENOMEM \<and> pool m = [] \<and> rget k i (Inner p ts) = 0"
  shows "create_post m par off k e p (Inner p ts) i n0 s0 (Some (err, n, s, m)) (Inner p ts)"
  using assms unfolding create_post_def by auto

lemma create_shift:
  assumes "rn_shift (nodes m p) = of_nat (6 * j)" "ptr_ok p" "j \<le> 10"
  shows "create_loop m index 0 (6 * Suc j) (node_to_entry p) n o' s =
    create_loop m index 0 (6 * j) (rn_slots (nodes m p) ! digit j (unat index)) p (digit j (unat index))
      (Slot p (digit j (unat index)))"
  using assms descend_shift [OF assms(1,3), of index]
  by (subst create_loop.simps) (simp add: RADIX_TREE_MAP_SHIFT_def ptr_ok_def [THEN iffD1, THEN conjunct1])

lemma create_step:
  "node_is (nodes m p) par off j ts \<Longrightarrow> ptr_ok p \<Longrightarrow> j \<le> 10 \<Longrightarrow>
   create_loop m index 0 (6 * Suc j) (node_to_entry p) n o' s =
     create_loop m index 0 (6 * j) (rn_slots (nodes m p) ! digit j (unat index)) p (digit j (unat index))
       (Slot p (digit j (unat index)))"
  by (rule create_shift) (simp_all add: node_is_def)

lemma exceptional_node_entry [simp]: "ptr_ok p \<Longrightarrow> \<not> radix_tree_exceptional_entry (node_to_entry p)"
proof -
  assume "ptr_ok p"
  then have "\<not> bit (node_to_entry p) 1"
    using ptr_ok_bits [of p] by (simp add: node_to_entry_def bit_or_iff bit_1_iff)
  then have "node_to_entry p AND 2 = 0"
    using and_exp_eq_0_iff_not_bit [of "node_to_entry p" 1] by simp
  then show "\<not> radix_tree_exceptional_entry (node_to_entry p)"
    by (simp add: radix_tree_exceptional_entry_def)
qed

lemma create_fails:
  assumes "pool_ok m used" "pool m = []"
  shows "create_loop m index 0 (6 * Suc j) 0 n o' s = Some (- RT_ENOMEM, n, s, m)"
  using alloc_cases [OF assms(1)] assms(2) by (subst create_loop.simps) (simp add: RADIX_TREE_MAP_SHIFT_def)

text \<open>The memory after a node was put into slot \<open>d\<close> of the node \<open>p\<close>.\<close>

definition new_child :: "radix_mem \<Rightarrow> ulong \<Rightarrow> nat \<Rightarrow> nat \<Rightarrow> radix_mem" where
  "new_child m p d j = (let q = hd (pool m) in
     m\<lparr>pool := tl (pool m), nodes := (nodes m)(q := fresh_node p (6 * j) d 0 (nodes m q),
       p := store_item d (node_to_entry q) 0 (nodes m p))\<rparr>)"

lemma create_allocs:
  assumes "pool_ok m used" "pool m = q # ps" "p \<in> set used" "ptr_ok p"
  shows "create_loop m index 0 (6 * Suc j) 0 p d (Slot p d) =
    create_loop (new_child m p d j) index 0 (6 * Suc j) (node_to_entry q) p d (Slot p d)"
proof -
  have q: "ptr_ok q" "q \<noteq> p" "q \<noteq> 0" "p \<noteq> 0"
    using assms by (auto simp: pool_ok_def ptr_ok_def)
  have "create_loop m index 0 (6 * Suc j) 0 p d (Slot p d) =
    (let (child, off) = radix_tree_descend (new_child m p d j) q index
     in create_loop (new_child m p d j) index 0 (6 * j) child q off (Slot q off))"
    using q assms(2) alloc_cases [OF assms(1)]
    by (subst create_loop.simps)
      (simp add: RADIX_TREE_MAP_SHIFT_def write_slot_def new_child_def store_item_def fun_upd_twist Let_def)
  also have "\<dots> = create_loop (new_child m p d j) index 0 (6 * Suc j) (node_to_entry q) p d (Slot p d)"
    using q by (subst (2) create_loop.simps) (simp add: RADIX_TREE_MAP_SHIFT_def Let_def)
  finally show ?thesis .
qed

lemma new_child_rep:
  assumes rep: "rep (nodes m) par off (Suc (Suc j)) e (Inner p ts)" and dist: "distinct (ptrs (Inner p ts))"
    and pool: "pool_ok m (ptrs (Inner p ts))" and q: "pool m = q # ps" and d: "d < 64" "ts ! d = Empty"
  defines "t \<equiv> Inner p (ts[d := Inner q (replicate 64 Empty)])"
  shows "rep (nodes (new_child m p d j)) par off (Suc (Suc j)) e t" "distinct (ptrs t)"
    "pool_ok (new_child m p d j) (ptrs t)" "grown m (new_child m p d j) (set (ptrs (Inner p ts)))"
    "set (ptrs t) \<subseteq> set (ptrs (Inner p ts)) \<union> set (pool m)" "rget (Suc (Suc j)) x t = rget (Suc (Suc j)) x (Inner p ts)"
proof -
  have len: "length ts = 64" and node: "node_is (nodes m p) par off (Suc j) ts"
    using rep by (simp_all add: node_is_def)
  have qq: "ptr_ok q" "q \<noteq> p" "blank (nodes m q)" "q \<notin> set (ptrs (Inner p ts))"
    using pool q by (auto simp: pool_ok_def)
  let ?m = "new_child m p d j"
  have m: "nodes ?m p = store_item d (node_to_entry q) 0 (nodes m p)" "nodes ?m q = fresh_node p (6 * j) d 0 (nodes m q)"
      "\<And>x. x \<noteq> p \<Longrightarrow> x \<noteq> q \<Longrightarrow> nodes ?m x = nodes m x" "pool ?m = ps"
    using q qq(2) by (simp_all add: new_child_def)
  have slots: "rn_slots (nodes ?m p) ! d = node_to_entry q" "\<And>l. l \<noteq> d \<Longrightarrow> rn_slots (nodes ?m p) ! l = rn_slots (nodes m p) ! l"
    using node d(1) by (simp_all add: m(1) store_item_def node_is_def)
  show "rep (nodes ?m) par off (Suc (Suc j)) e t"
    unfolding t_def
  proof (rule rep_set_child [OF rep d(1)])
    show "node_is (nodes ?m p) par off (Suc j) (ts[d := Inner q (replicate 64 Empty)])"
      unfolding m(1) by (rule node_is_update [OF node d(1)]) (use qq(1) d(2) in simp_all)
    show "rep (nodes ?m) p d (Suc j) (rn_slots (nodes ?m p) ! d) (Inner q (replicate 64 Empty))"
      unfolding slots(1) by (rule fresh_rep [of "nodes m q"]) (use qq m(2) in auto)
    show "nodes ?m x = nodes m x" if "l < 64" "l \<noteq> d" "x \<in> set (ptrs (ts ! l))" for l x
    proof (rule m(3))
      show "x \<noteq> p"
        using that distinct_children(2) [OF dist, of l] len by auto
      show "x \<noteq> q"
        using that qq(4) ptrs_child [of l ts p] len by auto
    qed
  qed (use slots(2) in simp)
  have "ptrs (Inner q (replicate 64 Empty)) = [q]"
    by simp
  then show "distinct (ptrs t)" and sub: "set (ptrs t) \<subseteq> set (ptrs (Inner p ts)) \<union> set (pool m)"
    using distinct_update [OF dist, of d "Inner q (replicate 64 Empty)"] ptrs_update [of d ts p "Inner q (replicate 64 Empty)"]
      len d(1) qq(4) q unfolding t_def by (auto simp del: ptrs.simps)
  have "set (ptrs t) \<subseteq> insert q (set (ptrs (Inner p ts)))"
    using ptrs_update [of d ts p "Inner q (replicate 64 Empty)"] len d(1) unfolding t_def by auto
  moreover have "x \<noteq> p \<and> x \<noteq> q" if "x \<in> set ps" for x
    using pool q that by (auto simp: pool_ok_def)
  then have "nodes ?m x = nodes m x" if "x \<in> set ps" for x
    using m(3) that by blast
  ultimately show "pool_ok ?m (ptrs t)"
    using pool q unfolding pool_ok_def m(4) by auto
  show "grown m ?m (set (ptrs (Inner p ts)))"
    using q by (auto simp: grown_def new_child_def)
  show "rget (Suc (Suc j)) x t = rget (Suc (Suc j)) x (Inner p ts)"
    using d len by (cases "digit (Suc j) x = d") (simp_all add: t_def)
qed

lemma create_inner:
  "rep (nodes m) par off (Suc j) e (Inner p ts) \<Longrightarrow> distinct (ptrs (Inner p ts)) \<Longrightarrow> pool_ok m (ptrs (Inner p ts)) \<Longrightarrow>
   j \<le> 10 \<Longrightarrow>
   \<exists>t'. create_post m par off (Suc j) e p (Inner p ts) (unat index) n0 s0
     (create_loop m index 0 (6 * Suc j) (node_to_entry p) n' o' s') t'"
proof (induction j arbitrary: m par off e p ts n0 s0 n' o' s')
  case 0
  have node: "node_is (nodes m p) par off 0 ts" "ptr_ok p"
    using "0.prems"(1) by simp_all
  have "create_loop m index 0 (6 * Suc 0) (node_to_entry p) n' o' s' =
      Some (0, p, Slot p (digit 0 (unat index)), m)"
    unfolding create_step [OF node "0.prems"(4)] by (subst create_loop.simps) simp
  then show ?case
    using create_post_refl [OF "0.prems"(1-3), of 0 "unat index" n0 s0] by (simp del: ptrs.simps) blast
next
  case (Suc j)
  let ?d = "digit (Suc j) (unat index)"
  let ?c = "rn_slots (nodes m p) ! ?d"
  let ?loop = "create_loop m index 0 (6 * Suc j) ?c p ?d (Slot p ?d)"
  have node: "node_is (nodes m p) par off (Suc j) ts" "ptr_ok p"
    and child: "rep (nodes m) p ?d (Suc j) ?c (ts ! ?d)" and d: "?d < length ts"
    using Suc.prems(1) by (simp_all add: node_is_def)
  have loop: "create_loop m index 0 (6 * Suc (Suc j)) (node_to_entry p) n' o' s' = ?loop"
    by (rule create_step [OF node Suc.prems(4)])
  show ?case
  proof (cases "ts ! ?d")
    case (Inner q us)
    have c: "?c = node_to_entry q"
      using child Inner by simp
    have "pool_ok m (ptrs (ts ! ?d))"
      by (rule pool_ok_mono [OF Suc.prems(3) ptrs_child [OF d, of p]])
    then obtain u where "create_post m p ?d (Suc j) ?c q (ts ! ?d) (unat index) p (Slot p ?d) ?loop u"
      using Suc.IH [OF child [unfolded Inner], folded Inner] distinct_children(1) [OF Suc.prems(2) d] Suc.prems(4) c
      by (metis Suc_leD)
    then show ?thesis
      unfolding loop using create_post_child [OF Suc.prems(1-3) refl Inner] by blast
  next
    case Item
    then show ?thesis
      using child by simp
  next
    case Empty
    then have c: "?c = 0"
      using child by simp
    show ?thesis
    proof (cases "pool m")
      case Nil
      then show ?thesis
        unfolding loop c create_fails [OF Suc.prems(3) Nil] 
        using create_post_refl [OF Suc.prems(1-3), of "- RT_ENOMEM" "unat index"] Empty Nil by (intro exI) simp
    next
      case (Cons q ps)
      let ?m = "new_child m p ?d j"
      let ?F = "Inner q (replicate 64 Empty)"
      note new = new_child_rep [OF Suc.prems(1-3) Cons digit_less Empty]
      have F: "ts[?d := ?F] ! ?d = ?F"
        using d by simp
      have "rep (nodes ?m) p ?d (Suc j) (rn_slots (nodes ?m p) ! ?d) ?F"
        using new(1) d F by (auto simp only: rep.simps length_list_update)
      moreover have "pool_ok ?m (ptrs ?F)"
        by (rule pool_ok_mono [OF new(3)]) (use ptrs_child [of ?d "ts[?d := ?F]" p] F d in \<open>simp only: length_list_update\<close>)
      moreover have "?loop = create_loop ?m index 0 (6 * Suc j) (node_to_entry q) p ?d (Slot p ?d)"
        unfolding c by (rule create_allocs [OF Suc.prems(3) Cons _ node(2)]) simp
      ultimately obtain u where "create_post ?m p ?d (Suc j) (rn_slots (nodes ?m p) ! ?d) q ?F (unat index) p (Slot p ?d) ?loop u"
        using Suc.IH [of ?m p ?d _ q "replicate 64 Empty"] Suc.prems(4) by (simp del: rep.simps) blast
      then have "create_post ?m par off (Suc (Suc j)) e p (Inner p (ts[?d := ?F])) (unat index) n0 s0 ?loop (Inner p (ts[?d := ?F, ?d := u]))"
        using create_post_child [OF new(1-3) refl F] unfolding F by blast
      then show ?thesis
        unfolding loop using create_post_trans [OF _ new(4,5,6)] by blast
    qed
  qed
qed

section \<open>Growing at the root\<close>

lemma find_maxshift_levels:
  "k \<le> 10 \<Longrightarrow> \<exists>n. find_maxshift index (6 * k) = 6 * n \<and> k \<le> n \<and> n \<le> 10 \<and> unat index < 64 ^ Suc n \<and>
     (n = k \<or> 64 ^ n \<le> unat index)"
proof (induction "10 - k" arbitrary: k)
  case 0
  have "unat index < 2 ^ 64"
    using unsigned_less [of index, where ?'a = nat] by simp
  then have "unat index < 64 ^ Suc k" "k = 10"
    using 0 by simp_all
  then show ?case
    using shift_maxindex_less [OF "0.prems", of index] by (subst find_maxshift.simps) auto
next
  case (Suc d)
  show ?case
  proof (cases "unat index < 64 ^ Suc k")
    case True
    then show ?thesis
      using shift_maxindex_less [OF Suc.prems, of index] Suc.prems
      by (subst find_maxshift.simps) (auto simp del: power_Suc)
  next
    case False
    then have step: "find_maxshift index (6 * k) = find_maxshift index (6 * Suc k)"
      using shift_maxindex_less [OF Suc.prems, of index]
      by (subst find_maxshift.simps) (simp add: RADIX_TREE_MAP_SHIFT_def add.commute)
    have "d = 10 - Suc k" "Suc k \<le> 10"
      using Suc.hyps(2) by simp_all
    from Suc.hyps(1) [OF this] show ?thesis
      using False Suc_leD unfolding step by (metis linorder_not_less)
  qed
qed

lemma extend_tags_none: "\<not> is_idr m \<Longrightarrow> root_tags_get m = 0 \<Longrightarrow> extend_tags q m = m"
  by (simp add: extend_tags_def RADIX_TREE_MAX_TAGS_def root_tag_none upt_rec)

lemma internal_not_exceptional: "radix_tree_is_internal_node e \<Longrightarrow> \<not> radix_tree_exceptional_entry e"
proof -
  assume "radix_tree_is_internal_node e"
  then have "\<not> bit e 1"
    by (auto simp: radix_tree_is_internal_node_def and_3_cases split: if_splits)
  then show ?thesis
    using and_exp_eq_0_iff_not_bit [of e 1] by (simp add: radix_tree_exceptional_entry_def)
qed

text \<open>The memory with one more level: a node above the root, which becomes its slot 0.\<close>

definition adopt :: "ulong \<Rightarrow> ulong \<Rightarrow> (ulong \<Rightarrow> radix_tree_node) \<Rightarrow> ulong \<Rightarrow> radix_tree_node" where
  "adopt q e ns = (if radix_tree_is_internal_node e
     then ns(entry_to_node e := (ns (entry_to_node e))\<lparr>rn_parent := q\<rparr>) else ns)"

definition top_node :: "ulong \<Rightarrow> nat \<Rightarrow> radix_tree_node \<Rightarrow> radix_tree_node" where
  "top_node e k n = (let n = fresh_node 0 (6 * k) 0 1 n;
       n = (if radix_tree_exceptional_entry e then n\<lparr>rn_exceptional := 1\<rparr> else n)
     in n\<lparr>rn_slots := (rn_slots n)[0 := e]\<rparr>)"

definition raised :: "radix_mem \<Rightarrow> nat \<Rightarrow> radix_mem" where
  "raised m k = (let q = hd (pool m) in m\<lparr>pool := tl (pool m),
     nodes := (adopt q (rnode m) (nodes m))(q := top_node (rnode m) k (nodes m q)), rnode := node_to_entry q\<rparr>)"

lemma extend_fails: "pool_ok m used \<Longrightarrow> pool m = [] \<Longrightarrow> extend_loop m e s mx = Some (- RT_ENOMEM, m)"
  using alloc_cases [of m used 0 s 0 1] by (subst extend_loop.simps) (simp add: extend_round_def)

lemma extend_round_raised:
  assumes "ptr_ok q" "pool m = q # ps" "\<not> is_idr m" "root_tags_get m = 0" "k \<le> 5"
    and "radix_tree_is_internal_node (rnode m) \<Longrightarrow> entry_to_node (rnode m) \<noteq> q"
  shows "extend_round m (rnode m) (6 * k) = Extend_next (raised m k) (rnode (raised m k))"
proof -
  have q: "q \<noteq> 0"
    using assms(1) by (simp add: ptr_ok_def)
  have tags: "extend_tags q (m\<lparr>pool := ps, nodes := ns\<rparr>) = m\<lparr>pool := ps, nodes := ns\<rparr>" for ns
    using assms(3,4) by (intro extend_tags_none) (simp_all add: is_idr_def root_tags_get_def)
  show ?thesis
    using q assms(2,5,6) alloc_cons [OF assms(2,1), of 0 "6 * k" 0 1] internal_not_exceptional [of "rnode m"]
    by (auto simp: extend_round_def tags RT_BITS_PER_LONG_def raised_def adopt_def top_node_def fresh_node_def fun_upd_twist Let_def)
qed

lemma extend_step:
  assumes "ptr_ok q" "pool m = q # ps" "\<not> is_idr m" "root_tags_get m = 0" "k \<le> 5"
    and "radix_tree_is_internal_node (rnode m) \<Longrightarrow> entry_to_node (rnode m) \<noteq> q"
  shows "extend_loop m (rnode m) (6 * k) mx =
    (if 6 * Suc k \<le> mx then extend_loop (raised m k) (rnode (raised m k)) (6 * Suc k) mx
     else Some (int (mx + 6), raised m k))"
  by (subst extend_loop.simps) (simp add: extend_round_raised [OF assms] RADIX_TREE_MAP_SHIFT_def add.commute)

text \<open>Whatever its contents, a node with a shift above \<open>BITS_PER_LONG\<close> ends in the \<open>BUG_ON\<close>.\<close>

lemma extend_bug:
  assumes "ptr_ok q" "pool m = q # ps" "RT_BITS_PER_LONG < s"
  shows "extend_round m e s = Extend_bug"
  using assms alloc_cons [OF assms(2,1), of 0 s 0 1] by (simp add: extend_round_def ptr_ok_def)

lemma rep_adopt:
  assumes "rep ns par 0 k e t" "distinct (ptrs t)"
  shows "rep (adopt q e ns) q 0 k e t"
proof (cases t)
  case (Inner p ts)
  then obtain j where j: "k = Suc j"
    using assms(1) by (cases k) auto
  have p: "ptr_ok p" "e = node_to_entry p" "node_is (ns p) par 0 j ts" "length ts = 64"
    using assms(1) by (simp_all add: Inner j node_is_def)
  then have a: "adopt q e ns = ns(p := (ns p)\<lparr>rn_parent := q\<rparr>)"
    by (simp add: adopt_def)
  have "rep (adopt q e ns) p i j (rn_slots (ns p) ! i) (ts ! i)" if "i < 64" for i
  proof -
    have "p \<notin> set (ptrs (ts ! i))"
      using distinct_children(2) assms(2) that p(4) by (simp add: Inner)
    then have "rep (adopt q e ns) p i j (rn_slots (ns p) ! i) (ts ! i) \<longleftrightarrow> rep ns p i j (rn_slots (ns p) ! i) (ts ! i)"
      by (intro rep_cong) (auto simp: a)
    then show ?thesis
      using assms(1) that p(4) by (simp add: Inner j)
  qed
  moreover have "node_is (adopt q e ns p) q 0 j ts" "rn_slots (adopt q e ns p) = rn_slots (ns p)"
    using p(3) by (simp_all add: a node_is_def)
  ultimately show ?thesis
    using p by (simp add: Inner j)
qed (use assms in simp_all)

lemma contents_raised: "contents (Suc k) (Inner q (t # replicate 63 Empty)) = contents k t"
proof
  fix index :: ulong
  let ?i = "unat index"
  have "digit k ?i = 0 \<longleftrightarrow> ?i < 64 ^ k" if "?i < 64 ^ Suc k"
  proof -
    have "?i div 64 ^ k < 64"
      using that by (simp add: less_mult_imp_div_less)
    then show ?thesis
      by (simp add: digit_def div_eq_0_iff)
  qed
  moreover have "?i < 64 ^ k \<Longrightarrow> ?i < 64 ^ Suc k"
    by simp
  ultimately show "contents (Suc k) (Inner q (t # replicate 63 Empty)) index = contents k t index"
    using nth_replicate [of "digit k ?i - 1" 63 Empty] digit_less [of k ?i]
    by (auto simp: contents_def nth_Cons' less_diff_conv2 simp del: power_Suc nth_replicate)
qed

lemma raised_radix:
  assumes "radix m k t" "t \<noteq> Empty" "pool_ok m (ptrs t)" "pool m = q # ps" "k \<le> 10"
  defines "t' \<equiv> Inner q (t # replicate 63 Empty)"
  shows "radix (raised m k) (Suc k) t'" "pool_ok (raised m k) (ptrs t')" "contents (Suc k) t' = contents k t"
proof -
  let ?m = "raised m k"
  have rep: "rep (nodes m) 0 0 k (rnode m) t" "distinct (ptrs t)"
    using assms(1) by (simp_all add: radix_def)
  have q: "ptr_ok q" "blank (nodes m q)" "q \<notin> set (ptrs t)" "q \<notin> set ps" "distinct ps"
    using assms(3,4) by (auto simp: pool_ok_def)
  have m: "nodes ?m q = top_node (rnode m) k (nodes m q)" "rnode ?m = node_to_entry q" "pool ?m = ps"
    and other: "\<And>x. x \<noteq> q \<Longrightarrow> nodes ?m x = adopt q (rnode m) (nodes m) x"
    using assms(4) by (simp_all add: raised_def)
  have child: "rep (nodes ?m) q 0 k (rnode m) t"
    using rep_adopt [OF rep, of q] other q(3) by (subst rep_cong [of _ _ "adopt q (rnode m) (nodes m)"]) metis+
  have e: "exceptional_item t \<longleftrightarrow> radix_tree_exceptional_entry (rnode m)"
    using rep(1) by (cases t; cases k) auto
  have node: "node_is (nodes ?m q) 0 0 k (t # replicate 63 Empty)" and slots: "rn_slots (nodes ?m q) = rnode m # replicate 63 0"
    using q(2) assms(2) e
    by (auto simp: m(1) top_node_def fresh_node_def node_is_def blank_def filled_def exceptionals_def Let_def
        numeral_eq_Suc)
  have "rep (nodes ?m) q i k (rn_slots (nodes ?m q) ! i) ((t # replicate 63 Empty) ! i)" if "i < 64" for i
    using child that by (cases i) (simp_all add: slots)
  then have "rep (nodes ?m) 0 0 (Suc k) (rnode ?m) t'"
    using node q(1) m(2) unfolding t'_def rep.simps by simp
  moreover have p: "ptrs t' = q # ptrs t"
    by (simp add: t'_def)
  ultimately show "radix ?m (Suc k) t'"
    using rep(2) q(3) assms(1,5) by (simp add: radix_def t'_def raised_def is_idr_def root_tags_get_def Let_def)
  have "nodes ?m x = nodes m x" if "x \<in> set ps" for x
  proof -
    have "entry_to_node (rnode m) \<in> set (ptrs t)" if "radix_tree_is_internal_node (rnode m)"
      using rep_internal [OF rep(1)] rep(1) that by (cases k) auto
    then have "adopt q (rnode m) (nodes m) x = nodes m x"
      using that assms(3,4) by (auto simp: adopt_def pool_ok_def)
    then show ?thesis
      using other [of x] q(4) that by auto
  qed
  then show "pool_ok ?m (ptrs t')"
    using assms(3,4) q(4,5) unfolding pool_ok_def m(3) p by auto
  show "contents (Suc k) t' = contents k t"
    unfolding t'_def by (rule contents_raised)
qed

definition grows :: "radix_mem \<Rightarrow> nat \<Rightarrow> rtree \<Rightarrow> nat \<Rightarrow> (int \<times> radix_mem) option \<Rightarrow> bool" where
  "grows m k t n r \<longleftrightarrow> (\<exists>err m' k' t'. r = Some (err, m') \<and> radix m' k' t' \<and> t' \<noteq> Empty \<and>
     pool_ok m' (ptrs t') \<and> contents k' t' = contents k t \<and> freed m' = freed m \<and> k' \<le> Suc n \<and>
     length (pool m) \<le> length (pool m') + (Suc n - k) \<and>
     (err = int (6 * Suc n) \<and> k' = Suc n \<or> err = - RT_ENOMEM \<and> pool m' = []))"

lemma extend_loop_grows:
  "radix m k t \<Longrightarrow> t \<noteq> Empty \<Longrightarrow> pool_ok m (ptrs t) \<Longrightarrow> k \<le> n \<Longrightarrow> n \<le> 5 \<Longrightarrow>
   grows m k t n (extend_loop m (rnode m) (6 * k) (6 * n))"
proof (induction "Suc n - k" arbitrary: m k t)
  case (Suc d)
  have rep: "rep (nodes m) 0 0 k (rnode m) t" and flags: "\<not> is_idr m" "root_tags_get m = 0"
    using Suc.prems(1) by (simp_all add: radix_def)
  show ?case
  proof (cases "pool m")
    case Nil
    then show ?thesis
      using Suc.prems extend_fails [OF Suc.prems(3) Nil] le_SucI [OF Suc.prems(4)] le_add1 [of "length (pool m)"] unfolding grows_def by blast
  next
    case (Cons q ps)
    have "entry_to_node (rnode m) \<in> set (ptrs t)" if "radix_tree_is_internal_node (rnode m)"
      using rep_internal [OF rep] rep that by (cases k) auto
    then have step: "extend_loop m (rnode m) (6 * k) (6 * n) =
      (if 6 * Suc k \<le> 6 * n then extend_loop (raised m k) (rnode (raised m k)) (6 * Suc k) (6 * n)
       else Some (int (6 * n + 6), raised m k))"
      using Suc.prems Cons by (intro extend_step [OF _ Cons flags]) (auto simp: pool_ok_def)
    have k: "k \<le> 10"
      using Suc.prems by simp
    note up = raised_radix [OF Suc.prems(1-3) Cons k]
    have fr: "freed (raised m k) = freed m" "length (pool m) = Suc (length (pool (raised m k)))"
      by (simp_all add: raised_def Let_def Cons)
    show ?thesis
    proof (cases "Suc k \<le> n")
      case True
      then have "grows (raised m k) (Suc k) (Inner q (t # replicate 63 Empty)) n
          (extend_loop (raised m k) (rnode (raised m k)) (6 * Suc k) (6 * n))"
        using Suc.hyps Suc.prems(5) by (intro Suc.hyps(1) up) simp_all
      then show ?thesis
        using True up(3) fr unfolding step grows_def by fastforce
    next
      case False
      then have "k = n"
        using Suc.prems(4) by simp
      then show ?thesis
        using False up fr unfolding step grows_def by (auto simp del: ptrs.simps)
    qed
  qed
qed simp

text \<open>
  The rounds of the loop, one after the other, and a run of them that ends in the \<open>BUG_ON\<close>. The
  contents of the nodes from \<open>malloc\<close> play no role.
\<close>

inductive extend_rounds :: "nat \<Rightarrow> radix_mem \<Rightarrow> ulong \<Rightarrow> nat \<Rightarrow> radix_mem \<Rightarrow> ulong \<Rightarrow> nat \<Rightarrow> bool" for maxshift where
  here: "extend_rounds maxshift m e s m e s"
| next_round: "extend_round m e s = Extend_next m1 e1 \<Longrightarrow> s + RADIX_TREE_MAP_SHIFT \<le> maxshift \<Longrightarrow>
    extend_rounds maxshift m1 e1 (s + RADIX_TREE_MAP_SHIFT) m' e' s' \<Longrightarrow> extend_rounds maxshift m e s m' e' s'"

lemma extend_rounds_bug: "extend_rounds mx m e s m' e' s' \<Longrightarrow> extend_round m' e' s' = Extend_bug \<Longrightarrow> extend_loop m e s mx = None"
  by (induction rule: extend_rounds.induct) (subst extend_loop.simps, simp add: Let_def)+

lemma extend_reaches_bug:
  "\<not> is_idr m \<Longrightarrow> root_tags_get m = 0 \<Longrightarrow> distinct (pool m) \<Longrightarrow> \<forall>p\<in>set (pool m). ptr_ok p \<Longrightarrow>
   (radix_tree_is_internal_node (rnode m) \<longrightarrow> entry_to_node (rnode m) \<notin> set (pool m)) \<Longrightarrow>
   6 \<le> n \<Longrightarrow> 6 - k < length (pool m) \<Longrightarrow>
   \<exists>m' e' s'. extend_rounds (6 * n) m (rnode m) (6 * k) m' e' s' \<and> RT_BITS_PER_LONG < s' \<and> pool m' \<noteq> [] \<and> extend_round m' e' s' = Extend_bug"
proof (induction "6 - k" arbitrary: m k)
  case 0
  then obtain q ps where q: "pool m = q # ps"
    by (cases "pool m") auto
  moreover have "extend_round m (rnode m) (6 * k) = Extend_bug"
    by (rule extend_bug [OF _ q]) (use 0 q in \<open>auto simp: RT_BITS_PER_LONG_def\<close>)
  ultimately show ?case
    using 0 here [of "6 * n" m "rnode m" "6 * k"] by (intro exI conjI) (auto simp: RT_BITS_PER_LONG_def)
next
  case (Suc d)
  obtain q ps where q: "pool m = q # ps"
    using Suc.prems(7) by (cases "pool m") auto
  have k: "k \<le> 5"
    using Suc.hyps(2) by simp
  have round: "extend_round m (rnode m) (6 * k) = Extend_next (raised m k) (rnode (raised m k))"
    by (rule extend_round_raised [OF _ q Suc.prems(1,2) k]) (use Suc.prems(4,5) q in auto)
  have "ptr_ok q"
    using Suc.prems(4) q by simp
  then have "\<exists>m' e' s'. extend_rounds (6 * n) (raised m k) (rnode (raised m k)) (6 * Suc k) m' e' s' \<and>
      RT_BITS_PER_LONG < s' \<and> pool m' \<noteq> [] \<and> extend_round m' e' s' = Extend_bug"
    using Suc.hyps(2) Suc.prems q k
    by (intro Suc.hyps(1)) (auto simp: raised_def is_idr_def root_tags_get_def Let_def)
  moreover have "extend_rounds (6 * n) m (rnode m) (6 * k) m' e' s'"
    if "extend_rounds (6 * n) (raised m k) (rnode (raised m k)) (6 * Suc k) m' e' s'" for m' e' s'
    using next_round [OF round, of "6 * n" m' e' s'] that Suc.prems(6) k by (simp add: RADIX_TREE_MAP_SHIFT_def add.commute)
  ultimately show ?case
    by blast
qed

end
