(* ===== verification/Radix_Correct.thy ===== *)
theory Radix_Correct
  imports Radix_Insert
begin

text \<open>
  \<open>radix_tree_insert\<close> and \<open>radix_tree_lookup\<close> as a client sees them: a finite map from indices
  to items.
\<close>

section \<open>The slot of an index\<close>

definition created :: "radix_mem \<Rightarrow> nat \<Rightarrow> rtree \<Rightarrow> ulong \<Rightarrow> (int \<times> ulong \<times> rslot \<times> radix_mem) option \<Rightarrow> bool" where
  "created m k t index r \<longleftrightarrow> (\<exists>err n s m' k' t'. r = Some (err, n, s, m') \<and> radix m' k' t' \<and> pool_ok m' (ptrs t') \<and>
     contents k' t' = contents k t \<and> freed m' = freed m \<and> (unat index < 64 ^ 6 \<longrightarrow> k' \<le> max k 6) \<and>
     (err = 0 \<and> unat index < 64 ^ k' \<and> bottom k' (unat index) 0 Root_slot t' = Some (n, s) \<or>
      err = - RT_ENOMEM \<and> pool m' = [] \<and> contents k t index = 0))"

lemma create_path:
  assumes "radix m (Suc j) (Inner p ts)" "pool_ok m (ptrs (Inner p ts))" "unat index < 64 ^ Suc j"
  shows "created m (Suc j) (Inner p ts) index (create_loop m index 0 (6 * Suc j) (rnode m) 0 0 Root_slot)"
proof -
  have r: "rep (nodes m) 0 0 (Suc j) (rnode m) (Inner p ts)" "distinct (ptrs (Inner p ts))" "j \<le> 10"
    using assms(1) by (auto simp: radix_def)
  then have "rnode m = node_to_entry p"
    by simp
  then obtain t' where "create_post m 0 0 (Suc j) (rnode m) p (Inner p ts) (unat index) 0 Root_slot
      (create_loop m index 0 (6 * Suc j) (rnode m) 0 0 Root_slot) t'"
    using create_inner [OF r(1,2) assms(2) r(3), of index 0 Root_slot 0 0 Root_slot] by metis
  then obtain err n s m' us where r': "create_loop m index 0 (6 * Suc j) (rnode m) 0 0 Root_slot = Some (err, n, s, m')"
      "rep (nodes m') 0 0 (Suc j) (rnode m) t'" "distinct (ptrs t')" "t' = Inner p us" "pool_ok m' (ptrs t')"
      "grown m m' (set (ptrs (Inner p ts)))" "\<And>x. rget (Suc j) x t' = rget (Suc j) x (Inner p ts)"
      "err = 0 \<and> bottom (Suc j) (unat index) 0 Root_slot t' = Some (n, s) \<or>
       err = - RT_ENOMEM \<and> pool m' = [] \<and> rget (Suc j) (unat index) (Inner p ts) = 0"
    unfolding create_post_def by blast
  have "radix m' (Suc j) t'"
    using assms(1) r'(2-4,6) by (simp add: radix_def grown_def is_idr_def root_tags_get_def)
  moreover have "contents (Suc j) t' = contents (Suc j) (Inner p ts)"
    using r'(7) by (auto simp: contents_def fun_eq_iff)
  moreover have "freed m' = freed m"
    using r'(6) by (simp add: grown_def)
  moreover have "contents (Suc j) (Inner p ts) index = rget (Suc j) (unat index) (Inner p ts)"
    using assms(3) by (simp add: contents_def)
  ultimately show ?thesis
    using r'(1,5,8) assms(3) unfolding created_def by (metis max.cobounded1)
qed

lemma created_cong:
  "created m1 k1 t1 index r \<Longrightarrow> contents k1 t1 = contents k t \<Longrightarrow> freed m1 = freed m \<Longrightarrow>
   (unat index < 64 ^ 6 \<Longrightarrow> k1 \<le> max k 6) \<Longrightarrow> created m k t index r"
proof -
  assume c: "created m1 k1 t1 index r" "contents k1 t1 = contents k t" "freed m1 = freed m" "unat index < 64 ^ 6 \<Longrightarrow> k1 \<le> max k 6"
  have "l \<le> max k 6" if "unat index < 64 ^ 6" "unat index < 64 ^ 6 \<longrightarrow> l \<le> max k1 6" for l
    using that c(4) by (simp add: max_def split: if_splits)
  then show ?thesis
    using c(1) unfolding created_def c(2,3) by (elim exE conjE) (intro exI conjI; assumption | blast)
qed

lemma contents_empty [simp]: "contents k Empty = (\<lambda>_. 0)"
  by (auto simp: contents_def)

lemma contents_fresh [simp]: "contents (Suc j) (Inner q (replicate 64 Empty)) = (\<lambda>_. 0)"
  by (auto simp: contents_def)

text \<open>The first node of an empty tree.\<close>

lemma create_first:
  assumes "radix m 0 Empty" "pool_ok m []" "j \<le> 10" "unat index < 64 ^ Suc j" "unat index < 64 ^ 6 \<Longrightarrow> j \<le> 5"
  shows "created m 0 Empty index (create_loop m index 0 (6 * Suc j) 0 0 0 Root_slot)"
proof (cases "pool m")
  case Nil
  then show ?thesis
    unfolding create_fails [OF assms(2) Nil] created_def using assms(1,2)
    by (intro exI [of _ 0] exI [of _ Empty] exI conjI) (rule refl | simp)+
next
  case (Cons q ps)
  have q: "ptr_ok q" "q \<noteq> 0" "blank (nodes m q)" "q \<notin> set ps"
    using assms(2) Cons by (auto simp: pool_ok_def ptr_ok_def)
  define m1 where "m1 = m\<lparr>pool := ps, nodes := (nodes m)(q := fresh_node 0 (6 * j) 0 0 (nodes m q)), rnode := node_to_entry q\<rparr>"
  have "rep (nodes m1) 0 0 (Suc j) (node_to_entry q) (Inner q (replicate 64 Empty))"
    by (rule fresh_rep [of "nodes m q"]) (use q in \<open>simp_all add: m1_def\<close>)
  then have "radix m1 (Suc j) (Inner q (replicate 64 Empty))"
    using assms(1,3) by (simp add: radix_def m1_def is_idr_def root_tags_get_def)
  moreover have "pool_ok m1 (ptrs (Inner q (replicate 64 Empty)))"
    using assms(2) Cons q(4) by (auto simp: pool_ok_def m1_def)
  ultimately have "created m1 (Suc j) (Inner q (replicate 64 Empty)) index
      (create_loop m1 index 0 (6 * Suc j) (rnode m1) 0 0 Root_slot)"
    using assms(4) by (rule create_path)
  moreover have "create_loop m index 0 (6 * Suc j) 0 0 0 Root_slot = create_loop m1 index 0 (6 * Suc j) (rnode m1) 0 0 Root_slot"
    using q Cons alloc_cases [OF assms(2), of 0 "6 * j" 0 0]
    by (subst (1 2) create_loop.simps) (simp add: RADIX_TREE_MAP_SHIFT_def write_slot_def m1_def Let_def)
  ultimately show ?thesis
    using created_cong [of m1] assms(5) by (simp add: m1_def)
qed

lemma create_item:
  assumes "radix m 0 t" "pool_ok m (ptrs t)" "unat index = 0"
  shows "created m 0 t index (create_loop m index 0 0 e 0 0 Root_slot)"
  using assms unfolding created_def
  by (subst create_loop.simps) (simp, intro exI [of _ 0] exI [of _ t] conjI, auto)

section \<open>Insertion\<close>

lemma reach_levels:
  assumes "\<not> unat (index :: ulong) < 64 ^ k"
  shows "\<exists>n. find_maxshift index (6 * k) = 6 * n \<and> k \<le> n \<and> n \<le> 10 \<and> unat index < 64 ^ Suc n \<and> (n = k \<or> 64 ^ n \<le> unat index)"
proof -
  have "unat index < 2 ^ 64"
    using unsigned_less [of index, where ?'a = nat] by simp
  then have "(64 :: nat) ^ k < 64 ^ 11"
    using assms by simp
  then have "k \<le> 10"
    using power_less_imp_less_exp [of "64 :: nat" k 11] by simp
  then show ?thesis
    by (rule find_maxshift_levels)
qed

lemma create_correct:
  assumes r: "radix m k t" and pool: "pool_ok m (ptrs t)" and reach: "t = Empty \<or> unat index < 64 ^ 6 \<or> unat index < 64 ^ k"
  shows "created m k t index (radix_tree_create m index 0)"
proof -
  obtain mx where mx: "radix_tree_load_root m = (rnode m, mx, 6 * k)" "mx < index \<longleftrightarrow> 64 ^ k \<le> unat index"
    using load_root [OF r] by blast
  have rep: "rep (nodes m) 0 0 k (rnode m) t" and k: "k \<le> 11" "t = Empty \<longrightarrow> k = 0" and idr: "\<not> is_idr m"
    using r by (simp_all add: radix_def)
  show ?thesis
  proof (cases "unat index < 64 ^ k")
    case True
    then have eq: "radix_tree_create m index 0 = create_loop m index 0 (6 * k) (rnode m) 0 0 Root_slot"
      using mx by (simp add: radix_tree_create_def)
    show ?thesis
    proof (cases k)
      case 0
      then show ?thesis
        using eq create_item [of m t index] r pool True by simp
    next
      case (Suc j)
      then obtain p ts where "t = Inner p ts"
        using rep k(2) by (cases t) auto
      then show ?thesis
        unfolding eq Suc using create_path r pool True Suc by blast
    qed
  next
    case False
    obtain n where n: "find_maxshift index (6 * k) = 6 * n" "k \<le> n" "n \<le> 10" "unat index < 64 ^ Suc n"
        "n = k \<or> 64 ^ n \<le> unat index"
      using reach_levels [OF False] by blast
    have eq: "radix_tree_create m index 0 = (case radix_tree_extend m index (6 * k) of None \<Rightarrow> None
        | Some (error, m) \<Rightarrow> if error < 0 then Some (error, 0, Root_slot, m)
            else create_loop m index 0 (nat error) (rnode m) 0 0 Root_slot)"
      using mx False by (simp add: radix_tree_create_def)
    have n5: "n \<le> 5" if "unat index < 64 ^ 6"
    proof -
      have "(64 :: nat) ^ n < 64 ^ 6"
        using that False n(5) by auto
      then show ?thesis
        using power_less_imp_less_exp [of "64 :: nat" n 6] by simp
    qed
    show ?thesis
    proof (cases "t = Empty")
      case True
      then have "rnode m = 0" "k = 0"
        using rep k by simp_all
      then have "radix_tree_create m index 0 = create_loop m index 0 (6 * Suc n) 0 0 0 Root_slot"
        unfolding eq using n(1) idr by (simp add: radix_tree_extend_def RADIX_TREE_MAP_SHIFT_def nat_add_distrib nat_mult_distrib add.commute)
      then show ?thesis
        using create_first [OF _ _ n(3,4) n5, of m] r pool True \<open>k = 0\<close> by simp
    next
      case nonempty: False
      have n5: "n \<le> 5"
        using reach nonempty False n5 by blast
      have "rnode m \<noteq> 0"
        using rep_entry [OF rep] nonempty by simp
      then have "radix_tree_extend m index (6 * k) = extend_loop m (rnode m) (6 * k) (6 * n)"
        using n(1) by (simp add: radix_tree_extend_def)
      then obtain err m' k' t' where g: "radix_tree_extend m index (6 * k) = Some (err, m')" "radix m' k' t'" "t' \<noteq> Empty"
          "pool_ok m' (ptrs t')" "contents k' t' = contents k t" "freed m' = freed m" "k' \<le> Suc n"
          "err = int (6 * Suc n) \<and> k' = Suc n \<or> err = - RT_ENOMEM \<and> pool m' = []"
        using extend_loop_grows [OF r nonempty pool n(2) n5] unfolding grows_def by auto
      show ?thesis
      proof (cases "err < 0")
        case True
        moreover have "contents k t index = 0"
          using False by (simp add: contents_def)
        ultimately show ?thesis
          using g eq le_trans [OF g(7), of "max k 6"] n5 unfolding created_def
          by (intro exI [of _ err] exI [of _ 0] exI [of _ Root_slot] exI [of _ m'] exI [of _ k'] exI [of _ t']) auto
      next
        case pos: False
        then have err: "err = int (6 * Suc n)" "k' = Suc n"
          using g(8) by (auto simp: RT_ENOMEM_def)
        then obtain p ts where t': "t' = Inner p ts"
          using g(2,3) by (cases t') (auto simp: radix_def)
        have "radix_tree_create m index 0 = create_loop m' index 0 (6 * Suc n) (rnode m') 0 0 Root_slot"
          unfolding eq g(1) using pos err(1) by (simp add: nat_add_distrib nat_mult_distrib)
        moreover have "created m' (Suc n) t' index (create_loop m' index 0 (6 * Suc n) (rnode m') 0 0 Root_slot)"
          unfolding t' by (rule create_path) (use g(2,4) err(2) n(4) t' in blast)+
        ultimately show ?thesis
          using created_cong [of m' k' t' index _ k t m] g(5,6) err(2) n5 by simp
      qed
    qed
  qed
qed

text \<open>Writing an item into the slot where a path ends.\<close>

lemma contents_rput:
  assumes "rep ns par off k e t" "bottom k (unat index) par' s' t = Some b" "unat index < 64 ^ k"
  shows "contents k (rput k (unat index) x t) = (contents k t)(index := x)"
proof
  fix i :: ulong
  show "contents k (rput k (unat index) x t) i = ((contents k t)(index := x)) i"
    using rget_rput [OF assms(1,2), of "unat i" x] assms(3)
    by (auto simp: contents_def word_unat_eq_iff)
qed

lemma radix_store:
  assumes r: "radix m (Suc j) t" and b: "bottom (Suc j) (unat index) 0 Root_slot t = Some (n, s)" "unat index < 64 ^ Suc j"
    and x: "x = 0 \<or> item_ok x"
    and m': "m' = upd_node n (store_item (digit 0 (unat index)) x (contents (Suc j) t index)) m"
  shows "radix m' (Suc j) (rput (Suc j) (unat index) x t)" "ptrs (rput (Suc j) (unat index) x t) = ptrs t"
proof -
  have rep: "rep (nodes m) 0 0 (Suc j) (rnode m) t" "distinct (ptrs t)"
    using r by (simp_all add: radix_def)
  have "contents (Suc j) t index = rget (Suc j) (unat index) t"
    using b(2) by (simp add: contents_def)
  then have "rep (nodes m') 0 0 (Suc j) (rnode m) (rput (Suc j) (unat index) x t)"
      and p: "ptrs (rput (Suc j) (unat index) x t) = ptrs t"
    using rep_rput [OF rep b(1) _ x] m' by simp_all
  moreover have "rput (Suc j) (unat index) x t \<noteq> Empty"
    using b(1) by (cases t) auto
  ultimately show "radix m' (Suc j) (rput (Suc j) (unat index) x t)"
    using r rep(2) by (simp add: radix_def m' is_idr_def root_tags_get_def)
  show "ptrs (rput (Suc j) (unat index) x t) = ptrs t"
    by (rule p)
qed

lemma pool_ok_store: "pool_ok m used \<Longrightarrow> n \<in> set used \<Longrightarrow> pool_ok (upd_node n f m) used"
  by (auto simp: pool_ok_def)

lemma insert_entires_eq:
  assumes "s = Slot n d" "read_slot m s = 0" "n \<noteq> 0" "item_ok x"
  shows "insert_entires n s x m = (1, upd_node n (store_item d x 0) m)"
  using assms
  by (auto simp: insert_entires_def write_slot_def store_item_def item_ok_def Let_def)

definition inserted :: "nat \<Rightarrow> radix_mem \<Rightarrow> (ulong \<Rightarrow> ulong) \<Rightarrow> ulong \<Rightarrow> ulong \<Rightarrow> int \<Rightarrow> radix_mem \<Rightarrow> bool" where
  "inserted h m f index x r m' \<longleftrightarrow> freed m' = freed m \<and>
     (r = 0 \<and> f index = 0 \<and> holds h m' (f(index := x)) \<or>
      r = - RT_EEXIST \<and> f index \<noteq> 0 \<and> holds h m' f \<or>
      r = - RT_ENOMEM \<and> f index = 0 \<and> holds h m' f \<and> pool m' = [])"

lemma insert_at:
  assumes r: "radix m k t" and pool: "pool_ok m (ptrs t)" and i: "unat index < 64 ^ k" and x: "item_ok x"
    and b: "bottom k (unat index) 0 Root_slot t = Some (n, s)" and ie: "insert_entires n s x m = (err, m')"
  shows "(if contents k t index \<noteq> 0 then err = - RT_EEXIST \<and> m' = m
     else err = 1 \<and> holds k m' ((contents k t)(index := x)) \<and> freed m' = freed m \<and> pool m' = pool m \<and>
       (if n = 0 then root_tags_get m' = 0 else \<forall>tag<3. \<not> tag_get m' n tag (get_slot_offset n s)))"
proof (cases k)
  case 0
  have t: "t = (if rnode m = 0 then Empty else Item (rnode m))" and ns: "n = 0" "s = Root_slot"
    using r b 0 level_0 [of "nodes m" 0 0 "rnode m" t] by (simp_all add: radix_def)
  have c: "contents k t index = rnode m"
    using i t 0 by (simp add: contents_def)
  show ?thesis
  proof (cases "rnode m = 0")
    case True
    have m': "m' = m\<lparr>rnode := x\<rparr>" "err = 1"
      using ie ns True by (simp_all add: insert_entires_def read_slot_def write_slot_def)
    have "radix m' 0 (Item x)" "pool_ok m' (ptrs (Item x))"
      using r pool x 0 by (simp_all add: m' radix_def is_idr_def root_tags_get_def pool_ok_def)
    moreover have "contents 0 (Item x) = (contents k t)(index := x)"
      using t True i 0 by (auto simp: contents_def fun_eq_iff unsigned_eq_0_iff)
    ultimately have "holds k m' ((contents k t)(index := x))"
      using 0 by (intro holdsI [of _ 0]) simp_all
    then show ?thesis
      using c True m' r ns by (simp add: radix_def root_tags_get_def)
  next
    case False
    then show ?thesis
      using c ie ns by (auto simp: insert_entires_def read_slot_def)
  qed
next
  case (Suc j)
  have rep: "rep (nodes m) 0 0 (Suc j) (rnode m) t"
    using r Suc by (simp add: radix_def)
  have n: "n \<in> set (ptrs t)" "s = Slot n (digit 0 (unat index))"
    using bottom_node [OF rep b [unfolded Suc]] by simp_all
  have n0: "n \<noteq> 0" and tags: "rn_tags (nodes m n) = no_tags"
    using ptrs_ok [OF rep n(1)] node_of_rep [OF rep n(1)] by (simp_all add: ptr_ok_def)
  have rd: "read_slot m s = contents k t index"
    using read_bottom [OF rep b [unfolded Suc]] i Suc by (simp add: contents_def)
  show ?thesis
  proof (cases "contents k t index = 0")
    case True
    have m': "m' = upd_node n (store_item (digit 0 (unat index)) x (contents (Suc j) t index)) m" "err = 1"
      using insert_entires_eq [OF n(2) _ n0 x, of m] rd True ie Suc by simp_all
    note st = radix_store [OF r [unfolded Suc] b [unfolded Suc] i [unfolded Suc] _ m'(1)]
    have "radix m' (Suc j) (rput (Suc j) (unat index) x t)" "pool_ok m' (ptrs (rput (Suc j) (unat index) x t))"
      using st x pool_ok_store [OF pool n(1)] m'(1) by simp_all
    moreover have "contents (Suc j) (rput (Suc j) (unat index) x t) = (contents k t)(index := x)"
      using contents_rput [OF rep b [unfolded Suc] i [unfolded Suc]] Suc by simp
    ultimately have "holds k m' ((contents k t)(index := x))"
      using Suc by (intro holdsI [of _ "Suc j"]) simp_all
    moreover have "\<not> tag_get m' n tag (get_slot_offset n s)" if "tag < 3" for tag
      by (rule tag_get_none) (use m'(1) tags that n n0 in \<open>simp_all add: store_item_def get_slot_offset_def\<close>)
    ultimately show ?thesis
      using True m' n0 by simp
  next
    case False
    then show ?thesis
      using ie rd by (auto simp: insert_entires_def)
  qed
qed

lemma holds_mono: "holds h m f \<Longrightarrow> h \<le> h' \<Longrightarrow> holds h' m f"
  unfolding holds_def using le_trans by blast

lemma insert_correct:
  assumes r: "radix m k t" and pool: "pool_ok m (ptrs t)" and x: "item_ok x"
    and reach: "t = Empty \<or> unat index < 64 ^ 6 \<or> unat index < 64 ^ k" and h: "k \<le> h" "h = 11 \<or> 6 \<le> h \<and> unat index < 64 ^ 6"
  shows "\<exists>res m'. radix_tree_insert m index x = Some (res, m') \<and> inserted h m (contents k t) index x res m'"
proof -
  obtain err n s m1 k1 t1 where c: "radix_tree_create m index 0 = Some (err, n, s, m1)" "radix m1 k1 t1"
      "pool_ok m1 (ptrs t1)" "contents k1 t1 = contents k t" "freed m1 = freed m" "unat index < 64 ^ 6 \<longrightarrow> k1 \<le> max k 6"
      "err = 0 \<and> unat index < 64 ^ k1 \<and> bottom k1 (unat index) 0 Root_slot t1 = Some (n, s) \<or>
       err = - RT_ENOMEM \<and> pool m1 = [] \<and> contents k t index = 0"
    using create_correct [OF r pool reach] unfolding created_def by blast
  have k1: "k1 \<le> h"
    using h c(2,6) by (auto simp: radix_def)
  have rep1: "holds h m1 (contents k t)"
    by (rule holdsI [OF c(2,3) k1 c(4)])
  have x': "\<not> radix_tree_is_internal_node x"
    using x by (simp add: item_ok_def)
  show ?thesis
  proof (cases "err = 0")
    case True
    then have b: "unat index < 64 ^ k1" "bottom k1 (unat index) 0 Root_slot t1 = Some (n, s)"
      using c(7) by (auto simp: RT_ENOMEM_def)
    obtain err' m' where ie: "insert_entires n s x m1 = (err', m')"
      by (cases "insert_entires n s x m1")
    show ?thesis
      using insert_at [OF c(2,3) b(1) x b(2) ie] c(1,4,5) True rep1 x' holds_mono [OF _ k1]
      by (auto simp: radix_tree_insert_def raw_radix_tree_insert_def ie inserted_def RT_EEXIST_def split: if_splits)
  next
    case False
    then show ?thesis
      using c rep1 x' by (auto simp: radix_tree_insert_def raw_radix_tree_insert_def inserted_def)
  qed
qed

section \<open>Enough memory\<close>

text \<open>A level costs at most one node, and there are at most eleven levels to add and eleven to fill.\<close>

lemma alloc_pool: "radix_tree_node_alloc m par s off cnt exc = Some (q, m') \<Longrightarrow> length (pool m) \<le> Suc (length (pool m'))"
  by (auto simp: radix_tree_node_alloc_def Let_def split: list.splits if_splits)

lemma pool_write [simp]: "pool (write_slot s x m) = pool m"
  by (simp add: write_slot_def split: rslot.splits)

lemma create_loop_pool:
  "create_loop m index order sh child node off slot = Some (err, n, s, m') \<Longrightarrow>
   length (pool m) \<le> length (pool m') + (sh + 5) div 6"
proof (induction sh arbitrary: m child node off slot rule: less_induct)
  case (less sh)
  have down: "length (pool m1) \<le> length (pool m') + (sh + 5) div 6 - 1"
    if "create_loop m1 index order (sh - 6) c node off slot = Some (err, n, s, m')" "order < sh" for m1 c node off slot
  proof -
    have "Suc ((sh - 6 + 5) div 6) \<le> (sh + 5) div 6"
      using that(2) by (cases "6 \<le> sh") (auto simp: div_le_mono)
    then show ?thesis
      using less.IH [OF _ that(1)] that(2) by simp
  qed
  have "1 \<le> (sh + 5) div 6" if "order < sh"
    using that by simp
  moreover have "length (pool m) \<le> Suc (length (pool m1))" if "radix_tree_node_alloc m node (sh - 6) off 0 0 = Some (q, m1)" for q m1
    using alloc_pool [OF that] .
  ultimately show ?case
    using less.prems down
    by (subst (asm) create_loop.simps)
      (fastforce simp: RADIX_TREE_MAP_SHIFT_def Let_def split: if_splits option.splits prod.splits)
qed

lemma create_pool:
  assumes r: "radix m k t" and pool: "pool_ok m (ptrs t)" and reach: "t = Empty \<or> unat index < 64 ^ 6 \<or> unat index < 64 ^ k"
    and c: "radix_tree_create m index 0 = Some (err, n, s, m')"
  shows "length (pool m) \<le> length (pool m') + 22"
proof -
  obtain mx where mx: "radix_tree_load_root m = (rnode m, mx, 6 * k)" "mx < index \<longleftrightarrow> 64 ^ k \<le> unat index"
    using load_root [OF r] by blast
  have rep: "rep (nodes m) 0 0 k (rnode m) t" and k: "k \<le> 11" "t = Empty \<longrightarrow> k = 0" and idr: "\<not> is_idr m"
    using r by (simp_all add: radix_def)
  show ?thesis
  proof (cases "unat index < 64 ^ k")
    case True
    then have "create_loop m index 0 (6 * k) (rnode m) 0 0 Root_slot = Some (err, n, s, m')"
      using mx c by (simp add: radix_tree_create_def)
    then show ?thesis
      using create_loop_pool k(1) by fastforce
  next
    case False
    obtain l where l: "find_maxshift index (6 * k) = 6 * l" "k \<le> l" "l \<le> 10" "k \<noteq> l \<Longrightarrow> 64 ^ l \<le> unat index"
      using reach_levels [OF False] by blast
    obtain err1 m1 where e: "radix_tree_extend m index (6 * k) = Some (err1, m1)"
        "if err1 < 0 then m' = m1 else create_loop m1 index 0 (nat err1) (rnode m1) 0 0 Root_slot = Some (err, n, s, m')"
      using c mx False by (auto simp: radix_tree_create_def split: option.splits if_splits)
    have "length (pool m) \<le> length (pool m1) + 11 \<and> err1 \<le> 66"
    proof (cases "t = Empty")
      case True
      then show ?thesis
        using e(1) rep idr l(1,3) by (auto simp: radix_tree_extend_def RADIX_TREE_MAP_SHIFT_def)
    next
      case nonempty: False
      then have "unat index < 64 ^ 6"
        using reach False by blast
      then have "(64 :: nat) ^ l < 64 ^ 6"
        using l(4) False by (cases "k = l") auto
      then have "l \<le> 5"
        using power_less_imp_less_exp [of "64 :: nat" l 6] by simp
      moreover have "radix_tree_extend m index (6 * k) = extend_loop m (rnode m) (6 * k) (6 * l)"
        using l(1) rep_entry [OF rep] nonempty by (simp add: radix_tree_extend_def)
      ultimately show ?thesis
        using extend_loop_grows [OF r nonempty pool l(2)] e(1) by (auto simp: grows_def RT_ENOMEM_def)
    qed
    moreover have "length (pool m1) \<le> length (pool m') + 11" if "err1 \<le> 66"
    proof (cases "err1 < 0")
      case pos: False
      then have "(nat err1 + 5) div 6 \<le> 11"
        using that by simp
      then show ?thesis
        using create_loop_pool [of m1 index 0 "nat err1"] e(2) pos by fastforce
    qed (use e(2) in simp)
    ultimately show ?thesis
      by simp
  qed
qed

lemma insert_pool:
  assumes "radix m k t" "pool_ok m (ptrs t)" "t = Empty \<or> unat index < 64 ^ 6 \<or> unat index < 64 ^ k"
    and "radix_tree_insert m index x = Some (r, m')"
  shows "length (pool m) \<le> length (pool m') + 22"
proof -
  obtain err n s m1 where c: "radix_tree_create m index 0 = Some (err, n, s, m1)"
    using assms(4) by (auto simp: radix_tree_insert_def raw_radix_tree_insert_def split: if_splits option.splits)
  have "pool (snd (insert_entires n s x m1)) = pool m1"
    by (simp add: insert_entires_def Let_def)
  then have "pool m' = pool m1"
    using assms(4) c
    by (auto simp: radix_tree_insert_def raw_radix_tree_insert_def Let_def split: if_splits prod.splits)
  then show ?thesis
    using create_pool [OF assms(1-3) c] by simp
qed

end
