(* ===== verification/Radix_Delete.thy ===== *)
theory Radix_Delete
  imports Radix_Correct "HOL-Library.Multiset"
begin

text \<open>
  Correctness of \<open>radix_tree_delete\<close>: clearing the slot, freeing the nodes that became empty from
  the bottom upwards, and shrinking the tree at the root. Every node that leaves the tree is
  freed once.
\<close>

section \<open>Dropping an empty node\<close>

lemma mset_children:
  assumes "d < length ts"
  shows "mset (ptrs (Inner p (ts[d := u]))) + mset (ptrs (ts ! d)) = mset (ptrs (Inner p ts)) + mset (ptrs u)"
proof -
  have "ts = take d ts @ ts ! d # drop (Suc d) ts" "ts[d := u] = take d ts @ u # drop (Suc d) ts"
    using assms by (simp_all add: id_take_nth_drop upd_conv_take_nth_drop)
  then have "concat (map ptrs ts) = concat (map ptrs (take d ts)) @ ptrs (ts ! d) @ concat (map ptrs (drop (Suc d) ts))"
      "concat (map ptrs (ts[d := u])) = concat (map ptrs (take d ts)) @ ptrs u @ concat (map ptrs (drop (Suc d) ts))"
    by (metis concat.simps(2) concat_append list.simps(9) map_append)+
  then show ?thesis
    by (simp add: ac_simps)
qed

lemma no_children:
  assumes "node_is n par off j ts" "rn_count n = 0" "l < 64"
  shows "ts ! l = Empty"
proof -
  have len: "length ts = 64" and cnt: "(of_nat (filled ts) :: 8 word) = 0"
    using assms(1,2) by (simp_all add: node_is_def)
  have "filled ts \<le> 64"
    using length_filter_le [of "\<lambda>t. t \<noteq> Empty" ts] len by (simp add: filled_def)
  then have "unat (of_nat (filled ts) :: 8 word) = filled ts"
    unfolding unsigned_of_nat by (simp add: take_bit_nat_eq_self)
  then have "filled ts = 0"
    using cnt by simp
  then show ?thesis
    using assms(3) len by (auto simp: filled_def filter_empty_conv)
qed

lemma ptrs_none: "(\<And>l. l < length ts \<Longrightarrow> ts ! l = Empty) \<Longrightarrow> ptrs (Inner p ts) = [p]"
  by (auto simp: in_set_conv_nth)

lemma rget_none: "length ts = 64 \<Longrightarrow> (\<And>l. l < 64 \<Longrightarrow> ts ! l = Empty) \<Longrightarrow> rget k x (Inner p ts) = 0"
  by (cases k) simp_all

lemma drop_node:
  "rep ns par off k e t \<Longrightarrow> t = Inner r us \<Longrightarrow> distinct (ptrs t) \<Longrightarrow> p \<in> set (ptrs t) \<Longrightarrow> p \<noteq> r \<Longrightarrow> rn_count (ns p) = 0 \<Longrightarrow>
   \<exists>q d t'. rn_parent (ns p) = q \<and> rn_offset (ns p) = of_nat d \<and> d < 64 \<and> q \<in> set (ptrs t') \<and>
     rep (ns(q := store_item d 0 (node_to_entry p) (ns q))) par off k e t' \<and> (\<exists>vs. t' = Inner r vs) \<and>
     mset (ptrs t) = add_mset p (mset (ptrs t')) \<and> (\<forall>x. rget k x t' = rget k x t)"
proof (induction ns par off k e t arbitrary: r us rule: rep.induct)
  case (4 ns par off j e r' ts)
  then have [simp]: "r' = r" "us = ts"
    by simp_all
  have len: "length ts = 64" and node: "node_is (ns r) par off j ts"
    using "4.prems"(1) by (simp_all add: node_is_def)
  obtain l where l: "l < length ts" "p \<in> set (ptrs (ts ! l))"
    using "4.prems"(4,5) by (auto simp: in_set_conv_nth [of _ ts])
  then have l64: "l < 64"
    using len by simp
  have child: "rep ns r l j (rn_slots (ns r) ! l) (ts ! l)"
    using "4.prems"(1) l(1) by simp
  obtain r1 vs where c: "ts ! l = Inner r1 vs"
    using l(2) by (cases "ts ! l") auto
  note disj = distinct_children [OF "4.prems"(3) [simplified \<open>r' = r\<close>] l(1)]
  show ?case
  proof (cases "p = r1")
    case True
    obtain j' where j: "j = Suc j'"
      using child c by (cases j) auto
    have p: "ptr_ok p" "rn_slots (ns r) ! l = node_to_entry p" "node_is (ns p) r l j' vs"
      using child by (simp_all add: c j True)
    note none = no_children [OF p(3) "4.prems"(6)]
    have vs: "length vs = 64"
      using p(3) by (simp add: node_is_def)
    let ?ns = "ns(r := store_item l 0 (node_to_entry p) (ns r))"
    have slots: "rn_slots (?ns r) = (rn_slots (ns r))[l := 0]"
      by (simp add: store_item_def)
    have "node_is (?ns r) par off j (ts[l := Empty])"
      unfolding fun_upd_same by (rule node_is_update [OF node l64]) (use p c in simp_all)
    moreover have "rep ?ns r l j (rn_slots (?ns r) ! l) Empty"
      using slots node l64 by (simp add: node_is_def)
    moreover have "?ns q = ns q" if "i < 64" "i \<noteq> l" "q \<in> set (ptrs (ts ! i))" for i q
      using distinct_children(2) [OF "4.prems"(3) [simplified \<open>r' = r\<close>], of i] that len by auto
    ultimately have "rep ?ns par off (Suc j) e (Inner r (ts[l := Empty]))"
      by (intro rep_set_child [OF "4.prems"(1) [simplified \<open>r' = r\<close>] l64]) (use slots in simp_all)
    moreover have "mset (ptrs (Inner r ts)) = add_mset p (mset (ptrs (Inner r (ts[l := Empty]))))"
      using mset_children [OF l(1), of r Empty] ptrs_none [of vs p] none vs by (simp add: c True del: ptrs.simps(1))
    moreover have "rget (Suc j) x (Inner r (ts[l := Empty])) = rget (Suc j) x (Inner r ts)" for x
      using rget_none [OF vs none, of j x p] l(1) c True by (cases "digit j x = l") simp_all
    moreover have "rn_parent (ns p) = r" "rn_offset (ns p) = of_nat l" "r \<in> set (ptrs (Inner r (ts[l := Empty])))"
      using p(3) by (simp_all add: node_is_def)
    ultimately show ?thesis
      using l64 unfolding \<open>r' = r\<close> by blast
  next
    case False
    obtain q d u where u: "rn_parent (ns p) = q" "rn_offset (ns p) = of_nat d" "d < 64" "q \<in> set (ptrs u)"
        "rep (ns(q := store_item d 0 (node_to_entry p) (ns q))) r l j (rn_slots (ns r) ! l) u" "\<exists>ws. u = Inner r1 ws"
        "mset (ptrs (ts ! l)) = add_mset p (mset (ptrs u))" "\<forall>x. rget j x u = rget j x (ts ! l)"
      using "4.IH" [OF l(1)] child c disj(1) l(2) False "4.prems"(6) unfolding \<open>r' = r\<close> by metis
    let ?ns = "ns(q := store_item d 0 (node_to_entry p) (ns q))"
    have q: "q \<in> set (ptrs (ts ! l))"
      using u(4,7) by (metis insertI2 set_mset_add_mset_insert set_mset_mset)
    then have qr: "?ns r = ns r"
      using disj(2) by auto
    have "rep ?ns par off (Suc j) e (Inner r (ts[l := u]))"
    proof (rule rep_set_child [OF "4.prems"(1) [simplified \<open>r' = r\<close>] l64])
      show "node_is (?ns r) par off j (ts[l := u])"
        unfolding qr by (rule node_is_same [OF node l64]) (use u(6) c in auto)
      show "?ns x = ns x" if "i < 64" "i \<noteq> l" "x \<in> set (ptrs (ts ! i))" for i x
        using that q disj(3) [of i] len by auto
    qed (use qr u(5) in simp_all)
    moreover have "mset (ptrs (Inner r ts)) = add_mset p (mset (ptrs (Inner r (ts[l := u]))))"
      using mset_children [OF l(1), of r u] u(7) by (simp del: ptrs.simps(1))
    moreover have "rget (Suc j) x (Inner r (ts[l := u])) = rget (Suc j) x (Inner r ts)" for x
      using u(8) l(1) by (cases "digit j x = l") simp_all
    moreover have "q \<in> set (ptrs (Inner r (ts[l := u])))"
      using ptrs_child [of l "ts[l := u]" r] u(4) l(1) by (simp del: ptrs.simps(1)) blast
    ultimately show ?thesis
      using u(1-3) unfolding \<open>r' = r\<close> by blast
  qed
qed simp_all

section \<open>Shrinking at the root\<close>

text \<open>What deletion does to the whole tree: it frees nodes and leaves the contents alone.\<close>

definition pruned :: "radix_mem \<Rightarrow> nat \<Rightarrow> rtree \<Rightarrow> (bool \<times> radix_mem) option \<Rightarrow> bool" where
  "pruned m k t r \<longleftrightarrow> (\<exists>b m' k' t'. r = Some (b, m') \<and> radix m' k' t' \<and> pool_ok m' (ptrs t') \<and>
     contents k' t' = contents k t \<and> pool m' = pool m \<and> k' \<le> k \<and>
     mset (freed m') + mset (ptrs t') = mset (freed m) + mset (ptrs t))"

lemma pruned_refl: "radix m k t \<Longrightarrow> pool_ok m (ptrs t) \<Longrightarrow> pruned m k t (Some (b, m))"
  unfolding pruned_def using order_refl by blast

lemma pruned_step:
  assumes "pruned m1 k1 t1 r" "k1 \<le> k" "contents k1 t1 = contents k t" "pool m1 = pool m"
    and "mset (freed m1) + mset (ptrs t1) = mset (freed m) + mset (ptrs t)"
  shows "pruned m k t r"
  using assms unfolding pruned_def by (metis le_trans)

lemma only_child:
  assumes "node_is n par off j ts" "rn_count n = 1" "ts ! 0 \<noteq> Empty"
  shows "ts = ts ! 0 # replicate 63 Empty"
proof -
  have len: "length ts = 64" and cnt: "(of_nat (filled ts) :: 8 word) = 1"
    using assms(1,2) by (simp_all add: node_is_def)
  have "filled ts \<le> 64"
    using length_filter_le [of "\<lambda>t. t \<noteq> Empty" ts] len by (simp add: filled_def)
  then have "unat (of_nat (filled ts) :: 8 word) = filled ts"
    unfolding unsigned_of_nat by (simp add: take_bit_nat_eq_self)
  then have one: "filled ts = 1"
    using cnt by simp
  obtain us where us: "ts = ts ! 0 # us"
    using len by (cases ts) auto
  then have "filled ts = Suc (filled us)"
    using assms(3) by (metis (mono_tags, lifting) filled_def filter.simps(2) length_Cons)
  then have "filled us = 0"
    using one by simp
  then have "\<forall>u\<in>set us. u = Empty"
    by (simp add: filled_def filter_empty_conv)
  moreover have "length us = 63"
    using len by (subst (asm) us) simp
  ultimately have "us = replicate 63 Empty"
    by (simp add: replicate_eqI)
  then show ?thesis
    using us by simp
qed

text \<open>The memory after the root node was removed in favour of its only child.\<close>

definition lowered :: "radix_mem \<Rightarrow> ulong \<Rightarrow> radix_mem" where
  "lowered m p = (let c = rn_slots (nodes m p) ! 0;
       m = m\<lparr>nodes := adopt 0 c (nodes m), rnode := c\<rparr>;
       m = upd_node p (\<lambda>n. n\<lparr>rn_count := 0\<rparr>) m;
       m = (if radix_tree_is_internal_node c then m
            else upd_node p (\<lambda>n. n\<lparr>rn_slots := (rn_slots n)[0 := RADIX_TREE_RETRY]\<rparr>) m)
     in radix_tree_node_free p m)"

lemma root_node:
  assumes "radix m (Suc j) (Inner p ts)"
  shows "ptr_ok p" "rnode m = node_to_entry p" "node_is (nodes m p) 0 0 j ts" "length ts = 64" "j \<le> 10"
    "\<And>i. i < 64 \<Longrightarrow> rep (nodes m) p i j (rn_slots (nodes m p) ! i) (ts ! i)"
    "distinct (ptrs (Inner p ts))" "\<not> is_idr m" "root_tags_get m = 0"
  using assms by (auto simp: radix_def node_is_def)

lemma lowered_radix:
  assumes r: "radix m (Suc j) (Inner p ts)" and pool: "pool_ok m (ptrs (Inner p ts))"
    and one: "rn_count (nodes m p) = 1" and c: "rn_slots (nodes m p) ! 0 \<noteq> 0"
  shows "radix (lowered m p) j (ts ! 0)" "pool_ok (lowered m p) (ptrs (ts ! 0))"
    "contents j (ts ! 0) = contents (Suc j) (Inner p ts)" "pool (lowered m p) = pool m"
    "mset (freed (lowered m p)) + mset (ptrs (ts ! 0)) = mset (freed m) + mset (ptrs (Inner p ts))"
proof -
  note n = root_node [OF r]
  let ?c = "rn_slots (nodes m p) ! 0"
  have child: "rep (nodes m) p 0 j ?c (ts ! 0)"
    using n(6) by simp
  have t0: "ts ! 0 \<noteq> Empty"
    using rep_entry [OF child] c by simp
  have ts: "ts = ts ! 0 # replicate 63 Empty"
    by (rule only_child [OF n(3) one t0])
  have ptrs: "ptrs (Inner p ts) = p # ptrs (ts ! 0)"
    by (subst ts) simp
  then have p: "p \<notin> set (ptrs (ts ! 0))" "distinct (ptrs (ts ! 0))"
    using n(7) by simp_all
  have flds: "rnode (lowered m p) = ?c" "pool (lowered m p) = pool m" "freed (lowered m p) = p # freed m"
      "gfp_mask (lowered m p) = gfp_mask m" and other: "\<And>x. x \<noteq> p \<Longrightarrow> nodes (lowered m p) x = adopt 0 ?c (nodes m) x"
    by (auto simp: lowered_def radix_tree_node_free_def Let_def)
  have "rep (nodes (lowered m p)) 0 0 j ?c (ts ! 0)"
    using rep_adopt [OF child p(2), of 0] other p(1) by (subst rep_cong [of _ _ "adopt 0 ?c (nodes m)"]) metis+
  then show "radix (lowered m p) j (ts ! 0)"
    using p(2) n(5,8,9) t0 by (simp add: radix_def flds is_idr_def root_tags_get_def)
  have "entry_to_node ?c \<in> set (ptrs (ts ! 0))" if "radix_tree_is_internal_node ?c"
    using rep_internal [OF child] child that by (cases j) auto
  then have "nodes (lowered m p) x = nodes m x" if "x \<notin> set (ptrs (Inner p ts))" for x
    using that other [of x] unfolding ptrs by (auto simp: adopt_def)
  then show "pool_ok (lowered m p) (ptrs (ts ! 0))"
    using pool unfolding pool_ok_def flds(2) ptrs by (metis disjoint_iff list.set_intros(2))
  show "contents j (ts ! 0) = contents (Suc j) (Inner p ts)"
    by (subst (2) ts) (rule contents_raised [symmetric])
  show "pool (lowered m p) = pool m"
    by (rule flds)
  show "mset (freed (lowered m p)) + mset (ptrs (ts ! 0)) = mset (freed m) + mset (ptrs (Inner p ts))"
    unfolding ptrs flds by simp
qed

lemma shrink_step:
  assumes r: "radix m (Suc j) (Inner p ts)" and one: "rn_count (nodes m p) = 1" and c: "rn_slots (nodes m p) ! 0 \<noteq> 0"
  shows "shrink_loop None m b = shrink_loop None (lowered m p) True"
proof -
  note n = root_node [OF r]
  let ?c = "rn_slots (nodes m p) ! 0"
  have child: "rep (nodes m) p 0 j ?c (ts ! 0)"
    using n(6) by simp
  have lvl: "radix_tree_is_internal_node ?c \<or> rn_shift (nodes m p) = 0"
    using child c n(3) by (cases j; cases "ts ! 0") (auto simp: node_is_def)
  have e: "rnode m = node_to_entry p" "radix_tree_is_internal_node (node_to_entry p)" "entry_to_node (node_to_entry p) = p"
    using n(1,2) by simp_all
  have idr: "\<not> is_idr (m\<lparr>nodes := ns, rnode := x\<rparr>)" "\<not> is_idr (m\<lparr>rnode := x\<rparr>)" for ns x
    using n(8) by (simp_all add: is_idr_def)
  have cond: "(\<not> radix_tree_is_internal_node ?c \<and> rn_shift (nodes m p) \<noteq> 0) = False" "(rn_count (nodes m p) \<noteq> 1) = False"
      "(?c = 0) = False"
    using lvl one c by auto
  have same: "m\<lparr>nodes := nodes m\<rparr> = m"
    by simp
  show ?thesis
    unfolding shrink_loop.simps [of None m b] Let_def e cond lowered_def adopt_def
    by (cases "radix_tree_is_internal_node ?c") (simp_all only: e idr same if_True if_False simp_thms option.case)
qed

lemma shrink_correct:
  "radix m k t \<Longrightarrow> pool_ok m (ptrs t) \<Longrightarrow> pruned m k t (shrink_loop None m b)"
proof (induction k arbitrary: m t b)
  case 0
  then have "\<not> radix_tree_is_internal_node (rnode m)"
    using rep_internal [of "nodes m" 0 0 0 "rnode m" t] by (cases t) (auto simp: radix_def)
  then have "shrink_loop None m b = Some (b, m)"
    by (subst shrink_loop.simps) simp
  then show ?case
    using pruned_refl [OF 0] by simp
next
  case (Suc j)
  then obtain p ts where t: "t = Inner p ts"
    by (cases t) (auto simp: radix_def)
  note r = Suc.prems [unfolded t]
  show ?case
  proof (cases "rn_count (nodes m p) = 1 \<and> rn_slots (nodes m p) ! 0 \<noteq> 0")
    case True
    then have low: "radix (lowered m p) j (ts ! 0)" "pool_ok (lowered m p) (ptrs (ts ! 0))"
        "contents j (ts ! 0) = contents (Suc j) (Inner p ts)" "pool (lowered m p) = pool m"
        "mset (freed (lowered m p)) + mset (ptrs (ts ! 0)) = mset (freed m) + mset (ptrs (Inner p ts))"
      using lowered_radix [OF r] by blast+
    have "shrink_loop None m b = shrink_loop None (lowered m p) True"
      using shrink_step [OF r(1)] True by blast
    then show ?thesis
      unfolding t using pruned_step [OF Suc.IH [OF low(1,2)] le_SucI [OF order_refl] low(3-5)] by simp
  next
    case False
    then have "shrink_loop None m b = Some (b, m)"
      using root_node(1,2) [OF r(1)] by (subst shrink_loop.simps) auto
    then show ?thesis
      using pruned_refl [OF Suc.prems] by simp
  qed
qed

section \<open>Freeing the empty nodes\<close>

lemma pool_ok_free [simp]: "pool_ok (radix_tree_node_free p m) used \<longleftrightarrow> pool_ok m used"
  by (simp add: pool_ok_def radix_tree_node_free_def)

lemma pruned_bool: "pruned m k t r \<Longrightarrow> pruned m k t (map_option (\<lambda>(b, m). (f b, m)) r)"
  unfolding pruned_def by auto

lemma clear_all_flags: "\<not> is_idr m \<Longrightarrow> \<not> is_idr (root_tag_clear_all m)"
    "root_tags_get m = 0 \<Longrightarrow> root_tags_get (root_tag_clear_all m) = 0"
proof -
  assume "\<not> is_idr m"
  then have "gfp_mask m AND ROOT_IS_IDR = 0"
    by (simp add: is_idr_def)
  then have "(gfp_mask m AND x) AND ROOT_IS_IDR = 0" for x
    by (metis and.assoc and.commute and_zero_eq)
  then show "\<not> is_idr (root_tag_clear_all m)"
    by (simp add: is_idr_def root_tag_clear_all_def)
next
  assume "root_tags_get m = 0"
  then show "root_tags_get (root_tag_clear_all m) = 0"
    by (simp add: root_tags_get_def root_tag_clear_all_def drop_bit_and)
qed

lemma delete_root:
  assumes r: "radix m (Suc j) (Inner p ts)" and pool: "pool_ok m (ptrs (Inner p ts))" and z: "rn_count (nodes m p) = 0"
  shows "pruned m (Suc j) (Inner p ts) (delete_loop None m p b)"
proof -
  note n = root_node [OF r]
  note none = no_children [OF n(3) z]
  define m' where "m' = radix_tree_node_free p ((root_tag_clear_all m)\<lparr>rnode := 0\<rparr>)"
  have "rn_parent (nodes m p) = 0"
    using n(3) by (simp add: node_is_def)
  then have "delete_loop None m p b = Some (True, m')"
    using z n(8) by (subst delete_loop.simps) (simp add: m'_def Let_def)
  moreover have "radix m' 0 Empty" "pool_ok m' (ptrs Empty)"
    using clear_all_flags [of m] n(8,9) pool
    by (simp_all add: m'_def radix_def radix_tree_node_free_def is_idr_def root_tags_get_def root_tag_clear_all_def pool_ok_def)
  moreover have "contents 0 Empty = contents (Suc j) (Inner p ts)"
    using rget_none [OF n(4) none] by (auto simp: contents_def fun_eq_iff simp del: rget.simps(4))
  moreover have "ptrs (Inner p ts) = [p]" "pool m' = pool m" "freed m' = p # freed m"
    using ptrs_none [of ts p] none n(4) by (simp_all add: m'_def radix_tree_node_free_def root_tag_clear_all_def del: ptrs.simps(1))
  ultimately show ?thesis
    unfolding pruned_def by (intro exI [of _ True] exI [of _ m'] exI [of _ 0] exI [of _ Empty]) simp
qed

lemma delete_loop_correct:
  "radix m k t \<Longrightarrow> pool_ok m (ptrs t) \<Longrightarrow> p \<in> set (ptrs t) \<Longrightarrow> pruned m k t (delete_loop None m p b)"
proof (induction "length (ptrs t)" arbitrary: m t p b)
  case 0
  then show ?case
    by simp
next
  case (Suc len)
  then obtain r us where t: "t = Inner r us"
    by (cases t) auto
  then obtain j where k: "k = Suc j"
    using Suc.prems(1) by (cases k) (auto simp: radix_def)
  note n = root_node [OF Suc.prems(1) [unfolded t k]]
  have rep: "rep (nodes m) 0 0 k (rnode m) t" "distinct (ptrs t)"
    using Suc.prems(1) by (simp_all add: radix_def)
  show ?case
  proof (cases "rn_count (nodes m p) = 0")
    case False
    then show ?thesis
      using pruned_refl [OF Suc.prems(1,2)] pruned_bool [OF shrink_correct [OF Suc.prems(1,2)]]
      by (subst delete_loop.simps) (simp add: radix_tree_shrink_def)
  next
    case z: True
    show ?thesis
    proof (cases "p = r")
      case True
      then show ?thesis
        using delete_root Suc.prems(1,2) z unfolding t k by blast
    next
      case False
      obtain q d t' where d: "rn_parent (nodes m p) = q" "rn_offset (nodes m p) = of_nat d" "d < 64" "q \<in> set (ptrs t')"
          "rep ((nodes m)(q := store_item d 0 (node_to_entry p) (nodes m q))) 0 0 k (rnode m) t'" "\<exists>vs. t' = Inner r vs"
          "mset (ptrs t) = add_mset p (mset (ptrs t'))" "\<forall>x. rget k x t' = rget k x t"
        using drop_node [OF rep(1) t rep(2) Suc.prems(3) False z] by blast
      have q: "q \<noteq> 0" "ptr_ok p" and d': "unat (of_nat d :: 8 word) = d"
        using ptrs_ok [OF d(5,4)] ptrs_ok [OF rep(1) Suc.prems(3)] d(3) unfolding unsigned_of_nat
        by (simp_all add: ptr_ok_def take_bit_nat_eq_self)
      define m1 where "m1 = radix_tree_node_free p (upd_node q (store_item d 0 (node_to_entry p)) m)"
      have loop: "delete_loop None m p b = delete_loop None m1 q True"
        unfolding delete_loop.simps [of None m p b] using z q d(1,2) d' by (simp add: m1_def store_item_def Let_def)
      have dist: "distinct (p # ptrs t')"
        using mset_eq_imp_distinct_iff [of "ptrs t" "p # ptrs t'"] d(7) rep(2) by simp
      have "radix m1 k t'"
        using Suc.prems(1) d(5,6) dist t unfolding radix_def is_idr_def root_tags_get_def
        by (simp add: m1_def radix_tree_node_free_def) blast
      moreover have sub: "set (ptrs t') \<subseteq> set (ptrs t)"
        using d(7) by (metis set_mset_mset set_mset_add_mset_insert subset_insertI)
      then have "pool_ok m1 (ptrs t')"
        using pool_ok_mono [OF pool_ok_store [OF Suc.prems(2), of q] sub] d(4) unfolding m1_def pool_ok_free by blast
      moreover have "len = length (ptrs t')"
        using Suc.hyps(2) arg_cong [OF d(7), of size] by simp
      ultimately have "pruned m1 k t' (delete_loop None m1 q True)"
        using Suc.hyps(1) d(4) by blast
      then show ?thesis
        unfolding loop
        by (rule pruned_step) (use d(7,8) in \<open>simp_all add: m1_def radix_tree_node_free_def contents_def fun_eq_iff\<close>)
    qed
  qed
qed

section \<open>Deletion\<close>

lemma clear_tags_none:
  assumes "n = 0 \<Longrightarrow> root_tags_get m = 0" "n \<noteq> 0 \<Longrightarrow> rn_tags (nodes m n) = no_tags" "off < 64" "\<forall>tag\<in>set tags. tag < 3"
  shows "clear_tags tags m n off = Some m"
  using assms(4)
proof (induction tags)
  case (Cons tag tags)
  have "node_tag_clear m n tag off = Some m"
    using assms Cons.prems tag_get_none [of m n tag off] root_tag_none [of m tag]
    by (subst node_tag_clear.simps) simp
  then show ?case
    using Cons by simp
qed simp

lemma replace_slot_eq:
  assumes "n \<noteq> 0" "old \<noteq> 0"
  shows "replace_slot (Slot n d) 0 n (- 1) (if radix_tree_exceptional_entry old then - 1 else 0) m = upd_node n (store_item d 0 old) m"
proof -
  have "store_item d 0 old (nodes m n) = (nodes m n)\<lparr>rn_count := rn_count (nodes m n) - 1,
      rn_exceptional := rn_exceptional (nodes m n) - of_bool (radix_tree_exceptional_entry old),
      rn_slots := (rn_slots (nodes m n))[d := 0]\<rparr>"
    using assms by (cases "nodes m n") (simp add: store_item_def)
  then show ?thesis
    using assms by (simp add: replace_slot_def write_slot_def Let_def)
qed

lemma raw_delete_correct:
  assumes r: "radix m k t" and pool: "pool_ok m (ptrs t)" and i: "unat index < 64 ^ k" and x: "contents k t index \<noteq> 0"
    and b: "bottom k (unat index) 0 Root_slot t = Some (n, s)"
  shows "\<exists>b m' k' t'. raw_radix_tree_delete m n s = Some (b, m') \<and> radix m' k' t' \<and> pool_ok m' (ptrs t') \<and>
    contents k' t' = (contents k t)(index := 0) \<and> pool m' = pool m \<and> k' \<le> k \<and>
    mset (freed m') + mset (ptrs t') = mset (freed m) + mset (ptrs t)"
proof (cases k)
  case 0
  have t: "t = (if rnode m = 0 then Empty else Item (rnode m))" and ns: "n = 0" "s = Root_slot" and fl: "\<not> is_idr m" "root_tags_get m = 0"
    using r b 0 level_0 [of "nodes m" 0 0 "rnode m" t] by (simp_all add: radix_def)
  have "clear_tags [0..<RADIX_TREE_MAX_TAGS] m 0 0 = Some m"
    by (rule clear_tags_none) (use fl in \<open>auto simp: RADIX_TREE_MAX_TAGS_def\<close>)
  then have d: "raw_radix_tree_delete m n s = Some (False, m\<lparr>rnode := 0\<rparr>)"
    using ns fl by (simp add: raw_radix_tree_delete_def get_slot_offset_def replace_slot_def write_slot_def Let_def)
  have "radix (m\<lparr>rnode := 0\<rparr>) 0 Empty" "pool_ok (m\<lparr>rnode := 0\<rparr>) (ptrs Empty)" "ptrs t = []"
    using r pool t by (simp_all add: radix_def is_idr_def root_tags_get_def pool_ok_def)
  moreover have "contents 0 Empty = (contents k t)(index := 0)"
    using i 0 t by (auto simp: contents_def fun_eq_iff unsigned_eq_0_iff)
  ultimately show ?thesis
    unfolding d by (intro exI conjI) (rule refl | assumption | simp)+
next
  case (Suc j)
  have rep: "rep (nodes m) 0 0 (Suc j) (rnode m) t" and fl: "\<not> is_idr m"
    using r Suc by (simp_all add: radix_def)
  have n: "n \<in> set (ptrs t)" "s = Slot n (digit 0 (unat index))"
    using bottom_node [OF rep b [unfolded Suc]] by simp_all
  have n0: "n \<noteq> 0" and tags: "rn_tags (nodes m n) = no_tags"
    using ptrs_ok [OF rep n(1)] node_of_rep [OF rep n(1)] by (simp_all add: ptr_ok_def)
  have rd: "read_slot m s = contents k t index"
    using read_bottom [OF rep b [unfolded Suc]] i Suc by (simp add: contents_def)
  define m1 where "m1 = upd_node n (store_item (digit 0 (unat index)) 0 (contents (Suc j) t index)) m"
  let ?t = "rput (Suc j) (unat index) 0 t"
  note st = radix_store [OF r [unfolded Suc] b [unfolded Suc] i [unfolded Suc] _ m1_def]
  have m1: "radix m1 (Suc j) ?t" "pool_ok m1 (ptrs ?t)" "n \<in> set (ptrs ?t)" "mset (ptrs ?t) = mset (ptrs t)"
      "freed m1 = freed m" "pool m1 = pool m"
    using st pool_ok_store [OF pool n(1)] n(1) by (simp_all add: m1_def)
  have c: "contents (Suc j) ?t = (contents k t)(index := 0)"
    using contents_rput [OF rep b [unfolded Suc] i [unfolded Suc]] Suc by simp
  have "clear_tags [0..<RADIX_TREE_MAX_TAGS] m n (digit 0 (unat index)) = Some m"
    by (rule clear_tags_none) (use n0 tags in \<open>auto simp: RADIX_TREE_MAX_TAGS_def\<close>)
  then have "raw_radix_tree_delete m n s = delete_loop None m1 n False"
    using fl n0 x rd replace_slot_eq [OF n0 x, of "digit 0 (unat index)" m] unfolding n(2) m1_def Suc
    by (simp add: raw_radix_tree_delete_def get_slot_offset_def delete_node_def Let_def)
  then show ?thesis
    using delete_loop_correct [OF m1(1-3), of False] m1(4-6) c Suc unfolding pruned_def by simp
qed

lemma delete_correct:
  assumes r: "radix m k t" and pool: "pool_ok m (ptrs t)"
  shows "\<exists>m' k' t'. radix_tree_delete m index = Some (contents k t index, m') \<and> radix m' k' t' \<and> pool_ok m' (ptrs t') \<and>
    contents k' t' = (contents k t)(index := 0) \<and> pool m' = pool m \<and> k' \<le> k \<and>
    mset (freed m') + mset (ptrs t') = mset (freed m) + mset (ptrs t)"
proof (cases "contents k t index = 0")
  case True
  moreover have "\<not> is_idr m"
    using r by (simp add: radix_def)
  ultimately have "radix_tree_delete m index = Some (0, m)"
    using raw_lookup [OF r, of index]
    by (auto simp: radix_tree_delete_def radix_tree_delete_item_def split: if_splits)
  then show ?thesis
    using r pool True fun_upd_triv [of "contents k t" index] order_refl [of k] by metis
next
  case False
  then have i: "unat index < 64 ^ k"
    by (simp add: contents_def split: if_splits)
  then obtain n s where l: "raw_radix_tree_lookup m index = Some (Some (contents k t index, n, s))"
      "bottom k (unat index) 0 Root_slot t = Some (n, s)"
    using raw_lookup [OF r, of index] False by auto
  then show ?thesis
    using raw_delete_correct [OF r pool i False l(2)] False
    by (fastforce simp: radix_tree_delete_def radix_tree_delete_item_def)
qed

end
