(* ===== verification/Radix_Iter.thy ===== *)
theory Radix_Iter
  imports Radix_Tree
begin

text \<open>
  Iteration over a radix tree (\<open>radix.h\<close>, \<open>radix.c\<close>): \<open>radix_tree_next_chunk\<close> finds the next
  node with slots in use, \<open>radix_tree_next_slot\<close> the next slot in it, and
  \<open>radix_tree_for_each_slot\<close> alternates between them.

  A slot pointer that is moved behind the slots of its node, or behind the root, has no result,
  since the source reads through it at once.
\<close>

record radix_tree_iter =
  it_index :: ulong
  it_next_index :: ulong
  it_tags :: ulong
  it_node :: ulong

definition RADIX_TREE_ITER_TAG_MASK :: u32 where "RADIX_TREE_ITER_TAG_MASK = 0x0f"

definition RADIX_TREE_ITER_TAGGED :: u32 where "RADIX_TREE_ITER_TAGGED = 0x10"

definition RADIX_TREE_ITER_CONTIG :: u32 where "RADIX_TREE_ITER_CONTIG = 0x20"

definition iter_shift :: "radix_tree_iter \<Rightarrow> nat" where
  "iter_shift iter = 0"

definition radix_tree_iter_init :: "ulong \<Rightarrow> radix_tree_iter \<Rightarrow> radix_tree_iter" where
  "radix_tree_iter_init start iter = iter\<lparr>it_index := 0, it_next_index := start\<rparr>"

definition radix_tree_iter_add :: "radix_tree_iter \<Rightarrow> ulong \<Rightarrow> ulong" where
  "radix_tree_iter_add iter slots = it_index iter + push_bit (iter_shift iter) slots"

definition radix_tree_chunk_size :: "radix_tree_iter \<Rightarrow> int" where
  "radix_tree_chunk_size iter = sint (drop_bit (iter_shift iter) (it_next_index iter - it_index iter))"

text \<open>\<open>slot += n\<close>\<close>

definition slot_add :: "rslot \<Rightarrow> nat \<Rightarrow> rslot option" where
  "slot_add slot n = (case slot of
     Slot p i \<Rightarrow> if i + n < RADIX_TREE_MAP_SIZE then Some (Slot p (i + n)) else None
   | Root_slot \<Rightarrow> if n = 0 then Some Root_slot else None)"

text \<open>\<open>while (--count > 0)\<close>, with the number of rounds left.\<close>

primrec next_slot_loop :: "nat \<Rightarrow> radix_mem \<Rightarrow> u32 \<Rightarrow> rslot \<Rightarrow> radix_tree_iter \<Rightarrow> (rslot option \<times> radix_tree_iter) option"
where
  "next_slot_loop 0 m flags slot iter = Some (None, iter)"
| "next_slot_loop (Suc n) m flags slot iter =
     (case slot_add slot 1 of
        None \<Rightarrow> None
      | Some slot \<Rightarrow>
          let iter = iter\<lparr>it_index := radix_tree_iter_add iter 1\<rparr>
          in if read_slot m slot \<noteq> 0 then Some (Some slot, iter)
             else if flags AND RADIX_TREE_ITER_CONTIG \<noteq> 0 then Some (None, iter\<lparr>it_next_index := 0\<rparr>)
             else next_slot_loop n m flags slot iter)"

text \<open>\<open>iter->tags >> 1;\<close> is a statement without effect.\<close>

definition radix_tree_next_slot ::
  "radix_mem \<Rightarrow> rslot \<Rightarrow> radix_tree_iter \<Rightarrow> u32 \<Rightarrow> (rslot option \<times> radix_tree_iter) option"
where
  "radix_tree_next_slot m slot iter flags =
     (if flags AND RADIX_TREE_ITER_TAGGED \<noteq> 0
      then if it_tags iter = 0 then Some (None, iter)
           else if it_tags iter AND 1 \<noteq> 0
           then map_option (\<lambda>s. (Some s, iter\<lparr>it_index := radix_tree_iter_add iter 1\<rparr>)) (slot_add slot 1)
           else if flags AND RADIX_TREE_ITER_CONTIG = 0
           then let off = raw_ffs (it_tags iter);
                    iter = iter\<lparr>it_tags := drop_bit off (it_tags iter)\<rparr>;
                    iter = iter\<lparr>it_index := radix_tree_iter_add iter (of_nat (off + 1))\<rparr>
                in map_option (\<lambda>s. (Some s, iter)) (slot_add slot (off + 1))
           else Some (None, iter)
      else next_slot_loop (nat (radix_tree_chunk_size iter - 1)) m flags slot iter)"

text \<open>
  The loop over the remaining longs does not advance \<open>offset\<close>: it only ends at a long that is not
  zero, and reads behind the array when the next one is zero.
\<close>

definition radix_tree_find_next_bit :: "radix_mem \<Rightarrow> ulong \<Rightarrow> nat \<Rightarrow> nat \<Rightarrow> nat option" where
  "radix_tree_find_next_bit m node tag off =
     (let addr = rn_tags (nodes m node) ! tag
      in if off < RADIX_TREE_MAP_SIZE
         then let a = off div RT_BITS_PER_LONG;
                  tmp = drop_bit (off mod RT_BITS_PER_LONG) (addr ! a)
              in if tmp \<noteq> 0 then Some (raw_ffs tmp + off)
                 else let off = (off + RT_BITS_PER_LONG) div RT_BITS_PER_LONG * RT_BITS_PER_LONG
                      in if off < RADIX_TREE_MAP_SIZE
                         then let tmp = addr ! (a + 1)
                              in if tmp \<noteq> 0 then Some (raw_ffs tmp + off) else None
                         else Some RADIX_TREE_MAP_SIZE
         else Some RADIX_TREE_MAP_SIZE)"

definition set_iter_tags :: "radix_mem \<Rightarrow> radix_tree_iter \<Rightarrow> ulong \<Rightarrow> nat \<Rightarrow> nat \<Rightarrow> radix_tree_iter" where
  "set_iter_tags m iter node off tag =
     (let tag_long = off div RT_BITS_PER_LONG;
          tag_bit = off mod RT_BITS_PER_LONG;
          addr = rn_tags (nodes m node) ! tag
      in if node = 0 then iter\<lparr>it_tags := 1\<rparr>
         else let iter = iter\<lparr>it_tags := drop_bit tag_bit (addr ! tag_long)\<rparr>
              in if tag_long < RADIX_TREE_TAG_LONGS - 1
                 then let iter = (if tag_bit \<noteq> 0
                            then iter\<lparr>it_tags := it_tags iter OR push_bit (RT_BITS_PER_LONG - tag_bit) (addr ! (tag_long + 1))\<rparr>
                            else iter)
                      in iter\<lparr>it_next_index := radix_tree_iter_add iter (of_nat RT_BITS_PER_LONG)\<rparr>
                 else iter)"

text \<open>\<open>while (++offset < RADIX_TREE_MAP_SIZE)\<close>: the first slot in use from \<open>off\<close> on.\<close>

function next_used :: "ulong list \<Rightarrow> nat \<Rightarrow> nat" where
  "next_used slots off =
     (if off < RADIX_TREE_MAP_SIZE then if slots ! off \<noteq> 0 then off else next_used slots (off + 1) else off)"
  by auto
termination by (relation "measure (\<lambda>(_, off). RADIX_TREE_MAP_SIZE - off)") auto

declare next_used.simps [simp del]

text \<open>
  The label \<open>restart\<close>: the root is read again, and either the search is over (\<open>Inl\<close>) or it goes on
  at the root node (\<open>Inr\<close>).
\<close>

definition chunk_restart ::
  "radix_mem \<Rightarrow> radix_tree_iter \<Rightarrow> ulong \<Rightarrow> (rslot option \<times> radix_tree_iter) + ulong"
where
  "chunk_restart m iter index =
     (let (child, maxindex, _) = radix_tree_load_root m
      in if maxindex < index then Inl (None, iter)
         else if child = 0 then Inl (None, iter)
         else if \<not> radix_tree_is_internal_node child
         then Inl (Some Root_slot, iter\<lparr>it_index := index, it_next_index := maxindex + 1, it_tags := 1, it_node := 0\<rparr>)
         else Inr child)"

definition chunk_found ::
  "radix_mem \<Rightarrow> radix_tree_iter \<Rightarrow> u32 \<Rightarrow> ulong \<Rightarrow> ulong \<Rightarrow> nat \<Rightarrow> rslot option \<times> radix_tree_iter"
where
  "chunk_found m iter flags index node off =
     (let iter = iter\<lparr>it_index := (index AND NOT (node_maxindex m node)) OR push_bit (unat (rn_shift (nodes m node))) (of_nat off),
            it_next_index := (index OR node_maxindex m node) + 1, it_node := node\<rparr>;
          iter = (if flags AND RADIX_TREE_ITER_TAGGED \<noteq> 0
                  then set_iter_tags m iter node off (unat (flags AND RADIX_TREE_ITER_TAG_MASK)) else iter)
      in (Some (Slot node off), iter))"

text \<open>
  The body of the loop up to its end: the child to look at, with the index and the offset moved
  past a hole (\<open>Inr\<close>), or the reason to leave: no more chunk (\<open>Inl None\<close>), or a restart.
\<close>

definition chunk_skip ::
  "radix_mem \<Rightarrow> u32 \<Rightarrow> ulong \<Rightarrow> ulong \<Rightarrow> (ulong option + (ulong \<times> nat \<times> ulong)) option"
where
  "chunk_skip m flags index node =
     (let tag = unat (flags AND RADIX_TREE_ITER_TAG_MASK);
          tagged = (flags AND RADIX_TREE_ITER_TAGGED \<noteq> 0);
          (child, off) = radix_tree_descend m node index
      in if (if tagged then \<not> tag_get m node tag off else child = 0)
         then if flags AND RADIX_TREE_ITER_CONTIG \<noteq> 0 then Some (Inl None)
              else case (if tagged then radix_tree_find_next_bit m node tag (off + 1)
                         else Some (next_used (rn_slots (nodes m node)) (off + 1))) of
                     None \<Rightarrow> None
                   | Some off \<Rightarrow>
                       let index = (index AND NOT (node_maxindex m node)) + push_bit (unat (rn_shift (nodes m node))) (of_nat off)
                       in if index = 0 then Some (Inl None)
                          else if off = RADIX_TREE_MAP_SIZE then Some (Inl (Some index))
                          else let child = rn_slots (nodes m node) ! off
                               in if child = 0 then Some (Inl (Some index)) else Some (Inr (index, off, child))
         else if child = 0 then Some (Inl (Some index)) else Some (Inr (index, off, child)))"

partial_function (option) chunk_loop ::
  "radix_mem \<Rightarrow> radix_tree_iter \<Rightarrow> u32 \<Rightarrow> ulong \<Rightarrow> ulong \<Rightarrow> (rslot option \<times> radix_tree_iter) option"
where
  "chunk_loop m iter flags index child =
     (let node = entry_to_node child
      in case chunk_skip m flags index node of
           None \<Rightarrow> None
         | Some (Inl None) \<Rightarrow> Some (None, iter)
         | Some (Inl (Some index)) \<Rightarrow>
             (case chunk_restart m iter index of Inl r \<Rightarrow> Some r | Inr child \<Rightarrow> chunk_loop m iter flags index child)
         | Some (Inr (index, off, child)) \<Rightarrow>
             if child = RADIX_TREE_RETRY \<or> \<not> radix_tree_is_internal_node child
             then Some (chunk_found m iter flags index node off)
             else chunk_loop m iter flags index child)"

definition radix_tree_next_chunk ::
  "radix_mem \<Rightarrow> radix_tree_iter \<Rightarrow> u32 \<Rightarrow> (rslot option \<times> radix_tree_iter) option"
where
  "radix_tree_next_chunk m iter flags =
     (let tag = unat (flags AND RADIX_TREE_ITER_TAG_MASK);
          index = it_next_index iter
      in if flags AND RADIX_TREE_ITER_TAGGED \<noteq> 0 \<and> \<not> root_tag_get m tag then Some (None, iter)
         else if index = 0 \<and> it_index iter \<noteq> 0 then Some (None, iter)
         else case chunk_restart m iter index of Inl r \<Rightarrow> Some r | Inr child \<Rightarrow> chunk_loop m iter flags index child)"

text \<open>\<open>radix_tree_for_each_slot\<close>: the index and the item of every slot it visits.\<close>

partial_function (option) for_each_from ::
  "radix_mem \<Rightarrow> rslot option \<Rightarrow> radix_tree_iter \<Rightarrow> (ulong \<times> ulong) list option"
where
  "for_each_from m slot iter =
     (case (case slot of Some s \<Rightarrow> Some (slot, iter) | None \<Rightarrow> radix_tree_next_chunk m iter 0) of
        None \<Rightarrow> None
      | Some (None, iter) \<Rightarrow> Some []
      | Some (Some s, iter) \<Rightarrow>
          (case radix_tree_next_slot m s iter 0 of
             None \<Rightarrow> None
           | Some (slot, iter') \<Rightarrow>
               Option.bind (for_each_from m slot iter') (\<lambda>r. Some ((it_index iter, read_slot m s) # r))))"

definition radix_tree_for_each_slot :: "radix_mem \<Rightarrow> radix_tree_iter \<Rightarrow> ulong \<Rightarrow> (ulong \<times> ulong) list option" where
  "radix_tree_for_each_slot m iter start = for_each_from m None (radix_tree_iter_init start iter)"

end
