(* ===== verification/Radix_Visit.thy ===== *)
theory Radix_Visit
  imports Radix_Shape Radix_Iter
begin

text \<open>
  \<open>radix_tree_for_each_slot\<close> visits the items of a tree in the order of their indices. The
  lemmas are about trees of height at most 10, which hold the indices below \<open>2 ^ 60\<close>.
\<close>

section \<open>Indices as words\<close>

abbreviation low :: "nat \<Rightarrow> nat \<Rightarrow> nat" where
  "low n i \<equiv> i - i mod n"

lemma shift_maxindex_mask: "j \<le> 9 \<Longrightarrow> shift_maxindex (6 * j) = mask (6 * j + 6)"
  by (simp add: shift_maxindex_def RADIX_TREE_MAP_SIZE_def RADIX_TREE_MAP_SHIFT_def push_bit_eq_mult
      mask_eq_exp_minus_1 power_add mult.commute)

lemma unat_and_not_mask: "unat ((w :: ulong) AND NOT (mask n)) = low (2 ^ n) (unat w)"
proof -
  have "(w AND NOT (mask n)) + take_bit n w = (w AND NOT (mask n)) OR take_bit n w"
    by (rule disjunctive_add_eq_or) (rule bit_eqI, auto simp: bit_and_iff bit_not_iff bit_mask_iff bit_take_bit_iff)
  also have "\<dots> = w"
    by (rule bit_eqI) (auto simp: bit_or_iff bit_and_iff bit_not_iff bit_mask_iff bit_take_bit_iff)
  finally have "w AND NOT (mask n) = w - take_bit n w"
    by (simp add: algebra_simps)
  moreover have "unat (take_bit n w) = unat w mod 2 ^ n"
    unfolding unsigned_take_bit_eq by (rule take_bit_eq_mod)
  moreover from this have "take_bit n w \<le> w"
    by (simp only: word_le_nat_alt mod_less_eq_dividend)
  ultimately show ?thesis
    by (simp add: unat_sub)
qed

lemma or_mask_plus_1: "((w :: ulong) OR mask n) + 1 = (w AND NOT (mask n)) + 2 ^ n"
proof -
  have "w OR mask n = (w AND NOT (mask n)) OR mask n"
    by (rule bit_eqI) (auto simp: bit_or_iff bit_and_iff bit_not_iff)
  also have "\<dots> = (w AND NOT (mask n)) + mask n"
    by (rule disjunctive_add_eq_or [symmetric]) (rule bit_eqI, auto simp: bit_and_iff bit_not_iff)
  finally show ?thesis
    by (simp add: mask_eq_exp_minus_1)
qed

lemma of_nat_of_unat: "of_nat (unat (w :: ulong)) = w"
  by simp

lemma unat_of_small: "n < 2 ^ 64 \<Longrightarrow> unat (of_nat n :: ulong) = n"
  unfolding unsigned_of_nat by (simp add: take_bit_nat_eq_self)

lemma hole_index:
  assumes "j \<le> 9" "low (64 ^ Suc j) (unat index) + d * 64 ^ j < 2 ^ 64"
  shows "(index AND NOT (shift_maxindex (6 * j))) + push_bit (6 * j) (of_nat d) =
    of_nat (low (64 ^ Suc j) (unat index) + d * 64 ^ j)"
proof -
  have "unat (index AND NOT (shift_maxindex (6 * j))) = low (64 ^ Suc j) (unat index)"
  proof -
    have "(64 :: nat) ^ Suc j = 2 ^ (6 * j + 6)"
      by (simp add: power_64 power_add)
    then show ?thesis
      unfolding shift_maxindex_mask [OF assms(1)] unat_and_not_mask by (simp only:)
  qed
  then have "index AND NOT (shift_maxindex (6 * j)) = of_nat (low (64 ^ Suc j) (unat index))"
    by (rule trans [OF of_nat_of_unat [symmetric] arg_cong [where f = of_nat]])
  moreover have "push_bit (6 * j) (of_nat d :: ulong) = of_nat (d * 64 ^ j)"
    by (simp add: push_bit_eq_mult power_mult)
  ultimately show ?thesis
    by (simp only: of_nat_add)
qed

lemma leaf_index: "(index AND NOT (shift_maxindex 0)) OR of_nat (digit 0 (unat index)) = index"
    "(index OR shift_maxindex 0) + 1 = of_nat (low 64 (unat index) + 64)"
proof -
  have m: "shift_maxindex 0 = mask 6"
    using shift_maxindex_mask [of 0] by simp
  have "of_nat (digit 0 (unat index)) = take_bit 6 index"
  proof -
    have "digit 0 (unat index) = unat (take_bit 6 index)"
      unfolding unsigned_take_bit_eq by (simp add: digit_def take_bit_eq_mod)
    then show ?thesis
      by simp
  qed
  then show "(index AND NOT (shift_maxindex 0)) OR of_nat (digit 0 (unat index)) = index"
    unfolding m by (auto intro!: bit_eqI simp: bit_or_iff bit_and_iff bit_not_iff bit_mask_iff bit_take_bit_iff)
  have "index AND NOT (mask 6) = of_nat (low 64 (unat index))"
    using unat_and_not_mask [of index 6] of_nat_of_unat [of "index AND NOT (mask 6)"] by simp
  then show "(index OR shift_maxindex 0) + 1 = of_nat (low 64 (unat index) + 64)"
    unfolding m or_mask_plus_1 by simp
qed

lemma digit_block:
  assumes "l = b * 64 ^ Suc j + r" "r < 64 ^ Suc j"
  shows "l div 64 ^ Suc j = b" "digit j l = r div 64 ^ j"
proof -
  show "l div 64 ^ Suc j = b"
    using assms by (simp del: power_Suc)
  have "l div 64 ^ j = b * 64 + r div 64 ^ j"
  proof -
    have "l = r + (b * 64) * 64 ^ j"
      using assms(1) by simp
    then show ?thesis
      by (simp only: div_mult_self1 power_not_zero) simp
  qed
  moreover have "r div 64 ^ j < 64"
    using assms(2) by (simp add: less_mult_imp_div_less)
  ultimately show "digit j l = r div 64 ^ j"
    by (simp add: digit_def)
qed

lemma next_used_spec:
  assumes "d \<le> 64"
  shows "d \<le> next_used slots d" "next_used slots d \<le> 64"
    "\<And>l. d \<le> l \<Longrightarrow> l < next_used slots d \<Longrightarrow> slots ! l = 0"
    "next_used slots d < 64 \<Longrightarrow> slots ! next_used slots d \<noteq> 0"
proof -
  have "d \<le> 64 \<Longrightarrow> d \<le> next_used slots d \<and> next_used slots d \<le> 64 \<and>
      (\<forall>l. d \<le> l \<longrightarrow> l < next_used slots d \<longrightarrow> slots ! l = 0) \<and>
      (next_used slots d < 64 \<longrightarrow> slots ! next_used slots d \<noteq> 0)"
  proof (induction "64 - d" arbitrary: d)
    case 0
    then have d: "d = 64"
      by simp
    have "next_used slots 64 = 64"
      by (subst next_used.simps) (simp add: RADIX_TREE_MAP_SIZE_def RADIX_TREE_MAP_SHIFT_def)
    then show ?case
      by (simp add: d)
  next
    case (Suc x)
    then have d: "d < 64"
      by simp
    show ?case
    proof (cases "slots ! d = 0")
      case True
      then have step: "next_used slots d = next_used slots (Suc d)"
        using d by (subst next_used.simps) (simp add: RADIX_TREE_MAP_SIZE_def RADIX_TREE_MAP_SHIFT_def)
      have "x = 64 - Suc d" "Suc d \<le> 64"
        using Suc.hyps(2) d by simp_all
      note IH = Suc.hyps(1) [OF this]
      have "slots ! l = 0" if "d \<le> l" "l < next_used slots (Suc d)" for l
        using that True IH by (cases "l = d") simp_all
      then show ?thesis
        unfolding step using IH Suc_leD by blast
    next
      case False
      then have "next_used slots d = d"
        using d by (subst next_used.simps) (simp add: RADIX_TREE_MAP_SIZE_def RADIX_TREE_MAP_SHIFT_def)
      then show ?thesis
        using False d by simp
    qed
  qed
  then show "d \<le> next_used slots d" "next_used slots d \<le> 64"
    "\<And>l. d \<le> l \<Longrightarrow> l < next_used slots d \<Longrightarrow> slots ! l = 0"
    "next_used slots d < 64 \<Longrightarrow> slots ! next_used slots d \<noteq> 0"
    using assms by blast+
qed

section \<open>The next chunk\<close>

definition item_at :: "nat \<Rightarrow> rtree \<Rightarrow> nat \<Rightarrow> ulong" where
  "item_at k t i = (if i < 64 ^ k then rget k i t else 0)"

definition iter_at :: "radix_tree_iter \<Rightarrow> nat \<Rightarrow> ulong \<Rightarrow> radix_tree_iter" where
  "iter_at iter i q = iter\<lparr>it_index := of_nat i, it_next_index := of_nat (low 64 i + 64), it_node := q\<rparr>"

text \<open>The node \<open>q\<close> holds the 64 items around index \<open>i\<close>.\<close>

definition leaf :: "radix_mem \<Rightarrow> nat \<Rightarrow> rtree \<Rightarrow> nat \<Rightarrow> ulong \<Rightarrow> bool" where
  "leaf m k t i q \<longleftrightarrow> (\<forall>l<64. rn_slots (nodes m q) ! l = item_at k t (low 64 i + l))"

text \<open>The result of a search from index \<open>i\<close> on: the first item, or none.\<close>

definition chunk_ok :: "radix_mem \<Rightarrow> radix_tree_iter \<Rightarrow> nat \<Rightarrow> rtree \<Rightarrow> nat \<Rightarrow> (rslot option \<times> radix_tree_iter) option \<Rightarrow> bool"
where
  "chunk_ok m iter k t i r \<longleftrightarrow>
     (\<forall>l\<ge>i. item_at k t l = 0) \<and> r = Some (None, iter) \<or>
     (\<exists>i' q. i \<le> i' \<and> item_at k t i' \<noteq> 0 \<and> (\<forall>l. i \<le> l \<longrightarrow> l < i' \<longrightarrow> item_at k t l = 0) \<and> leaf m k t i' q \<and>
       r = Some (Some (Slot q (i' mod 64)), iter_at iter i' q))"

lemma chunk_ok_skip:
  assumes "chunk_ok m iter k t i' r" "i \<le> i'" "\<And>l. i \<le> l \<Longrightarrow> l < i' \<Longrightarrow> item_at k t l = 0"
  shows "chunk_ok m iter k t i r"
proof -
  have zero: "item_at k t l = 0" if "i \<le> l" "l < i' \<or> item_at k t l = 0" for l
    using that assms(3) by blast
  from assms(1) [unfolded chunk_ok_def] show ?thesis
  proof (elim disjE exE conjE)
    assume *: "\<forall>l\<ge>i'. item_at k t l = 0" "r = Some (None, iter)"
    have "item_at k t l = 0" if "i \<le> l" for l
      using * zero [OF that] by (cases "l < i'") auto
    then show ?thesis
      using *(2) unfolding chunk_ok_def by simp
  next
    fix i1 q
    assume *: "i' \<le> i1" "item_at k t i1 \<noteq> 0" "\<forall>l. i' \<le> l \<longrightarrow> l < i1 \<longrightarrow> item_at k t l = 0" "leaf m k t i1 q"
      "r = Some (Some (Slot q (i1 mod 64)), iter_at iter i1 q)"
    have "item_at k t l = 0" if "i \<le> l" "l < i1" for l
      using *(3) zero [OF that(1)] that(2) by (cases "l < i'") auto
    moreover have "i \<le> i1"
      using *(1) assms(2) by simp
    ultimately show ?thesis
      unfolding chunk_ok_def by (intro disjI2 exI [of _ i1] exI [of _ q] conjI) (use * in simp_all)
  qed
qed

lemma chunk_found_leaf:
  assumes "rn_shift (nodes m p) = 0" "off = digit 0 (unat index)"
  shows "chunk_found m iter 0 index p off = (Some (Slot p (unat index mod 64)), iter_at iter (unat index) p)"
proof -
  have off: "off = unat index mod 64"
    by (simp add: assms(2) digit_def)
  have sh: "unat (rn_shift (nodes m p)) = 0" "node_maxindex m p = shift_maxindex 0" "((0 :: u32) AND RADIX_TREE_ITER_TAGGED \<noteq> 0) = False"
    by (simp_all add: assms(1) node_maxindex_def)
  have "(index AND NOT (shift_maxindex 0)) OR push_bit 0 (of_nat off) = of_nat (unat index)"
    using leaf_index(1) [of index] of_nat_of_unat [of index] unfolding assms(2) push_bit_0_id id_apply by (simp only:)
  then show ?thesis
    unfolding chunk_found_def iter_at_def Let_def sh leaf_index(2) off by simp
qed

lemma skip_used:
  assumes "node_is (nodes m p) par off j ts" "j \<le> 10" "rn_slots (nodes m p) ! digit j (unat index) \<noteq> 0"
  shows "chunk_skip m 0 index p =
    Some (Inr (index, digit j (unat index), rn_slots (nodes m p) ! digit j (unat index)))"
  using assms(3) descend_eq [OF assms(1,2), of index] by (simp add: chunk_skip_def)

lemma skip_hole:
  assumes node: "node_is (nodes m p) par off j ts" and j: "j \<le> 9" and z: "rn_slots (nodes m p) ! digit j (unat index) = 0"
    and d: "d = next_used (rn_slots (nodes m p)) (Suc (digit j (unat index)))"
    and i: "i = low (64 ^ Suc j) (unat index) + d * 64 ^ j" "i < 2 ^ 64"
  shows "chunk_skip m 0 index p =
    Some (if d = 64 then Inl (Some (of_nat i)) else Inr (of_nat i, d, rn_slots (nodes m p) ! d))"
proof -
  have "unat (rn_shift (nodes m p)) = 6 * j"
    using node unat_shift [of j] j by (simp add: node_is_def)
  then have idx: "(index AND NOT (node_maxindex m p)) + push_bit (unat (rn_shift (nodes m p))) (of_nat d) = of_nat i"
    using hole_index [OF j, of index d] i by (simp only: node_maxindex_def)
  have "Suc (digit j (unat index)) \<le> 64"
    by (rule Suc_leI) (rule digit_less)
  note u = next_used_spec [OF this, where slots = "rn_slots (nodes m p)", folded d]
  have "0 < d * 64 ^ j"
    using u(1) by simp
  then have "0 < i"
    unfolding i(1) by linarith
  then have nz: "(of_nat i :: ulong) \<noteq> 0"
    using unat_of_small [OF i(2)] by (metis less_irrefl unsigned_0)
  have "d \<noteq> 64 \<Longrightarrow> rn_slots (nodes m p) ! d \<noteq> 0"
    using u(2,4) by simp
  then show ?thesis
    using descend_eq [OF node, of index] j z nz idx
    by (simp add: chunk_skip_def d [symmetric] RADIX_TREE_MAP_SIZE_def RADIX_TREE_MAP_SHIFT_def Let_def)
qed

definition restart :: "radix_mem \<Rightarrow> radix_tree_iter \<Rightarrow> nat \<Rightarrow> (rslot option \<times> radix_tree_iter) option" where
  "restart m iter i = (case chunk_restart m iter (of_nat i) of Inl r \<Rightarrow> Some r
     | Inr child \<Rightarrow> chunk_loop m iter 0 (of_nat i) child)"

text \<open>The subtree covers the items around the index.\<close>

definition covers :: "nat \<Rightarrow> rtree \<Rightarrow> nat \<Rightarrow> nat \<Rightarrow> rtree \<Rightarrow> bool" where
  "covers k t j i u \<longleftrightarrow> (\<forall>l. l div 64 ^ j = i div 64 ^ j \<longrightarrow> item_at k t l = rget j l u)"

lemma covers_child:
  assumes "covers k t (Suc j) i (Inner p ts)" "i' div 64 ^ Suc j = i div 64 ^ Suc j"
  shows "covers k t j i' (ts ! digit j i')"
  unfolding covers_def
proof (intro allI impI)
  fix l
  assume l: "l div 64 ^ j = i' div 64 ^ j"
  have "x div 64 ^ Suc j = x div 64 ^ j div 64" for x :: nat
    by (simp add: div_mult2_eq mult.commute [of 64])
  then have "l div 64 ^ Suc j = i div 64 ^ Suc j" "digit j l = digit j i'"
    using l assms(2) by (simp_all add: digit_def)
  then show "item_at k t l = rget j l (ts ! digit j i')"
    using assms(1) by (simp add: covers_def)
qed

lemma hole_empty:
  assumes cov: "covers k t (Suc j) i (Inner p ts)" and d: "d \<le> 64" "\<And>l. digit j i \<le> l \<Longrightarrow> l < d \<Longrightarrow> ts ! l = Empty"
    and l: "i \<le> l" "l < low (64 ^ Suc j) i + d * 64 ^ j"
  shows "item_at k t l = 0"
proof -
  define b where "b = i div 64 ^ Suc j"
  have low: "low (64 ^ Suc j) i = b * 64 ^ Suc j"
    by (simp add: b_def minus_mod_eq_div_mult del: power_Suc)
  have bi: "b * 64 ^ Suc j \<le> i"
    by (simp add: b_def div_times_less_eq_dividend del: power_Suc)
  define r where "r = l - b * 64 ^ Suc j"
  have lr: "l = b * 64 ^ Suc j + r" and r: "r < d * 64 ^ j"
    using l bi low by (simp_all add: r_def)
  have "d * 64 ^ j \<le> 64 ^ Suc j"
    using d(1) by simp
  then have r64: "r < 64 ^ Suc j"
    by (rule less_le_trans [OF r])
  note dl = digit_block [OF lr r64]
  have "i = b * 64 ^ Suc j + (i - b * 64 ^ Suc j)" "i - b * 64 ^ Suc j < 64 ^ Suc j"
    using bi l(1) r64 by (simp_all add: r_def)
  then have "digit j i = (i - b * 64 ^ Suc j) div 64 ^ j"
    by (rule digit_block)
  then have "digit j i \<le> digit j l"
    using dl(2) l(1) by (simp add: r_def div_le_mono)
  moreover have "digit j l < d"
    using dl(2) r by (simp add: less_mult_imp_div_less)
  ultimately have "ts ! digit j l = Empty"
    by (rule d(2))
  then show ?thesis
    using cov dl(1) by (simp add: covers_def b_def)
qed

lemma leaf_here:
  assumes rep: "rep (nodes m) par off (Suc 0) e (Inner p ts)" and cov: "covers k t (Suc 0) i (Inner p ts)"
  shows "leaf m k t i p" "item_at k t i = rn_slots (nodes m p) ! digit 0 i"
proof -
  have slot: "rget 0 x (ts ! l) = rn_slots (nodes m p) ! l" if "l < 64" for l x
  proof -
    have "rep (nodes m) p l 0 (rn_slots (nodes m p) ! l) (ts ! l)"
      using rep that by (simp add: node_is_def)
    from level_0 [OF this] show ?thesis
      by simp
  qed
  show "leaf m k t i p"
    unfolding leaf_def
  proof (intro allI impI)
    fix l :: nat
    assume l: "l < 64"
    have "low 64 i + l = i div 64 * 64 ^ Suc 0 + l"
      by (simp add: minus_mod_eq_div_mult)
    from digit_block [OF this] l have "(low 64 i + l) div 64 ^ Suc 0 = i div 64 ^ Suc 0" "digit 0 (low 64 i + l) = l"
      by simp_all
    then show "rn_slots (nodes m p) ! l = item_at k t (low 64 i + l)"
      using cov slot [OF l] by (simp add: covers_def)
  qed
  show "item_at k t i = rn_slots (nodes m p) ! digit 0 i"
    using cov slot by (simp add: covers_def)
qed

lemma chunk_here:
  assumes rep: "rep (nodes m) par off (Suc j) e (Inner p ts)" and cov: "covers k t (Suc j) (unat index) (Inner p ts)"
    and d: "d = digit j (unat index)" "c = rn_slots (nodes m p) ! d" "c \<noteq> 0"
    and IH: "\<And>j' q us. j = Suc j' \<Longrightarrow> ts ! d = Inner q us \<Longrightarrow> c = node_to_entry q \<Longrightarrow>
      rep (nodes m) p d j c (ts ! d) \<Longrightarrow> covers k t j (unat index) (ts ! d) \<Longrightarrow>
      chunk_ok m iter k t (unat index) (chunk_loop m iter 0 index c)"
  shows "chunk_ok m iter k t (unat index)
    (if c = RADIX_TREE_RETRY \<or> \<not> radix_tree_is_internal_node c then Some (chunk_found m iter 0 index p d)
     else chunk_loop m iter 0 index c)"
proof -
  have len: "length ts = 64" and node: "node_is (nodes m p) par off j ts"
    using rep by (simp_all add: node_is_def)
  have child: "rep (nodes m) p d j c (ts ! d)"
    using rep d len by simp
  show ?thesis
  proof (cases j)
    case 0
    then have "ts ! d = Item c" "\<not> radix_tree_is_internal_node c"
      using child level_0 [of "nodes m" p d c "ts ! d"] d(3) by (auto simp: item_ok_def split: if_splits)
    moreover have "chunk_found m iter 0 index p d = (Some (Slot p (unat index mod 64)), iter_at iter (unat index) p)"
      using node d(1) 0 by (intro chunk_found_leaf) (simp_all add: node_is_def)
    moreover have "leaf m k t (unat index) p" "item_at k t (unat index) \<noteq> 0"
      using leaf_here [OF rep [unfolded 0] cov [unfolded 0]] d 0 by simp_all
    ultimately show ?thesis
      unfolding chunk_ok_def by (intro disjI2 exI [of _ "unat index"] exI [of _ p]) simp
  next
    case (Suc j')
    obtain q us where q: "ts ! d = Inner q us" "c = node_to_entry q" "ptr_ok q"
      using child d(3) Suc by (cases "ts ! d") auto
    have "covers k t j (unat index) (ts ! d)"
      using covers_child [OF cov refl] d(1) by simp
    then show ?thesis
      using IH [OF Suc q(1,2) child] q by simp
  qed
qed

lemma low_below:
  assumes "n dvd N" "i < (N :: nat)"
  shows "low n i + n \<le> N"
proof -
  obtain c where c: "N = n * c"
    using assms(1) by blast
  have "i div n < c"
    using assms(2) c by (simp add: less_mult_imp_div_less mult.commute)
  then have "(i div n + 1) * n \<le> N"
    unfolding c by (metis Suc_eq_plus1 Suc_leI mult.commute mult_le_mono1)
  then show ?thesis
    by (simp add: minus_mod_eq_div_mult)
qed

lemma below_next: "i < low (64 ^ Suc j) i + Suc (digit j i) * 64 ^ j"
proof -
  have "i = low (64 ^ Suc j) i + i mod 64 ^ Suc j"
    by simp
  moreover have "i mod 64 ^ Suc j = digit j i * 64 ^ j + i mod 64 ^ j"
    using mod_mult2_eq [of i "64 ^ j" 64] by (simp add: digit_def mult.commute)
  moreover have "i mod 64 ^ j < 64 ^ j"
    by simp
  ultimately show ?thesis
    unfolding mult_Suc by linarith
qed

lemma covers_cong: "covers k t j i u \<Longrightarrow> i' div 64 ^ j = i div 64 ^ j \<Longrightarrow> covers k t j i' u"
  by (simp add: covers_def)

lemma chunk_walk:
  "rep (nodes m) par off (Suc j) e (Inner p ts) \<Longrightarrow> Suc j \<le> k \<Longrightarrow> k \<le> 10 \<Longrightarrow> unat index < 64 ^ k \<Longrightarrow>
   covers k t (Suc j) (unat index) (Inner p ts) \<Longrightarrow>
   (\<And>i. unat index < i \<Longrightarrow> i \<le> 64 ^ k \<Longrightarrow> chunk_ok m iter k t i (restart m iter i)) \<Longrightarrow>
   chunk_ok m iter k t (unat index) (chunk_loop m iter 0 index (node_to_entry p))"
proof (induction j arbitrary: par off e p ts index rule: less_induct)
  case (less j)
  let ?d = "digit j (unat index)" and ?slots = "rn_slots (nodes m p)"
  have node: "node_is (nodes m p) par off j ts" and p: "ptr_ok p" and len: "length ts = 64" and j: "j \<le> 9"
    using less.prems(1-3) by (simp_all add: node_is_def)
  have empty: "ts ! l = Empty \<longleftrightarrow> ?slots ! l = 0" if "l < 64" for l
    using less.prems(1) rep_entry [of "nodes m" p l j "?slots ! l" "ts ! l"] that len by auto
  have down: "chunk_ok m iter k t (unat x) (chunk_loop m iter 0 x c)"
    if "unat index \<le> unat x" "unat x < 64 ^ k" "j = Suc j'" "ts ! d = Inner q us" "c = node_to_entry q"
      "rep (nodes m) p d j c (ts ! d)" "covers k t j (unat x) (ts ! d)" for x c j' d q us
    unfolding that(5)
  proof (rule less.IH [of j' p d c q us])
    show "chunk_ok m iter k t i (restart m iter i)" if "unat x < i" "i \<le> 64 ^ k" for i
      using less.prems(6) that \<open>unat index \<le> unat x\<close> by simp
  qed (use that less.prems(2,3) in \<open>simp_all del: rep.simps\<close>)
  show ?case
  proof (cases "?slots ! ?d = 0")
    case False
    have "chunk_ok m iter k t (unat index)
      (if ?slots ! ?d = RADIX_TREE_RETRY \<or> \<not> radix_tree_is_internal_node (?slots ! ?d)
       then Some (chunk_found m iter 0 index p ?d) else chunk_loop m iter 0 index (?slots ! ?d))"
      by (rule chunk_here [OF less.prems(1,5) refl refl False]) (rule down [OF order_refl less.prems(4)])
    then show ?thesis
      using skip_used [OF node _ False] j p by (subst chunk_loop.simps) simp
  next
    case True
    define d where "d = next_used ?slots (Suc ?d)"
    have "Suc ?d \<le> 64"
      by (rule Suc_leI) (rule digit_less)
    note u = next_used_spec [OF this, where slots = ?slots, folded d_def]
    define i where "i = low (64 ^ Suc j) (unat index) + d * 64 ^ j"
    have lowk: "low (64 ^ Suc j) (unat index) + 64 ^ Suc j \<le> 64 ^ k"
      by (rule low_below [OF le_imp_power_dvd [OF less.prems(2)] less.prems(4)])
    have "d * 64 ^ j \<le> 64 ^ Suc j"
      using u(2) by simp
    then have ik: "i \<le> 64 ^ k"
      using lowk unfolding i_def by linarith
    have "(64 :: nat) ^ k \<le> 64 ^ 10"
      using less.prems(3) by (intro power_increasing) simp_all
    then have i64: "i < 2 ^ 64"
      using ik by simp
    have "Suc ?d * 64 ^ j \<le> d * 64 ^ j"
      using u(1) by (rule mult_le_mono1)
    then have less_i: "unat index < i"
      using below_next [of "unat index" j] unfolding i_def by linarith
    have skip: "item_at k t l = 0" if "unat index \<le> l" "l < i" for l
    proof (rule hole_empty [OF less.prems(5) u(2)])
      show "ts ! x = Empty" if "?d \<le> x" "x < d" for x
        using True u(2) u(3) [of x] empty [of x] that by (cases "x = ?d") auto
    qed (use that in \<open>simp_all only: i_def\<close>)
    note sk = skip_hole [OF node j True d_def i_def i64]
    show ?thesis
    proof (cases "d = 64")
      case True
      then have "chunk_loop m iter 0 index (node_to_entry p) = restart m iter i"
        using sk p by (subst chunk_loop.simps) (simp add: restart_def)
      then show ?thesis
        using chunk_ok_skip [OF less.prems(6) [OF less_i ik] _ skip] less_i by simp
    next
      case False
      have ui: "unat (of_nat i :: ulong) = i"
        by (rule unat_of_small [OF i64])
      have "i = unat index div 64 ^ Suc j * 64 ^ Suc j + d * 64 ^ j"
        by (simp add: i_def minus_mod_eq_div_mult del: power_Suc)
      from digit_block [OF this] False u(2) have dig: "i div 64 ^ Suc j = unat index div 64 ^ Suc j" "digit j i = d"
        by simp_all
      let ?c = "?slots ! d"
      have "chunk_ok m iter k t (unat (of_nat i :: ulong))
        (if ?c = RADIX_TREE_RETRY \<or> \<not> radix_tree_is_internal_node ?c
         then Some (chunk_found m iter 0 (of_nat i) p d) else chunk_loop m iter 0 (of_nat i) ?c)"
      proof (rule chunk_here [OF less.prems(1)])
        show "covers k t (Suc j) (unat (of_nat i :: ulong)) (Inner p ts)"
          unfolding ui by (rule covers_cong [OF less.prems(5) dig(1)])
        show "chunk_ok m iter k t (unat (of_nat i :: ulong)) (chunk_loop m iter 0 (of_nat i) ?c)"
          if "j = Suc j'" "ts ! d = Inner q us" "?c = node_to_entry q" "rep (nodes m) p d j ?c (ts ! d)"
            "covers k t j (unat (of_nat i :: ulong)) (ts ! d)" for j' q us
        proof (rule down [OF _ _ that])
          show "unat (of_nat i :: ulong) < 64 ^ k"
          proof -
            have "Suc d * 64 ^ j \<le> 64 * 64 ^ j"
              using False u(2) by (intro mult_le_mono1) simp
            moreover have "0 < (64 :: nat) ^ j"
              by simp
            ultimately have "i < 64 ^ k"
              using lowk unfolding i_def mult_Suc power_Suc by linarith
            then show ?thesis
              unfolding ui .
          qed
        qed (use less_i in \<open>simp add: ui\<close>)
      qed (use dig(2) u False in \<open>simp_all add: ui\<close>)
      moreover have "chunk_loop m iter 0 index (node_to_entry p) =
        (if ?c = RADIX_TREE_RETRY \<or> \<not> radix_tree_is_internal_node ?c
         then Some (chunk_found m iter 0 (of_nat i) p d) else chunk_loop m iter 0 (of_nat i) ?c)"
        using sk p False by (subst chunk_loop.simps) simp
      ultimately show ?thesis
        using chunk_ok_skip [OF _ _ skip] less_i ui by simp
    qed
  qed
qed

lemma restart_ok:
  assumes r: "radix m k t" and k: "0 < k" "k \<le> 10" and i: "i \<le> 64 ^ k"
  shows "chunk_ok m iter k t i (restart m iter i)"
  using i
proof (induction "64 ^ k - i" arbitrary: i rule: less_induct)
  case less
  obtain j where j: "k = Suc j"
    using k(1) by (cases k) simp_all
  then obtain p ts where t: "t = Inner p ts"
    using r by (cases t) (auto simp: radix_def)
  have rep: "rep (nodes m) 0 0 (Suc j) (rnode m) (Inner p ts)"
    using r by (simp add: radix_def j t)
  then have e: "rnode m = node_to_entry p" "ptr_ok p"
    by simp_all
  obtain mx where mx: "radix_tree_load_root m = (rnode m, mx, 6 * k)" "\<And>index. mx < index \<longleftrightarrow> 64 ^ k \<le> unat index"
    using load_root [OF r] by blast
  have "(64 :: nat) ^ k \<le> 64 ^ 10"
    using k(2) by (intro power_increasing) simp_all
  then have "i < 2 ^ 64"
    using less.prems by simp
  then have ui: "unat (of_nat i :: ulong) = i"
    by (rule unat_of_small)
  show ?case
  proof (cases "i = 64 ^ k")
    case True
    then have "mx < of_nat i"
      unfolding mx(2) ui by (simp only: order_refl)
    then have "restart m iter i = Some (None, iter)"
      using mx(1) by (simp add: restart_def chunk_restart_def)
    moreover have "item_at k t l = 0" if "i \<le> l" for l
      using that True by (simp add: item_at_def)
    ultimately show ?thesis
      unfolding chunk_ok_def by (intro disjI1 conjI) simp_all
  next
    case False
    then have ik: "i < 64 ^ k"
      using less.prems by simp
    have "\<not> mx < of_nat i"
      unfolding mx(2) ui using ik by (simp only: not_le)
    then have "restart m iter i = chunk_loop m iter 0 (of_nat i) (node_to_entry p)"
      using mx(1) e by (simp add: restart_def chunk_restart_def)
    moreover have "chunk_ok m iter k t (unat (of_nat i :: ulong)) (chunk_loop m iter 0 (of_nat i) (node_to_entry p))"
    proof (rule chunk_walk [OF rep])
      show "covers k t (Suc j) (unat (of_nat i :: ulong)) (Inner p ts)"
        unfolding ui covers_def
      proof (intro allI impI)
        fix l :: nat
        assume "l div 64 ^ Suc j = i div 64 ^ Suc j"
        then have "l div 64 ^ k = 0"
          using div_less [OF ik] by (simp only: j)
        then have "l < 64 ^ k"
          using div_eq_0_iff [of l "64 ^ k"] power_not_zero [of "64 :: nat" k] by presburger
        then show "item_at k t l = rget (Suc j) l (Inner p ts)"
          by (simp only: item_at_def if_True t j)
      qed
      show "chunk_ok m iter k t x (restart m iter x)" if "unat (of_nat i :: ulong) < x" "x \<le> 64 ^ k" for x
      proof (rule less.hyps [OF _ that(2)])
        show "64 ^ k - x < 64 ^ k - i"
          using that(1) ik unfolding ui by (rule diff_less_mono2)
      qed
      show "unat (of_nat i :: ulong) < 64 ^ k"
        unfolding ui by (rule ik)
      show "Suc j \<le> k" "k \<le> 10"
        using k(2) j by simp_all
    qed
    ultimately show ?thesis
      unfolding ui by (simp only:)
  qed
qed

section \<open>The next slot\<close>

lemma next_slot_loop_leaf:
  assumes "off + n = 63"
  shows "next_slot_loop n m 0 (Slot q off) iter =
    (let d = next_used (rn_slots (nodes m q)) (Suc off)
     in if d < 64 then Some (Some (Slot q d), iter\<lparr>it_index := it_index iter + of_nat (d - off)\<rparr>)
        else Some (None, iter\<lparr>it_index := it_index iter + of_nat n\<rparr>))"
  using assms
proof (induction n arbitrary: off iter)
  case 0
  then have "off = 63"
    by simp
  moreover have "next_used (rn_slots (nodes m q)) 64 = 64"
    by (subst next_used.simps) (simp add: RADIX_TREE_MAP_SIZE_def RADIX_TREE_MAP_SHIFT_def)
  ultimately show ?case
    by simp
next
  case (Suc n)
  let ?slots = "rn_slots (nodes m q)" and ?iter = "iter\<lparr>it_index := it_index iter + 1\<rparr>"
  have off: "Suc off < 64"
    using Suc.prems by simp
  have add: "slot_add (Slot q off) 1 = Some (Slot q (Suc off))" "radix_tree_iter_add iter 1 = it_index iter + 1"
    using off by (simp_all add: slot_add_def RADIX_TREE_MAP_SIZE_def RADIX_TREE_MAP_SHIFT_def radix_tree_iter_add_def iter_shift_def)
  show ?case
  proof (cases "?slots ! Suc off = 0")
    case False
    then have "next_used ?slots (Suc off) = Suc off"
      using off by (subst next_used.simps) (simp add: RADIX_TREE_MAP_SIZE_def RADIX_TREE_MAP_SHIFT_def)
    then show ?thesis
      using False add off by (simp add: read_slot_def)
  next
    case True
    then have step: "next_used ?slots (Suc off) = next_used ?slots (Suc (Suc off))"
      using off by (subst next_used.simps) (simp add: RADIX_TREE_MAP_SIZE_def RADIX_TREE_MAP_SHIFT_def)
    have "next_slot_loop (Suc n) m 0 (Slot q off) iter = next_slot_loop n m 0 (Slot q (Suc off)) ?iter"
      using True add by (simp add: read_slot_def)
    moreover have "Suc off + n = 63"
      using Suc.prems by simp
    note Suc.IH [OF this, of ?iter]
    moreover have "Suc (Suc off) \<le> next_used ?slots (Suc (Suc off))"
      using next_used_spec(1) [of "Suc (Suc off)" ?slots] off by simp
    then have "next_used ?slots (Suc (Suc off)) - off = Suc (next_used ?slots (Suc (Suc off)) - Suc off)"
      by simp
    ultimately show ?thesis
      unfolding step by (simp add: Let_def add.assoc)
  qed
qed

lemma chunk_size_leaf: "nat (radix_tree_chunk_size (iter_at iter i q) - 1) = 63 - i mod 64"
proof -
  have "(of_nat (low 64 i + 64) :: ulong) - of_nat i = of_nat (64 - i mod 64)"
  proof -
    have "low 64 i + 64 = (64 - i mod 64) + i"
      using mod_less_eq_dividend [of i 64] mod_less_divisor [of 64 i] by linarith
    then show ?thesis
      by (simp only: of_nat_add) simp
  qed
  moreover have "sint (of_nat n :: ulong) = int n" if "n \<le> 64" for n
    using that by (simp add: signed_of_nat signed_take_bit_int_eq_self)
  moreover have "it_next_index (iter_at iter i q) = of_nat (low 64 i + 64)" "it_index (iter_at iter i q) = of_nat i"
    by (simp_all add: iter_at_def)
  ultimately have "radix_tree_chunk_size (iter_at iter i q) = int (64 - i mod 64)"
    unfolding radix_tree_chunk_size_def iter_shift_def by (simp only: drop_bit_0 id_apply diff_le_self)
  then show ?thesis
    by simp
qed

lemma next_slot_leaf:
  assumes d: "d = next_used (rn_slots (nodes m q)) (Suc (i mod 64))"
  shows "\<exists>x. radix_tree_next_slot m (Slot q (i mod 64)) (iter_at iter i q) 0 =
    (if d < 64 then Some (Some (Slot q d), iter_at iter (low 64 i + d) q)
     else Some (None, (iter_at iter i q)\<lparr>it_index := x\<rparr>))"
proof -
  have "i mod 64 < 64"
    by simp
  then have "i mod 64 + (63 - i mod 64) = 63" "Suc (i mod 64) \<le> 64"
    by linarith+
  note loop = next_slot_loop_leaf [OF this(1), of m q "iter_at iter i q", folded d] and u = next_used_spec(1,2) [OF this(2), of "rn_slots (nodes m q)", folded d]
  have "radix_tree_next_slot m (Slot q (i mod 64)) (iter_at iter i q) 0 =
      next_slot_loop (63 - i mod 64) m 0 (Slot q (i mod 64)) (iter_at iter i q)"
    by (simp add: radix_tree_next_slot_def chunk_size_leaf)
  moreover have "(iter_at iter i q)\<lparr>it_index := it_index (iter_at iter i q) + of_nat (d - i mod 64)\<rparr> = iter_at iter (low 64 i + d) q"
    if "d < 64"
  proof -
    have "i + (d - i mod 64) = low 64 i + d"
      using u(1) mod_less_eq_dividend [of i 64] by linarith
    moreover have "low 64 (low 64 i + d) = low 64 i"
      using that by (simp add: minus_mod_eq_div_mult)
    ultimately show ?thesis
      unfolding iter_at_def by (simp add: of_nat_add [symmetric] del: of_nat_add)
  qed
  ultimately show ?thesis
    using loop by (auto simp: Let_def)
qed

section \<open>The whole iteration\<close>

definition visits :: "nat \<Rightarrow> rtree \<Rightarrow> nat \<Rightarrow> (ulong \<times> ulong) list" where
  "visits k t n = map (\<lambda>i. (of_nat i, item_at k t i)) (filter (\<lambda>i. item_at k t i \<noteq> 0) [n..<64 ^ k])"

lemma visits_skip:
  assumes "n \<le> n'" "n' \<le> 64 ^ k" "\<And>l. n \<le> l \<Longrightarrow> l < n' \<Longrightarrow> item_at k t l = 0"
  shows "visits k t n = visits k t n'"
proof -
  have "[n..<64 ^ k] = [n..<n'] @ [n'..<64 ^ k]"
    using upt_add_eq_append [OF assms(1), of "64 ^ k - n'"] assms(2) by simp
  moreover have "filter (\<lambda>i. item_at k t i \<noteq> 0) [n..<n'] = []"
    using assms(3) by (simp add: filter_empty_conv)
  ultimately show ?thesis
    by (simp add: visits_def)
qed

lemma visits_Cons: "i < 64 ^ k \<Longrightarrow> item_at k t i \<noteq> 0 \<Longrightarrow> visits k t i = (of_nat i, item_at k t i) # visits k t (Suc i)"
  by (simp add: visits_def upt_conv_Cons)

lemma visits_none: "(\<And>l. n \<le> l \<Longrightarrow> item_at k t l = 0) \<Longrightarrow> visits k t n = []"
  by (simp add: visits_def filter_empty_conv)

lemma item_below: "item_at k t i \<noteq> 0 \<Longrightarrow> i < 64 ^ k"
  by (simp add: item_at_def split: if_splits)

lemma for_each_chunk:
  assumes r: "radix m k t" and k: "0 < k" "k \<le> 10" and n: "n \<le> 64 ^ k" "it_next_index iter = of_nat n" "n = 0 \<Longrightarrow> it_index iter = 0"
    and rest: "\<And>i q. n \<le> i \<Longrightarrow> item_at k t i \<noteq> 0 \<Longrightarrow> leaf m k t i q \<Longrightarrow>
      for_each_from m (Some (Slot q (i mod 64))) (iter_at iter i q) = Some (visits k t i)"
  shows "for_each_from m None iter = Some (visits k t n)"
proof -
  have "(64 :: nat) ^ k \<le> 64 ^ 10"
    using k(2) by (intro power_increasing) simp_all
  then have "n < 2 ^ 64"
    using n(1) by simp
  then have "it_next_index iter = 0 \<Longrightarrow> n = 0"
    using n(2) unat_of_small [of n] by simp
  then have chunk: "radix_tree_next_chunk m iter 0 = restart m iter n"
    using n(2,3) by (auto simp: radix_tree_next_chunk_def restart_def Let_def)
  from restart_ok [OF r k n(1), of iter, unfolded chunk_ok_def] show ?thesis
  proof (elim disjE exE conjE)
    assume "\<forall>l\<ge>n. item_at k t l = 0" "restart m iter n = Some (None, iter)"
    then show ?thesis
      using visits_none [of n k t] chunk by (subst for_each_from.simps) simp
  next
    fix i q
    assume *: "n \<le> i" "item_at k t i \<noteq> 0" "\<forall>l. n \<le> l \<longrightarrow> l < i \<longrightarrow> item_at k t l = 0" "leaf m k t i q"
      "restart m iter n = Some (Some (Slot q (i mod 64)), iter_at iter i q)"
    have "for_each_from m None iter = for_each_from m (Some (Slot q (i mod 64))) (iter_at iter i q)"
      using *(5) chunk by (subst (1 2) for_each_from.simps) simp
    moreover have "visits k t n = visits k t i"
      using * item_below [of k t i] by (intro visits_skip) simp_all
    ultimately show ?thesis
      using rest [OF *(1,2,4)] by simp
  qed
qed

lemma for_each_slot_leaf:
  assumes r: "radix m k t" and k: "0 < k" "k \<le> 10"
  shows "item_at k t i \<noteq> 0 \<Longrightarrow> leaf m k t i q \<Longrightarrow>
    for_each_from m (Some (Slot q (i mod 64))) (iter_at iter i q) = Some (visits k t i)"
proof (induction "64 ^ k - i" arbitrary: i q iter rule: less_induct)
  case less
  note ik = item_below [OF less.prems(1)]
  define d where "d = next_used (rn_slots (nodes m q)) (Suc (i mod 64))"
  have "i mod 64 < 64" "i mod 64 \<le> i"
    by simp_all
  have "Suc (i mod 64) \<le> 64"
    using \<open>i mod 64 < 64\<close> by linarith
  note u = next_used_spec [OF this, where slots = "rn_slots (nodes m q)", folded d_def]
  obtain x where nx: "radix_tree_next_slot m (Slot q (i mod 64)) (iter_at iter i q) 0 =
      (if d < 64 then Some (Some (Slot q d), iter_at iter (low 64 i + d) q) else Some (None, (iter_at iter i q)\<lparr>it_index := x\<rparr>))"
    using next_slot_leaf [OF d_def] by blast
  have slot: "rn_slots (nodes m q) ! l = item_at k t (low 64 i + l)" if "l < 64" for l
    using less.prems(2) that by (simp add: leaf_def)
  have zero: "item_at k t l = 0" if "Suc i \<le> l" "l < low 64 i + d" for l
  proof -
    have "Suc (i mod 64) \<le> l - low 64 i" "l - low 64 i < d" "l = low 64 i + (l - low 64 i)"
      using that \<open>i mod 64 \<le> i\<close> by linarith+
    then show ?thesis
      using u(2,3) slot [of "l - low 64 i"] by simp
  qed
  have here: "read_slot m (Slot q (i mod 64)) = item_at k t i" "it_index (iter_at iter i q) = of_nat i"
    using slot [of "i mod 64"] by (simp_all add: read_slot_def iter_at_def)
  have low64: "low 64 i + 64 \<le> 64 ^ k"
    using low_below [of 64 "64 ^ k" i] ik k(1) by simp
  have later: "for_each_from m (Some (Slot q' (i' mod 64))) (iter_at iter' i' q') = Some (visits k t i')"
    if "i < i'" "item_at k t i' \<noteq> 0" "leaf m k t i' q'" for i' q' iter'
    using less.hyps [OF _ that(2,3)] diff_less_mono2 [OF that(1) ik] by blast
  have "\<exists>slot iter'. radix_tree_next_slot m (Slot q (i mod 64)) (iter_at iter i q) 0 = Some (slot, iter') \<and>
      for_each_from m slot iter' = Some (visits k t (low 64 i + d))"
  proof (cases "d < 64")
    case True
    let ?i = "low 64 i + d"
    have "low 64 ?i = low 64 i" "?i mod 64 = d"
      using True by (simp_all add: minus_mod_eq_div_mult)
    moreover have "i < ?i"
      using u(1) \<open>i mod 64 \<le> i\<close> by linarith
    moreover have "item_at k t ?i \<noteq> 0"
      using u(4) slot True by simp
    ultimately show ?thesis
      using later [of ?i q iter] less.prems(2) nx True by (simp add: leaf_def)
  next
    case False
    then have d: "d = 64"
      using u(2) by simp
    have "for_each_from m None ((iter_at iter i q)\<lparr>it_index := x\<rparr>) = Some (visits k t (low 64 i + 64))"
    proof (rule for_each_chunk [OF r k low64])
      show "for_each_from m (Some (Slot q' (i' mod 64))) (iter_at ((iter_at iter i q)\<lparr>it_index := x\<rparr>) i' q') = Some (visits k t i')"
        if "low 64 i + 64 \<le> i'" "item_at k t i' \<noteq> 0" "leaf m k t i' q'" for i' q'
        using that \<open>i mod 64 < 64\<close> \<open>i mod 64 \<le> i\<close> by (intro later) linarith+
    qed (simp_all add: iter_at_def)
    then show ?thesis
      using nx d by simp
  qed
  moreover have "visits k t (Suc i) = visits k t (low 64 i + d)"
  proof (rule visits_skip)
    show "Suc i \<le> low 64 i + d"
      using u(1) \<open>i mod 64 \<le> i\<close> by linarith
    show "low 64 i + d \<le> 64 ^ k"
      using u(2) low64 by linarith
  qed (rule zero)
  ultimately show ?case
    using here visits_Cons [OF ik less.prems(1)] by (subst for_each_from.simps) auto
qed

lemma for_each_root:
  assumes r: "radix m 0 t"
  shows "for_each_from m None (radix_tree_iter_init start iter) = Some (visits 0 t (unat start))"
proof -
  have rep: "t = (if rnode m = 0 then Empty else Item (rnode m))" "\<not> radix_tree_is_internal_node (rnode m)"
    using r level_0 [of "nodes m" 0 0 "rnode m" t] rep_internal [of "nodes m" 0 0 0 "rnode m" t]
    by (auto simp: radix_def split: if_splits)
  have root: "radix_tree_load_root m = (rnode m, 0, 0)"
    using rep(2) by (simp add: radix_tree_load_root_def)
  show ?thesis
  proof (cases "start = 0 \<and> rnode m \<noteq> 0")
    case True
    let ?it = "iter\<lparr>it_index := 0, it_next_index := 1, it_tags := 1, it_node := 0\<rparr>"
    have "radix_tree_next_chunk m (radix_tree_iter_init start iter) 0 = Some (Some Root_slot, ?it)"
      using True root rep(2) by (simp add: radix_tree_next_chunk_def chunk_restart_def radix_tree_iter_init_def Let_def)
    moreover have "radix_tree_next_slot m Root_slot ?it 0 = Some (None, ?it)"
      by (simp add: radix_tree_next_slot_def radix_tree_chunk_size_def iter_shift_def)
    moreover have "radix_tree_next_chunk m ?it 0 = Some (None, ?it)"
      using root by (simp add: radix_tree_next_chunk_def chunk_restart_def)
    then have "for_each_from m None ?it = Some []"
      by (subst for_each_from.simps) simp
    moreover have "visits 0 t (unat start) = [(0, rnode m)]"
      using True rep(1) by (simp add: visits_def item_at_def)
    ultimately show ?thesis
      by (subst for_each_from.simps) (simp add: read_slot_def)
  next
    case False
    have "radix_tree_next_chunk m (radix_tree_iter_init start iter) 0 = Some (None, radix_tree_iter_init start iter)"
      using False root by (auto simp: radix_tree_next_chunk_def chunk_restart_def radix_tree_iter_init_def word_neq_0_conv)
    moreover have "visits 0 t (unat start) = []"
      using False rep(1) unat_eq_zero [of start] by (intro visits_none) (auto simp: item_at_def split: if_splits intro!: gr0I)
    ultimately show ?thesis
      by (subst for_each_from.simps) simp
  qed
qed

lemma for_each_visits:
  assumes r: "radix m k t" and k: "k \<le> 10"
  shows "radix_tree_for_each_slot m iter start = Some (visits k t (unat start))"
proof (cases "k = 0")
  case True
  then show ?thesis
    using for_each_root r by (simp add: radix_tree_for_each_slot_def)
next
  case pos: False
  show ?thesis
  proof (cases "unat start \<le> 64 ^ k")
    case True
    have "for_each_from m None (radix_tree_iter_init start iter) = Some (visits k t (unat start))"
    proof (rule for_each_chunk [OF r _ k True])
      show "for_each_from m (Some (Slot q (i mod 64))) (iter_at (radix_tree_iter_init start iter) i q) = Some (visits k t i)"
        if "item_at k t i \<noteq> 0" "leaf m k t i q" for i q
        using for_each_slot_leaf [OF r _ k that] pos by simp
    qed (use pos in \<open>simp_all add: radix_tree_iter_init_def\<close>)
    then show ?thesis
      by (simp add: radix_tree_for_each_slot_def)
  next
    case False
    obtain mx where "radix_tree_load_root m = (rnode m, mx, 6 * k)" "mx < start"
      using load_root [OF r] False by (meson nat_le_linear)
    then have "radix_tree_next_chunk m (radix_tree_iter_init start iter) 0 = Some (None, radix_tree_iter_init start iter)"
      by (simp add: radix_tree_next_chunk_def chunk_restart_def radix_tree_iter_init_def)
    moreover have "visits k t (unat start) = []"
      using False by (intro visits_none) (simp add: item_at_def)
    ultimately show ?thesis
      unfolding radix_tree_for_each_slot_def by (subst for_each_from.simps) simp
  qed
qed

lemma visits_spec:
  assumes "k \<le> 10"
  shows "sorted_wrt (<) (map fst (visits k t (unat start)))"
    "set (visits k t (unat start)) = {(i, contents k t i) |i. start \<le> i \<and> contents k t i \<noteq> 0}"
proof -
  have "(64 :: nat) ^ k \<le> 64 ^ 10"
    using assms by (intro power_increasing) simp_all
  then have small: "unat (of_nat i :: ulong) = i" if "i < 64 ^ k" for i
    using that by (intro unat_of_small) simp
  have "sorted_wrt (<) (map (of_nat :: nat \<Rightarrow> ulong) xs)" if "sorted_wrt (<) xs" "\<forall>i\<in>set xs. i < 64 ^ k" for xs
    using that by (induction xs) (auto simp: word_less_nat_alt small)
  then have "sorted_wrt (<) (map (of_nat :: nat \<Rightarrow> ulong) (filter (\<lambda>i. item_at k t i \<noteq> 0) [unat start..<64 ^ k]))"
    by (simp add: sorted_wrt_filter)
  then show "sorted_wrt (<) (map fst (visits k t (unat start)))"
    by (simp add: visits_def comp_def)
  have c: "contents k t (of_nat i) = item_at k t i" if "i < 64 ^ k" for i
    using that small by (simp add: contents_def item_at_def)
  show "set (visits k t (unat start)) = {(i, contents k t i) |i. start \<le> i \<and> contents k t i \<noteq> 0}"
  proof (intro subset_antisym subsetI)
    fix e
    assume "e \<in> set (visits k t (unat start))"
    then obtain i where "e = (of_nat i, item_at k t i)" "item_at k t i \<noteq> 0" "unat start \<le> i" "i < 64 ^ k"
      by (auto simp: visits_def)
    then show "e \<in> {(i, contents k t i) |i. start \<le> i \<and> contents k t i \<noteq> 0}"
      using c [of i] small [of i] by (auto simp: word_le_nat_alt)
  next
    fix e
    assume "e \<in> {(i, contents k t i) |i. start \<le> i \<and> contents k t i \<noteq> 0}"
    then obtain i where i: "e = (i, contents k t i)" "start \<le> i" "contents k t i \<noteq> 0"
      by blast
    then have "unat i < 64 ^ k" "item_at k t (unat i) = contents k t i"
      by (simp_all add: contents_def item_at_def split: if_splits)
    then have "unat i \<in> set (filter (\<lambda>i. item_at k t i \<noteq> 0) [unat start..<64 ^ k])" "e = (of_nat (unat i), item_at k t (unat i))"
      using i by (simp_all add: word_le_nat_alt)
    then show "e \<in> set (visits k t (unat start))"
      unfolding visits_def by (metis (no_types, lifting) image_eqI list.set_map)
  qed
qed

end
