(* ===== verification/Radix_Client.thy ===== *)
theory Radix_Client
  imports Radix_Delete Radix_Visit
begin

text \<open>
  The interface of the radix tree to its clients, the round trips that follow from it alone, the
  demo program \<open>radix_run.c\<close>, and the two ways in which insertion goes wrong: memory from \<open>malloc\<close>
  that is not zero, and indices from \<open>2 ^ 36\<close> on.
\<close>

section \<open>The interface\<close>

locale index_map =
  fixes repr :: "'s \<Rightarrow> ('i \<Rightarrow> 'v) \<Rightarrow> bool" and none :: 'v and accepts :: "'i \<Rightarrow> 'v \<Rightarrow> bool"
    and get :: "'s \<Rightarrow> 'i \<Rightarrow> 'v option" and put :: "'s \<Rightarrow> 'i \<Rightarrow> 'v \<Rightarrow> (int \<times> 's) option"
    and del :: "'s \<Rightarrow> 'i \<Rightarrow> ('v \<times> 's) option"
  assumes get: "repr s f \<Longrightarrow> get s i = Some (f i)"
    and put: "repr s f \<Longrightarrow> accepts i x \<Longrightarrow> \<exists>r s'. put s i x = Some (r, s') \<and>
      (if r = 0 then f i = none \<and> repr s' (f(i := x)) else repr s' f)"
    and del: "repr s f \<Longrightarrow> \<exists>s'. del s i = Some (f i, s') \<and> repr s' (f(i := none))"
begin

lemma get_after_put:
  assumes "repr s f" "accepts i x" "put s i x = Some (0, s')"
  shows "get s' j = (if j = i then Some x else get s j)"
  using put [OF assms(1,2)] assms get by auto

lemma del_after_put:
  assumes "repr s f" "accepts i x" "put s i x = Some (0, s')"
  shows "\<exists>s''. del s' i = Some (x, s'') \<and> repr s'' f"
proof -
  have "f i = none" "repr s' (f(i := x))"
    using put [OF assms(1,2)] assms(3) by auto
  moreover from this have "f(i := x, i := none) = f"
    by auto
  ultimately show ?thesis
    using del [of s' "f(i := x)" i] by auto
qed

lemma get_refused:
  assumes "repr s f" "accepts i x" "put s i x = Some (r, s')" "r \<noteq> 0"
  shows "get s' j = get s j"
  using put [OF assms(1,2)] assms get by auto

lemma get_del:
  assumes "repr s f" "del s i = Some (y, s')"
  shows "get s i = Some y \<and> get s' j = (if j = i then Some none else get s j)"
  using del [OF assms(1), of i] assms get by auto

end

text \<open>An implementation that never refuses a free index while it has room for \<open>cost\<close> more nodes.\<close>

locale roomy_index_map = index_map repr none accepts get put del
  for repr :: "'s \<Rightarrow> ('i \<Rightarrow> 'v) \<Rightarrow> bool" and none accepts get put del +
  fixes room :: "'s \<Rightarrow> nat" and cost :: nat
  assumes room: "repr s f \<Longrightarrow> accepts i x \<Longrightarrow> f i = none \<Longrightarrow> cost < room s \<Longrightarrow>
    \<exists>s'. put s i x = Some (0, s') \<and> room s \<le> room s' + cost"
begin

lemma put_free:
  assumes "repr s f" "accepts i x" "f i = none" "cost < room s"
  shows "\<exists>s'. put s i x = Some (0, s') \<and> repr s' (f(i := x)) \<and> room s \<le> room s' + cost"
  using room [OF assms] put [OF assms(1,2)] by auto

end

definition storable :: "ulong \<Rightarrow> ulong \<Rightarrow> bool" where
  "storable index x \<longleftrightarrow> unat index < 2 ^ 36 \<and> item_ok x"

lemma lookup_holds: "holds h m f \<Longrightarrow> radix_tree_lookup m index = Some (f index)"
proof -
  assume "holds h m f"
  then obtain k t where "radix m k t" "f = contents k t"
    unfolding holds_def by blast
  then show ?thesis
    using raw_lookup [of m k t index] by (auto simp: radix_tree_lookup_def split: if_splits)
qed

lemma insert_holds:
  assumes "holds h m f" "item_ok x" "unat index < 2 ^ 36 \<or> radix_tree_empty m" "h = 11 \<or> 6 \<le> h \<and> unat index < 2 ^ 36"
  shows "\<exists>r m'. radix_tree_insert m index x = Some (r, m') \<and> inserted h m f index x r m' \<and>
    length (pool m) \<le> length (pool m') + 22"
proof -
  obtain k t where r: "radix m k t" "pool_ok m (ptrs t)" "f = contents k t" "k \<le> h"
    using assms(1) unfolding holds_def by blast
  have "radix_tree_empty m \<longleftrightarrow> t = Empty"
    using r(1) rep_entry [of "nodes m" 0 0 k "rnode m" t] by (simp add: radix_def radix_tree_empty_def)
  then have reach: "t = Empty \<or> unat index < 64 ^ 6 \<or> unat index < 64 ^ k" "h = 11 \<or> 6 \<le> h \<and> unat index < 64 ^ 6"
    using assms(3,4) by auto
  then show ?thesis
    using insert_correct [OF r(1,2) assms(2) reach(1) r(4) reach(2)] insert_pool [OF r(1,2) reach(1)] r(3) by blast
qed

lemma delete_holds:
  assumes "holds h m f"
  shows "\<exists>m'. radix_tree_delete m index = Some (f index, m') \<and> holds h m' (f(index := 0))"
  using assms delete_correct [of m _ _ index] unfolding holds_def by (metis le_trans)

lemma holds_index_map: "6 \<le> h \<Longrightarrow>
  roomy_index_map (holds h) 0 storable radix_tree_lookup radix_tree_insert radix_tree_delete (\<lambda>m. length (pool m)) 22"
proof (unfold_locales, goal_cases)
  case (1 m f index)
  then show ?case
    by (rule_tac lookup_holds)
next
  case (2 m f index x)
  then obtain r m' where "radix_tree_insert m index x = Some (r, m')" "inserted h m f index x r m'"
    using insert_holds [of h m f x index] by (auto simp: storable_def)
  then show ?case
    by (auto simp: inserted_def RT_EEXIST_def RT_ENOMEM_def)
next
  case (3 m f index)
  then show ?case
    by (rule_tac delete_holds)
next
  case (4 m f index x)
  then obtain r m' where i: "radix_tree_insert m index x = Some (r, m')" "inserted h m f index x r m'"
      "length (pool m) \<le> length (pool m') + 22"
    using insert_holds [of h m f x index] by (auto simp: storable_def)
  then have "r = 0"
    using 4 by (auto simp: inserted_def)
  then show ?case
    using i by simp
qed

interpretation rt: roomy_index_map "holds 11" 0 storable radix_tree_lookup radix_tree_insert radix_tree_delete
  "\<lambda>m. length (pool m)" 22
  by (rule holds_index_map) simp

interpretation rs: roomy_index_map "holds 10" 0 storable radix_tree_lookup radix_tree_insert radix_tree_delete
  "\<lambda>m. length (pool m)" 22
  by (rule holds_index_map) simp

section \<open>The demo program\<close>

text \<open>
  \<open>main\<close> of \<open>radix_run.c\<close>: the addresses of its five nodes and the uninitialised iterator are
  arguments; the result has the indices it prints, the node it looks up, and the memory.
\<close>

definition radix_main ::
  "ulong \<Rightarrow> ulong \<Rightarrow> ulong \<Rightarrow> ulong \<Rightarrow> ulong \<Rightarrow> radix_tree_iter \<Rightarrow> radix_mem \<Rightarrow> (ulong list \<times> ulong \<times> radix_mem) option"
where
  "radix_main node0 node1 node2 node3 node4 iter m = do {
     let m = INIT_RADIX_TREE GFP_ATOMIC m;
     (_, m) \<leftarrow> radix_tree_insert m 0x21 node0;
     (_, m) \<leftarrow> radix_tree_insert m 0x876 node1;
     (_, m) \<leftarrow> radix_tree_insert m 0x321FE node2;
     (_, m) \<leftarrow> radix_tree_insert m 0x987654 node3;
     (_, m) \<leftarrow> radix_tree_insert m 0x321FEDCA node4;
     visited \<leftarrow> radix_tree_for_each_slot m iter 0;
     np \<leftarrow> radix_tree_lookup m 0x321FE;
     if np = 0 then None else do {
       (_, m) \<leftarrow> radix_tree_delete m 0x21;
       (_, m) \<leftarrow> radix_tree_delete m 0x876;
       (_, m) \<leftarrow> radix_tree_delete m 0x321FE;
       Some (map fst visited, np, m)
     }
   }"

section \<open>Properties\<close>

text \<open>
  What \<open>malloc\<close> promises of the addresses it hands out, and what \<open>radix.c\<close> needs of the memory there
  beyond that promise: that it is zero, as memory is which the process has not used before.
\<close>

definition malloc_ok :: "radix_mem \<Rightarrow> ulong list \<Rightarrow> bool" where
  "malloc_ok m used \<longleftrightarrow> distinct (pool m) \<and> set (pool m) \<inter> set used = {} \<and> (\<forall>p\<in>set (pool m). ptr_ok p)"

definition zeroed :: "radix_mem \<Rightarrow> bool" where
  "zeroed m \<longleftrightarrow> (\<forall>p\<in>set (pool m). blank (nodes m p))"

lemma pool_ok_iff: "pool_ok m used \<longleftrightarrow> malloc_ok m used \<and> zeroed m"
  by (auto simp: pool_ok_def malloc_ok_def zeroed_def)

text \<open>
  C7: as long as the nodes that \<open>malloc\<close> hands out are zero, which \<open>radix.c\<close> relies on although
  \<open>malloc\<close> does not promise it, \<open>radix_tree_insert\<close> returns for every index below \<open>2 ^ 36\<close> and, in an
  empty tree, for every index at all: it stores the item at a free index and changes no other
  index, refuses an occupied index with \<open>-EEXIST\<close>, and fails with \<open>-ENOMEM\<close> only when \<open>malloc\<close> has
  nothing left, which cannot happen when it had more than 22 nodes; a refused insertion leaves the
  contents as they were.
\<close>

theorem radix_tree_insert_correct:
  assumes "radix m k t" "malloc_ok m (ptrs t)" "zeroed m" "item_ok x" "unat index < 2 ^ 36 \<or> radix_tree_empty m"
  shows "\<exists>r m' k' t'. radix_tree_insert m index x = Some (r, m') \<and>
    radix m' k' t' \<and> malloc_ok m' (ptrs t') \<and> zeroed m' \<and> length (pool m) \<le> length (pool m') + 22 \<and>
    (r = 0 \<and> contents k t index = 0 \<and> contents k' t' = (contents k t)(index := x) \<or>
     r = - RT_EEXIST \<and> contents k t index \<noteq> 0 \<and> contents k' t' = contents k t \<or>
     r = - RT_ENOMEM \<and> contents k t index = 0 \<and> contents k' t' = contents k t \<and> pool m' = [])"
proof -
  have "represents m (contents k t)"
    using assms(1-3) pool_ok_iff unfolding represents_def by blast
  then obtain r m' where i: "radix_tree_insert m index x = Some (r, m')" "inserted 11 m (contents k t) index x r m'"
      "length (pool m) \<le> length (pool m') + 22"
    using insert_holds [of 11 m "contents k t" x index] assms(4,5) unfolding holds_11 by auto
  obtain k' t' where "radix m' k' t'" "pool_ok m' (ptrs t')"
      "r = 0 \<and> contents k t index = 0 \<and> contents k' t' = (contents k t)(index := x) \<or>
       r = - RT_EEXIST \<and> contents k t index \<noteq> 0 \<and> contents k' t' = contents k t \<or>
       r = - RT_ENOMEM \<and> contents k t index = 0 \<and> contents k' t' = contents k t \<and> pool m' = []"
    using i(2) unfolding inserted_def holds_def by metis
  then show ?thesis
    using i(1,3) unfolding pool_ok_iff by blast
qed

definition sample_mem :: radix_mem where
  "sample_mem = \<lparr>gfp_mask = GFP_ATOMIC, rnode = 0,
     nodes = (\<lambda>_. \<lparr>rn_shift = 0, rn_offset = 0, rn_count = 0, rn_exceptional = 0, rn_parent = 0,
       rn_slots = replicate 64 0, rn_tags = no_tags\<rparr>),
     pool = [0x1000, 0x2000, 0x3000, 0x4000, 0x5000, 0x6000, 0x7000, 0x8000], freed = []\<rparr>"

lemma sample_mem_ok: "represents sample_mem (\<lambda>_. 0)"
proof -
  have "radix sample_mem 0 Empty" "pool_ok sample_mem (ptrs Empty)"
    by (simp_all add: sample_mem_def GFP_ATOMIC_def radix_def is_idr_def ROOT_IS_IDR_def root_tags_get_def ROOT_TAG_SHIFT_def
        pool_ok_def ptr_ok_def blank_def drop_bit_eq_div)
  then show ?thesis
    unfolding represents_def using contents_empty by metis
qed

definition large_mem :: radix_mem where
  "large_mem = sample_mem\<lparr>pool := map (\<lambda>i. of_nat (0x1000 * Suc i)) [0..<120]\<rparr>"

lemma large_pool_ok: "pool_ok large_mem []" "length (pool large_mem) = 120"
proof -
  have u: "unat (of_nat (0x1000 * Suc i) :: ulong) = 0x1000 * Suc i" if "i < 120" for i
    using that by (intro unat_of_small) simp
  have "ptr_ok (of_nat (0x1000 * Suc i))" if "i < 120" for i
  proof -
    have "(of_nat (0x1000 * Suc i) :: ulong) = push_bit 12 (of_nat (Suc i))"
      by (simp add: push_bit_eq_mult mult.commute)
    then have "(of_nat (0x1000 * Suc i) :: ulong) AND 3 = 0"
      by (simp only: and_3_cases bit_push_bit_iff) simp
    moreover have "(of_nat (0x1000 * Suc i) :: ulong) \<noteq> 0"
      using u [OF that] by (metis nat.simps(3) mult_is_0 unsigned_0 zero_neq_numeral)
    ultimately show ?thesis
      by (simp only: ptr_ok_def) simp
  qed
  moreover have "inj_on (\<lambda>i. of_nat (0x1000 * Suc i) :: ulong) {0..<120}"
  proof (rule inj_onI)
    fix i j :: nat
    assume "i \<in> {0..<120}" "j \<in> {0..<120}" "(of_nat (0x1000 * Suc i) :: ulong) = of_nat (0x1000 * Suc j)"
    then have "0x1000 * Suc i = 0x1000 * Suc j"
      using u [of i] u [of j] by (metis atLeastLessThan_iff)
    then show "i = j"
      by simp
  qed
  then have "distinct (map (\<lambda>i. of_nat (0x1000 * Suc i) :: ulong) [0..<120])"
    by (simp only: distinct_map set_upt distinct_upt simp_thms)
  ultimately show "pool_ok large_mem []"
    unfolding pool_ok_def large_mem_def by (simp add: blank_def sample_mem_def del: of_nat_mult of_nat_Suc mult_Suc_right)
  show "length (pool large_mem) = 120"
    by (simp add: large_mem_def)
qed

lemma large_radix: "radix large_mem 0 Empty"
  by (simp add: large_mem_def sample_mem_def GFP_ATOMIC_def radix_def is_idr_def ROOT_IS_IDR_def root_tags_get_def
      ROOT_TAG_SHIFT_def drop_bit_eq_div)

theorem radix_tree_insert_correct_witness:
  "\<exists>m' k' t'. radix_tree_insert large_mem 0x321FE 0x9000 = Some (0, m') \<and> radix m' k' t' \<and>
    contents k' t' = (\<lambda>_. 0)(0x321FE := 0x9000)"
  using radix_tree_insert_correct [OF large_radix, of "0x9000" "0x321FE"] large_pool_ok
  by (auto simp: item_ok_def radix_tree_is_internal_node_def pool_ok_iff contents_empty)

text \<open>
  C8: \<open>radix_tree_delete\<close> returns the item at the index, or 0 when there is none; afterwards the
  index is free, every other index has its item, and each node of the tree is either still in the
  tree or was given to \<open>free\<close> exactly once.
\<close>

theorem radix_tree_delete_correct:
  assumes "radix m k t" "pool_ok m (ptrs t)"
  shows "\<exists>m' k' t'. radix_tree_delete m index = Some (contents k t index, m') \<and> radix m' k' t' \<and> pool_ok m' (ptrs t') \<and>
    contents k' t' = (contents k t)(index := 0) \<and> mset (freed m') + mset (ptrs t') = mset (freed m) + mset (ptrs t)"
  using delete_correct [OF assms, of index] by blast

definition sample_one :: radix_mem where
  "sample_one = sample_mem\<lparr>rnode := 0x9000\<rparr>"

lemma sample_one_ok: "radix sample_one 0 (Item 0x9000)" "pool_ok sample_one (ptrs (Item 0x9000))"
  by (simp_all add: sample_one_def sample_mem_def GFP_ATOMIC_def radix_def is_idr_def ROOT_IS_IDR_def root_tags_get_def ROOT_TAG_SHIFT_def
      pool_ok_def ptr_ok_def blank_def drop_bit_eq_div item_ok_def radix_tree_is_internal_node_def)

theorem radix_tree_delete_correct_witness:
  "\<exists>m' k' t'. radix_tree_delete sample_one 0 = Some (0x9000, m') \<and> radix m' k' t' \<and>
    contents k' t' = (contents 0 (Item 0x9000))(0 := 0) \<and> mset (freed m') + mset (ptrs t') = {#}"
  using radix_tree_delete_correct [OF sample_one_ok, of 0] by (auto simp: contents_def sample_one_def sample_mem_def)

text \<open>A round trip that needs the laws of the interface only.\<close>

lemma radix_tree_insert_lookup_delete:
  assumes "represents m f" "storable index x" "radix_tree_insert m index x = Some (0, m1)"
  shows "radix_tree_lookup m1 i = (if i = index then Some x else radix_tree_lookup m i) \<and>
    (\<exists>m2. radix_tree_delete m1 index = Some (x, m2) \<and> represents m2 f)"
  using rt.get_after_put [of m f index x m1 i] rt.del_after_put [of m f index x m1] assms unfolding holds_11 by blast

section \<open>Iteration\<close>

text \<open>
  C9: on a tree of at most ten levels, which holds every index below \<open>2 ^ 60\<close>,
  \<open>radix_tree_for_each_slot\<close> ends, and visits exactly the indices from \<open>start\<close> on that have an item,
  each once, in increasing order, together with their items.
\<close>

theorem radix_tree_for_each_slot_correct:
  assumes "radix m k t" "k \<le> 10"
  shows "\<exists>visited. radix_tree_for_each_slot m iter start = Some visited \<and> sorted_wrt (<) (map fst visited) \<and>
    set visited = {(i, contents k t i) |i. start \<le> i \<and> contents k t i \<noteq> 0}"
  using for_each_visits [OF assms] visits_spec [OF assms(2)] by blast

theorem radix_tree_for_each_slot_correct_witness:
  "\<exists>visited. radix_tree_for_each_slot sample_one \<lparr>it_index = 7, it_next_index = 9, it_tags = 0, it_node = 0\<rparr> 0 = Some visited \<and>
    sorted_wrt (<) (map fst visited) \<and>
    set visited = {(i, contents 0 (Item 0x9000) i) |i. 0 \<le> i \<and> contents 0 (Item 0x9000) i \<noteq> 0}"
  by (rule radix_tree_for_each_slot_correct [OF sample_one_ok(1)]) simp

text \<open>The steps of the demo.\<close>

definition demo_map :: "ulong \<Rightarrow> ulong \<Rightarrow> ulong \<Rightarrow> ulong \<Rightarrow> ulong \<Rightarrow> ulong \<Rightarrow> ulong" where
  "demo_map n0 n1 n2 n3 n4 = (\<lambda>_. 0)(0x21 := n0, 0x876 := n1, 0x321FE := n2, 0x987654 := n3, 0x321FEDCA := n4)"

lemma demo_inserts:
  assumes "holds 10 m (\<lambda>_. 0)" "112 \<le> length (pool m)" "item_ok n0" "item_ok n1" "item_ok n2" "item_ok n3" "item_ok n4"
  shows "\<exists>m1 m2 m3 m4 m5. radix_tree_insert m 0x21 n0 = Some (0, m1) \<and> radix_tree_insert m1 0x876 n1 = Some (0, m2) \<and>
    radix_tree_insert m2 0x321FE n2 = Some (0, m3) \<and> radix_tree_insert m3 0x987654 n3 = Some (0, m4) \<and>
    radix_tree_insert m4 0x321FEDCA n4 = Some (0, m5) \<and> holds 10 m5 (demo_map n0 n1 n2 n3 n4)"
proof -
  have st: "storable i x" if "i < 0x1000000000" "item_ok x" for i x
    using that by (simp add: storable_def word_less_nat_alt)
  obtain m1 where m1: "radix_tree_insert m 0x21 n0 = Some (0, m1)" "holds 10 m1 ((\<lambda>_. 0)(0x21 := n0))" "90 \<le> length (pool m1)"
    using rs.put_free [OF assms(1) st, of "0x21" n0] assms(2,3) by auto
  obtain m2 where m2: "radix_tree_insert m1 0x876 n1 = Some (0, m2)" "holds 10 m2 ((\<lambda>_. 0)(0x21 := n0, 0x876 := n1))"
      "68 \<le> length (pool m2)"
    using rs.put_free [OF m1(2) st, of "0x876" n1] assms(4) m1(3) by auto
  obtain m3 where m3: "radix_tree_insert m2 0x321FE n2 = Some (0, m3)"
      "holds 10 m3 ((\<lambda>_. 0)(0x21 := n0, 0x876 := n1, 0x321FE := n2))" "46 \<le> length (pool m3)"
    using rs.put_free [OF m2(2) st, of "0x321FE" n2] assms(5) m2(3) by auto
  obtain m4 where m4: "radix_tree_insert m3 0x987654 n3 = Some (0, m4)"
      "holds 10 m4 ((\<lambda>_. 0)(0x21 := n0, 0x876 := n1, 0x321FE := n2, 0x987654 := n3))" "24 \<le> length (pool m4)"
    using rs.put_free [OF m3(2) st, of "0x987654" n3] assms(6) m3(3) by auto
  obtain m5 where "radix_tree_insert m4 0x321FEDCA n4 = Some (0, m5)" "holds 10 m5 (demo_map n0 n1 n2 n3 n4)"
    using rs.put_free [OF m4(2) st, of "0x321FEDCA" n4] assms(7) m4(3) unfolding demo_map_def by auto
  then show ?thesis
    using m1(1) m2(1) m3(1) m4(1) by blast
qed

lemma demo_visits:
  assumes "holds 10 m (demo_map n0 n1 n2 n3 n4)" "n0 \<noteq> 0" "n1 \<noteq> 0" "n2 \<noteq> 0" "n3 \<noteq> 0" "n4 \<noteq> 0"
  shows "\<exists>visited. radix_tree_for_each_slot m iter 0 = Some visited \<and>
    map fst visited = [0x21, 0x876, 0x321FE, 0x987654, 0x321FEDCA]"
proof -
  define f where "f = demo_map n0 n1 n2 n3 n4"
  obtain k t where t: "radix m k t" "f = contents k t" "k \<le> 10"
    using assms(1) unfolding holds_def f_def by blast
  define visited where "visited = visits k t (unat (0 :: ulong))"
  have "set visited = {(i, f i) |i. f i \<noteq> 0}"
    using visits_spec(2) [OF t(3), of t 0] unfolding visited_def t(2) by simp
  then have "set (map fst visited) = {i. f i \<noteq> 0}"
    by force
  also have "\<dots> = set [0x21, 0x876, 0x321FE, 0x987654, 0x321FEDCA]"
    using assms(2-6) by (auto simp: f_def demo_map_def split: if_splits)
  finally have keys: "map fst visited = [0x21, 0x876, 0x321FE, 0x987654, 0x321FEDCA]"
    using visits_spec(1) [OF t(3), of t 0] unfolding visited_def by (intro strict_sorted_equal) simp_all
  have "radix_tree_for_each_slot m iter 0 = Some visited"
    unfolding visited_def by (rule for_each_visits [OF t(1,3)])
  then show ?thesis
    using keys by (intro exI conjI)
qed

text \<open>
  C17: the demo program, when \<open>malloc\<close> has 112 nodes for it and they are zero (as the untouched memory
  of a new process is; \<open>malloc\<close> does not promise it), prints the five indices in increasing order,
  finds the third node at its index, and leaves a tree with the last two nodes.
\<close>

theorem radix_main_correct:
  assumes "malloc_ok m []" "zeroed m" "112 \<le> length (pool m)"
    and "item_ok node0" "item_ok node1" "item_ok node2" "item_ok node3" "item_ok node4"
  shows "\<exists>m'. radix_main node0 node1 node2 node3 node4 iter m =
      Some ([0x21, 0x876, 0x321FE, 0x987654, 0x321FEDCA], node2, m') \<and>
    represents m' ((\<lambda>_. 0)(0x987654 := node3, 0x321FEDCA := node4))"
proof -
  define f where "f = demo_map node0 node1 node2 node3 node4"
  define m0 where "m0 = INIT_RADIX_TREE GFP_ATOMIC m"
  have "radix m0 0 Empty"
    by (simp add: m0_def INIT_RADIX_TREE_def GFP_ATOMIC_def radix_def is_idr_def ROOT_IS_IDR_def root_tags_get_def
        ROOT_TAG_SHIFT_def drop_bit_eq_div)
  moreover have "pool_ok m0 (ptrs Empty)" and room: "112 \<le> length (pool m0)"
    using assms(1-3) by (simp_all add: m0_def INIT_RADIX_TREE_def pool_ok_def malloc_ok_def zeroed_def)
  ultimately have h0: "holds 10 m0 (\<lambda>_. 0)"
    by (intro holdsI [of _ 0 Empty]) simp_all
  obtain m1 m2 m3 m4 m5 where ins: "radix_tree_insert m0 0x21 node0 = Some (0, m1)" "radix_tree_insert m1 0x876 node1 = Some (0, m2)"
      "radix_tree_insert m2 0x321FE node2 = Some (0, m3)" "radix_tree_insert m3 0x987654 node3 = Some (0, m4)"
      "radix_tree_insert m4 0x321FEDCA node4 = Some (0, m5)" and m5': "holds 10 m5 (demo_map node0 node1 node2 node3 node4)"
    using demo_inserts [OF h0 room assms(4-8)] by (elim exE conjE) (rule that)
  note m5 = m5' [folded f_def]
  have nz: "node0 \<noteq> 0" "node1 \<noteq> 0" "node2 \<noteq> 0" "node3 \<noteq> 0" "node4 \<noteq> 0"
    using assms(4-8) by (simp_all add: item_ok_def)
  obtain visited where v: "radix_tree_for_each_slot m5 iter 0 = Some visited" "map fst visited = [0x21, 0x876, 0x321FE, 0x987654, 0x321FEDCA]"
    using demo_visits [OF m5' nz, of iter] by (elim exE conjE) (rule that)
  have look: "radix_tree_lookup m5 0x321FE = Some node2"
    using lookup_holds [OF m5, of "0x321FE"] by (simp add: f_def demo_map_def)
  obtain m6 y0 where m6: "radix_tree_delete m5 0x21 = Some (y0, m6)" "holds 10 m6 (f(0x21 := 0))"
    using delete_holds [OF m5] by blast
  obtain m7 y1 where m7: "radix_tree_delete m6 0x876 = Some (y1, m7)" "holds 10 m7 (f(0x21 := 0, 0x876 := 0))"
    using delete_holds [OF m6(2)] by blast
  obtain m8 y2 where m8: "radix_tree_delete m7 0x321FE = Some (y2, m8)" "holds 10 m8 (f(0x21 := 0, 0x876 := 0, 0x321FE := 0))"
    using delete_holds [OF m7(2)] by blast
  have "radix_main node0 node1 node2 node3 node4 iter m = Some ([0x21, 0x876, 0x321FE, 0x987654, 0x321FEDCA], node2, m8)"
    using ins v look m6(1) m7(1) m8(1) nz(3) by (simp add: radix_main_def m0_def [symmetric] Let_def)
  moreover have "f(0x21 := 0, 0x876 := 0, 0x321FE := 0) = (\<lambda>_. 0)(0x987654 := node3, 0x321FEDCA := node4)"
    by (auto simp: f_def demo_map_def fun_eq_iff)
  then have "represents m8 ((\<lambda>_. 0)(0x987654 := node3, 0x321FEDCA := node4))"
    using holds_mono [OF m8(2), of 11] by (simp add: holds_11)
  ultimately show ?thesis
    by (intro exI conjI)
qed

theorem radix_main_correct_witness:
  "\<exists>m'. radix_main 0x601000 0x601010 0x601020 0x601030 0x601040 \<lparr>it_index = 0, it_next_index = 0, it_tags = 0, it_node = 0\<rparr> large_mem =
      Some ([0x21, 0x876, 0x321FE, 0x987654, 0x321FEDCA], 0x601020, m') \<and>
    represents m' ((\<lambda>_. 0)(0x987654 := 0x601030, 0x321FEDCA := 0x601040))"
  by (rule radix_main_correct [OF large_pool_ok(1) [unfolded pool_ok_iff, THEN conjunct1] large_pool_ok(1) [unfolded pool_ok_iff, THEN conjunct2]])
    (simp_all add: large_pool_ok(2) item_ok_def radix_tree_is_internal_node_def)

section \<open>Large indices\<close>

text \<open>A memory whose next node still holds pointers of an earlier use.\<close>

definition stale_mem :: radix_mem where
  "stale_mem = upd_node 0x1000 (\<lambda>n. n\<lparr>rn_slots := replicate 64 0x7770\<rparr>) sample_one"

lemma stale_mem_ok: "radix stale_mem 0 (Item 0x9000)" "malloc_ok stale_mem (ptrs (Item 0x9000))"
  using sample_one_ok
  by (simp_all add: radix_def stale_mem_def is_idr_def root_tags_get_def malloc_ok_def pool_ok_def)

text \<open>
  C18: inserting an index from \<open>2 ^ 36\<close> on that the tree does not reach yet never returns, once the
  tree has an item, as long as \<open>malloc\<close> does not fail before (it has seven nodes more), whatever those
  nodes contain: \<open>radix_tree_extend\<close> raises the tree level by level until it comes to a node whose
  shift is 36 or more, and there \<open>BUG_ON(shift > BITS_PER_LONG)\<close>, an endless loop, holds, since
  \<open>BITS_PER_LONG\<close> is 32 in this build although an index has 64 bits.
\<close>

theorem radix_tree_insert_hangs:
  assumes "radix m k t" "t \<noteq> Empty" "malloc_ok m (ptrs t)" "64 ^ k \<le> unat index" "2 ^ 36 \<le> unat index"
    and "7 \<le> length (pool m)" "item_ok x"
  shows "(\<exists>m' entry s. extend_rounds (find_maxshift index (6 * k)) m (rnode m) (6 * k) m' entry s \<and>
      RT_BITS_PER_LONG < s \<and> pool m' \<noteq> [] \<and> extend_round m' entry s = Extend_bug) \<and>
    radix_tree_insert m index x = None"
proof -
  obtain mx where mx: "radix_tree_load_root m = (rnode m, mx, 6 * k)" "mx < index"
    using load_root [OF assms(1)] assms(4) by blast
  obtain n where n: "find_maxshift index (6 * k) = 6 * n" "k \<le> n" "n \<le> 10" "unat index < 64 ^ Suc n"
    using reach_levels [of index k] assms(4) not_le by blast
  have "(64 :: nat) ^ 6 < 64 ^ Suc n"
    using assms(5) n(4) by (rule_tac le_less_trans) simp_all
  then have n6: "6 \<le> n"
    using power_less_imp_less_exp [of "64 :: nat" 6 "Suc n"] by simp
  have rep: "rep (nodes m) 0 0 k (rnode m) t" and flags: "\<not> is_idr m" "root_tags_get m = 0"
    using assms(1) by (simp_all add: radix_def)
  have "rnode m \<noteq> 0"
    using rep assms(2) rep_entry [of "nodes m" 0 0 k "rnode m" t] by simp
  moreover have "entry_to_node (rnode m) \<in> set (ptrs t)" if "radix_tree_is_internal_node (rnode m)"
    using rep_internal [OF rep] rep that by (cases k) auto
  then have bug: "\<exists>m' entry s. extend_rounds (6 * n) m (rnode m) (6 * k) m' entry s \<and>
      RT_BITS_PER_LONG < s \<and> pool m' \<noteq> [] \<and> extend_round m' entry s = Extend_bug"
    using assms(3,6) by (intro extend_reaches_bug flags n6) (auto simp: malloc_ok_def)
  moreover have "extend_loop m (rnode m) (6 * k) (6 * n) = None"
    using bug extend_rounds_bug by blast
  ultimately have "radix_tree_extend m index (6 * k) = None"
    using n(1) by (simp add: radix_tree_extend_def)
  then show ?thesis
    using mx bug n(1) by (simp add: radix_tree_insert_def raw_radix_tree_insert_def radix_tree_create_def)
qed

theorem radix_tree_insert_hangs_witness: "radix_tree_insert stale_mem 0x1000000000 0x9000 = None"
  by (rule radix_tree_insert_hangs [THEN conjunct2, OF stale_mem_ok(1) _ stale_mem_ok(2)])
    (simp_all add: stale_mem_def sample_one_def sample_mem_def item_ok_def radix_tree_is_internal_node_def)

section \<open>Memory that is not zero\<close>

text \<open>
  C19: \<open>radix_tree_node_alloc\<close> takes its nodes from \<open>malloc\<close> and clears none of their slots. When
  the tree holds one item, at index 0, and a node from \<open>malloc\<close> still has a pointer \<open>y\<close> in slot \<open>index\<close>
  from an earlier use, inserting at that index fails with \<open>-EEXIST\<close> although nothing was stored
  there, and from then on \<open>radix_tree_lookup\<close> returns \<open>y\<close>.
\<close>

theorem radix_tree_insert_stale:
  assumes "radix m 0 (Item z)" "pool m = p # ps" "ptr_ok p" "length (rn_slots (nodes m p)) = 64"
    and "0 < unat index" "unat index < 64" "rn_slots (nodes m p) ! unat index = y" "item_ok y" "item_ok x"
  shows "radix_tree_lookup m index = Some 0 \<and>
    (\<exists>m'. radix_tree_insert m index x = Some (- RT_EEXIST, m') \<and> radix_tree_lookup m' index = Some y)"
proof -
  obtain mx where mx: "radix_tree_load_root m = (rnode m, mx, 0)" "mx < index"
    using load_root [OF assms(1)] assms(5) by auto
  have m: "rnode m = z" "item_ok z" "\<not> is_idr m" "root_tags_get m = 0"
    using assms(1) by (simp_all add: radix_def)
  have z: "\<not> radix_tree_is_internal_node z" "z \<noteq> 0"
    using m(2) by (simp_all add: item_ok_def)
  have ms: "find_maxshift index 0 = 0"
    using shift_maxindex_less [of 0 index] assms(6) by (subst find_maxshift.simps) simp
  let ?m = "raised m 0"
  have "extend_loop m (rnode m) (6 * 0) 0 = Some (6, ?m)"
    by (subst extend_step [OF assms(3,2) m(3,4)]) (use m(1) z in simp_all)
  then have "radix_tree_extend m index 0 = Some (6, ?m)"
    using ms m(1) z by (simp add: radix_tree_extend_def)
  then have c: "radix_tree_create m index 0 = create_loop ?m index 0 (6 * Suc 0) (rnode ?m) 0 0 Root_slot"
    using mx by (simp add: radix_tree_create_def)
  have d: "digit 0 (unat index) = unat index"
    using assms(6) by (simp add: digit_def)
  have node: "rnode ?m = node_to_entry p" "rn_shift (nodes ?m p) = of_nat (6 * 0)" "rn_slots (nodes ?m p) ! unat index = y"
    using assms(2,4-7) by (simp_all add: raised_def top_node_def fresh_node_def Let_def)
  have "radix_tree_create m index 0 = Some (0, p, Slot p (unat index), ?m)"
    unfolding c node(1) create_shift [OF node(2) assms(3) le0] by (subst create_loop.simps) (simp add: d)
  then have i: "radix_tree_insert m index x = Some (- RT_EEXIST, ?m)"
    using node(3) assms(8,9)
    by (simp add: radix_tree_insert_def raw_radix_tree_insert_def insert_entires_def read_slot_def item_ok_def RT_EEXIST_def)
  have "radix_tree_load_root ?m = (node_to_entry p, shift_maxindex (6 * 0), 6)"
    using node(1,2) assms(3) by (simp add: radix_tree_load_root_def node_maxindex_def RADIX_TREE_MAP_SHIFT_def)
  moreover have "\<not> shift_maxindex (6 * 0) < index"
    using shift_maxindex_less [of 0 index] assms(6) by simp
  moreover have "lookup_loop ?m index (node_to_entry p) 0 Root_slot = Some (y, p, Slot p (unat index))"
    using descend_shift [OF node(2) le0, of index] node(3) assms(3,8) d
    by (subst lookup_loop.simps, subst lookup_loop.simps) (simp add: item_ok_def)
  ultimately have "radix_tree_lookup ?m index = Some y"
    by (simp add: radix_tree_lookup_def raw_radix_tree_lookup_def)
  moreover have "radix_tree_lookup m index = Some 0"
    using mx by (simp add: radix_tree_lookup_def raw_radix_tree_lookup_def)
  ultimately show ?thesis
    using i by blast
qed

theorem radix_tree_insert_stale_witness:
  "radix_tree_lookup stale_mem 5 = Some 0 \<and>
   (\<exists>m'. radix_tree_insert stale_mem 5 0x9000 = Some (- RT_EEXIST, m') \<and> radix_tree_lookup m' 5 = Some 0x7770)"
proof (rule radix_tree_insert_stale)
  show "radix stale_mem 0 (Item 0x9000)"
    by (rule stale_mem_ok)
  show "pool stale_mem = 0x1000 # [0x2000, 0x3000, 0x4000, 0x5000, 0x6000, 0x7000, 0x8000]"
    by (simp add: stale_mem_def sample_one_def sample_mem_def)
qed (simp_all add: stale_mem_def ptr_ok_def item_ok_def radix_tree_is_internal_node_def)

end
