(* ===== verification/Printf.thy ===== *)
theory Printf
  imports Prelude
begin

text \<open>
  The formatted printing of the userspace slub allocators,
  \<open>Memory-Allocator/HIGHMEM-MECH/highmem_userspace/mm/kasprintf.c\<close>, with the helpers of
  \<open>include/linux/biscuitos.h\<close> it uses. The build is 32 bits wide: \<open>long\<close>, \<open>size_t\<close> and
  pointers have 32 bits, \<open>long long\<close> has 64.

  A format is the list of its bytes; reading at or behind its end gives the terminating zero.
  The memory from the output buffer on is a list of bytes, the pointer \<open>str\<close> an offset into
  it, and \<open>end\<close> the offset where writing has to stop, so that a write behind the buffer is
  visible in the model. Variable arguments are a list of typed values. What is undefined in C
  gives \<open>None\<close>: taking an argument that is missing or has another type, an overflow of \<open>int\<close> in a
  width or precision, negating the smallest \<open>long long\<close>, and a position that does not fit an \<open>int\<close> or
  runs over the end of the address space.
\<close>

section \<open>Flags, conversion types and the conversion specification\<close>

type_synonym byte = "8 word"

definition SIGN :: byte where "SIGN = 1"

definition LEFT :: byte where "LEFT = 2"

definition PLUS :: byte where "PLUS = 4"

definition SPACE :: byte where "SPACE = 8"

definition ZEROPAD :: byte where "ZEROPAD = 16"

definition SMALL :: byte where "SMALL = 32"

definition SPECIAL :: byte where "SPECIAL = 64"

datatype format_type =
    FORMAT_TYPE_NONE | FORMAT_TYPE_WIDTH | FORMAT_TYPE_PRECISION | FORMAT_TYPE_CHAR
  | FORMAT_TYPE_STR | FORMAT_TYPE_PTR | FORMAT_TYPE_PERCENT_CHAR | FORMAT_TYPE_INVALID
  | FORMAT_TYPE_LONG_LONG | FORMAT_TYPE_ULONG | FORMAT_TYPE_LONG | FORMAT_TYPE_UBYTE
  | FORMAT_TYPE_BYTE | FORMAT_TYPE_USHORT | FORMAT_TYPE_SHORT | FORMAT_TYPE_UINT
  | FORMAT_TYPE_INT | FORMAT_TYPE_SIZE_T | FORMAT_TYPE_PTRDIFF

text \<open>
  The source adds the flag \<open>SIGN\<close>, which is 1, to an unsigned type to get the signed type that
  follows it in the enumeration.
\<close>

definition type_plus :: "format_type \<Rightarrow> byte \<Rightarrow> format_type" where
  "type_plus t k = (if k = 0 then t else
     (case t of FORMAT_TYPE_ULONG \<Rightarrow> FORMAT_TYPE_LONG
              | FORMAT_TYPE_UBYTE \<Rightarrow> FORMAT_TYPE_BYTE
              | FORMAT_TYPE_USHORT \<Rightarrow> FORMAT_TYPE_SHORT
              | FORMAT_TYPE_UINT \<Rightarrow> FORMAT_TYPE_INT
              | _ \<Rightarrow> t))"

text \<open>The bit fields of the source are words of their width; the signed ones are read by \<^const>\<open>sint\<close>.\<close>

record printf_spec =
  sp_type :: format_type
  field_width :: "24 word"
  flags :: byte
  base :: byte
  precision :: "16 word"

definition spec0 :: printf_spec where
  "spec0 = \<lparr>sp_type = FORMAT_TYPE_NONE, field_width = 0, flags = 0, base = 0, precision = 0\<rparr>"

definition has :: "printf_spec \<Rightarrow> byte \<Rightarrow> bool" where
  "has spec f \<longleftrightarrow> flags spec AND f \<noteq> 0"

definition set_field_width :: "printf_spec \<Rightarrow> u32 \<Rightarrow> printf_spec" where
  "set_field_width spec width = spec\<lparr>field_width := ucast width\<rparr>"

definition set_precision :: "printf_spec \<Rightarrow> u32 \<Rightarrow> printf_spec" where
  "set_precision spec prec = spec\<lparr>precision := ucast prec\<rparr>"

section \<open>Decimal digits\<close>

text \<open>
  \<open>decpair[x]\<close> holds the two digits of \<open>x\<close>, the lower one in the low byte, which is stored first.
\<close>

definition decpair :: "16 word list" where
  "decpair = map (\<lambda>x. (word_of_nat (x mod 10) OR push_bit 8 (word_of_nat (x div 10))) + 0x3030) [0..<100]"

definition store16 :: "byte list \<Rightarrow> nat \<Rightarrow> 16 word \<Rightarrow> byte list" where
  "store16 m i w = m[i := ucast w, Suc i := ucast (drop_bit 8 w)]"

definition do_div :: "u64 \<Rightarrow> u32 \<Rightarrow> u32 \<times> u64" where
  "do_div n b = (ucast (n mod ucast b), n div ucast b)"

definition mul_shift :: "u32 \<Rightarrow> u32" where
  "mul_shift r = ucast (drop_bit 32 (ucast r * 0x28f5c29 :: u64))"

definition put_dec_trunc8 :: "byte list \<times> nat \<Rightarrow> u32 \<Rightarrow> byte list \<times> nat" where
  "put_dec_trunc8 = (\<lambda>(m, buf) r.
     let out_r = (\<lambda>m buf r. (store16 m buf (decpair ! unat r), buf + (if r < 10 then 1 else 2)));
         out_q = (\<lambda>m buf q. out_r m buf q)
     in if r < 100 then out_r m buf r
        else let q = mul_shift r;
                 m = store16 m buf (decpair ! unat (r - 100 * q)); buf = buf + 2
        in if q < 100 then out_q m buf q
        else let r = mul_shift q;
                 m = store16 m buf (decpair ! unat (q - 100 * r)); buf = buf + 2
        in if r < 100 then out_r m buf r
        else let q = drop_bit 19 (r * 0x147b);
                 m = store16 m buf (decpair ! unat (r - 100 * q)); buf = buf + 2
        in out_q m buf q)"

definition put_dec_full8 :: "byte list \<times> nat \<Rightarrow> u32 \<Rightarrow> byte list \<times> nat" where
  "put_dec_full8 = (\<lambda>(m, buf) r.
     let q = mul_shift r;
         m = store16 m buf (decpair ! unat (r - 100 * q)); buf = buf + 2;
         r = mul_shift q;
         m = store16 m buf (decpair ! unat (q - 100 * r)); buf = buf + 2;
         q = drop_bit 19 (r * 0x147b);
         m = store16 m buf (decpair ! unat (r - 100 * q)); buf = buf + 2;
         m = store16 m buf (decpair ! unat q); buf = buf + 2
     in (m, buf))"

definition put_dec :: "byte list \<times> nat \<Rightarrow> u64 \<Rightarrow> byte list \<times> nat" where
  "put_dec b n =
     (let (b, n) = (if 100 * 1000 * 1000 \<le> n
            then let (r, n) = do_div n (100 * 1000 * 1000) in (put_dec_full8 b r, n) else (b, n));
          (b, n) = (if 100 * 1000 * 1000 \<le> n
            then let (r, n) = do_div n (100 * 1000 * 1000) in (put_dec_full8 b r, n) else (b, n))
      in put_dec_trunc8 b (ucast n))"

section \<open>Writing into the buffer\<close>

record out =
  mem :: "byte list"
  str :: nat

text \<open>\<open>if (str < end) *str = c; ++str;\<close>\<close>

definition putc :: "nat \<Rightarrow> byte \<Rightarrow> out \<Rightarrow> out" where
  "putc e c s = \<lparr>mem = (if str s < e then (mem s)[str s := c] else mem s), str = Suc (str s)\<rparr>"

text \<open>\<open>memcpy\<close> and \<open>memset\<close> store a run of bytes.\<close>

primrec store_bytes :: "byte list \<Rightarrow> nat \<Rightarrow> byte list \<Rightarrow> byte list" where
  "store_bytes m d [] = m"
| "store_bytes m d (b # bs) = store_bytes (m[d := b]) (Suc d) bs"

text \<open>\<open>while (--field_width >= 0) putc(c)\<close>: the output and the value the counter is left with.\<close>

function pad_ge :: "nat \<Rightarrow> byte \<Rightarrow> out \<Rightarrow> int \<Rightarrow> out \<times> int" where
  "pad_ge e c s w = (if 0 \<le> w - 1 then pad_ge e c (putc e c s) (w - 1) else (s, w - 1))"
  by auto
termination by (relation "measure (\<lambda>(_, _, _, w). nat w)") auto

declare pad_ge.simps [simp del]

section \<open>Numbers\<close>

definition hex_asc_upper :: "byte list" where
  "hex_asc_upper = [0x30, 0x31, 0x32, 0x33, 0x34, 0x35, 0x36, 0x37, 0x38, 0x39,
                    0x41, 0x42, 0x43, 0x44, 0x45, 0x46]"

text \<open>The \<open>do\<close> loop for the bases 8 and 16.\<close>

function put_pow2 :: "byte \<Rightarrow> byte \<Rightarrow> byte list \<Rightarrow> nat \<Rightarrow> u64 \<Rightarrow> byte list \<times> nat" where
  "put_pow2 b locase tmp i num =
     (let shift = (if b = 16 then 4 else 3);
          tmp = tmp[i := (hex_asc_upper ! unat ((ucast num :: byte) AND (b - 1))) OR locase];
          i = Suc i;
          num' = drop_bit shift num
      in if num' \<noteq> 0 then put_pow2 b locase tmp i num' else (tmp, i))"
  by auto
termination
proof (relation "measure (\<lambda>(_, _, _, _, num). unat num)")
  fix b locase :: byte and tmp :: "byte list" and i :: nat and num x num' :: u64 and shift :: nat
  assume "shift = (if b = 16 then 4 else 3)" "num' = drop_bit shift num" "num' \<noteq> 0"
  then have "num \<noteq> 0" "1 < (2::nat) ^ shift"
    by (auto split: if_splits)
  moreover have "unat num' = unat num div 2 ^ shift"
    using \<open>num' = drop_bit shift num\<close> by (simp only: unat_drop_bit_eq) (simp add: drop_bit_eq_div)
  ultimately have "unat num' < unat num"
    by (simp add: unat_gt_0)
  then show "((b, locase, y, j, num'), b, locase, tmp, i, num)
      \<in> measure (\<lambda>(_, _, _, _, num). unat num)" for y j
    by simp
qed auto

declare put_pow2.simps [simp del]

text \<open>\<open>while (i <= --precision) putc('0')\<close>\<close>

function pad_prec :: "nat \<Rightarrow> int \<Rightarrow> out \<Rightarrow> int \<Rightarrow> out" where
  "pad_prec e i s p = (if i \<le> p - 1 then pad_prec e i (putc e 0x30 s) (p - 1) else s)"
  by auto
termination by (relation "measure (\<lambda>(_, i, _, p). nat (p - i))") auto

declare pad_prec.simps [simp del]

text \<open>\<open>while (--i >= 0) putc(tmp[i])\<close>\<close>

primrec put_rev :: "nat \<Rightarrow> byte list \<Rightarrow> nat \<Rightarrow> out \<Rightarrow> out" where
  "put_rev e tmp 0 s = s"
| "put_rev e tmp (Suc i) s = put_rev e tmp i (putc e (tmp ! i) s)"

text \<open>The digits of a number in the local array \<open>tmp\<close>, least significant first, and their count.\<close>

definition number_digits :: "byte \<Rightarrow> byte \<Rightarrow> u64 \<Rightarrow> byte list \<times> nat" where
  "number_digits b locase num =
     (let tmp = replicate (3 * 8) 0
      in if num < ucast b then (tmp[0 := (hex_asc_upper ! unat num) OR locase], 1)
         else if b \<noteq> 10 then put_pow2 b locase tmp 0 num
         else put_dec (tmp, 0) num)"

definition put_number :: "nat \<Rightarrow> u64 \<Rightarrow> printf_spec \<Rightarrow> out \<Rightarrow> out" where
  "put_number e num spec s =
     (let need_pfx = (has spec SPECIAL \<and> base spec \<noteq> 10);
          is_zero = (num = 0);
          fw = sint (field_width spec);
          prec = sint (precision spec);
          locase = flags spec AND SMALL;
          spec = (if has spec LEFT then spec\<lparr>flags := flags spec AND NOT ZEROPAD\<rparr> else spec);
          (sign, num, fw) =
            (if has spec SIGN
             then if sint num < 0 then (0x2D, - num, fw - 1)
                  else if has spec PLUS then (0x2B, num, fw - 1)
                  else if has spec SPACE then (0x20, num, fw - 1)
                  else (0, num, fw)
             else (0, num, fw));
          fw = (if need_pfx then if base spec = 16 then fw - 2 else if \<not> is_zero then fw - 1 else fw
                else fw);
          (tmp, i) = number_digits (base spec) locase num;
          prec = (if prec < int i then int i else prec);
          fw = fw - prec;
          (s, fw) = (if \<not> has spec (ZEROPAD OR LEFT) then pad_ge e 0x20 s fw else (s, fw));
          s = (if sign \<noteq> 0 then putc e sign s else s);
          s = (if need_pfx
               then let s = (if base spec = 16 \<or> \<not> is_zero then putc e 0x30 s else s)
                    in if base spec = 16 then putc e (0x58 OR locase) s else s
               else s);
          (s, fw) = (if \<not> has spec LEFT then pad_ge e (0x20 + (flags spec AND ZEROPAD)) s fw else (s, fw));
          s = pad_prec e (int i) s prec;
          s = put_rev e tmp i s
      in fst (pad_ge e 0x20 s fw))"

text \<open>\<open>-(signed long long)num\<close> overflows for the smallest number.\<close>

definition LLONG_MIN :: u64 where "LLONG_MIN = 0x8000000000000000"

definition number :: "nat \<Rightarrow> u64 \<Rightarrow> printf_spec \<Rightarrow> out \<Rightarrow> out option" where
  "number e num spec s = (if has spec SIGN \<and> num = LLONG_MIN then None else Some (put_number e num spec s))"

section \<open>Strings\<close>

definition move_right :: "nat \<Rightarrow> nat \<Rightarrow> nat \<Rightarrow> nat \<Rightarrow> byte list \<Rightarrow> byte list" where
  "move_right buf e len spaces m =
     (if e \<le> buf then m
      else let size = e - buf
      in if size \<le> spaces then store_bytes m buf (replicate size 0x20)
      else let m = (if len \<noteq> 0
                    then let len = (if size - spaces < len then size - spaces else len)
                         in memmove m (buf + spaces) buf len
                    else m)
      in store_bytes m buf (replicate spaces 0x20))"

definition widen_string :: "nat \<Rightarrow> nat \<Rightarrow> printf_spec \<Rightarrow> out \<Rightarrow> out" where
  "widen_string n e spec s =
     (if sint (field_width spec) \<le> int n then s
      else let spaces = nat (sint (field_width spec) - int n)
      in if \<not> has spec LEFT
         then \<lparr>mem = move_right (str s - n) e n spaces (mem s), str = str s + spaces\<rparr>
         else (putc e 0x20 ^^ spaces) s)"

text \<open>\<open>while (lim--)\<close> over the bytes of a string.\<close>

primrec copy_string :: "nat \<Rightarrow> byte list \<Rightarrow> u32 \<Rightarrow> nat \<Rightarrow> out \<Rightarrow> out \<times> nat" where
  "copy_string e [] lim len s = (s, len)"
| "copy_string e (c # cs) lim len s =
     (if lim = 0 \<or> c = 0 then (s, len) else copy_string e cs (lim - 1) (Suc len) (putc e c s))"

definition PAGE_SIZE :: u32 where "PAGE_SIZE = push_bit 12 1"

definition null_text :: "byte list" where
  "null_text = [0x28, 0x6E, 0x75, 0x6C, 0x6C, 0x29]"

text \<open>A string argument is its address and the bytes stored there.\<close>

definition string :: "nat \<Rightarrow> u32 \<times> byte list \<Rightarrow> printf_spec \<Rightarrow> out \<Rightarrow> out" where
  "string e = (\<lambda>(addr, bytes) spec s.
     let lim = scast (precision spec);
         txt = (if addr < PAGE_SIZE then null_text else bytes);
         (s, len) = copy_string e txt lim 0 s
     in widen_string len e spec s)"

end
