(* ===== verification/Printf_Format.thy ===== *)
theory Printf_Format
  imports Printf
begin

text \<open>
  The second half of \<open>mm/kasprintf.c\<close>: decoding of a format, \<open>vsnprintf\<close>, and its clients
  \<open>kvasprintf\<close>, \<open>kasprintf\<close>, \<open>kstrdup\<close> and, in \<open>mm/slub.c\<close>, \<open>kmalloc_cache_name\<close>.
  \<open>format_decode\<close> jumps to the labels \<open>precision\<close> and \<open>qualifier\<close>; each label is a definition
  of its own. \<open>%p\<close> calls \<open>pointer\<close>, whose body has no \<open>return\<close>: the value the caller uses is
  undefined, which the model makes \<open>None\<close>.
\<close>

section \<open>Reading the format\<close>

definition deref :: "byte list \<Rightarrow> byte" where
  "deref s = (case s of [] \<Rightarrow> 0 | c # _ \<Rightarrow> c)"

definition isdigit :: "byte \<Rightarrow> bool" where
  "isdigit c \<longleftrightarrow> 0x30 \<le> c \<and> c \<le> 0x39"

definition to_lower :: "byte \<Rightarrow> byte" where
  "to_lower c = c OR 0x20"

lemma deref_Nil [simp]: "deref [] = 0"
  by (simp add: deref_def)

lemma deref_Cons [simp]: "deref (c # cs) = c"
  by (simp add: deref_def)

lemma tl_shorter: "deref (tl s) \<noteq> 0 \<Longrightarrow> length s - Suc 0 < length s"
  by (cases s) auto

lemma tl_shorter': "deref s \<noteq> 0 \<Longrightarrow> length s - Suc 0 < length s"
  by (cases s) auto

lemma isdigit_nonzero: "isdigit c \<Longrightarrow> c \<noteq> 0"
  by (auto simp: isdigit_def)

function skip_atoi :: "byte list \<Rightarrow> u32 \<Rightarrow> u32 \<times> byte list" where
  "skip_atoi s i =
     (let i = i * 10 + scast (deref s) - 0x30; s' = tl s
      in if isdigit (deref s') then skip_atoi s' i else (i, s'))"
  by auto
termination
  by (relation "measure (length \<circ> fst)") (auto dest!: isdigit_nonzero tl_shorter)

declare skip_atoi.simps [simp del]

text \<open>The sum \<open>i*10 + *s\<close> of \<open>skip_atoi\<close> stays an \<open>int\<close> in every round.\<close>

function atoi_defined :: "byte list \<Rightarrow> u32 \<Rightarrow> bool" where
  "atoi_defined s i =
     (if sint i * 10 + sint (deref s) \<le> 2 ^ 31 - 1
      then if isdigit (deref (tl s)) then atoi_defined (tl s) (i * 10 + scast (deref s) - 0x30) else True
      else False)"
  by auto
termination
  by (relation "measure (length \<circ> fst)") (auto dest!: isdigit_nonzero tl_shorter)

declare atoi_defined.simps [simp del]

text \<open>\<open>for (; *fmt; ++fmt) if (*fmt == '%') break;\<close>\<close>

primrec skip_plain :: "byte list \<Rightarrow> byte list" where
  "skip_plain [] = []"
| "skip_plain (c # cs) = (if c = 0 \<or> c = 0x25 then c # cs else skip_plain cs)"

definition flag_of :: "byte \<Rightarrow> byte option" where
  "flag_of c =
     (if c = 0x2D then Some LEFT else if c = 0x2B then Some PLUS else if c = 0x20 then Some SPACE
      else if c = 0x23 then Some SPECIAL else if c = 0x30 then Some ZEROPAD else None)"

lemma flag_of_nonzero: "flag_of c = Some f \<Longrightarrow> c \<noteq> 0"
  by (auto simp: flag_of_def)

function decode_flags :: "byte list \<Rightarrow> printf_spec \<Rightarrow> byte list \<times> printf_spec" where
  "decode_flags fmt spec =
     (let fmt' = tl fmt
      in case flag_of (deref fmt') of
           None \<Rightarrow> (fmt', spec)
         | Some f \<Rightarrow> decode_flags fmt' (spec\<lparr>flags := flags spec OR f\<rparr>))"
  by auto
termination
  by (relation "measure (length \<circ> fst)") (auto dest!: flag_of_nonzero tl_shorter)

declare decode_flags.simps [simp del]

definition offset :: "byte list \<Rightarrow> byte list \<Rightarrow> nat" where
  "offset start fmt = length start - length fmt"

definition qualifier_of :: "byte list \<Rightarrow> byte \<times> byte list" where
  "qualifier_of fmt =
     (let c = deref fmt
      in if c = 0x68 \<or> to_lower c = 0x6C \<or> c = 0x7A \<or> c = 0x74
         then let q = c; fmt = tl fmt
              in if q = deref fmt
                 then if q = 0x6C then (0x4C, tl fmt) else if q = 0x68 then (0x48, tl fmt) else (q, fmt)
                 else (q, fmt)
         else (0, fmt))"

definition int_type :: "byte \<Rightarrow> printf_spec \<Rightarrow> format_type" where
  "int_type q spec =
     (if q = 0x4C then FORMAT_TYPE_LONG_LONG
      else if q = 0x6C then type_plus FORMAT_TYPE_ULONG (flags spec AND SIGN)
      else if q = 0x7A then FORMAT_TYPE_SIZE_T
      else if q = 0x74 then FORMAT_TYPE_PTRDIFF
      else if q = 0x48 then type_plus FORMAT_TYPE_UBYTE (flags spec AND SIGN)
      else if q = 0x68 then type_plus FORMAT_TYPE_USHORT (flags spec AND SIGN)
      else type_plus FORMAT_TYPE_UINT (flags spec AND SIGN))"

definition decode_qualifier :: "byte list \<Rightarrow> byte list \<Rightarrow> printf_spec \<Rightarrow> nat \<times> printf_spec" where
  "decode_qualifier start fmt spec =
     (let (q, fmt) = qualifier_of fmt;
          spec = spec\<lparr>base := 10\<rparr>;
          c = deref fmt;
          integer = (\<lambda>spec. (offset start (tl fmt), spec\<lparr>sp_type := int_type q spec\<rparr>))
      in if c = 0x63 then (offset start (tl fmt), spec\<lparr>sp_type := FORMAT_TYPE_CHAR\<rparr>)
         else if c = 0x73 then (offset start (tl fmt), spec\<lparr>sp_type := FORMAT_TYPE_STR\<rparr>)
         else if c = 0x70 then (offset start (tl fmt), spec\<lparr>sp_type := FORMAT_TYPE_PTR\<rparr>)
         else if c = 0x25 then (offset start (tl fmt), spec\<lparr>sp_type := FORMAT_TYPE_PERCENT_CHAR\<rparr>)
         else if c = 0x6F then integer (spec\<lparr>base := 8\<rparr>)
         else if c = 0x78 then integer (spec\<lparr>flags := flags spec OR SMALL, base := 16\<rparr>)
         else if c = 0x58 then integer (spec\<lparr>base := 16\<rparr>)
         else if c = 0x64 \<or> c = 0x69 then integer (spec\<lparr>flags := flags spec OR SIGN\<rparr>)
         else if c = 0x75 then integer spec
         else (offset start fmt, spec\<lparr>sp_type := FORMAT_TYPE_INVALID\<rparr>))"

definition decode_precision :: "byte list \<Rightarrow> byte list \<Rightarrow> printf_spec \<Rightarrow> nat \<times> printf_spec" where
  "decode_precision start fmt spec =
     (let spec = spec\<lparr>precision := - 1\<rparr>
      in if deref fmt = 0x2E
         then let fmt = tl fmt
              in if isdigit (deref fmt)
                 then let (i, fmt) = skip_atoi fmt 0;
                          spec = spec\<lparr>precision := ucast i\<rparr>;
                          spec = (if sint (precision spec) < 0 then spec\<lparr>precision := 0\<rparr> else spec)
                      in decode_qualifier start fmt spec
                 else if deref fmt = 0x2A
                 then (offset start (tl fmt), spec\<lparr>sp_type := FORMAT_TYPE_PRECISION\<rparr>)
                 else decode_qualifier start fmt spec
         else decode_qualifier start fmt spec)"

definition format_decode :: "byte list \<Rightarrow> printf_spec \<Rightarrow> nat \<times> printf_spec" where
  "format_decode fmt spec =
     (if sp_type spec = FORMAT_TYPE_WIDTH
      then let spec = (if sint (field_width spec) < 0
                       then spec\<lparr>field_width := - field_width spec, flags := flags spec OR LEFT\<rparr>
                       else spec)
           in decode_precision fmt fmt (spec\<lparr>sp_type := FORMAT_TYPE_NONE\<rparr>)
      else if sp_type spec = FORMAT_TYPE_PRECISION
      then let spec = (if sint (precision spec) < 0 then spec\<lparr>precision := 0\<rparr> else spec)
           in decode_qualifier fmt fmt (spec\<lparr>sp_type := FORMAT_TYPE_NONE\<rparr>)
      else let spec = spec\<lparr>sp_type := FORMAT_TYPE_NONE\<rparr>;
               start = fmt;
               fmt = skip_plain fmt
           in if offset start fmt \<noteq> 0 \<or> deref fmt = 0 then (offset start fmt, spec)
              else let (fmt, spec) = decode_flags fmt (spec\<lparr>flags := 0\<rparr>);
                       spec = spec\<lparr>field_width := - 1\<rparr>
                   in if isdigit (deref fmt)
                      then let (i, fmt) = skip_atoi fmt 0
                           in decode_precision start fmt (spec\<lparr>field_width := ucast i\<rparr>)
                      else if deref fmt = 0x2A
                      then (offset start (tl fmt), spec\<lparr>sp_type := FORMAT_TYPE_WIDTH\<rparr>)
                      else decode_precision start fmt spec)"

text \<open>Whether decoding calls \<open>skip_atoi\<close> on numbers that an \<open>int\<close> holds only.\<close>

definition precision_defined :: "byte list \<Rightarrow> bool" where
  "precision_defined fmt \<longleftrightarrow> (deref fmt = 0x2E \<and> isdigit (deref (tl fmt)) \<longrightarrow> atoi_defined (tl fmt) 0)"

definition format_defined :: "byte list \<Rightarrow> printf_spec \<Rightarrow> bool" where
  "format_defined fmt spec =
     (if sp_type spec = FORMAT_TYPE_WIDTH then precision_defined fmt
      else if sp_type spec = FORMAT_TYPE_PRECISION then True
      else let start = fmt; fmt = skip_plain fmt
           in if offset start fmt \<noteq> 0 \<or> deref fmt = 0 then True
              else let (fmt, _) = decode_flags fmt spec0
                   in if isdigit (deref fmt) then atoi_defined fmt 0 \<and> precision_defined (snd (skip_atoi fmt 0))
                      else if deref fmt = 0x2A then True
                      else precision_defined fmt)"

section \<open>Arguments\<close>

datatype varg =
    Arg_int u32
  | Arg_long u32
  | Arg_llong u64
  | Arg_str "u32 \<times> byte list"
  | Arg_ptr u32

fun va_int :: "varg list \<Rightarrow> (u32 \<times> varg list) option" where
  "va_int (Arg_int x # args) = Some (x, args)"
| "va_int _ = None"

fun va_long :: "varg list \<Rightarrow> (u32 \<times> varg list) option" where
  "va_long (Arg_long x # args) = Some (x, args)"
| "va_long _ = None"

fun va_llong :: "varg list \<Rightarrow> (u64 \<times> varg list) option" where
  "va_llong (Arg_llong x # args) = Some (x, args)"
| "va_llong _ = None"

fun va_str :: "varg list \<Rightarrow> ((u32 \<times> byte list) \<times> varg list) option" where
  "va_str (Arg_str x # args) = Some (x, args)"
| "va_str _ = None"

text \<open>The inner \<open>switch\<close> of \<open>vsnprintf\<close>: the value of an integer argument, converted to 64 bits.\<close>

definition fetch_num :: "printf_spec \<Rightarrow> varg list \<Rightarrow> (u64 \<times> varg list) option" where
  "fetch_num spec args =
     (case sp_type spec of
        FORMAT_TYPE_LONG_LONG \<Rightarrow> va_llong args
      | FORMAT_TYPE_ULONG \<Rightarrow> map_option (\<lambda>(x, a). (ucast x, a)) (va_long args)
      | FORMAT_TYPE_LONG \<Rightarrow> map_option (\<lambda>(x, a). (scast x, a)) (va_long args)
      | FORMAT_TYPE_SIZE_T \<Rightarrow>
          map_option (\<lambda>(x, a). (if has spec SIGN then scast x else ucast x, a)) (va_int args)
      | FORMAT_TYPE_PTRDIFF \<Rightarrow> map_option (\<lambda>(x, a). (scast x, a)) (va_long args)
      | FORMAT_TYPE_UBYTE \<Rightarrow> map_option (\<lambda>(x, a). (ucast (ucast x :: byte), a)) (va_int args)
      | FORMAT_TYPE_BYTE \<Rightarrow> map_option (\<lambda>(x, a). (scast (ucast x :: byte), a)) (va_int args)
      | FORMAT_TYPE_USHORT \<Rightarrow> map_option (\<lambda>(x, a). (ucast (ucast x :: 16 word), a)) (va_int args)
      | FORMAT_TYPE_SHORT \<Rightarrow> map_option (\<lambda>(x, a). (scast (ucast x :: 16 word), a)) (va_int args)
      | FORMAT_TYPE_INT \<Rightarrow> map_option (\<lambda>(x, a). (scast x, a)) (va_int args)
      | _ \<Rightarrow> map_option (\<lambda>(x, a). (ucast x, a)) (va_int args))"

section \<open>vsnprintf\<close>

text \<open>\<open>while (--spec.field_width > 0) putc(' ')\<close> on the 24-bit field.\<close>

function pad_gt :: "nat \<Rightarrow> out \<Rightarrow> 24 word \<Rightarrow> out \<times> 24 word" where
  "pad_gt e s w = (if 0 < sint (w - 1) then pad_gt e (putc e 0x20 s) (w - 1) else (s, w - 1))"
  by auto
termination
proof (relation "measure (\<lambda>(_, _, w). unat w)")
  fix e s and w :: "24 word"
  assume "0 < sint (w - 1)"
  then have "w \<noteq> 0"
    by auto
  then show "((e, putc e 0x20 s, w - 1), e, s, w) \<in> measure (\<lambda>(_, _, w). unat w)"
    by (simp add: unat_minus_one unat_gt_0)
qed auto

declare pad_gt.simps [simp del]

text \<open>The body of the outer \<open>switch\<close>; \<open>fmt\<close> is the format before the \<open>read\<close> bytes of this step.\<close>

definition vsn_step ::
  "nat \<Rightarrow> byte list \<Rightarrow> nat \<Rightarrow> varg list \<Rightarrow> printf_spec \<Rightarrow> out \<Rightarrow> (varg list \<times> printf_spec \<times> out) option"
where
  "vsn_step e fmt read args spec s =
     (case sp_type spec of
        FORMAT_TYPE_NONE \<Rightarrow>
          Some (args, spec,
            \<lparr>mem = (if str s < e
                    then let copy = (if e - str s < read then e - str s else read)
                         in store_bytes (mem s) (str s) (take copy fmt)
                    else mem s),
             str = str s + read\<rparr>)
      | FORMAT_TYPE_WIDTH \<Rightarrow> map_option (\<lambda>(x, args). (args, set_field_width spec x, s)) (va_int args)
      | FORMAT_TYPE_PRECISION \<Rightarrow> map_option (\<lambda>(x, args). (args, set_precision spec x, s)) (va_int args)
      | FORMAT_TYPE_CHAR \<Rightarrow>
          map_option (\<lambda>(x, args).
            let (s, w) = (if \<not> has spec LEFT then pad_gt e s (field_width spec) else (s, field_width spec));
                s = putc e (ucast x) s;
                (s, w) = pad_gt e s w
            in (args, spec\<lparr>field_width := w\<rparr>, s)) (va_int args)
      | FORMAT_TYPE_STR \<Rightarrow> map_option (\<lambda>(x, args). (args, spec, string e x spec s)) (va_str args)
      | FORMAT_TYPE_PTR \<Rightarrow> None
      | FORMAT_TYPE_PERCENT_CHAR \<Rightarrow> Some (args, spec, putc e 0x25 s)
      | _ \<Rightarrow> Option.bind (fetch_num spec args) (\<lambda>(num, args). map_option (\<lambda>s. (args, spec, s)) (number e num spec s)))"

text \<open>Every step that does not end the loop reads at least one byte of the format.\<close>

lemma length_skip_atoi: "length (snd (skip_atoi s i)) \<le> length s - 1"
proof (induction s i rule: skip_atoi.induct)
  case (1 s i)
  then show ?case
    by (subst skip_atoi.simps) (fastforce simp: Let_def)
qed

lemma length_decode_flags: "length (fst (decode_flags fmt spec)) \<le> length fmt - 1"
proof (induction fmt spec rule: decode_flags.induct)
  case (1 fmt spec)
  then show ?case
    by (subst decode_flags.simps) (fastforce simp: Let_def split: option.split)
qed

lemma length_skip_plain: "length (skip_plain fmt) \<le> length fmt"
  by (induction fmt) auto

lemma length_qualifier_of: "length (snd (qualifier_of fmt)) \<le> length fmt"
  by (auto simp: qualifier_of_def Let_def)

lemma decode_qualifier_read:
  assumes "decode_qualifier start fmt spec = (r, spec')" "length fmt \<le> length start"
    and "sp_type spec' \<noteq> FORMAT_TYPE_INVALID"
  shows "0 < r \<and> sp_type spec' \<noteq> FORMAT_TYPE_NONE"
proof -
  obtain q fmt' where q: "qualifier_of fmt = (q, fmt')"
    by fastforce
  have len: "length fmt' \<le> length start"
    using length_qualifier_of [of fmt] q assms(2) by simp
  have "deref fmt' \<noteq> 0 \<Longrightarrow> 0 < offset start (tl fmt')"
    using len tl_shorter' [of fmt'] by (simp add: offset_def)
  then show ?thesis
    using assms(1,3) q
    by (auto simp: decode_qualifier_def Let_def int_type_def type_plus_def split: if_splits)
qed

lemma decode_precision_read:
  assumes "decode_precision start fmt spec = (r, spec')" "length fmt \<le> length start"
    and "sp_type spec' \<noteq> FORMAT_TYPE_INVALID"
  shows "0 < r \<and> sp_type spec' \<noteq> FORMAT_TYPE_NONE"
proof (cases "deref fmt = 0x2E \<and> \<not> isdigit (deref (tl fmt)) \<and> deref (tl fmt) = 0x2A")
  case True
  then have "length (tl (tl fmt)) < length fmt"
    using tl_shorter' [of fmt] by (simp add: less_Suc_eq_le)
  then show ?thesis
    using assms(1,2) True by (auto simp: decode_precision_def Let_def offset_def)
next
  case False
  have "length (snd (skip_atoi (tl fmt) 0)) \<le> length start" "length (tl fmt) \<le> length start"
    using length_skip_atoi [of "tl fmt" 0] assms(2) by simp_all
  moreover obtain f s where "decode_precision start fmt spec = decode_qualifier start f s"
      "f \<in> {fmt, tl fmt, snd (skip_atoi (tl fmt) 0)}"
    using False unfolding decode_precision_def Let_def case_prod_unfold
    by (cases "deref fmt = 0x2E"; cases "isdigit (deref (tl fmt))") auto
  ultimately have "decode_qualifier start f s = (r, spec')" "length f \<le> length start"
    using assms(1,2) by auto
  then show ?thesis
    using assms(3) by (rule decode_qualifier_read)
qed

lemma format_decode_read:
  assumes "format_decode fmt spec = (r, spec')" "deref fmt \<noteq> 0"
    and "sp_type spec' \<noteq> FORMAT_TYPE_INVALID"
  shows "0 < r"
proof -
  have le: "length (skip_plain fmt) \<le> length fmt"
    by (rule length_skip_plain)
  let ?fs = "\<lambda>s. decode_flags (skip_plain fmt) s"
  have fl: "length (fst (?fs s)) \<le> length fmt" for s
    using length_decode_flags [of "skip_plain fmt" s] le by simp
  have at: "length (snd (skip_atoi (fst (?fs s)) 0)) \<le> length fmt" for s
    using length_skip_atoi [of "fst (?fs s)" 0] fl [of s] by linarith
  have star: "0 < offset fmt (tl (fst (?fs s)))" if "deref (fst (?fs s)) = 0x2A" for s
    using tl_shorter' [of "fst (?fs s)"] that fl [of s] by (simp add: offset_def)
  have plain: "0 < offset fmt (skip_plain fmt)" if "deref (skip_plain fmt) = 0"
    using that assms(2) le by (cases fmt) (auto simp: offset_def split: if_splits intro: le_imp_less_Suc length_skip_plain)
  show ?thesis
    using assms star plain fl at
    by (fastforce simp: format_decode_def Let_def case_prod_unfold split: if_splits
          dest: decode_precision_read decode_qualifier_read)
qed

text \<open>The main loop. \<open>FORMAT_TYPE_INVALID\<close> leaves it.\<close>

function vsn_loop :: "nat \<Rightarrow> byte list \<Rightarrow> varg list \<Rightarrow> printf_spec \<Rightarrow> out \<Rightarrow> out option" where
  "vsn_loop e fmt args spec s =
     (if deref fmt = 0 then Some s
      else if \<not> format_defined fmt spec then None
      else let (read, spec) = format_decode fmt spec
      in if sp_type spec = FORMAT_TYPE_INVALID then Some s
      else case vsn_step e fmt read args spec s of
             None \<Rightarrow> None
           | Some (args, spec, s) \<Rightarrow> vsn_loop e (drop read fmt) args spec s)"
  by auto
termination
proof (relation "measure (\<lambda>(_, fmt, _). length fmt)", goal_cases)
  case (2 e fmt args spec s x rd spec' p args' q spec'' s')
  then have "0 < rd"
    by (metis format_decode_read)
  moreover have "fmt \<noteq> []"
    using 2 by auto
  ultimately show ?case
    by simp
qed simp

declare vsn_loop.simps [simp del]

definition INT_MAX :: u32 where "INT_MAX = 0x7FFFFFFF"

text \<open>
  \<open>buf\<close> is the address of the buffer and \<open>m\<close> the memory from there on. The result is the
  returned number and the memory. \<open>str\<close> never gets smaller, so that its last value tells whether it has
  run over the end of the address space or whether \<open>str - buf\<close> is too large for an \<open>int\<close>.
\<close>

definition vsnprintf ::
  "u32 \<Rightarrow> byte list \<Rightarrow> u32 \<Rightarrow> byte list \<Rightarrow> varg list \<Rightarrow> (u32 \<times> byte list) option"
where
  "vsnprintf buf m sz fmt args =
     (if INT_MAX < sz then Some (0, m)
      else let sz = (if buf + sz < buf then - 1 - buf else sz); e = unat sz
      in case vsn_loop e fmt args spec0 \<lparr>mem = m, str = 0\<rparr> of
           None \<Rightarrow> None
         | Some s \<Rightarrow>
             if 2 ^ 31 \<le> str s \<or> 2 ^ 32 \<le> unat buf + str s then None
             else Some (of_nat (str s),
                   if 0 < sz
                   then if str s < e then (mem s)[str s := 0] else (mem s)[e - 1 := 0]
                   else mem s))"

section \<open>Clients\<close>

text \<open>
  \<open>alloc n\<close> stands for \<open>kmalloc_track_caller(n, gfp)\<close>: the address of a fresh object and the
  memory from there on, or \<open>None\<close> for \<open>NULL\<close>. The result is the returned pointer with the
  memory behind it, and whether the two lengths differed, which is reported by \<open>printk\<close>.
\<close>

type_synonym allocator = "nat \<Rightarrow> (u32 \<times> byte list) option"

definition kvasprintf ::
  "allocator \<Rightarrow> byte list \<Rightarrow> varg list \<Rightarrow> ((u32 \<times> byte list) option \<times> bool) option"
where
  "kvasprintf alloc fmt ap =
     (case vsnprintf 0 [] 0 fmt ap of
        None \<Rightarrow> None
      | Some (first, _) \<Rightarrow>
          (case alloc (unat (first + 1)) of
             None \<Rightarrow> Some (None, False)
           | Some (p, m) \<Rightarrow>
               (case vsnprintf p m (first + 1) fmt ap of
                  None \<Rightarrow> None
                | Some (second, m) \<Rightarrow> Some (Some (p, m), first \<noteq> second))))"

definition kasprintf ::
  "allocator \<Rightarrow> byte list \<Rightarrow> varg list \<Rightarrow> ((u32 \<times> byte list) option \<times> bool) option"
where
  "kasprintf alloc fmt ap = kvasprintf alloc fmt ap"

definition strlen :: "byte list \<Rightarrow> nat" where
  "strlen s = length (takeWhile (\<lambda>c. c \<noteq> 0) s)"

definition kstrdup :: "allocator \<Rightarrow> u32 \<times> byte list \<Rightarrow> (u32 \<times> byte list) option" where
  "kstrdup alloc = (\<lambda>(addr, s).
     if addr = 0 then None
     else let len = strlen s + 1
     in map_option (\<lambda>(p, m). (p, store_bytes m 0 (take len (s @ [0])))) (alloc len))"

definition is_kernel_rodata :: "u32 \<Rightarrow> bool" where
  "is_kernel_rodata x \<longleftrightarrow> False"

definition kstrdup_const :: "allocator \<Rightarrow> u32 \<times> byte list \<Rightarrow> (u32 \<times> byte list) option" where
  "kstrdup_const alloc s = (if is_kernel_rodata (fst s) then Some s else kstrdup alloc s)"

text \<open>\<open>kfree\<close> is an argument of \<open>kfree_const\<close>: it takes the pointer and the allocator's state.\<close>

definition kfree_const :: "(u32 \<Rightarrow> 's \<Rightarrow> 's) \<Rightarrow> u32 \<Rightarrow> 's \<Rightarrow> 's" where
  "kfree_const kfree x st = (if \<not> is_kernel_rodata x then kfree x st else st)"

function scale_size :: "u32 \<Rightarrow> nat \<Rightarrow> u32 \<times> nat" where
  "scale_size sz idx =
     (if 1024 \<le> sz \<and> sz mod 1024 = 0 then scale_size (sz div 1024) (Suc idx) else (sz, idx))"
  by auto
termination
proof (relation "measure (\<lambda>(sz, _). unat sz)")
  fix sz :: u32 and idx :: nat
  assume "1024 \<le> sz \<and> sz mod 1024 = 0"
  then have "1024 \<le> unat sz"
    by (simp add: word_le_nat_alt)
  then show "((sz div 1024, Suc idx), sz, idx) \<in> measure (\<lambda>(sz, _). unat sz)"
    by (simp add: unat_div)
qed simp

declare scale_size.simps [simp del]

text \<open>\<open>units\<close> is an array of the three characters \<open>\0kM\<close>; an index behind it is undefined.\<close>

definition units :: "byte list" where "units = [0, 0x6B, 0x4D]"

definition kmalloc_cache_name ::
  "allocator \<Rightarrow> u32 \<times> byte list \<Rightarrow> u32 \<Rightarrow> ((u32 \<times> byte list) option \<times> bool) option"
where
  "kmalloc_cache_name alloc prefix sz =
     (let (sz, idx) = scale_size sz 0
      in if idx < length units
         then kasprintf alloc [0x25, 0x73, 0x2D, 0x25, 0x75, 0x25, 0x63]
                [Arg_str prefix, Arg_int sz, Arg_int (scast (units ! idx))]
         else None)"

end
