(* ===== verification/Printf_Digits.thy ===== *)
theory Printf_Digits
  imports Printf
begin

text \<open>
  The digits of \<open>mm/kasprintf.c\<close>. The reference is \<open>digits b n\<close>, the digits of \<open>n\<close> to the base
  \<open>b\<close>, least significant first. \<open>put_dec\<close> computes them in pairs, with multiplications in place
  of divisions and a table of pairs; the bases 8 and 16 use masks and shifts.
\<close>

section \<open>Reference digits\<close>

function digits :: "nat \<Rightarrow> nat \<Rightarrow> nat list" where
  "digits b n = (if n < b \<or> b < 2 then [n] else n mod b # digits b (n div b))"
  by auto
termination by (relation "measure snd") auto

declare digits.simps [simp del]

primrec low_digits :: "nat \<Rightarrow> nat \<Rightarrow> nat \<Rightarrow> nat list" where
  "low_digits 0 b n = []"
| "low_digits (Suc k) b n = n mod b # low_digits k b (n div b)"

lemma digits_split:
  "2 \<le> b \<Longrightarrow> b ^ k \<le> n \<Longrightarrow> digits b n = low_digits k b n @ digits b (n div b ^ k)"
proof (induction k arbitrary: n)
  case (Suc k)
  then have "b \<le> n"
    by (metis le_trans self_le_power zero_less_Suc One_nat_def Suc_leD numeral_2_eq_2)
  moreover have "b ^ k \<le> n div b"
    using Suc.prems by (simp add: less_eq_div_iff_mult_less_eq mult.commute)
  ultimately show ?case
    using Suc by (subst digits.simps) (simp add: div_mult2_eq)
qed simp

text \<open>Two decimal digits at a time.\<close>

definition pair_digits :: "nat \<Rightarrow> nat list" where
  "pair_digits x = [x mod 10, x div 10]"

lemma low_digits_pair: "low_digits (Suc (Suc k)) 10 n = pair_digits (n mod 100) @ low_digits k 10 (n div 100)"
proof -
  have "n mod 100 mod 10 = n mod 10"
    by (rule mod_mod_cancel) simp
  moreover have "n mod 100 div 10 = n div 10 mod 10"
    using mod_mult2_eq [of n 10 10] by simp
  ultimately show ?thesis
    by (simp add: pair_digits_def div_mult2_eq [symmetric])
qed

lemma digits_pair: "100 \<le> n \<Longrightarrow> digits 10 n = pair_digits (n mod 100) @ digits 10 (n div 100)"
  using digits_split [of 10 2 n] low_digits_pair [of 0 n] by (simp add: numeral_2_eq_2)

lemma digits_one: "n < 10 \<Longrightarrow> digits 10 n = [n]"
  by (simp add: digits.simps)

lemma digits_two: "10 \<le> n \<Longrightarrow> n < 100 \<Longrightarrow> digits 10 n = pair_digits n"
  by (subst digits.simps) (simp add: pair_digits_def digits_one less_mult_imp_div_less)

lemma length_digits_le: "n < b ^ Suc k \<Longrightarrow> 2 \<le> b \<Longrightarrow> length (digits b n) \<le> Suc k"
proof (induction k arbitrary: n)
  case (Suc k)
  then have "n div b < b ^ Suc k"
    by (simp add: less_mult_imp_div_less mult.commute)
  then show ?case
    using Suc by (subst digits.simps) auto
qed (subst digits.simps, simp)

section \<open>Stores into the digit array\<close>

declare add_2_eq_Suc [simp del] add_2_eq_Suc' [simp del]

text \<open>
  Appending characters at the end of the used part of an array. One byte behind the new end may
  change, since digits are stored in pairs.
\<close>

definition wrote :: "byte list \<Rightarrow> byte list \<times> nat \<Rightarrow> byte list \<times> nat \<Rightarrow> bool" where
  "wrote cs = (\<lambda>(m, i) (m', i'). i' = i + length cs \<and> length m' = length m
     \<and> take i' m' = take i m @ cs \<and> drop (Suc i') m' = drop (Suc i') m)"

lemma wrote_trans:
  assumes "wrote cs a b" "wrote ds b c"
  shows "wrote (cs @ ds) a c"
proof -
  obtain m i m' i' m'' i'' where [simp]: "a = (m, i)" "b = (m', i')" "c = (m'', i'')"
    by (metis surj_pair)
  have "drop (Suc i') m' = drop (Suc i') m"
    using assms(1) by (auto simp: wrote_def)
  from arg_cong [OF this, of "drop (length ds)"] have "drop (Suc i'') m' = drop (Suc i'') m"
    using assms by (simp add: wrote_def add.commute add.left_commute)
  then show ?thesis
    using assms by (auto simp: wrote_def)
qed

lemma wrote_store16:
  assumes "Suc i < length m"
  shows "wrote [ucast w, ucast (drop_bit 8 w)] (m, i) (store16 m i w, i + 2)"
    and "wrote [ucast w] (m, i) (store16 m i w, Suc i)"
  using assms by (simp_all add: wrote_def store16_def take_Suc_conv_app_nth numeral_2_eq_2)

definition dec_char :: "nat \<Rightarrow> byte" where
  "dec_char d = 0x30 + of_nat d"

lemma decpair_table:
  "list_all2 (\<lambda>x w. ucast w = dec_char (x mod 10) \<and> ucast (drop_bit 8 w) = dec_char (x div 10))
     [0..<100] decpair"
  by code_simp

lemma decpair_chars:
  assumes "x < 100"
  shows "ucast (decpair ! x) = dec_char (x mod 10)" "ucast (drop_bit 8 (decpair ! x)) = dec_char (x div 10)"
  using list_all2_nthD [OF decpair_table, of x] assms by simp_all

lemma wrote_pair:
  "Suc i < length m \<Longrightarrow> x < 100 \<Longrightarrow>
   wrote (map dec_char (pair_digits x)) (m, i) (store16 m i (decpair ! x), i + 2)"
  using wrote_store16(1) [of i m "decpair ! x"]
  by (simp add: pair_digits_def decpair_chars)

lemma wrote_last:
  assumes "Suc i < length m" "x < 100"
  shows "wrote (map dec_char (digits 10 x)) (m, i) (store16 m i (decpair ! x), i + (if x < 10 then 1 else 2))"
proof (cases "x < 10")
  case True
  then show ?thesis
    using wrote_store16(2) [of i m "decpair ! x"] assms by (simp add: digits_one decpair_chars)
next
  case False
  then show ?thesis
    using wrote_pair assms by (simp add: digits_two)
qed

section \<open>Division by multiplication\<close>

lemma mul_div_100: "n < 10 ^ 8 \<Longrightarrow> n * 42949673 div 2 ^ 32 = n div (100::nat)"
proof -
  assume n: "n < 10 ^ 8"
  define q t where "q = n div 100" and "t = n mod 100"
  have qt: "n = 100 * q + t" "q < 1000000" "t < 100"
    using n by (simp_all add: q_def t_def less_mult_imp_div_less)
  have "n * 42949673 = q * 2 ^ 32 + (4 * q + t * 42949673)"
    using qt(1) by simp
  moreover have "4 * q + t * 42949673 < 2 ^ 32"
    using qt by simp
  ultimately show ?thesis
    by (simp add: q_def)
qed

lemma mul_div_100': "n < 10 ^ 4 \<Longrightarrow> n * 5243 div 2 ^ 19 = n div (100::nat)"
  by simp

lemma unat_mul_shift:
  assumes "unat r < 10 ^ 8"
  shows "unat (mul_shift r) = unat r div 100"
proof -
  have "unat (ucast r :: u64) = unat r"
    using assms by (simp add: unsigned_ucast_eq take_bit_nat_eq_self)
  then have "unat (ucast r * 0x28f5c29 :: u64) = unat r * 42949673"
    using assms by (simp add: unat_word_ariths)
  then have "unat (drop_bit 32 (ucast r * 0x28f5c29 :: u64)) = unat r div 100"
    using mul_div_100 [OF assms] by (simp only: unat_drop_bit_eq) (simp add: drop_bit_eq_div)
  then show ?thesis
    using assms by (simp add: mul_shift_def unsigned_ucast_eq take_bit_nat_eq_self)
qed

lemma unat_mul_shift':
  assumes "unat r < 10 ^ 4"
  shows "unat (drop_bit 19 (r * 0x147b) :: u32) = unat r div 100"
proof -
  have "unat (r * 0x147b) = unat r * 5243"
    using assms by (simp add: unat_word_ariths)
  then show ?thesis
    using mul_div_100' [OF assms] by (simp only: unat_drop_bit_eq) (simp add: drop_bit_eq_div)
qed

lemma unat_sub_100:
  fixes r q :: u32
  assumes "unat q = unat r div 100"
  shows "unat (r - 100 * q) = unat r mod 100"
proof -
  have "unat (100 * q) = 100 * (unat r div 100)"
    using assms unsigned_less [of r, where ?'a = nat] by (simp add: unat_word_ariths)
  then show ?thesis
    by (simp add: unat_sub word_le_nat_alt minus_mult_div_eq_mod)
qed

lemmas dec_arith = unat_mul_shift unat_mul_shift' unat_sub_100

text \<open>\<open>put_dec_full8\<close> stores eight digits, with leading zeros.\<close>

lemma put_dec_full8_wrote:
  assumes "unat r < 10 ^ 8" "i + 7 < length m"
  shows "wrote (map dec_char (low_digits 8 10 (unat r))) (m, i) (put_dec_full8 (m, i) r)"
proof -
  define q1 where "q1 = mul_shift r"
  define q2 where "q2 = mul_shift q1"
  define q3 where "q3 = (drop_bit 19 (q2 * 0x147b) :: u32)"
  define m1 where "m1 = store16 m i (decpair ! unat (r - 100 * q1))"
  define m2 where "m2 = store16 m1 (i + 2) (decpair ! unat (q1 - 100 * q2))"
  define m3 where "m3 = store16 m2 (i + 4) (decpair ! unat (q2 - 100 * q3))"
  have q1: "unat q1 = unat r div 100"
    using assms(1) unfolding q1_def by (rule unat_mul_shift)
  have q2: "unat q2 = unat r div 100 div 100"
    using assms(1) q1 unfolding q2_def by (subst unat_mul_shift) auto
  have q3: "unat q3 = unat r div 100 div 100 div 100"
    using assms(1) q2 unfolding q3_def by (subst unat_mul_shift') (auto simp: div_mult2_eq [symmetric])
  have len: "length m1 = length m" "length m2 = length m" "length m3 = length m"
    by (simp_all add: m1_def m2_def m3_def store16_def)
  let ?p = "\<lambda>n. map dec_char (pair_digits n)"
  have "wrote (?p (unat r mod 100)) (m, i) (m1, i + 2)"
    using wrote_pair [of i m "unat r mod 100"] assms(2) unat_sub_100 [OF q1] by (simp add: m1_def)
  moreover have "wrote (?p (unat r div 100 mod 100)) (m1, i + 2) (m2, i + 4)"
    using wrote_pair [of "i + 2" m1 "unat r div 100 mod 100"] assms(2) len unat_sub_100 [of q2 q1] q1 q2
    by (simp add: m2_def add.commute)
  moreover have "wrote (?p (unat r div 100 div 100 mod 100)) (m2, i + 4) (m3, i + 6)"
    using wrote_pair [of "i + 4" m2 "unat r div 100 div 100 mod 100"] assms(2) len unat_sub_100 [of q3 q2] q2 q3
    by (simp add: m3_def add.commute)
  moreover have "unat r div 100 div 100 div 100 < 100"
    using assms(1) by (auto simp: div_mult2_eq [symmetric])
  then have "wrote (?p (unat r div 100 div 100 div 100 mod 100)) (m3, i + 6) (put_dec_full8 (m, i) r)"
    using wrote_pair [of "i + 6" m3 "unat q3"] assms(2) len q3
    by (simp add: put_dec_full8_def Let_def m1_def m2_def m3_def q1_def q2_def q3_def add.commute)
  ultimately have "wrote (?p (unat r mod 100) @ ?p (unat r div 100 mod 100) @
      ?p (unat r div 100 div 100 mod 100) @ ?p (unat r div 100 div 100 div 100 mod 100))
      (m, i) (put_dec_full8 (m, i) r)"
    by (intro wrote_trans)
  moreover have "8 = Suc (Suc (Suc (Suc (Suc (Suc (Suc (Suc 0)))))))"
    by simp
  ultimately show ?thesis
    by (simp only: low_digits_pair low_digits.simps(1) map_append append_Nil2 append_assoc list.map)
qed

text \<open>\<open>put_dec_trunc8\<close> stores the digits without leading zeros. The jump to \<open>out_r\<close>:\<close>

definition trunc_end :: "byte list \<Rightarrow> nat \<Rightarrow> u32 \<Rightarrow> byte list \<times> nat" where
  "trunc_end m i r = (store16 m i (decpair ! unat r), i + (if r < 10 then 1 else 2))"

lemma trunc_end_wrote:
  "unat r < 100 \<Longrightarrow> Suc i < length m \<Longrightarrow> wrote (map dec_char (digits 10 (unat r))) (m, i) (trunc_end m i r)"
  using wrote_last [of i m "unat r"] by (simp add: trunc_end_def word_less_nat_alt)

lemma trunc_step:
  fixes r q :: u32
  assumes "unat q = unat r div 100" "100 \<le> r" "i + 1 < length m"
    and "wrote (map dec_char (digits 10 (unat q))) (store16 m i (decpair ! unat (r - 100 * q)), i + 2) b"
  shows "wrote (map dec_char (digits 10 (unat r))) (m, i) b"
proof -
  have "100 \<le> unat r"
    using assms(2) by (simp add: word_le_nat_alt)
  moreover have "wrote (map dec_char (pair_digits (unat r mod 100))) (m, i)
      (store16 m i (decpair ! unat (r - 100 * q)), i + 2)"
    using wrote_pair [of i m "unat r mod 100"] assms(3) unat_sub_100 [OF assms(1)] by simp
  ultimately show ?thesis
    using wrote_trans [OF _ assms(4)] assms(1) by (simp add: digits_pair)
qed

lemma put_dec_trunc8_wrote:
  assumes "unat r < 10 ^ 8" "i + 7 < length m"
  shows "wrote (map dec_char (digits 10 (unat r))) (m, i) (put_dec_trunc8 (m, i) r)"
proof -
  define q1 where "q1 = mul_shift r"
  define q2 where "q2 = mul_shift q1"
  define q3 where "q3 = (drop_bit 19 (q2 * 0x147b) :: u32)"
  define m1 where "m1 = store16 m i (decpair ! unat (r - 100 * q1))"
  define m2 where "m2 = store16 m1 (i + 2) (decpair ! unat (q1 - 100 * q2))"
  define m3 where "m3 = store16 m2 (i + 4) (decpair ! unat (q2 - 100 * q3))"
  have code: "put_dec_trunc8 (m, i) r =
      (if r < 100 then trunc_end m i r else if q1 < 100 then trunc_end m1 (i + 2) q1
       else if q2 < 100 then trunc_end m2 (i + 4) q2 else trunc_end m3 (i + 6) q3)"
    by (simp add: put_dec_trunc8_def Let_def trunc_end_def q1_def q2_def q3_def m1_def m2_def m3_def add.commute)
  have q1: "unat q1 = unat r div 100" "unat q1 < 10 ^ 6"
    using assms(1) unat_mul_shift [of r] unfolding q1_def by auto
  have q2: "unat q2 = unat q1 div 100" "unat q2 < 10 ^ 4"
    using q1(2) unat_mul_shift [of q1] unfolding q2_def by auto
  have q3: "unat q3 = unat q2 div 100" "unat q3 < 100"
    using q2(2) unat_mul_shift' [of q2] unfolding q3_def by auto
  have len: "length m1 = length m" "length m2 = length m" "length m3 = length m"
    by (simp_all add: m1_def m2_def m3_def store16_def)
  have lt: "unat x < 100 \<longleftrightarrow> x < 100" "\<not> x < 100 \<Longrightarrow> 100 \<le> x" for x :: u32
    by (simp_all add: word_less_nat_alt word_le_nat_alt)
  note last = trunc_end_wrote [of r i m] trunc_end_wrote [of q1 "i + 2" m1]
    trunc_end_wrote [of q2 "i + 4" m2] trunc_end_wrote [of q3 "i + 6" m3]
  have "wrote (map dec_char (digits 10 (unat q2))) (m2, i + 4) (trunc_end m3 (i + 6) q3)" if "\<not> q2 < 100"
    using trunc_step [OF q3(1) lt(2) [OF that], of "i + 4" m2] last(4) q3(2) assms(2) len
    by (simp add: m3_def add.commute)
  then have "wrote (map dec_char (digits 10 (unat q1))) (m1, i + 2)
      (if q2 < 100 then trunc_end m2 (i + 4) q2 else trunc_end m3 (i + 6) q3)" if "\<not> q1 < 100"
    using trunc_step [OF q2(1) lt(2) [OF that], of "i + 2" m1] last(3) assms(2) len
    by (simp add: m2_def lt add.commute)
  then show ?thesis
    using trunc_step [OF q1(1) lt(2), of i m] last(1,2) assms(2) len
    by (simp add: code m1_def lt add.commute)
qed

lemma unat_10_8: "unat (100 * 1000 * 1000 :: u64) = 10 ^ 8"
  by simp

lemma do_div_10_8:
  "do_div n (100 * 1000 * 1000) = (r, n') \<Longrightarrow> unat r = unat n mod 10 ^ 8 \<and> unat n' = unat n div 10 ^ 8"
  by (auto simp: do_div_def unsigned_ucast_eq take_bit_nat_eq_self unat_mod unat_div)

text \<open>One of the two conditional steps of \<open>put_dec\<close>.\<close>

lemma put_dec_step:
  assumes "do_div n (100 * 1000 * 1000) = (r, n')" "10 ^ 8 \<le> unat n" "i + 7 < length m"
    and "wrote (map dec_char (digits 10 (unat n'))) (put_dec_full8 (m, i) r) b"
  shows "wrote (map dec_char (digits 10 (unat n))) (m, i) b"
proof -
  have r: "unat r = unat n mod 10 ^ 8" "unat n' = unat n div 10 ^ 8"
    using do_div_10_8 [OF assms(1)] by simp_all
  have low: "low_digits k 10 (x mod 10 ^ k) = low_digits k 10 x" for k x
  proof (induction k arbitrary: x)
    case (Suc k)
    have "x mod 10 ^ Suc k mod 10 = x mod 10" "x mod 10 ^ Suc k div 10 = x div 10 mod 10 ^ k"
      by (simp_all add: mod_mult2_eq)
    then show ?case
      using Suc by simp
  qed simp
  have "wrote (map dec_char (low_digits 8 10 (unat n))) (m, i) (put_dec_full8 (m, i) r)"
    using put_dec_full8_wrote [OF _ assms(3), of r] r(1) low [of 8 "unat n"] by simp
  from wrote_trans [OF this assms(4)] show ?thesis
    using digits_split [of 10 8 "unat n"] assms(2) r(2) by simp
qed

lemma put_dec_wrote:
  assumes "i + 23 < length m"
  shows "wrote (map dec_char (digits 10 (unat n))) (m, i) (put_dec (m, i) n)"
proof -
  obtain r1 n1 r2 n2 where d: "do_div n (100 * 1000 * 1000) = (r1, n1)" "do_div n1 (100 * 1000 * 1000) = (r2, n2)"
    by fastforce
  have n: "unat n1 = unat n div 10 ^ 8" "unat n2 = unat n1 div 10 ^ 8"
    using do_div_10_8 [OF d(1)] do_div_10_8 [OF d(2)] by simp_all
  have bound: "unat n < 2 ^ 64"
    using unsigned_less [of n, where ?'a = nat] by simp
  have le: "100000000 \<le> x \<longleftrightarrow> 10 ^ 8 \<le> unat x" for x :: u64
    by (simp add: word_le_nat_alt)
  have trunc: "wrote (map dec_char (digits 10 (unat x))) (m', j) (put_dec_trunc8 (m', j) (ucast x))"
    if "unat x < 10 ^ 8" "j + 7 < length m'" for x :: u64 and m' j
    using put_dec_trunc8_wrote [of "ucast x" j m'] that by (simp add: unsigned_ucast_eq take_bit_nat_eq_self)
  have full: "\<exists>m''. put_dec_full8 (m', j) r = (m'', j + 8) \<and> length m'' = length m'" for m' j r
    by (simp add: put_dec_full8_def Let_def store16_def)
  show ?thesis
  proof (cases "10 ^ 8 \<le> unat n")
    case True
    obtain m1 where m1: "put_dec_full8 (m, i) r1 = (m1, i + 8)" "length m1 = length m"
      using full by blast
    obtain m2 where m2: "put_dec_full8 (m1, i + 8) r2 = (m2, i + 16)" "length m2 = length m"
      using full [of m1 "i + 8" r2] m1(2) by auto
    have "wrote (map dec_char (digits 10 (unat n1))) (m1, i + 8)
        (if 10 ^ 8 \<le> unat n1 then put_dec_trunc8 (m2, i + 16) (ucast n2)
         else put_dec_trunc8 (m1, i + 8) (ucast n1))"
      using put_dec_step [OF d(2), of "i + 8" m1] trunc [of n2 "i + 16" m2] trunc [of n1 "i + 8" m1]
        m1 m2 n bound assms by auto
    then show ?thesis
      using put_dec_step [OF d(1) True, of i m] True m1 m2 d assms
      by (simp add: put_dec_def Let_def le case_prod_unfold split: if_splits)
  next
    case False
    then show ?thesis
      using trunc [of n i m] assms by (simp add: put_dec_def le)
  qed
qed

text \<open>
  C36: Decimal printing is right for every 64-bit number: \<open>put_dec\<close> appends exactly the decimal
  digits of \<open>n\<close>, least significant first, although it divides by multiplying and shifting and
  stores digits in pairs. The characters before are kept, at most one byte behind the new end is
  touched, and 24 bytes are enough.
\<close>

theorem put_dec_correct:
  assumes "i + 23 < length m"
  shows "\<exists>m'. put_dec (m, i) n = (m', i + length (digits 10 (unat n)))
    \<and> take (i + length (digits 10 (unat n))) m' = take i m @ map dec_char (digits 10 (unat n))
    \<and> drop (i + length (digits 10 (unat n)) + 1) m' = drop (i + length (digits 10 (unat n)) + 1) m
    \<and> length (digits 10 (unat n)) \<le> 20"
proof -
  have "unat n < 10 ^ 20"
    using unsigned_less [of n, where ?'a = nat] by simp
  then have "length (digits 10 (unat n)) \<le> Suc 19"
    by (intro length_digits_le) simp_all
  then show ?thesis
    using put_dec_wrote [OF assms, of n] by (cases "put_dec (m, i) n") (simp add: wrote_def)
qed

text \<open>Witness: the largest 64-bit number, at the start of an array of 24 bytes.\<close>

lemma put_dec_witness:
  "take 20 (fst (put_dec (replicate 24 0, 0) (- 1))) = map dec_char [5, 1, 6, 1, 5, 5, 9, 0, 7, 3, 7, 0, 4, 4, 7, 6, 4, 4, 8, 1]
   \<and> snd (put_dec (replicate 24 0, 0) (- 1)) = 20"
proof -
  have "unat (- 1 :: u64) = 18446744073709551615"
    by (simp add: unsigned_minus_1_eq_mask mask_eq_exp_minus_1)
  moreover have "digits 10 18446744073709551615 = [5, 1, 6, 1, 5, 5, 9, 0, 7, 3, 7, 0, 4, 4, 7, 6, 4, 4, 8, 1]"
    by (simp add: digits.simps)
  ultimately have ds: "digits 10 (unat (- 1 :: u64)) = [5, 1, 6, 1, 5, 5, 9, 0, 7, 3, 7, 0, 4, 4, 7, 6, 4, 4, 8, 1]"
    by simp
  then have len: "length (digits 10 (unat (- 1 :: u64))) = 20"
    by simp
  show ?thesis
    using put_dec_correct [of 0 "replicate 24 0" "- 1"] unfolding len unfolding ds by auto
qed

section \<open>Digits to the bases 8 and 16\<close>

definition digit_char :: "byte \<Rightarrow> nat \<Rightarrow> byte" where
  "digit_char locase d = (hex_asc_upper ! d) OR locase"

lemma low_digit_bits:
  fixes num :: u64
  shows "unat ((ucast num :: byte) AND 15) = unat num mod 16" "unat ((ucast num :: byte) AND 7) = unat num mod 8"
proof -
  have "(15 :: byte) = mask 4" "(7 :: byte) = mask 3"
    by (simp_all add: mask_eq_exp_minus_1)
  then have "unat ((ucast num :: byte) AND 15) = take_bit 4 (take_bit 8 (unat num))"
      "unat ((ucast num :: byte) AND 7) = take_bit 3 (take_bit 8 (unat num))"
    by (simp_all only: take_bit_eq_mask [symmetric] unsigned_take_bit_eq unsigned_ucast_eq) simp_all
  then show "unat ((ucast num :: byte) AND 15) = unat num mod 16" "unat ((ucast num :: byte) AND 7) = unat num mod 8"
    by (simp_all only: take_bit_take_bit) (simp_all add: take_bit_eq_mod)
qed

lemma put_pow2_correct:
  assumes "b = 8 \<or> b = 16" "i + length (digits (unat b) (unat num)) \<le> length tmp"
  shows "\<exists>tmp'. put_pow2 b lc tmp i num = (tmp', i + length (digits (unat b) (unat num)))
    \<and> take (i + length (digits (unat b) (unat num))) tmp' = take i tmp @ map (digit_char lc) (digits (unat b) (unat num))
    \<and> length tmp' = length tmp"
  using assms
proof (induction b lc tmp i num rule: put_pow2.induct)
  case (1 b lc tmp i num)
  define sh where "sh = (if b = 16 then 4 else 3 :: nat)"
  define num' where "num' = drop_bit sh num"
  define tmp1 where "tmp1 = tmp[i := digit_char lc (unat num mod unat b)]"
  have b: "unat b = 2 ^ sh" "b = 8 \<or> b = 16" "2 \<le> unat b"
    using "1.prems"(1) by (auto simp: sh_def)
  have num': "unat num' = unat num div unat b"
    unfolding num'_def b(1) by (simp only: unat_drop_bit_eq) (simp add: drop_bit_eq_div)
  have code: "put_pow2 b lc tmp i num = (if num' \<noteq> 0 then put_pow2 b lc tmp1 (Suc i) num' else (tmp1, Suc i))"
    using b(2) by (subst put_pow2.simps)
      (auto simp: Let_def digit_char_def low_digit_bits num'_def sh_def tmp1_def)
  show ?case
  proof (cases "num' = 0")
    case True
    then have "unat num < unat b"
      using num' b(3) by (simp add: div_eq_0_iff)
    then have "digits (unat b) (unat num) = [unat num]"
      by (simp add: digits.simps)
    then show ?thesis
      using True code \<open>unat num < unat b\<close> "1.prems"(2) by (simp add: tmp1_def take_Suc_conv_app_nth)
  next
    case False
    then have "\<not> unat num < unat b"
      using num' by (auto simp: unat_eq_0)
    then have ds: "digits (unat b) (unat num) = unat num mod unat b # digits (unat b) (unat num')"
      using b(3) num' by (subst digits.simps) simp
    have "digit_char lc (unat num mod unat b) = hex_asc_upper ! unat ((ucast num :: byte) AND (b - 1)) OR lc"
      using b(2) by (auto simp: digit_char_def low_digit_bits)
    then have "\<exists>tmp'. put_pow2 b lc tmp1 (Suc i) num' = (tmp', Suc i + length (digits (unat b) (unat num')))
        \<and> take (Suc i + length (digits (unat b) (unat num'))) tmp'
            = take (Suc i) tmp1 @ map (digit_char lc) (digits (unat b) (unat num'))
        \<and> length tmp' = length tmp1"
      using "1.IH" [OF sh_def refl refl num'_def False] "1.prems" ds by (simp add: tmp1_def)
    moreover have "take (Suc i) tmp1 = take i tmp @ [digit_char lc (unat num mod unat b)]"
      using "1.prems"(2) ds by (simp add: tmp1_def take_Suc_conv_app_nth)
    ultimately show ?thesis
      using False code ds by (auto simp: tmp1_def)
  qed
qed

lemma digit_char_dec: "lc = 0 \<or> lc = 32 \<Longrightarrow> d < 10 \<Longrightarrow> digit_char lc d = dec_char d"
proof -
  have "list_all (\<lambda>d. digit_char 0 d = dec_char d \<and> digit_char 32 d = dec_char d) [0..<10]"
    by code_simp
  then show "lc = 0 \<or> lc = 32 \<Longrightarrow> d < 10 \<Longrightarrow> digit_char lc d = dec_char d"
    by (auto simp: list_all_iff)
qed

lemma digits_less: "2 \<le> b \<Longrightarrow> d \<in> set (digits b n) \<Longrightarrow> d < b"
  by (induction b n rule: digits.induct) (subst (asm) (2) digits.simps, auto split: if_splits)

text \<open>All three ways to convert a number leave its digits at the start of the array.\<close>

lemma number_digits_correct:
  assumes "b \<in> {8, 10, 16}" "lc = 0 \<or> lc = 32"
  shows "\<exists>tmp. number_digits b lc num = (tmp, length (digits (unat b) (unat num)))
    \<and> take (length (digits (unat b) (unat num))) tmp = map (digit_char lc) (digits (unat b) (unat num))
    \<and> length (digits (unat b) (unat num)) \<le> length tmp"
proof -
  have bound: "unat num < 2 ^ 64"
    using unsigned_less [of num, where ?'a = nat] by simp
  have b: "2 \<le> unat b" "unat (ucast b :: u64) = unat b"
    using assms(1) by auto
  consider "num < ucast b" | "\<not> num < ucast b" "b = 10" | "\<not> num < ucast b" "b = 8 \<or> b = 16"
    using assms(1) by (cases "num < ucast b") auto
  then show ?thesis
  proof cases
    case 1
    then have "unat num < unat b"
      using b(2) by (simp only: word_less_nat_alt)
    then have "digits (unat b) (unat num) = [unat num]"
      by (simp add: digits.simps)
    then show ?thesis
      using 1 by (simp add: number_digits_def digit_char_def take_Suc_conv_app_nth)
  next
    case 2
    have "map dec_char (digits 10 (unat num)) = map (digit_char lc) (digits 10 (unat num))"
      using digits_less [of 10 _ "unat num"] digit_char_dec [OF assms(2)] by simp
    moreover obtain m where "put_dec (replicate 24 0, 0) num = (m, length (digits 10 (unat num)))"
        "take (length (digits 10 (unat num))) m = map dec_char (digits 10 (unat num))"
      using put_dec_wrote [of 0 "replicate 24 0" num] by (auto simp: wrote_def)
    ultimately show ?thesis
      using 2 by (auto simp: number_digits_def dest: arg_cong [of _ _ length])
  next
    case 3
    have "length (digits (unat b) (unat num)) \<le> 22"
      using bound 3(2) length_digits_le [of "unat num" 8 21] length_digits_le [of "unat num" 16 21] by auto
    then show ?thesis
      using 3 put_pow2_correct [of b 0 num "replicate 24 0" lc] by (auto simp: number_digits_def)
  qed
qed

end
