(* ===== verification/Printf_Text.thy ===== *)
theory Printf_Text
  imports Printf_Digits
begin

text \<open>
  Writing into a bounded buffer, seen as appending to a text. \<open>emit m0 e T\<close> is the state after
  the text \<open>T\<close> was written to the memory \<open>m0\<close> with the bound \<open>e\<close>: the part of \<open>T\<close> before the bound
  is stored, nothing behind the bound is touched, and the position counts all of \<open>T\<close>. Every
  output routine of \<open>mm/kasprintf.c\<close> takes \<open>emit m0 e T\<close> to \<open>emit m0 e (T @ X)\<close> for a text \<open>X\<close>
  that depends neither on the memory nor on the bound.
\<close>

section \<open>Texts in a bounded buffer\<close>

definition emit :: "byte list \<Rightarrow> nat \<Rightarrow> byte list \<Rightarrow> out" where
  "emit m0 e T = \<lparr>mem = take e T @ drop (min (length T) e) m0, str = length T\<rparr>"

lemma emit_Nil: "emit m0 e [] = \<lparr>mem = m0, str = 0\<rparr>"
  by (simp add: emit_def)

lemma str_emit [simp]: "str (emit m0 e T) = length T"
  by (simp add: emit_def)

lemma length_mem_emit [simp]: "e \<le> length m0 \<Longrightarrow> length (mem (emit m0 e T)) = length m0"
  by (simp add: emit_def min_def)

lemma drop_mem_emit: "min (length T) e \<le> k \<Longrightarrow> e \<le> length m0 \<Longrightarrow> drop k (mem (emit m0 e T)) = drop k m0"
  by (auto simp: emit_def min_def split: if_splits)

lemma take_mem_emit: "k \<le> min (length T) e \<Longrightarrow> take k (mem (emit m0 e T)) = take k T"
  by (auto simp: emit_def min_def split: if_splits)

lemma store_bytes_eq: "d + length bs \<le> length m \<Longrightarrow> store_bytes m d bs = take d m @ bs @ drop (d + length bs) m"
proof (induction bs arbitrary: m d)
  case (Cons b bs)
  then show ?case
    by (simp add: take_Suc_conv_app_nth)
qed simp

text \<open>Storing the part of \<open>X\<close> that fits, at the end of \<open>T\<close>.\<close>

lemma store_bytes_emit:
  assumes "e \<le> length m0" "length T < e"
  shows "store_bytes (mem (emit m0 e T)) (length T) (take (e - length T) X) = mem (emit m0 e (T @ X))"
proof -
  have "drop (length T + length (take (e - length T) X)) (mem (emit m0 e T))
      = drop (min (length (T @ X)) e) m0"
    using assms by (subst drop_mem_emit) (auto simp: min_def intro!: arg_cong [where f = "\<lambda>n. drop n m0"])
  then show ?thesis
    using assms by (subst store_bytes_eq) (auto simp: take_mem_emit min_def emit_def)
qed

lemma emit_beyond: "e \<le> length T \<Longrightarrow> mem (emit m0 e (T @ X)) = mem (emit m0 e T)"
  by (simp add: emit_def)

lemma putc_emit [simp]:
  assumes "e \<le> length m0"
  shows "putc e c (emit m0 e T) = emit m0 e (T @ [c])"
proof (cases "length T < e")
  case True
  then have "take (e - length T) [c] = [c]"
    by (cases "e - length T") auto
  then have "(mem (emit m0 e T))[length T := c] = mem (emit m0 e (T @ [c]))"
    using store_bytes_emit [OF assms True, of "[c]"] by simp
  then show ?thesis
    using True unfolding putc_def by (simp add: emit_def [of m0 e "T @ [c]"])
next
  case False
  then show ?thesis
    using emit_beyond [of e T m0 "[c]"] unfolding putc_def by (simp add: emit_def)
qed

lemma putc_funpow_emit [simp]:
  "e \<le> length m0 \<Longrightarrow> (putc e c ^^ n) (emit m0 e T) = emit m0 e (T @ replicate n c)"
  by (induction n arbitrary: T) (simp_all add: funpow_Suc_right replicate_append_same del: funpow.simps(2))

section \<open>The loops\<close>

lemma pad_ge_emit:
  assumes "e \<le> length m0"
  shows "pad_ge e c (emit m0 e T) w = (emit m0 e (T @ replicate (nat w) c), if 0 < w then - 1 else w - 1)"
  using assms
proof (induction "nat w" arbitrary: w T)
  case (Suc n)
  from Suc.hyps(2) have "nat w = Suc (nat (w - 1))" "n = nat (w - 1)" "0 < w"
    by linarith+
  moreover from this have "pad_ge e c (emit m0 e (T @ [c])) (w - 1)
      = (emit m0 e (T @ c # replicate (nat (w - 1)) c), - 1)"
    using Suc.hyps(1) [of "w - 1" "T @ [c]"] Suc.prems by auto
  ultimately show ?case
    using Suc.prems by (subst pad_ge.simps) simp
qed (subst pad_ge.simps, simp)

lemma pad_prec_emit:
  assumes "e \<le> length m0"
  shows "pad_prec e i (emit m0 e T) p = emit m0 e (T @ replicate (nat (p - i)) 0x30)"
  using assms
proof (induction "nat (p - i)" arbitrary: p T)
  case (Suc n)
  from Suc.hyps(2) have "nat (p - i) = Suc (nat (p - 1 - i))" "n = nat (p - 1 - i)" "i < p"
    by linarith+
  moreover from this have "pad_prec e i (emit m0 e (T @ [0x30])) (p - 1)
      = emit m0 e (T @ 0x30 # replicate (nat (p - 1 - i)) 0x30)"
    using Suc.hyps(1) [of "p - 1" "T @ [0x30]"] Suc.prems by simp
  ultimately show ?case
    using Suc.prems by (subst pad_prec.simps) simp
qed (subst pad_prec.simps, simp)

lemma put_rev_emit:
  "e \<le> length m0 \<Longrightarrow> i \<le> length tmp \<Longrightarrow> put_rev e tmp i (emit m0 e T) = emit m0 e (T @ rev (take i tmp))"
  by (induction i arbitrary: T) (simp_all add: take_Suc_conv_app_nth)

lemma copy_string_emit:
  assumes "e \<le> length m0"
  shows "copy_string e cs lim len (emit m0 e T)
    = (emit m0 e (T @ take (unat lim) (takeWhile (\<lambda>c. c \<noteq> 0) cs)),
       len + length (take (unat lim) (takeWhile (\<lambda>c. c \<noteq> 0) cs)))"
  using assms
proof (induction cs arbitrary: lim len T)
  case (Cons c cs)
  show ?case
  proof (cases "lim = 0 \<or> c = 0")
    case False
    then have "unat lim = Suc (unat (lim - 1))"
      by (simp add: unat_minus_one unat_gt_0)
    then show ?thesis
      using Cons False by simp
  qed auto
qed simp

section \<open>Numbers\<close>

text \<open>
  The layout of an integer conversion: sign, prefix, and the digits filled up with zeros to the
  precision; then padded to the field width, with spaces behind for \<open>-\<close>, with zeros behind the
  prefix for \<open>0\<close>, with spaces in front otherwise. It is that of the C standard but for four details:
  \<open>%#x\<close> has its prefix for 0 too, the prefix of \<open>%#o\<close> comes in addition to the zeros of the precision,
  the flag \<open>0\<close> counts beside a precision, and a precision of 0 leaves the digit of the number 0.
\<close>

definition sign_text :: "printf_spec \<Rightarrow> u64 \<Rightarrow> byte list" where
  "sign_text spec num =
     (if \<not> has spec SIGN then [] else if sint num < 0 then [0x2D] else if has spec PLUS then [0x2B]
      else if has spec SPACE then [0x20] else [])"

definition prefix_text :: "printf_spec \<Rightarrow> u64 \<Rightarrow> byte list" where
  "prefix_text spec num =
     (if \<not> has spec SPECIAL then []
      else if base spec = 16 then [0x30, if has spec SMALL then 0x78 else 0x58]
      else if base spec = 8 \<and> num \<noteq> 0 then [0x30] else [])"

definition magnitude :: "printf_spec \<Rightarrow> u64 \<Rightarrow> nat" where
  "magnitude spec num = (if has spec SIGN then nat \<bar>sint num\<bar> else unat num)"

definition digits_text :: "printf_spec \<Rightarrow> u64 \<Rightarrow> byte list" where
  "digits_text spec num =
     (let ds = rev (map (digit_char (if has spec SMALL then 0x20 else 0)) (digits (unat (base spec)) (magnitude spec num)))
      in replicate (nat (sint (precision spec)) - length ds) 0x30 @ ds)"

definition number_text :: "printf_spec \<Rightarrow> u64 \<Rightarrow> byte list" where
  "number_text spec num =
     (let pre = sign_text spec num @ prefix_text spec num;
          body = digits_text spec num;
          pad = replicate (nat (sint (field_width spec)) - length (pre @ body))
      in if has spec LEFT then pre @ body @ pad 0x20
         else if has spec ZEROPAD then pre @ pad 0x30 @ body
         else pad 0x20 @ pre @ body)"

lemma unat_minus_negative:
  fixes num :: u64
  assumes "sint num < 0"
  shows "unat (- num) = nat \<bar>sint num\<bar>"
proof -
  have "- (2 ^ 63) \<le> sint num"
    using sint_ge [of num] by simp
  then have "take_bit 64 (- sint num) = - sint num"
    using assms by (simp add: take_bit_int_eq_self)
  moreover have "uint (- num) = take_bit 64 (- sint num)"
    using uint_word_of_int_eq [of "- sint num", where ?'a = 64] by simp
  ultimately show ?thesis
    using assms by (simp only: unat_eq_nat_uint)
qed

lemma unat_nonnegative:
  fixes num :: u64
  assumes "0 \<le> sint num"
  shows "unat num = nat \<bar>sint num\<bar>"
proof -
  have "take_bit 64 (sint num) = sint num"
    using assms sint_less [of num] by (simp add: take_bit_int_eq_self)
  then show ?thesis
    using assms uint_sint [of num] by (simp only: unat_eq_nat_uint) simp
qed

text \<open>The flags that matter, as bits.\<close>

lemma and_power_of_2: "w AND 2 ^ n = (if bit w n then 2 ^ n else 0)" for w :: byte
  by (rule bit_eqI) (auto simp: bit_and_iff bit_exp_iff)

lemma small_cases: "flags spec AND SMALL = (if has spec SMALL then 0x20 else 0)"
  using and_power_of_2 [of "flags spec" 5] by (simp add: has_def SMALL_def)

lemma zeropad_cases: "flags spec AND ZEROPAD = (if has spec ZEROPAD then 0x10 else 0)"
  using and_power_of_2 [of "flags spec" 4] by (simp add: has_def ZEROPAD_def)

lemma has_and_not_zeropad:
  "f \<in> {SIGN, PLUS, SPACE, LEFT} \<Longrightarrow> has (spec\<lparr>flags := flags spec AND NOT ZEROPAD\<rparr>) f = has spec f"
proof -
  have "NOT ZEROPAD AND f = f" if "f \<in> {SIGN, PLUS, SPACE, LEFT}" for f
    using that by (auto simp: SIGN_def PLUS_def SPACE_def LEFT_def ZEROPAD_def)
  then show "f \<in> {SIGN, PLUS, SPACE, LEFT} \<Longrightarrow> has (spec\<lparr>flags := flags spec AND NOT ZEROPAD\<rparr>) f = has spec f"
    by (simp add: has_def and.assoc)
qed

lemma has_or: "has spec (f OR g) \<longleftrightarrow> has spec f \<or> has spec g"
  by (auto simp: has_def bit.conj_disj_distrib or_eq_0_iff)

text \<open>The three blocks in front of the digits.\<close>

definition sign_block :: "printf_spec \<Rightarrow> u64 \<Rightarrow> int \<Rightarrow> byte \<times> u64 \<times> int" where
  "sign_block spec num fw =
     (if has spec SIGN
      then if sint num < 0 then (0x2D, - num, fw - 1)
           else if has spec PLUS then (0x2B, num, fw - 1)
           else if has spec SPACE then (0x20, num, fw - 1)
           else (0, num, fw)
      else (0, num, fw))"

lemma sign_block_text:
  assumes "sign_block spec num fw = (sg, num', fw')"
  shows "unat num' = magnitude spec num" "fw' = fw - int (length (sign_text spec num))"
    "(if sg \<noteq> 0 then [sg] else []) = sign_text spec num"
  using assms unat_minus_negative [of num] unat_nonnegative [of num]
  by (auto simp: sign_block_def sign_text_def magnitude_def split: if_splits)

definition prefix_block :: "printf_spec \<Rightarrow> u64 \<Rightarrow> nat \<Rightarrow> out \<Rightarrow> out" where
  "prefix_block spec num e s =
     (if has spec SPECIAL \<and> base spec \<noteq> 10
      then let s = (if base spec = 16 \<or> num \<noteq> 0 then putc e 0x30 s else s)
           in if base spec = 16 then putc e (0x58 OR (flags spec AND SMALL)) s else s
      else s)"

lemma prefix_block_emit:
  "e \<le> length m0 \<Longrightarrow> base spec \<in> {8, 10, 16} \<Longrightarrow>
   prefix_block spec num e (emit m0 e T) = emit m0 e (T @ prefix_text spec num)"
  by (auto simp: prefix_block_def prefix_text_def small_cases Let_def)

lemma prefix_width:
  "base spec \<in> {8, 10, 16} \<Longrightarrow>
   (if has spec SPECIAL \<and> base spec \<noteq> 10
    then if base spec = 16 then fw - 2 else if num \<noteq> 0 then fw - 1 else fw else fw)
   = fw - int (length (prefix_text spec num))"
  by (auto simp: prefix_text_def)

definition number_layout ::
  "nat \<Rightarrow> printf_spec \<Rightarrow> byte \<Rightarrow> (out \<Rightarrow> out) \<Rightarrow> int \<Rightarrow> int \<Rightarrow> byte list \<Rightarrow> nat \<Rightarrow> out \<Rightarrow> out"
where
  "number_layout e spec sg pfx fw prec tmp i s =
     (let (s, fw) = (if \<not> has spec (ZEROPAD OR LEFT) then pad_ge e 0x20 s fw else (s, fw));
          s = (if sg \<noteq> 0 then putc e sg s else s);
          s = pfx s;
          (s, fw) = (if \<not> has spec LEFT then pad_ge e (0x20 + (flags spec AND ZEROPAD)) s fw else (s, fw));
          s = pad_prec e (int i) s prec;
          s = put_rev e tmp i s
      in fst (pad_ge e 0x20 s fw))"

lemma number_code:
  "put_number e num spec s =
     (let spec' = (if has spec LEFT then spec\<lparr>flags := flags spec AND NOT ZEROPAD\<rparr> else spec);
          (sg, num', fw) = sign_block spec' num (sint (field_width spec));
          fw = (if has spec SPECIAL \<and> base spec \<noteq> 10
                then if base spec' = 16 then fw - 2 else if num \<noteq> 0 then fw - 1 else fw else fw);
          (tmp, i) = number_digits (base spec') (flags spec AND SMALL) num';
          prec = (if sint (precision spec) < int i then int i else sint (precision spec))
      in number_layout e spec' sg (prefix_block spec num e) (fw - prec) prec tmp i s)"
proof -
  have "base (if has spec LEFT then spec\<lparr>flags := f\<rparr> else spec) = base spec" for f
    by simp
  then show ?thesis
    unfolding put_number_def sign_block_def number_layout_def prefix_block_def Let_def case_prod_unfold by (simp only:)
qed

lemma number_layout_emit:
  assumes e: "e \<le> length m0" and pfx: "\<And>T. pfx (emit m0 e T) = emit m0 e (T @ P)" and i: "i \<le> length tmp"
    and sg: "(if sg \<noteq> 0 then [sg] else []) = S"
  shows "number_layout e spec sg pfx fw prec tmp i (emit m0 e T) = emit m0 e (T @
     (let body = replicate (nat (prec - int i)) 0x30 @ rev (take i tmp)
      in if has spec LEFT then S @ P @ body @ replicate (nat fw) 0x20
         else if has spec ZEROPAD then S @ P @ replicate (nat fw) 0x30 @ body
         else replicate (nat fw) 0x20 @ S @ P @ body))"
proof -
  have S: "(if sg \<noteq> 0 then putc e sg (emit m0 e T) else emit m0 e T) = emit m0 e (T @ S)" for T
    using sg e by auto
  note rules = Let_def has_or pad_ge_emit [OF e] pfx pad_prec_emit [OF e] put_rev_emit [OF e i] S
    zeropad_cases prod.case fst_conv if_True if_False append_assoc simp_thms
  consider "has spec LEFT" | "\<not> has spec LEFT" "has spec ZEROPAD" | "\<not> has spec LEFT" "\<not> has spec ZEROPAD"
    by blast
  then show ?thesis
  proof cases
    case 1
    then show ?thesis
      unfolding number_layout_def by (simp only: rules if_cancel)
  next
    case 2
    then show ?thesis
      unfolding number_layout_def by (simp only: rules) simp
  next
    case 3
    then show ?thesis
      unfolding number_layout_def by (simp only: rules) simp
  qed
qed

lemma put_number_emit:
  assumes "e \<le> length m0" "base spec \<in> {8, 10, 16}"
  shows "put_number e num spec (emit m0 e T) = emit m0 e (T @ number_text spec num)"
proof -
  define spec' where "spec' = (if has spec LEFT then spec\<lparr>flags := flags spec AND NOT ZEROPAD\<rparr> else spec)"
  have same: "base spec' = base spec" "\<And>f. f \<in> {SIGN, PLUS, SPACE, LEFT} \<Longrightarrow> has spec' f = has spec f"
      "\<not> has spec LEFT \<Longrightarrow> has spec' ZEROPAD = has spec ZEROPAD"
    by (simp_all add: spec'_def has_and_not_zeropad)
  have text': "sign_text spec' num = sign_text spec num" "magnitude spec' num = magnitude spec num"
    by (simp_all add: sign_text_def magnitude_def same(2))
  define lc where "lc = (if has spec SMALL then 0x20 else 0 :: byte)"
  define ds where "ds = digits (unat (base spec)) (magnitude spec num)"
  obtain sg num' fw where sg: "sign_block spec' num (sint (field_width spec)) = (sg, num', fw)"
    by (metis surj_pair)
  obtain tmp where tmp: "number_digits (base spec) lc num' = (tmp, length ds)"
      "take (length ds) tmp = map (digit_char lc) ds" "length ds \<le> length tmp"
    using number_digits_correct [OF assms(2), of lc num'] sign_block_text(1) [OF sg]
    unfolding ds_def text' by (metis lc_def)
  define prec where "prec = (if sint (precision spec) < int (length ds) then int (length ds) else sint (precision spec))"
  have body: "digits_text spec num = replicate (nat (prec - int (length ds))) 0x30 @ rev (map (digit_char lc) ds)"
    unfolding digits_text_def Let_def lc_def [symmetric] ds_def [symmetric]
    by (simp add: prec_def nat_diff_distrib')
  then have "prec = int (length (digits_text spec num))"
    by (simp add: prec_def)
  then have pad: "nat (fw - int (length (prefix_text spec num)) - prec)
      = nat (sint (field_width spec)) - length ((sign_text spec num @ prefix_text spec num) @ digits_text spec num)"
    using sign_block_text(2) [OF sg] by (simp add: text' nat_diff_distrib')
  have "put_number e num spec (emit m0 e T) = number_layout e spec' sg (prefix_block spec num e)
      (fw - int (length (prefix_text spec num)) - prec) prec tmp (length ds) (emit m0 e T)"
    unfolding number_code spec'_def [symmetric] Let_def sg same(1) small_cases lc_def [symmetric] prod.case
      prefix_width [OF assms(2)] tmp(1) prec_def ..
  also have "\<dots> = emit m0 e (T @ number_text spec num)"
    unfolding number_layout_emit [OF assms(1) prefix_block_emit [OF assms] tmp(3) sign_block_text(3) [OF sg]]
    unfolding tmp(2) text' pad Let_def body [symmetric] number_text_def
    by (simp add: same(2,3))
  finally show ?thesis .
qed

lemma number_emit:
  assumes "e \<le> length m0" "base spec \<in> {8, 10, 16}"
  shows "number e num spec (emit m0 e T) =
    (if has spec SIGN \<and> num = LLONG_MIN then None else Some (emit m0 e (T @ number_text spec num)))"
  by (simp add: number_def put_number_emit [OF assms])

text \<open>
  C35: Integer conversions. For the bases 8, 10 and 16 and for every 64-bit value but the smallest
  of a signed conversion, whose negation is undefined, \<open>number\<close> appends \<open>number_text\<close>, that is, sign,
  prefix, the digits of the magnitude filled up with zeros to the precision, and padding to the
  field width according to the flags. It writes nothing at or behind the bound \<open>e\<close> and its position
  counts the characters that did not fit.
\<close>

theorem number_correct:
  assumes "e \<le> length m0" "base spec \<in> {8, 10, 16}"
  shows "number e num spec (emit m0 e T) =
    (if has spec SIGN \<and> num = LLONG_MIN then None else Some (emit m0 e (T @ number_text spec num)))"
  using assms by (rule number_emit)

text \<open>Witness: \<open>%+8.5d\<close> of -42 into a buffer of six bytes; the whole text has eight.\<close>

lemma number_witness:
  "number 6 (- 42) \<lparr>sp_type = FORMAT_TYPE_INT, field_width = 8, flags = SIGN OR PLUS, base = 10, precision = 5\<rparr>
     \<lparr>mem = replicate 8 0, str = 0\<rparr>
   = Some \<lparr>mem = [0x20, 0x20, 0x2D, 0x30, 0x30, 0x30, 0, 0], str = 8\<rparr>"
proof -
  let ?spec = "\<lparr>sp_type = FORMAT_TYPE_INT, field_width = 8, flags = SIGN OR PLUS, base = 10, precision = 5\<rparr>"
  have "number_text ?spec (- 42) = [0x20, 0x20, 0x2D, 0x30, 0x30, 0x30, 0x34, 0x32]"
    by code_simp
  moreover have "(- 42 :: u64) \<noteq> LLONG_MIN"
    by (simp add: LLONG_MIN_def)
  ultimately show ?thesis
    using number_correct [of 6 "replicate 8 0" ?spec "- 42" "[]"] unfolding emit_Nil
    by (simp add: emit_def eval_nat_numeral)
qed

section \<open>Strings\<close>

text \<open>\<open>move_right\<close> makes room for spaces in front of the text that was written last.\<close>

lemma move_right_emit:
  assumes "e \<le> length m0"
  shows "move_right (length T) e (length X) k (mem (emit m0 e (T @ X)))
    = mem (emit m0 e (T @ replicate k 0x20 @ X))"
proof -
  let ?m = "mem (emit m0 e (T @ X))"
  have len: "length ?m = length m0"
    using assms by simp
  consider "e \<le> length T" | "length T < e" "e \<le> length T + k" | "length T + k < e"
    by linarith
  then show ?thesis
  proof cases
    case 1
    then show ?thesis
      by (simp add: move_right_def emit_beyond)
  next
    case 2
    have "take (length T) ?m = T" "drop e ?m = drop e m0"
      using 2 assms by (simp_all add: take_mem_emit drop_mem_emit)
    moreover have "store_bytes ?m (length T) (replicate (e - length T) 0x20)
        = take (length T) ?m @ replicate (e - length T) 0x20 @ drop e ?m"
      using 2 assms len by (subst store_bytes_eq) simp_all
    moreover have "move_right (length T) e (length X) k ?m = store_bytes ?m (length T) (replicate (e - length T) 0x20)"
      using 2 by (auto simp: move_right_def Let_def)
    moreover have "mem (emit m0 e (T @ replicate k 0x20 @ X)) = T @ replicate (e - length T) 0x20 @ drop e m0"
      using 2 by (auto simp: emit_def min_def intro!: arg_cong [where f = "\<lambda>n. drop n m0"])
    ultimately show ?thesis
      by (simp only:)
  next
    case 3
    define l where "l = min (length X) (e - length T - k)"
    have fits: "length T + k + l \<le> length ?m" "length T + l \<le> length ?m" "l \<le> length X"
      using 3 assms len by (auto simp: l_def min_def)
    have T: "take (length T) ?m = T"
      using 3 by (simp add: take_mem_emit)
    have "take (length T + l) ?m = T @ take l X"
      using 3 by (subst take_mem_emit) (auto simp: l_def)
    then have X: "take l (drop (length T) ?m) = take l X"
      using T by (metis append_eq_append_conv length_take take_add)
    have "min (length (T @ X)) e \<le> length T + k + l"
      using 3 by (auto simp: l_def)
    then have D: "drop (length T + k + l) ?m = drop (length T + k + l) m0"
      using assms by (rule drop_mem_emit)
    have "memmove ?m (length T + k) (length T) l = take (length T + k) ?m @ take l X @ drop (length T + k + l) m0"
      unfolding memmove_def X D ..
    then have moved: "store_bytes (memmove ?m (length T + k) (length T) l) (length T) (replicate k 0x20)
        = T @ replicate k 0x20 @ take l X @ drop (length T + k + l) m0"
      using fits T by (subst store_bytes_eq) (simp_all add: min_def)
    have "move_right (length T) e (length X) k ?m
        = store_bytes (if length X \<noteq> 0 then memmove ?m (length T + k) (length T) l else ?m) (length T) (replicate k 0x20)"
      using 3 by (auto simp: move_right_def Let_def l_def min_def)
    also have "\<dots> = store_bytes (memmove ?m (length T + k) (length T) l) (length T) (replicate k 0x20)"
      by (auto simp: memmove_def l_def)
    also have "\<dots> = mem (emit m0 e (T @ replicate k 0x20 @ X))"
      unfolding moved using 3 by (auto simp: emit_def l_def min_def add.assoc)
    finally show ?thesis .
  qed
qed

definition pad_text :: "printf_spec \<Rightarrow> byte list \<Rightarrow> byte list" where
  "pad_text spec txt =
     (let pad = replicate (nat (sint (field_width spec)) - length txt) 0x20
      in if has spec LEFT then txt @ pad else pad @ txt)"

lemma out_emit: "length T = n \<Longrightarrow> \<lparr>mem = mem (emit m0 e T), str = n\<rparr> = emit m0 e T"
  by (simp add: emit_def)

lemma widen_string_emit:
  assumes "e \<le> length m0"
  shows "widen_string (length X) e spec (emit m0 e (T @ X)) = emit m0 e (T @ pad_text spec X)"
proof (cases "sint (field_width spec) \<le> int (length X)")
  case False
  then have "nat (sint (field_width spec) - int (length X)) = nat (sint (field_width spec)) - length X"
    by (simp add: nat_diff_distrib')
  then show ?thesis
    using False assms by (simp add: widen_string_def pad_text_def Let_def move_right_emit out_emit)
qed (simp add: widen_string_def pad_text_def)

text \<open>
  The text of a string conversion: the characters before the terminating zero, at most as many
  as the precision says, padded to the field width.
\<close>

definition string_text :: "printf_spec \<Rightarrow> u32 \<times> byte list \<Rightarrow> byte list" where
  "string_text spec = (\<lambda>(addr, bytes).
     let txt = takeWhile (\<lambda>c. c \<noteq> 0) (if addr < PAGE_SIZE then null_text else bytes)
     in pad_text spec (take (unat (scast (precision spec) :: u32)) txt))"

lemma string_emit:
  assumes "e \<le> length m0"
  shows "string e x spec (emit m0 e T) = emit m0 e (T @ string_text spec x)"
  using assms by (cases x) (simp add: string_def string_text_def copy_string_emit widen_string_emit Let_def del: length_take)

end
