(* ===== verification/Printf_Correct.thy ===== *)
theory Printf_Correct
  imports Printf_Format Printf_Text
begin

text \<open>
  Correctness of \<open>vsnprintf\<close> and its clients. \<open>fmt_text fmt args\<close> is the text a format denotes,
  without any buffer; \<open>vsnprintf\<close> stores its prefix that fits, terminated by a zero byte, and
  returns its length. \<open>fmt_types fmt\<close> are the types of the arguments a format takes.
\<close>

section \<open>The text of a format\<close>

definition pad_end :: "24 word \<Rightarrow> 24 word" where
  "pad_end w = (if 0 < sint (w - 1) then 0 else w - 1)"

definition pad_spaces :: "24 word \<Rightarrow> byte list" where
  "pad_spaces w = replicate (nat (sint (w - 1))) 0x20"

text \<open>The text of \<open>%c\<close>, and the width the conversion leaves in the specification.\<close>

definition char_text :: "printf_spec \<Rightarrow> byte \<Rightarrow> byte list \<times> 24 word" where
  "char_text spec c =
     (let w = field_width spec
      in if has spec LEFT then (c # pad_spaces w, pad_end w)
         else (pad_spaces w @ c # pad_spaces (pad_end w), pad_end (pad_end w)))"

definition text_step ::
  "byte list \<Rightarrow> nat \<Rightarrow> varg list \<Rightarrow> printf_spec \<Rightarrow> (varg list \<times> printf_spec \<times> byte list) option"
where
  "text_step fmt read args spec =
     (case sp_type spec of
        FORMAT_TYPE_NONE \<Rightarrow> Some (args, spec, take read fmt)
      | FORMAT_TYPE_WIDTH \<Rightarrow> map_option (\<lambda>(x, args). (args, set_field_width spec x, [])) (va_int args)
      | FORMAT_TYPE_PRECISION \<Rightarrow> map_option (\<lambda>(x, args). (args, set_precision spec x, [])) (va_int args)
      | FORMAT_TYPE_CHAR \<Rightarrow>
          map_option (\<lambda>(x, args). (args, spec\<lparr>field_width := snd (char_text spec (ucast x))\<rparr>,
            fst (char_text spec (ucast x)))) (va_int args)
      | FORMAT_TYPE_STR \<Rightarrow> map_option (\<lambda>(x, args). (args, spec, string_text spec x)) (va_str args)
      | FORMAT_TYPE_PTR \<Rightarrow> None
      | FORMAT_TYPE_PERCENT_CHAR \<Rightarrow> Some (args, spec, [0x25])
      | _ \<Rightarrow> Option.bind (fetch_num spec args)
               (\<lambda>(num, args). if has spec SIGN \<and> num = LLONG_MIN then None else Some (args, spec, number_text spec num)))"

function text_loop :: "byte list \<Rightarrow> varg list \<Rightarrow> printf_spec \<Rightarrow> byte list option" where
  "text_loop fmt args spec =
     (if deref fmt = 0 then Some []
      else if \<not> format_defined fmt spec then None
      else let (read, spec) = format_decode fmt spec
      in if sp_type spec = FORMAT_TYPE_INVALID then Some []
      else case text_step fmt read args spec of
             None \<Rightarrow> None
           | Some (args, spec, txt) \<Rightarrow> map_option ((@) txt) (text_loop (drop read fmt) args spec))"
  by auto
termination
proof (relation "measure (\<lambda>(fmt, _). length fmt)", goal_cases)
  case (2 fmt args spec x rd spec' p args' q spec'' tx)
  then have "0 < rd"
    by (metis format_decode_read)
  moreover have "fmt \<noteq> []"
    using 2 by auto
  ultimately show ?case
    by simp
qed simp

declare text_loop.simps [simp del]

definition fmt_text :: "byte list \<Rightarrow> varg list \<Rightarrow> byte list option" where
  "fmt_text fmt args = text_loop fmt args spec0"

section \<open>Characters\<close>

lemma sint_minus_1: "0 < sint w \<Longrightarrow> sint (w - 1) = sint w - 1" for w :: "24 word"
proof -
  assume w: "0 < sint w"
  have "sint w < 2 ^ 23"
    using sint_less [of w] by simp
  then have "signed_take_bit 23 (sint w - 1) = sint w - 1"
    using w by (simp add: signed_take_bit_int_eq_self)
  then show "sint (w - 1) = sint w - 1"
    by (simp add: sint_word_ariths)
qed

lemma pad_gt_emit:
  assumes "e \<le> length m0"
  shows "pad_gt e (emit m0 e T) w = (emit m0 e (T @ pad_spaces w), pad_end w)"
  using assms
proof (induction "nat (sint (w - 1))" arbitrary: w T)
  case 0
  then show ?case
    by (subst pad_gt.simps) (simp add: pad_end_def pad_spaces_def)
next
  case (Suc n)
  then have pos: "0 < sint (w - 1)"
    by linarith
  have IH: "pad_gt e (emit m0 e (T @ [0x20])) (w - 1) = (emit m0 e (T @ [0x20] @ pad_spaces (w - 1)), pad_end (w - 1))"
    using Suc.hyps(1) [of "w - 1" "T @ [0x20]"] Suc.hyps(2) Suc.prems sint_minus_1 [OF pos] by simp
  have "pad_spaces w = 0x20 # pad_spaces (w - 1)"
    using Suc.hyps(2) sint_minus_1 [OF pos] by (simp add: pad_spaces_def flip: replicate_Suc)
  moreover have "pad_end (w - 1) = pad_end w"
  proof -
    have "w - 1 - 1 = 0" if "sint (w - 1) = 1"
      using arg_cong [OF that, of "word_of_int :: int \<Rightarrow> 24 word"] by simp
    then show ?thesis
      using pos sint_minus_1 [OF pos] by (auto simp: pad_end_def)
  qed
  ultimately show ?case
    using pos IH Suc.prems by (subst pad_gt.simps) simp
qed

section \<open>What decoding guarantees\<close>

lemma decode_qualifier_base:
  assumes "decode_qualifier start fmt spec = (r, spec')"
  shows "base spec' \<in> {8, 10, 16} \<and> sp_type spec' \<noteq> FORMAT_TYPE_NONE \<and> sp_type spec' \<noteq> FORMAT_TYPE_WIDTH
    \<and> sp_type spec' \<noteq> FORMAT_TYPE_PRECISION"
  using assms
  by (auto simp: decode_qualifier_def Let_def int_type_def type_plus_def split: if_splits prod.splits)

lemma decode_precision_base:
  assumes "decode_precision start fmt spec = (r, spec')"
  shows "sp_type spec' = FORMAT_TYPE_PRECISION \<or> base spec' \<in> {8, 10, 16} \<and> sp_type spec' \<noteq> FORMAT_TYPE_NONE
    \<and> sp_type spec' \<noteq> FORMAT_TYPE_WIDTH"
  using assms unfolding decode_precision_def Let_def case_prod_unfold
  by (auto split: if_splits dest: decode_qualifier_base)

lemma format_decode_cases:
  assumes "format_decode fmt spec = (r, spec')"
  shows "(sp_type spec' = FORMAT_TYPE_NONE \<longrightarrow> r \<le> length fmt)
    \<and> (sp_type spec' \<in> {FORMAT_TYPE_NONE, FORMAT_TYPE_WIDTH, FORMAT_TYPE_PRECISION} \<or> base spec' \<in> {8, 10, 16})"
  using assms unfolding format_decode_def Let_def case_prod_unfold
  by (auto simp: offset_def split: if_splits dest: decode_qualifier_base decode_precision_base)

section \<open>One step and the loop\<close>

lemma copy_emit:
  assumes "e \<le> length m0" "r \<le> length fmt"
  shows "\<lparr>mem = (if length T < e
       then let copy = (if e - length T < r then e - length T else r)
            in store_bytes (mem (emit m0 e T)) (length T) (take copy fmt)
       else mem (emit m0 e T)), str = length T + r\<rparr> = emit m0 e (T @ take r fmt)"
proof -
  have "take (if e - length T < r then e - length T else r) fmt = take (e - length T) (take r fmt)"
    by (simp add: min_def)
  then show ?thesis
    using assms store_bytes_emit [OF assms(1), of T "take r fmt"] emit_beyond [of e T m0 "take r fmt"]
    by (auto simp: Let_def intro: out_emit)
qed

lemma vsn_step_emit:
  assumes "e \<le> length m0" "format_decode fmt spec' = (r, spec)" "sp_type spec \<noteq> FORMAT_TYPE_INVALID"
  shows "vsn_step e fmt r args spec (emit m0 e T)
    = map_option (\<lambda>(args, spec, tx). (args, spec, emit m0 e (T @ tx))) (text_step fmt r args spec)"
proof -
  note props = format_decode_cases [OF assms(2)]
  show ?thesis
  proof (cases "sp_type spec")
    case FORMAT_TYPE_NONE
    then have "r \<le> length fmt"
      using props by simp
    then show ?thesis
      unfolding vsn_step_def text_step_def FORMAT_TYPE_NONE format_type.case str_emit
      by (subst copy_emit [OF assms(1)]) simp_all
  next
    case FORMAT_TYPE_CHAR
    then show ?thesis
      using assms(1) by (cases "va_int args")
        (simp_all add: vsn_step_def text_step_def case_prod_unfold char_text_def pad_gt_emit Let_def)
  next
    case FORMAT_TYPE_INVALID
    then show ?thesis
      using assms(3) by simp
  qed (use props assms(1) in \<open>simp_all add: vsn_step_def text_step_def option.map_comp o_def case_prod_unfold
      string_emit number_emit map_option_bind if_distrib [of "map_option f" for f] cong: if_cong\<close>)
qed

lemma vsn_loop_emit:
  assumes "e \<le> length m0"
  shows "vsn_loop e fmt args spec (emit m0 e T) = map_option (\<lambda>X. emit m0 e (T @ X)) (text_loop fmt args spec)"
  using assms
proof (induction fmt args spec arbitrary: T rule: text_loop.induct)
  case (1 fmt args spec)
  obtain r spec' where d: "format_decode fmt spec = (r, spec')"
    by fastforce
  show ?case
  proof (cases "deref fmt = 0 \<or> \<not> format_defined fmt spec \<or> sp_type spec' = FORMAT_TYPE_INVALID")
    case True
    then show ?thesis
      using d by (subst vsn_loop.simps, subst text_loop.simps) auto
  next
    case False
    then have step: "vsn_step e fmt r args spec' (emit m0 e T)
        = map_option (\<lambda>(args, spec, tx). (args, spec, emit m0 e (T @ tx))) (text_step fmt r args spec')"
      using vsn_step_emit [OF "1.prems" d] by simp
    have IH: "vsn_loop e (drop r fmt) args' spec'' (emit m0 e T')
        = map_option (\<lambda>X. emit m0 e (T' @ X)) (text_loop (drop r fmt) args' spec'')"
      if "text_step fmt r args spec' = Some (args', spec'', tx)" for args' spec'' tx T'
      using "1.IH" [of "(r, spec')" r spec'] d False that "1.prems" by auto
    show ?thesis
      using False d step IH
      by (subst vsn_loop.simps, subst text_loop.simps)
        (auto simp: option.map_comp o_def split: option.splits)
  qed
qed

section \<open>vsnprintf\<close>

text \<open>The buffer after printing the text \<open>T\<close> into \<open>n\<close> bytes.\<close>

definition printed :: "nat \<Rightarrow> byte list \<Rightarrow> byte list \<Rightarrow> byte list" where
  "printed n m T = (if n = 0 then m else take (n - 1) T @ 0 # drop (Suc (min (length T) (n - 1))) m)"

lemma terminate_emit:
  assumes "0 < n" "n \<le> length m"
  shows "(if str (emit m n T) < n then (mem (emit m n T))[str (emit m n T) := 0] else (mem (emit m n T))[n - 1 := 0])
    = printed n m T"
proof (cases "length T < n")
  case True
  then have "drop (length T) m = m ! length T # drop (Suc (length T)) m"
    using assms(2) by (simp add: Cons_nth_drop_Suc)
  then show ?thesis
    using True assms by (simp add: emit_def printed_def list_update_append min_def)
next
  case False
  then have "take n T = take (n - 1) T @ [T ! (n - 1)]"
    using assms(1) by (metis Suc_diff_1 Suc_le_lessD less_imp_le not_less take_Suc_conv_app_nth)
  moreover have "min (length T) (n - 1) = n - 1" "min (length T) n = n"
    using False by simp_all
  ultimately show ?thesis
    using False assms by (simp add: emit_def printed_def list_update_append)
qed

lemma vsnprintf_text:
  assumes "sz \<le> INT_MAX" "unat sz \<le> length m" "unat buf + unat sz < 2 ^ 32"
  shows "vsnprintf buf m sz fmt args
    = Option.bind (fmt_text fmt args) (\<lambda>T. if 2 ^ 31 \<le> length T \<or> 2 ^ 32 \<le> unat buf + length T then None
        else Some (of_nat (length T), printed (unat sz) m T))"
proof -
  have "\<not> INT_MAX < sz"
    using assms(1) by (simp add: not_less)
  moreover have "\<not> buf + sz < buf"
    using assms(3) by (simp add: word_less_nat_alt unat_word_ariths)
  moreover have "0 < sz \<longleftrightarrow> 0 < unat sz"
    by (simp add: word_less_nat_alt)
  moreover have "vsn_loop (unat sz) fmt args spec0 \<lparr>mem = m, str = 0\<rparr>
      = map_option (emit m (unat sz)) (fmt_text fmt args)"
    using vsn_loop_emit [OF assms(2), of fmt args spec0 "[]"] by (simp add: emit_Nil fmt_text_def)
  moreover have "(if 0 < unat sz
      then if str (emit m (unat sz) T) < unat sz then (mem (emit m (unat sz) T))[str (emit m (unat sz) T) := 0]
           else (mem (emit m (unat sz) T))[unat sz - 1 := 0]
      else mem (emit m (unat sz) T)) = printed (unat sz) m T" for T
    using terminate_emit [of "unat sz" m T] assms(2) by (simp add: printed_def emit_def)
  ultimately show ?thesis
    by (cases "fmt_text fmt args") (simp_all add: vsnprintf_def Let_def)
qed

text \<open>
  C33: Bounded printing. For a buffer of \<open>sz\<close> bytes that does not wrap around the address space,
  \<open>vsnprintf\<close> returns the length of the whole text the format denotes, whatever the size, and
  leaves in the buffer the longest prefix of the text that fits together with its terminating
  zero byte. Every byte behind the terminator, in the buffer and behind the buffer, is kept.
  Printing has no defined result exactly when the format has no text, or when the text has \<open>2 ^ 31\<close>
  characters or more or would run over the end of the address space.
\<close>

theorem vsnprintf_correct:
  assumes "sz \<le> INT_MAX" "unat sz \<le> length m" "unat buf + unat sz < 2 ^ 32"
  shows "vsnprintf buf m sz fmt args =
    (case fmt_text fmt args of
       None \<Rightarrow> None
     | Some T \<Rightarrow>
         if 2 ^ 31 \<le> length T \<or> 2 ^ 32 \<le> unat buf + length T then None
         else Some (of_nat (length T),
           if sz = 0 then m
           else take (unat sz - 1) T @ 0 # drop (Suc (min (length T) (unat sz - 1))) m))"
  using vsnprintf_text [OF assms] by (cases "fmt_text fmt args") (simp_all add: printed_def unat_eq_0)

text \<open>Witness: \<open>"%-4.3s|%05d"\<close> into a buffer of eight bytes with two more bytes behind it.\<close>

lemma vsnprintf_witness:
  "vsnprintf 0x5000 [1, 2, 3, 4, 5, 6, 7, 8, 9, 10] 8 [0x25, 0x2D, 0x34, 0x2E, 0x33, 0x73, 0x7C, 0x25, 0x30, 0x35, 0x64]
     [Arg_str (0x4000, [0x61, 0x62]), Arg_int (- 42)]
   = Some (10, [0x61, 0x62, 0x20, 0x20, 0x7C, 0x2D, 0x30, 0, 9, 10])"
proof -
  have "fmt_text [0x25, 0x2D, 0x34, 0x2E, 0x33, 0x73, 0x7C, 0x25, 0x30, 0x35, 0x64] [Arg_str (0x4000, [0x61, 0x62]), Arg_int (- 42)]
      = Some [0x61, 0x62, 0x20, 0x20, 0x7C, 0x2D, 0x30, 0x30, 0x34, 0x32]"
    by code_simp
  then show ?thesis
    using vsnprintf_correct [of "8" "[1, 2, 3, 4, 5, 6, 7, 8, 9, 10]" "0x5000"
        "[0x25, 0x2D, 0x34, 0x2E, 0x33, 0x73, 0x7C, 0x25, 0x30, 0x35, 0x64]" "[Arg_str (0x4000, [0x61, 0x62]), Arg_int (- 42)]"]
    by (simp add: INT_MAX_def)
qed

section \<open>Argument types\<close>

datatype arg_type = T_int | T_long | T_llong | T_str | T_ptr

fun type_of_arg :: "varg \<Rightarrow> arg_type" where
  "type_of_arg (Arg_int _) = T_int"
| "type_of_arg (Arg_long _) = T_long"
| "type_of_arg (Arg_llong _) = T_llong"
| "type_of_arg (Arg_str _) = T_str"
| "type_of_arg (Arg_ptr _) = T_ptr"

text \<open>The arguments one conversion takes.\<close>

fun conv_types :: "format_type \<Rightarrow> arg_type list" where
  "conv_types FORMAT_TYPE_NONE = []"
| "conv_types FORMAT_TYPE_PERCENT_CHAR = []"
| "conv_types FORMAT_TYPE_STR = [T_str]"
| "conv_types FORMAT_TYPE_PTR = [T_ptr]"
| "conv_types FORMAT_TYPE_LONG_LONG = [T_llong]"
| "conv_types FORMAT_TYPE_ULONG = [T_long]"
| "conv_types FORMAT_TYPE_LONG = [T_long]"
| "conv_types FORMAT_TYPE_PTRDIFF = [T_long]"
| "conv_types _ = [T_int]"

text \<open>
  The argument types of a format, read off without any argument; \<open>None\<close> when it uses \<open>%p\<close> or has a
  width or precision that is no \<open>int\<close>.
\<close>

function fmt_types :: "byte list \<Rightarrow> printf_spec \<Rightarrow> arg_type list option" where
  "fmt_types fmt spec =
     (if deref fmt = 0 then Some []
      else if \<not> format_defined fmt spec then None
      else let (read, spec) = format_decode fmt spec
      in if sp_type spec = FORMAT_TYPE_INVALID then Some []
      else if sp_type spec = FORMAT_TYPE_PTR then None
      else map_option ((@) (conv_types (sp_type spec))) (fmt_types (drop read fmt) spec))"
  by auto
termination
proof (relation "measure (\<lambda>(fmt, _). length fmt)", goal_cases)
  case (2 fmt spec x rd spec')
  then have "0 < rd"
    by (metis format_decode_read)
  moreover have "fmt \<noteq> []"
    using 2 by auto
  ultimately show ?case
    by simp
qed simp

declare fmt_types.simps [simp del]

text \<open>The argument list starts with arguments of these types; more are allowed.\<close>

definition fits :: "arg_type list \<Rightarrow> varg list \<Rightarrow> bool" where
  "fits ts args \<longleftrightarrow> length ts \<le> length args \<and> map type_of_arg (take (length ts) args) = ts"

lemma fits_Nil [simp]: "fits [] args"
  by (simp add: fits_def)

lemma fits_Cons [simp]:
  "\<not> fits (t # ts) []"
  "fits (t # ts) (a # as) \<longleftrightarrow> type_of_arg a = t \<and> fits ts as"
  by (auto simp: fits_def)

text \<open>
  Which arguments a format takes depends on the specification only through its type and its
  sign flag: a width given by an argument can set \<open>LEFT\<close> only.
\<close>

definition alike :: "printf_spec \<Rightarrow> printf_spec \<Rightarrow> bool" where
  "alike s t \<longleftrightarrow> sp_type s = sp_type t \<and> flags s AND SIGN = flags t AND SIGN"

lemma left_sign: "(f OR LEFT) AND SIGN = f AND SIGN"
  by (simp add: bit.conj_disj_distrib2 LEFT_def SIGN_def)

definition same_decode :: "nat \<times> printf_spec \<Rightarrow> nat \<times> printf_spec \<Rightarrow> bool" where
  "same_decode a b \<longleftrightarrow> fst a = fst b \<and> alike (snd a) (snd b)"

lemma int_type_alike: "flags s AND SIGN = flags t AND SIGN \<Longrightarrow> int_type q s = int_type q t"
  by (simp add: int_type_def)

lemma decode_qualifier_alike:
  assumes "alike s t"
  shows "same_decode (decode_qualifier start fmt s) (decode_qualifier start fmt t)"
proof -
  obtain q f where qf: "qualifier_of fmt = (q, f)"
    by fastforce
  have fl: "flags s AND SIGN = flags t AND SIGN" "sp_type s = sp_type t"
    using assms by (simp_all add: alike_def)
  have i: "same_decode (k, u\<lparr>sp_type := int_type q u\<rparr>) (k, v\<lparr>sp_type := int_type q v\<rparr>)"
    if "flags u AND SIGN = flags v AND SIGN" for u v :: printf_spec and k
    using that int_type_alike [OF that] by (simp add: same_decode_def alike_def)
  have c: "same_decode (k, s\<lparr>base := b, sp_type := x\<rparr>) (k, t\<lparr>base := b, sp_type := x\<rparr>)" for k b x
    using fl by (simp add: same_decode_def alike_def)
  have "same_decode (if b then u else v) (if b then u' else v')"
    if "b \<Longrightarrow> same_decode u u'" "\<not> b \<Longrightarrow> same_decode v v'" for b u v u' v'
    using that by simp
  note split = this
  show ?thesis
    unfolding decode_qualifier_def qf Let_def prod.case
    by (intro split c i) (simp_all add: fl bit.conj_disj_distrib2)
qed

lemma decode_precision_alike:
  assumes "alike s t"
  shows "same_decode (decode_precision start fmt s) (decode_precision start fmt t)"
proof -
  have q: "same_decode (decode_qualifier start f (s\<lparr>precision := p\<rparr>)) (decode_qualifier start f (t\<lparr>precision := p\<rparr>))" for f p
    using assms by (intro decode_qualifier_alike) (simp add: alike_def)
  have pr: "(if sint (precision (u\<lparr>precision := - 1, precision := p\<rparr>)) < 0
      then u\<lparr>precision := - 1, precision := p, precision := 0\<rparr> else u\<lparr>precision := - 1, precision := p\<rparr>)
      = u\<lparr>precision := if sint p < 0 then 0 else p\<rparr>" for u :: printf_spec and p
    by simp
  consider "deref fmt = 0x2E" "isdigit (deref (tl fmt))"
    | "deref fmt = 0x2E" "\<not> isdigit (deref (tl fmt))" "deref (tl fmt) = 0x2A"
    | "deref fmt \<noteq> 0x2E \<or> \<not> isdigit (deref (tl fmt)) \<and> deref (tl fmt) \<noteq> 0x2A"
    by blast
  then show ?thesis
  proof cases
    case 1
    then show ?thesis
      unfolding decode_precision_def Let_def case_prod_unfold pr by (simp only: if_True q refl)
  next
    case 2
    then show ?thesis
      using assms by (simp add: decode_precision_def Let_def same_decode_def alike_def)
  next
    case 3
    then show ?thesis
      unfolding decode_precision_def Let_def using q by auto
  qed
qed

lemma decode_flags_alike:
  "alike s t \<Longrightarrow> fst (decode_flags fmt s) = fst (decode_flags fmt t) \<and> alike (snd (decode_flags fmt s)) (snd (decode_flags fmt t))"
proof (induction fmt s arbitrary: t rule: decode_flags.induct)
  case (1 fmt s)
  show ?case
  proof (cases "flag_of (deref (tl fmt))")
    case None
    then show ?thesis
      using "1.prems" by (simp add: decode_flags.simps [of fmt s] decode_flags.simps [of fmt t] Let_def)
  next
    case (Some f)
    have "alike (s\<lparr>flags := flags s OR f\<rparr>) (t\<lparr>flags := flags t OR f\<rparr>)"
      using "1.prems" by (simp add: alike_def bit.conj_disj_distrib2)
    from "1.IH" [OF refl Some this] show ?thesis
      using Some by (simp add: decode_flags.simps [of fmt s] decode_flags.simps [of fmt t] Let_def)
  qed
qed

lemma format_decode_alike:
  assumes "alike s t"
  shows "same_decode (format_decode fmt s) (format_decode fmt t)"
proof -
  let ?s0 = "s\<lparr>sp_type := FORMAT_TYPE_NONE, flags := 0\<rparr>" and ?t0 = "t\<lparr>sp_type := FORMAT_TYPE_NONE, flags := 0\<rparr>"
  consider "sp_type s = FORMAT_TYPE_WIDTH" | "sp_type s = FORMAT_TYPE_PRECISION"
    | "sp_type s \<noteq> FORMAT_TYPE_WIDTH" "sp_type s \<noteq> FORMAT_TYPE_PRECISION"
    by blast
  then show ?thesis
  proof cases
    case 1
    then show ?thesis
      using assms by (simp add: format_decode_def Let_def alike_def) (intro conjI impI decode_precision_alike; simp add: alike_def left_sign)
  next
    case 2
    then show ?thesis
      using assms by (simp add: format_decode_def Let_def alike_def) (intro conjI impI decode_qualifier_alike; simp add: alike_def)
  next
    case 3
    have "alike ?s0 ?t0"
      by (simp add: alike_def)
    from decode_flags_alike [OF this] have flags: "fst (decode_flags f ?s0) = fst (decode_flags f ?t0)"
        "alike (snd (decode_flags f ?s0)) (snd (decode_flags f ?t0))" for f
      by blast+
    then have "same_decode (decode_precision start g ((snd (decode_flags f ?s0))\<lparr>field_width := w\<rparr>))
        (decode_precision start g ((snd (decode_flags f ?t0))\<lparr>field_width := w\<rparr>))" for start g f w
      by (intro decode_precision_alike) (simp add: alike_def)
    then show ?thesis
      using 3 assms flags
      by (auto simp: format_decode_def Let_def case_prod_unfold same_decode_def alike_def)
  qed
qed

lemma format_defined_alike: "alike s t \<Longrightarrow> format_defined fmt s = format_defined fmt t"
  by (simp add: format_defined_def alike_def)

text \<open>Only a \<open>long long\<close> argument can be the smallest number.\<close>

lemma small_not_min:
  fixes x :: "'a :: len word"
  assumes "LENGTH('a) \<le> 32"
  shows "(ucast x :: u64) \<noteq> LLONG_MIN" "(scast x :: u64) \<noteq> LLONG_MIN"
proof -
  have min: "bit LLONG_MIN 63" "\<not> bit LLONG_MIN 62"
    by (simp_all add: LLONG_MIN_def bit_numeral_rec)
  have "\<not> bit (ucast x :: u64) 63"
    using assms by (auto simp: bit_ucast_iff dest: bit_imp_le_length)
  then show "(ucast x :: u64) \<noteq> LLONG_MIN"
    using min by auto
  have "bit (scast x :: u64) 63 = bit (scast x :: u64) 62"
    using assms by (simp add: bit_signed_iff)
  then show "(scast x :: u64) \<noteq> LLONG_MIN"
    using min by auto
qed

lemma text_step_types:
  assumes "sp_type spec \<noteq> FORMAT_TYPE_INVALID" "sp_type spec \<noteq> FORMAT_TYPE_PTR" "Arg_llong LLONG_MIN \<notin> set args"
  shows "case text_step fmt r args spec of
      None \<Rightarrow> \<not> fits (conv_types (sp_type spec) @ ts) args
    | Some (args', spec', tx) \<Rightarrow> alike spec' spec \<and> (fits (conv_types (sp_type spec) @ ts) args \<longleftrightarrow> fits ts args') \<and>
        set args' \<subseteq> set args"
proof (cases args)
  case Nil
  then show ?thesis
    using assms by (cases "sp_type spec") (simp_all add: text_step_def fetch_num_def alike_def)
next
  case (Cons a as)
  have "ucast x \<noteq> LLONG_MIN" "scast x \<noteq> LLONG_MIN" for x :: u32
    by (rule small_not_min; simp)+
  moreover have "ucast (ucast x :: byte) \<noteq> LLONG_MIN" "scast (ucast x :: byte) \<noteq> LLONG_MIN"
      "ucast (ucast x :: 16 word) \<noteq> LLONG_MIN" "scast (ucast x :: 16 word) \<noteq> LLONG_MIN" for x :: u32
    by (rule small_not_min; simp)+
  ultimately show ?thesis
    using assms Cons by (cases "sp_type spec"; cases a)
      (auto simp: text_step_def fetch_num_def alike_def set_field_width_def set_precision_def)
qed

lemma text_loop_types:
  "alike s t \<Longrightarrow> Arg_llong LLONG_MIN \<notin> set args \<Longrightarrow> text_loop fmt args s \<noteq> None \<longleftrightarrow> (\<exists>ts. fmt_types fmt t = Some ts \<and> fits ts args)"
proof (induction fmt args s arbitrary: t rule: text_loop.induct)
  case (1 fmt args s)
  define r where "r = fst (format_decode fmt s)"
  define s' where "s' = snd (format_decode fmt s)"
  define t' where "t' = snd (format_decode fmt t)"
  have d: "format_decode fmt s = (r, s')" "format_decode fmt t = (r, t')" and like: "alike s' t'"
    using format_decode_alike [OF "1.prems"(1), of fmt] by (auto simp: same_decode_def r_def s'_def t'_def prod_eq_iff)
  have ty: "sp_type t' = sp_type s'"
    using like by (simp add: alike_def)
  note unfold = text_loop.simps [of fmt args s] fmt_types.simps [of fmt t] d Let_def prod.case ty
    format_defined_alike [OF "1.prems"(1), of fmt, symmetric]
  consider "deref fmt = 0 \<or> \<not> format_defined fmt s \<or> sp_type s' = FORMAT_TYPE_INVALID"
    | "deref fmt \<noteq> 0" "sp_type s' = FORMAT_TYPE_PTR"
    | (go) "deref fmt \<noteq> 0" "sp_type s' \<noteq> FORMAT_TYPE_INVALID" "sp_type s' \<noteq> FORMAT_TYPE_PTR" "format_defined fmt s"
    by blast
  then show ?case
  proof cases
    case 1
    then show ?thesis
      unfolding unfold by auto
  next
    case 2
    then show ?thesis
      unfolding unfold by (simp add: text_step_def)
  next
    case go
    note types = text_step_types [OF go(2,3) "1.prems"(2), where fmt = fmt and r = r]
    show ?thesis
    proof (cases "text_step fmt r args s'")
      case None
      then show ?thesis
        using go types unfolding unfold by auto
    next
      case (Some p)
      obtain args' s'' tx where p: "p = (args', s'', tx)"
        by (metis surj_pair)
      have fit: "alike s'' s'" "fits (conv_types (sp_type s') @ ts) args \<longleftrightarrow> fits ts args'" "set args' \<subseteq> set args" for ts
        using types [where ts = ts] Some p by simp_all
      have "alike s'' t'"
        using fit(1) like by (simp add: alike_def)
      then have "text_loop (drop r fmt) args' s'' \<noteq> None \<longleftrightarrow> (\<exists>ts. fmt_types (drop r fmt) t' = Some ts \<and> fits ts args')"
        using "1.IH" [OF go(1) _ d(1) [symmetric] refl go(2) Some p [symmetric] refl] go(4) fit(3) "1.prems"(2) by blast
      then show ?thesis
        using go fit(2) unfolding unfold Some p by auto
    qed
  qed
qed

text \<open>
  C34: Formats are typed. The types of the arguments that a format takes can be read off the
  format alone, and \<open>vsnprintf\<close> has a defined result for exactly the argument lists that start
  with arguments of these types, among those without the smallest \<open>long long\<close> (which a signed
  conversion cannot negate) and whose text is shorter than \<open>2 ^ 31\<close> and fits the address space. A
  format has no types when it reaches \<open>%p\<close>, whose conversion uses the value of a function that returns
  none, or a width or precision that overflows an \<open>int\<close>.
\<close>

theorem vsnprintf_typed:
  assumes "sz \<le> INT_MAX" "unat sz \<le> length m" "unat buf + unat sz < 2 ^ 32"
    and "Arg_llong LLONG_MIN \<notin> set args"
    and "\<And>T. fmt_text fmt args = Some T \<Longrightarrow> length T < 2 ^ 31 \<and> unat buf + length T < 2 ^ 32"
  shows "(\<exists>r. vsnprintf buf m sz fmt args = Some r)
    \<longleftrightarrow> (\<exists>ts. fmt_types fmt spec0 = Some ts \<and> length ts \<le> length args \<and> map type_of_arg (take (length ts) args) = ts)"
proof -
  have "alike spec0 spec0"
    by (simp add: alike_def)
  then have "fmt_text fmt args \<noteq> None \<longleftrightarrow> (\<exists>ts. fmt_types fmt spec0 = Some ts \<and> fits ts args)"
    unfolding fmt_text_def using assms(4) by (rule text_loop_types)
  then show ?thesis
    using vsnprintf_text [OF assms(1-3), of fmt args] assms(5)
    by (cases "fmt_text fmt args") (simp_all add: fits_def not_le [symmetric])
qed

text \<open>Witness: \<open>"%*.*lld%.1s"\<close> takes two \<open>int\<close>, a \<open>long long\<close> and a string.\<close>

lemma vsnprintf_typed_witness:
  "(\<exists>r. vsnprintf 0x5000 [1, 2, 3] 2 [0x25, 0x2A, 0x2E, 0x2A, 0x6C, 0x6C, 0x64, 0x25, 0x2E, 0x31, 0x73]
      [Arg_int 4, Arg_int 2, Arg_llong 7, Arg_str (0x4000, [0x61])] = Some r)
   \<and> \<not> (\<exists>r. vsnprintf 0x5000 [1, 2, 3] 2 [0x25, 0x2A, 0x2E, 0x2A, 0x6C, 0x6C, 0x64, 0x25, 0x2E, 0x31, 0x73]
      [Arg_int 4, Arg_int 2, Arg_int 7, Arg_str (0x4000, [0x61])] = Some r)"
proof -
  let ?f = "[0x25, 0x2A, 0x2E, 0x2A, 0x6C, 0x6C, 0x64, 0x25, 0x2E, 0x31, 0x73] :: byte list"
  let ?a = "[Arg_int 4, Arg_int 2, Arg_llong 7, Arg_str (0x4000, [0x61])]"
  let ?b = "[Arg_int 4, Arg_int 2, Arg_int 7, Arg_str (0x4000, [0x61])]"
  have texts: "fmt_text ?f ?a = Some [0x20, 0x20, 0x30, 0x37, 0x61]" "fmt_text ?f ?b = None"
    by code_simp+
  have len: "length T < 2 ^ 31 \<and> unat (0x5000 :: u32) + length T < 2 ^ 32"
    if "fmt_text ?f ?a = Some T \<or> fmt_text ?f ?b = Some T" for T
    using that unfolding texts by auto
  have sizes: "(2 :: u32) \<le> INT_MAX" "unat (2 :: u32) \<le> length ([1, 2, 3] :: byte list)" "unat (0x5000 :: u32) + unat (2 :: u32) < 2 ^ 32"
    by (simp_all add: INT_MAX_def)
  have args: "Arg_llong LLONG_MIN \<notin> set ?a" "Arg_llong LLONG_MIN \<notin> set ?b"
    by (simp_all add: LLONG_MIN_def)
  have types: "fmt_types ?f spec0 = Some [T_int, T_int, T_llong, T_str]"
    by code_simp
  have "(\<exists>r. vsnprintf 0x5000 [1, 2, 3] 2 ?f x = Some r) \<longleftrightarrow>
      (\<exists>ts. fmt_types ?f spec0 = Some ts \<and> length ts \<le> length x \<and> map type_of_arg (take (length ts) x) = ts)"
    if "x = ?a \<or> x = ?b" for x
    by (rule vsnprintf_typed [OF sizes]) (use that args len in blast)+
  from this [of ?a] this [of ?b] show ?thesis
    unfolding types by simp
qed

section \<open>Clients\<close>

lemma kvasprintf_text:
  assumes "fmt_text fmt ap = Some T" "length T + 1 < 2 ^ 31"
    and "alloc (length T + 1) = Some (p, m)" "length T + 1 \<le> length m" "unat p + (length T + 1) < 2 ^ 32"
  shows "kvasprintf alloc fmt ap = Some (Some (p, T @ 0 # drop (length T + 1) m), False)"
proof -
  have n: "unat (of_nat (length T) + 1 :: u32) = length T + 1"
    using assms(2) by (simp add: unat_word_ariths unat_of_nat)
  then have "of_nat (length T) + 1 \<le> INT_MAX"
    using assms(2) by (simp only: word_le_nat_alt) (simp add: INT_MAX_def)
  then have "vsnprintf p m (of_nat (length T) + 1) fmt ap = Some (of_nat (length T), T @ 0 # drop (length T + 1) m)"
    using vsnprintf_text [of "of_nat (length T) + 1" m p fmt ap] n assms by (simp add: printed_def)
  moreover have "vsnprintf 0 [] 0 fmt ap = Some (of_nat (length T), [])"
    using vsnprintf_text [of 0 "[]" 0 fmt ap] assms(1,2) by (simp add: printed_def INT_MAX_def)
  ultimately show ?thesis
    using assms(3) n by (simp add: kvasprintf_def)
qed

text \<open>
  The format \<open>"%s-%u%c"\<close> of \<open>kmalloc_cache_name\<close>. Without a precision, \<open>%s\<close> prints up to
  the terminating zero.
\<close>

definition conv_spec :: "format_type \<Rightarrow> printf_spec" where
  "conv_spec t = \<lparr>sp_type = t, field_width = - 1, flags = 0, base = 10, precision = - 1\<rparr>"

lemma string_text_plain:
  assumes "PAGE_SIZE \<le> addr" "0 \<notin> set bytes" "length bytes < 2 ^ 32"
  shows "string_text (conv_spec t) (addr, bytes) = bytes"
proof -
  have "unat (scast (- 1 :: 16 word) :: u32) = 2 ^ 32 - 1"
    by (simp add: unsigned_minus_1_eq_mask mask_eq_exp_minus_1)
  moreover have tw: "takeWhile (\<lambda>c. c \<noteq> 0) bytes = bytes"
    using assms(2) by (auto simp: takeWhile_eq_all_conv)
  ultimately show ?thesis
    using assms(1,3) by (simp add: string_text_def conv_spec_def pad_text_def tw Let_def not_less [symmetric])
qed

lemma number_text_plain: "number_text (conv_spec t) num = map dec_char (rev (digits 10 (unat num)))"
proof -
  have "map (digit_char 0) (rev (digits 10 (unat num))) = map dec_char (rev (digits 10 (unat num)))"
    using digits_less [of 10 _ "unat num"] digit_char_dec [of 0] by simp
  then show ?thesis
    by (simp add: number_text_def sign_text_def prefix_text_def magnitude_def digits_text_def conv_spec_def has_def
        rev_map)
qed

lemma char_text_plain: "fst (char_text (conv_spec t) c) = [c]"
  by (simp add: char_text_def conv_spec_def has_def pad_spaces_def pad_end_def)

definition name_format :: "byte list" where
  "name_format = [0x25, 0x73, 0x2D, 0x25, 0x75, 0x25, 0x63]"

lemma name_format_decode:
  "format_decode name_format spec0 = (2, conv_spec FORMAT_TYPE_STR)"
  "format_decode (drop 2 name_format) (conv_spec FORMAT_TYPE_STR) = (1, conv_spec FORMAT_TYPE_NONE)"
  "format_decode (drop 3 name_format) (conv_spec FORMAT_TYPE_NONE) = (2, conv_spec FORMAT_TYPE_UINT)"
  "format_decode (drop 5 name_format) (conv_spec FORMAT_TYPE_UINT) = (2, conv_spec FORMAT_TYPE_CHAR)"
  "format_defined name_format spec0" "format_defined (drop 2 name_format) (conv_spec FORMAT_TYPE_STR)"
  "format_defined (drop 3 name_format) (conv_spec FORMAT_TYPE_NONE)" "format_defined (drop 5 name_format) (conv_spec FORMAT_TYPE_UINT)"
  by code_simp+

lemma name_format_text:
  "fmt_text name_format [Arg_str x, Arg_int sz, Arg_int c]
   = Some (string_text (conv_spec FORMAT_TYPE_STR) x @ 0x2D # map dec_char (rev (digits 10 (unat sz))) @ [ucast c])"
proof -
  have [simp]: "deref name_format \<noteq> 0" "deref (drop 2 name_format) \<noteq> 0" "deref (drop 3 name_format) \<noteq> 0"
      "deref (drop 5 name_format) \<noteq> 0" "drop 7 name_format = []" "take (Suc 0) (drop 2 name_format) = [0x2D]"
      "drop (Suc (Suc (Suc 0))) name_format = drop 3 name_format"
    by (simp_all add: name_format_def numeral_3_eq_3)
  have c: "sp_type (conv_spec t) = t" for t
    by (simp add: conv_spec_def)
  have unsigned: "\<not> has (conv_spec t) SIGN" for t
    by (simp add: conv_spec_def has_def)
  have u: "unat (ucast sz :: u64) = unat sz"
    using unsigned_less [of sz, where ?'a = nat] by (simp add: unsigned_ucast_eq take_bit_nat_eq_self)
  have 4: "text_loop (drop 5 name_format) [Arg_int c] (conv_spec FORMAT_TYPE_UINT) = Some [ucast c]"
    by (subst text_loop.simps) (simp add: name_format_decode(4,8) c text_step_def char_text_plain text_loop.simps [of "[]"])
  have 3: "text_loop (drop 3 name_format) [Arg_int sz, Arg_int c] (conv_spec FORMAT_TYPE_NONE)
      = Some (map dec_char (rev (digits 10 (unat sz))) @ [ucast c])"
    by (subst text_loop.simps) (simp add: name_format_decode(3,7) c text_step_def fetch_num_def number_text_plain u 4 unsigned)
  have 2: "text_loop (drop 2 name_format) [Arg_int sz, Arg_int c] (conv_spec FORMAT_TYPE_STR)
      = Some (0x2D # map dec_char (rev (digits 10 (unat sz))) @ [ucast c])"
    by (subst text_loop.simps) (simp add: name_format_decode(2,6) c text_step_def 3)
  show ?thesis
    unfolding fmt_text_def by (subst text_loop.simps) (simp add: name_format_decode(1,5) c text_step_def 2)
qed

text \<open>The size is divided by 1024 as often as it has that factor.\<close>

lemma scale_size_exact:
  "scale_size sz i = (s, j) \<Longrightarrow>
   i \<le> j \<and> unat sz = unat s * 1024 ^ (j - i) \<and> \<not> (1024 \<le> unat s \<and> 1024 dvd unat s)"
proof (induction sz i rule: scale_size.induct)
  case (1 sz i)
  have cond: "1024 \<le> sz \<and> sz mod 1024 = 0 \<longleftrightarrow> 1024 \<le> unat sz \<and> 1024 dvd unat sz"
    by (simp add: word_le_nat_alt word_unat_eq_iff unat_mod dvd_eq_mod_eq_0)
  show ?case
  proof (cases "1024 \<le> sz \<and> sz mod 1024 = 0")
    case True
    then have step: "scale_size (sz div 1024) (Suc i) = (s, j)"
      using "1.prems" by (simp add: scale_size.simps [of sz])
    have "unat (sz div 1024) = unat sz div 1024"
      by (simp add: unat_div)
    then have IH: "Suc i \<le> j" "unat sz div 1024 = unat s * 1024 ^ (j - Suc i)" "\<not> (1024 \<le> unat s \<and> 1024 dvd unat s)"
      using "1.IH" [OF True step] by auto
    have "unat sz = 1024 * (unat sz div 1024)"
      using True cond by (simp add: dvd_mult_div_cancel)
    moreover have "1024 ^ (j - i) = (1024 :: nat) * 1024 ^ (j - Suc i)"
      using IH(1) by (simp flip: power_Suc add: Suc_diff_Suc)
    ultimately show ?thesis
      using IH by simp
  next
    case False
    then show ?thesis
      using "1.prems" cond by (subst (asm) scale_size.simps) auto
  qed
qed

text \<open>
  The name of a cache: the prefix, a dash, the size in the largest unit that divides it, and the
  letter of the unit. Below one kilobyte the letter is a zero byte, so the name ends before it.
\<close>

lemma kmalloc_cache_name_text:
  assumes "PAGE_SIZE \<le> addr" "0 \<notin> set bytes" "length bytes < 2 ^ 30" "unat sz < 2 ^ 30"
    and "\<And>n p m. alloc n = Some (p, m) \<Longrightarrow> n \<le> length m \<and> unat p + n < 2 ^ 32"
    and "\<And>n. alloc n \<noteq> None"
  shows "\<exists>(s :: u32) j p rest. unat sz = unat s * 1024 ^ j \<and> \<not> (1024 \<le> unat s \<and> 1024 dvd unat s) \<and>
    kmalloc_cache_name alloc (addr, bytes) sz
      = Some (Some (p, bytes @ 0x2D # map dec_char (rev (digits 10 (unat s))) @ [units ! j] @ 0 # rest), False)"
proof -
  obtain s j where sc: "scale_size sz 0 = (s, j)"
    by fastforce
  have exact: "unat sz = unat s * 1024 ^ j" "\<not> (1024 \<le> unat s \<and> 1024 dvd unat s)"
    using scale_size_exact [OF sc] by simp_all
  have j: "j < length units"
  proof (rule ccontr)
    assume "\<not> j < length units"
    then have "1024 ^ 3 \<le> (1024 :: nat) ^ j"
      by (intro power_increasing) (simp_all add: units_def)
    moreover have "unat s = 0 \<Longrightarrow> j = 0"
      using sc exact(1) by (simp add: scale_size.simps unat_eq_0)
    ultimately show False
      using exact(1) assms(4) \<open>\<not> j < length units\<close> by (cases "unat s") (auto simp: units_def)
  qed
  let ?T = "bytes @ 0x2D # map dec_char (rev (digits 10 (unat s))) @ [units ! j]"
  have "ucast (scast (units ! j) :: u32) = units ! j"
    using j by (auto simp: units_def less_Suc_eq)
  then have "fmt_text name_format [Arg_str (addr, bytes), Arg_int s, Arg_int (scast (units ! j))] = Some ?T"
    using assms(1-3) by (simp add: name_format_text string_text_plain)
  moreover have "length (digits 10 (unat s)) \<le> Suc 9"
    using unsigned_less [of s, where ?'a = nat] by (intro length_digits_le) simp_all
  then have "length ?T + 1 < 2 ^ 31"
    using assms(3) by simp
  moreover obtain p m where pm: "alloc (length ?T + 1) = Some (p, m)"
    using assms(6) by (metis option.exhaust surj_pair)
  ultimately have "kasprintf alloc name_format [Arg_str (addr, bytes), Arg_int s, Arg_int (scast (units ! j))]
      = Some (Some (p, ?T @ 0 # drop (length ?T + 1) m), False)"
    unfolding kasprintf_def using assms(5) [OF pm] by (intro kvasprintf_text) simp_all
  then have name: "kmalloc_cache_name alloc (addr, bytes) sz = Some (Some (p, ?T @ 0 # drop (length ?T + 1) m), False)"
    using j sc by (simp add: kmalloc_cache_name_def name_format_def)
  show ?thesis
    by (rule exI [of _ s], rule exI [of _ j], rule exI [of _ p], rule exI [of _ "drop (length ?T + 1) m"])
      (use name exact in simp)
qed

text \<open>\<open>kstrdup\<close> copies a string with its terminator and keeps the memory behind it.\<close>

lemma take_strlen: "take (strlen s + 1) (s @ [0]) = takeWhile (\<lambda>c. c \<noteq> 0) s @ [0]"
  by (induction s) (auto simp: strlen_def)

lemma kstrdup_copy:
  assumes "addr \<noteq> 0" "alloc (strlen s + 1) = Some (p, m)" "strlen s + 1 \<le> length m"
  shows "kstrdup alloc (addr, s) = Some (p, takeWhile (\<lambda>c. c \<noteq> 0) s @ 0 # drop (strlen s + 1) m)"
proof -
  have "store_bytes m 0 (takeWhile (\<lambda>c. c \<noteq> 0) s @ [0]) = takeWhile (\<lambda>c. c \<noteq> 0) s @ 0 # drop (strlen s + 1) m"
    using assms(3) by (subst store_bytes_eq) (simp_all add: strlen_def)
  then show ?thesis
    using assms take_strlen [of s] by (simp add: kstrdup_def)
qed

text \<open>
  C40: Printing into fresh memory. For a format with a text of fewer than \<open>INT_MAX\<close> characters,
  the first pass of \<open>kasprintf\<close> asks for exactly the room the text and its terminator take; when
  the allocator has it, the returned memory starts with the whole text and a zero byte, the rest
  of it is kept, and the two passes agree on the length. When the allocator has no memory,
  nothing is printed and the result is \<open>NULL\<close>.
\<close>

theorem kasprintf_correct:
  assumes "fmt_text fmt ap = Some T" "length T + 1 < 2 ^ 31"
    and "\<And>n p m. alloc n = Some (p, m) \<Longrightarrow> n \<le> length m \<and> unat p + n < 2 ^ 32"
  shows "kasprintf alloc fmt ap =
    (case alloc (length T + 1) of
       None \<Rightarrow> Some (None, False)
     | Some (p, m) \<Rightarrow> Some (Some (p, T @ 0 # drop (length T + 1) m), False))"
proof (cases "alloc (length T + 1)")
  case None
  have "vsnprintf 0 [] 0 fmt ap = Some (of_nat (length T), [])"
    using vsnprintf_text [of 0 "[]" 0 fmt ap] assms(1,2) by (simp add: printed_def INT_MAX_def)
  moreover have "unat (of_nat (length T) + 1 :: u32) = length T + 1"
    using assms(2) by (simp add: unat_word_ariths unat_of_nat)
  ultimately show ?thesis
    using None by (simp add: kasprintf_def kvasprintf_def)
next
  case (Some a)
  then show ?thesis
    using kvasprintf_text [OF assms(1,2)] assms(3) [of "length T + 1"] by (cases a) (simp add: kasprintf_def)
qed

text \<open>Witness: the name of the 8 kilobyte cache, \<open>kmalloc-rcl-8k\<close>, in memory that has just the room.\<close>

lemma kasprintf_witness:
  "kmalloc_cache_name (\<lambda>n. if n < 64 then Some (0x6000, replicate n 0xFF) else None)
     (0x4000, [0x6B, 0x6D, 0x61, 0x6C, 0x6C, 0x6F, 0x63, 0x2D, 0x72, 0x63, 0x6C]) 8192
   = Some (Some (0x6000, [0x6B, 0x6D, 0x61, 0x6C, 0x6C, 0x6F, 0x63, 0x2D, 0x72, 0x63, 0x6C, 0x2D, 0x38, 0x6B, 0]), False)"
proof -
  let ?x = "(0x4000, [0x6B, 0x6D, 0x61, 0x6C, 0x6C, 0x6F, 0x63, 0x2D, 0x72, 0x63, 0x6C]) :: u32 \<times> byte list"
  have tx: "fmt_text name_format [Arg_str ?x, Arg_int 8, Arg_int 0x6B]
      = Some [0x6B, 0x6D, 0x61, 0x6C, 0x6C, 0x6F, 0x63, 0x2D, 0x72, 0x63, 0x6C, 0x2D, 0x38, 0x6B]"
    by (simp add: name_format_text string_text_plain PAGE_SIZE_def digits_one dec_char_def)
  have law: "n \<le> length m \<and> unat p + n < 2 ^ 32"
    if "(if n < 64 then Some (0x6000, replicate n 0xFF) else None) = Some (p, m)" for n and p :: u32 and m :: "byte list"
    using that by (auto split: if_splits)
  have "kasprintf (\<lambda>n. if n < 64 then Some (0x6000, replicate n 0xFF) else None)
      name_format [Arg_str ?x, Arg_int 8, Arg_int 0x6B]
    = Some (Some (0x6000, [0x6B, 0x6D, 0x61, 0x6C, 0x6C, 0x6F, 0x63, 0x2D, 0x72, 0x63, 0x6C, 0x2D, 0x38, 0x6B, 0]), False)"
    using kasprintf_correct [OF tx _ law] by simp
  then show ?thesis
    by (simp add: kmalloc_cache_name_def name_format_def scale_size.simps units_def)
qed

end
