(* ===== verification/Game_2048.thy ===== *)
theory Game_2048
  imports Prelude
begin

text \<open>
  The game \<open>GAME/2048/2048.c\<close>. A cell is a byte, 0 or the exponent of its tile; \<open>board ! x ! y\<close> is
  \<open>board[x][y]\<close>, with column \<open>x\<close> and row \<open>y\<close> on the screen. The score is passed along. Reading
  outside an array and shifting by 32 or more have no result (\<open>None\<close>). \<open>rand\<close> is a function from
  the number of the call to its result, and \<open>getchar\<close> a list of characters, at whose end it
  returns \<open>-1\<close>. Of the drawing only the
  choice of colours is modelled.
\<close>

type_synonym u8 = "8 word"
type_synonym board = "u8 list list"

definition SIZE :: nat where "SIZE = 4"

section \<open>Colours\<close>

text \<open>The three tables of \<open>getColor\<close>: background and foreground by turns.\<close>

definition color_schemes :: "nat list list" where
  "color_schemes =
     [[8,255,1,255,2,255,3,255,4,255,5,255,6,255,7,255,9,0,10,0,11,0,12,0,13,0,14,0,255,0,255,0],
      [232,255,234,255,236,255,238,255,240,255,242,255,244,255,246,0,248,0,249,0,250,0,251,0,252,0,253,0,254,0,255,0],
      [235,255,63,255,57,255,93,255,129,255,165,255,201,255,200,255,199,255,198,255,197,255,196,255,196,255,196,255,196,255,196,255]]"

text \<open>\<open>while (value--)\<close>, with the offset of \<open>background\<close> in its table.\<close>

primrec color_loop :: "nat \<Rightarrow> nat \<Rightarrow> nat" where
  "color_loop 0 bg = bg"
| "color_loop (Suc v) bg = color_loop v (if bg + 2 < 32 then bg + 2 else bg)"

definition getColor :: "nat \<Rightarrow> u8 \<Rightarrow> (nat \<times> nat) option" where
  "getColor scheme value =
     (let bg = color_loop (unat value) 0;
          t = color_schemes ! scheme
      in if scheme < 3 \<and> bg + 1 < length t then Some (t ! (bg + 1), t ! bg) else None)"

section \<open>Sliding\<close>

text \<open>\<open>for (t = x - 1;; t--)\<close>\<close>

primrec find_loop :: "u8 list \<Rightarrow> nat \<Rightarrow> nat \<Rightarrow> nat \<Rightarrow> nat option" where
  "find_loop a x stop 0 =
     (if a ! 0 \<noteq> 0 then if a ! 0 \<noteq> a ! x then Some 1 else Some 0
      else if stop = 0 then Some 0 else None)"
| "find_loop a x stop (Suc t) =
     (if a ! Suc t \<noteq> 0 then if a ! Suc t \<noteq> a ! x then Some (Suc t + 1) else Some (Suc t)
      else if Suc t = stop then Some (Suc t) else find_loop a x stop t)"

definition findTarget :: "u8 list \<Rightarrow> nat \<Rightarrow> nat \<Rightarrow> nat option" where
  "findTarget a x stop = (if x = 0 then Some x else find_loop a x stop (x - 1))"

definition shift_one :: "u8 \<Rightarrow> u32 option" where
  "shift_one v = (if unat v < 32 then Some (push_bit (unat v) 1) else None)"

text \<open>One round of the loop of \<open>slideArray\<close>: the array, \<open>stop\<close>, \<open>success\<close> and the score.\<close>

definition slide_step :: "nat \<Rightarrow> u8 list \<times> nat \<times> bool \<times> u32 \<Rightarrow> (u8 list \<times> nat \<times> bool \<times> u32) option" where
  "slide_step x = (\<lambda>(a, stop, success, score).
     if a ! x \<noteq> 0
     then case findTarget a x stop of
            None \<Rightarrow> None
          | Some t \<Rightarrow>
              if t \<noteq> x
              then if a ! t = 0 then Some (a[t := a ! x, x := 0], stop, True, score)
                   else if a ! t = a ! x
                   then let a = a[t := a ! t + 1]
                        in map_option (\<lambda>s. (a[x := 0], t + 1, True, score + s)) (shift_one (a ! t))
                   else Some (a[x := 0], stop, True, score)
              else Some (a, stop, success, score)
     else Some (a, stop, success, score))"

primrec slide_loop :: "nat list \<Rightarrow> u8 list \<times> nat \<times> bool \<times> u32 \<Rightarrow> (u8 list \<times> nat \<times> bool \<times> u32) option" where
  "slide_loop [] s = Some s"
| "slide_loop (x # xs) s = (case slide_step x s of None \<Rightarrow> None | Some s \<Rightarrow> slide_loop xs s)"

definition slideArray :: "u8 list \<Rightarrow> u32 \<Rightarrow> (bool \<times> u8 list \<times> u32) option" where
  "slideArray a score =
     map_option (\<lambda>(a, _, success, score). (success, a, score)) (slide_loop [0..<SIZE] (a, 0, False, score))"

section \<open>Moves\<close>

definition cell :: "board \<Rightarrow> nat \<Rightarrow> nat \<Rightarrow> u8" where
  "cell b x y = b ! x ! y"

definition put_cell :: "nat \<Rightarrow> nat \<Rightarrow> u8 \<Rightarrow> board \<Rightarrow> board" where
  "put_cell x y v b = b[x := (b ! x)[y := v]]"

definition rotate_cells :: "nat \<times> nat \<Rightarrow> board \<Rightarrow> board" where
  "rotate_cells = (\<lambda>(i, j) b.
     let tmp = cell b i j;
         b = put_cell i j (cell b j (SIZE - i - 1)) b;
         b = put_cell j (SIZE - i - 1) (cell b (SIZE - i - 1) (SIZE - j - 1)) b;
         b = put_cell (SIZE - i - 1) (SIZE - j - 1) (cell b (SIZE - j - 1) i) b
     in put_cell (SIZE - j - 1) i tmp b)"

definition rotateBoard :: "board \<Rightarrow> board" where
  "rotateBoard b = fold rotate_cells [(i, j). i \<leftarrow> [0..<SIZE div 2], j \<leftarrow> [i..<SIZE - i - 1]] b"

primrec up_loop :: "nat list \<Rightarrow> bool \<times> board \<times> u32 \<Rightarrow> (bool \<times> board \<times> u32) option" where
  "up_loop [] s = Some s"
| "up_loop (x # xs) s = (case s of (success, b, score) \<Rightarrow>
     (case slideArray (b ! x) score of
        None \<Rightarrow> None
      | Some (ok, a, score) \<Rightarrow> up_loop xs (success \<or> ok, b[x := a], score)))"

definition moveUp :: "board \<Rightarrow> u32 \<Rightarrow> (bool \<times> board \<times> u32) option" where
  "moveUp b score = up_loop [0..<SIZE] (False, b, score)"

definition moveLeft :: "board \<Rightarrow> u32 \<Rightarrow> (bool \<times> board \<times> u32) option" where
  "moveLeft b score =
     map_option (\<lambda>(ok, b, s). (ok, rotateBoard (rotateBoard (rotateBoard b)), s)) (moveUp (rotateBoard b) score)"

definition moveDown :: "board \<Rightarrow> u32 \<Rightarrow> (bool \<times> board \<times> u32) option" where
  "moveDown b score =
     map_option (\<lambda>(ok, b, s). (ok, rotateBoard (rotateBoard b), s)) (moveUp (rotateBoard (rotateBoard b)) score)"

definition moveRight :: "board \<Rightarrow> u32 \<Rightarrow> (bool \<times> board \<times> u32) option" where
  "moveRight b score =
     map_option (\<lambda>(ok, b, s). (ok, rotateBoard b, s)) (moveUp (rotateBoard (rotateBoard (rotateBoard b))) score)"

section \<open>The end of the game\<close>

definition findPairDown :: "board \<Rightarrow> bool" where
  "findPairDown b \<longleftrightarrow> list_ex (\<lambda>x. list_ex (\<lambda>y. cell b x y = cell b x (y + 1)) [0..<SIZE - 1]) [0..<SIZE]"

definition countEmpty :: "board \<Rightarrow> nat" where
  "countEmpty b = length [(x, y). x \<leftarrow> [0..<SIZE], y \<leftarrow> [0..<SIZE], cell b x y = 0]"

definition gameEnded :: "board \<Rightarrow> bool \<times> board" where
  "gameEnded b =
     (if countEmpty b > 0 then (False, b)
      else if findPairDown b then (False, b)
      else let b = rotateBoard b;
               ended = (\<not> findPairDown b)
           in (ended, rotateBoard (rotateBoard (rotateBoard b))))"

section \<open>New tiles\<close>

definition empty_cells :: "board \<Rightarrow> (nat \<times> nat) list" where
  "empty_cells b = [(x, y). x \<leftarrow> [0..<SIZE], y \<leftarrow> [0..<SIZE], cell b x y = 0]"

definition addRandom :: "(nat \<Rightarrow> nat) \<Rightarrow> nat \<Rightarrow> board \<Rightarrow> board \<times> nat" where
  "addRandom rand k b =
     (let list = empty_cells b
      in if 0 < length list
         then let (x, y) = list ! (rand k mod length list);
                  n = rand (k + 1) mod 10 div 9 + 1
              in (put_cell x y (of_nat n) b, k + 2)
         else (b, k))"

definition initBoard :: "(nat \<Rightarrow> nat) \<Rightarrow> nat \<Rightarrow> board \<times> u32 \<times> nat" where
  "initBoard rand k =
     (let b = replicate SIZE (replicate SIZE 0);
          (b, k) = addRandom rand k b;
          (b, k) = addRandom rand k b
      in (b, 0, k))"

section \<open>The test and the main loop\<close>

definition test_data :: "(u8 list \<times> u8 list) list" where
  "test_data =
     [([0,0,0,1], [1,0,0,0]), ([0,0,1,1], [2,0,0,0]), ([0,1,0,1], [2,0,0,0]), ([1,0,0,1], [2,0,0,0]),
      ([1,0,1,0], [2,0,0,0]), ([1,1,1,0], [2,1,0,0]), ([1,0,1,1], [2,1,0,0]), ([1,1,0,1], [2,1,0,0]),
      ([1,1,1,1], [2,2,0,0]), ([2,2,1,1], [3,2,0,0]), ([1,1,2,2], [2,3,0,0]), ([3,0,1,1], [3,2,0,0]),
      ([2,0,1,1], [2,2,0,0])]"

primrec test_loop :: "(u8 list \<times> u8 list) list \<Rightarrow> u32 \<Rightarrow> bool option" where
  "test_loop [] score = Some True"
| "test_loop (t # ts) score = (case slideArray (fst t) score of
     None \<Rightarrow> None
   | Some (_, a, score) \<Rightarrow> if a \<noteq> snd t then Some False else test_loop ts score)"

definition test :: "u32 \<Rightarrow> int option" where
  "test score = map_option (\<lambda>ok. if ok then 0 else 1) (test_loop test_data score)"

datatype outcome = Game_over | Quit | No_input

definition key_move :: "int \<Rightarrow> board \<Rightarrow> u32 \<Rightarrow> (bool \<times> board \<times> u32) option" where
  "key_move c b score =
     (if c \<in> {97, 104, 68} then moveLeft b score
      else if c \<in> {100, 108, 67} then moveRight b score
      else if c \<in> {119, 107, 65} then moveUp b score
      else if c \<in> {115, 106, 66} then moveDown b score
      else Some (False, b, score))"

definition getchar :: "int list \<Rightarrow> int \<times> int list" where
  "getchar cs = (case cs of [] \<Rightarrow> (- 1, []) | c # cs \<Rightarrow> (c, cs))"

text \<open>
  The loop of \<open>main\<close>. A character read at a prompt is the one that the tests below the prompt see.
\<close>

function main_loop :: "(nat \<Rightarrow> nat) \<Rightarrow> int list \<Rightarrow> nat \<Rightarrow> board \<Rightarrow> u32 \<Rightarrow> (outcome \<times> board \<times> u32) option" where
  "main_loop rand [] k b score = Some (No_input, b, score)"
| "main_loop rand (c # cs) k b score =
     (if c = - 1 then Some (No_input, b, score)
      else case key_move c b score of
        None \<Rightarrow> None
      | Some (success, b, score) \<Rightarrow>
          let (b, k) = (if success then addRandom rand k b else (b, k));
              (ended, b) = (if success then gameEnded b else (False, b))
          in if ended then Some (Game_over, b, score)
             else let q = (c = 113);
                      (c, cs) = (if q then getchar cs else (c, cs))
                  in if q \<and> c = 121 then Some (Quit, b, score)
                     else if c = 114
                     then let (c, cs) = getchar cs
                          in if c = 121
                             then let (b, score, k) = initBoard rand k in main_loop rand cs k b score
                             else main_loop rand cs k b score
                     else main_loop rand cs k b score)"
  by pat_completeness auto
termination
  by (relation "measure (\<lambda>(_, cs, _). length cs)") (auto simp: getchar_def split: if_splits list.splits)

definition game_main :: "(nat \<Rightarrow> nat) \<Rightarrow> int list \<Rightarrow> (outcome \<times> board \<times> u32) option" where
  "game_main rand keys = (let (b, score, k) = initBoard rand 0 in main_loop rand keys k b score)"

end
