(* ===== verification/Game_Slide.thy ===== *)
theory Game_Slide
  imports Game_2048
begin

text \<open>
  What a move of the game does: the tiles of a column keep their order, lose the gaps, and the
  first of two equal neighbours doubles, each tile at most once.
\<close>

section \<open>The reference\<close>

fun merge :: "u8 list \<Rightarrow> u8 list" where
  "merge (x # y # zs) = (if x = y then (x + 1) # merge zs else x # merge (y # zs))"
| "merge xs = xs"

fun gained :: "u8 list \<Rightarrow> u32" where
  "gained (x # y # zs) = (if x = y then 2 ^ (unat x + 1) + gained zs else gained (y # zs))"
| "gained xs = 0"

definition tiles :: "u8 list \<Rightarrow> u8 list" where
  "tiles a = filter (\<lambda>v. v \<noteq> 0) a"

definition slid :: "u8 list \<Rightarrow> u8 list" where
  "slid a = merge (tiles a) @ replicate (SIZE - length (merge (tiles a))) 0"

definition small :: "u8 list \<Rightarrow> bool" where
  "small a \<longleftrightarrow> length a = SIZE \<and> (\<forall>v\<in>set a. unat v \<le> 30)"

section \<open>Sliding one column\<close>

lemma succ_small:
  assumes "unat (v :: u8) \<le> 30"
  shows "v + 1 \<noteq> 0" "unat (v + 1) = unat v + 1" "shift_one (v + 1) = Some (2 ^ (unat v + 1))"
proof -
  show u: "unat (v + 1) = unat v + 1"
    using assms by (simp add: unat_word_ariths)
  then show "v + 1 \<noteq> 0"
    by (metis add_eq_0_iff_both_eq_0 unsigned_0 zero_neq_one)
  show "shift_one (v + 1) = Some (2 ^ (unat v + 1))"
    unfolding shift_one_def u using assms by (simp add: push_bit_eq_mult)
qed

lemma slide_all:
  assumes "unat (p :: u8) \<le> 30" "unat q \<le> 30" "unat r \<le> 30" "unat s \<le> 30"
  shows "slideArray [p, q, r, s] score =
    Some (slid [p, q, r, s] \<noteq> [p, q, r, s], slid [p, q, r, s], score + gained (tiles [p, q, r, s]))"
proof -
  have upt: "[0..<4] = [0, Suc 0, Suc (Suc 0), Suc (Suc (Suc 0))]" "replicate 4 (0 :: u8) = [0, 0, 0, 0]"
    by (simp_all add: upt_rec numeral_eq_Suc)
  note defs = slideArray_def upt slide_step_def findTarget_def slid_def tiles_def SIZE_def
  note sm = succ_small [OF assms(1)] succ_small [OF assms(2)] succ_small [OF assms(3)] succ_small [OF assms(4)]
  show ?thesis
    by (cases "p = 0"; cases "q = 0"; cases "r = 0"; cases "s = 0")
      (auto simp: defs sm numeral_2_eq_2 numeral_3_eq_3 Let_def)
qed

lemma length_SIZE:
  assumes "length xs = SIZE"
  obtains p q r s where "xs = [p, q, r, s]"
proof -
  have "length xs = Suc (Suc (Suc (Suc 0)))"
    using assms by (simp add: SIZE_def)
  then obtain p q r s where "xs = [p, q, r, s]"
    unfolding length_Suc_conv length_0_conv by (elim exE conjE) simp
  then show ?thesis
    by (rule that)
qed

lemma slide_small:
  assumes "small a"
  shows "slideArray a score = Some (slid a \<noteq> a, slid a, score + gained (tiles a))"
proof -
  have "length a = SIZE"
    using assms by (simp add: small_def)
  then obtain p q r s where a: "a = [p, q, r, s]"
    by (rule length_SIZE)
  then show ?thesis
    using assms slide_all [of p q r s score] by (simp add: small_def)
qed

section \<open>Rotating\<close>

definition square :: "board \<Rightarrow> bool" where
  "square b \<longleftrightarrow> length b = SIZE \<and> (\<forall>a\<in>set b. length a = SIZE)"

definition turned :: "board \<Rightarrow> board" where
  "turned b = map (\<lambda>i. map (\<lambda>j. b ! j ! (SIZE - 1 - i)) [0..<SIZE]) [0..<SIZE]"

lemma square_cases:
  assumes "square b"
  obtains a0 a1 a2 a3 b0 b1 b2 b3 c0 c1 c2 c3 d0 d1 d2 d3
  where "b = [[a0, a1, a2, a3], [b0, b1, b2, b3], [c0, c1, c2, c3], [d0, d1, d2, d3]]"
proof -
  have "length b = SIZE"
    using assms by (simp add: square_def)
  then obtain p q r s where b: "b = [p, q, r, s]"
    by (rule length_SIZE)
  then have len: "length p = SIZE" "length q = SIZE" "length r = SIZE" "length s = SIZE"
    using assms by (simp_all add: square_def)
  show ?thesis
    by (rule length_SIZE [OF len(1)], rule length_SIZE [OF len(2)], rule length_SIZE [OF len(3)], rule length_SIZE [OF len(4)])
      (rule that, simp add: b)
qed

lemma turned_list:
  "turned [[a0, a1, a2, a3], [b0, b1, b2, b3], [c0, c1, c2, c3], [d0, d1, d2, d3]] =
   [[a3, b3, c3, d3], [a2, b2, c2, d2], [a1, b1, c1, d1], [a0, b0, c0, d0]]"
  by (simp add: turned_def SIZE_def upt_rec numeral_2_eq_2 numeral_3_eq_3)

lemma rotate_turned: "square b \<Longrightarrow> rotateBoard b = turned b"
proof (erule square_cases)
  fix a0 a1 a2 a3 b0 b1 b2 b3 c0 c1 c2 c3 d0 d1 d2 d3
  assume b: "b = [[a0, a1, a2, a3], [b0, b1, b2, b3], [c0, c1, c2, c3], [d0, d1, d2, d3]]"
  have "[(i, j). i \<leftarrow> [0..<SIZE div 2], j \<leftarrow> [i..<SIZE - i - 1]] = [(0, 0), (0, 1), (0, 2), (1, 1)]"
    by (simp add: SIZE_def upt_rec)
  then show ?thesis
    unfolding rotateBoard_def b turned_list
    by (simp add: rotate_cells_def put_cell_def cell_def SIZE_def numeral_2_eq_2 numeral_3_eq_3)
qed

lemma square_turned [simp]: "square (turned b)"
  by (simp add: square_def turned_def)

lemma turned_4: "square b \<Longrightarrow> turned (turned (turned (turned b))) = b"
  by (erule square_cases) (simp add: turned_list)

lemma turned_2: "square b \<Longrightarrow> turned (turned b) = rev (map rev b)"
  by (erule square_cases) (simp add: turned_list)

section \<open>The four moves\<close>

definition board_ok :: "board \<Rightarrow> bool" where
  "board_ok b \<longleftrightarrow> length b = SIZE \<and> list_all small b"

lemma board_square: "board_ok b \<Longrightarrow> square b"
  by (simp add: board_ok_def square_def small_def list_all_iff)

lemma board_turned: "board_ok b \<Longrightarrow> board_ok (turned b)"
  by (frule board_square, erule square_cases) (simp add: turned_list board_ok_def small_def)

lemma length_slid: "length a = SIZE \<Longrightarrow> length (slid a) = SIZE"
proof -
  have "length (merge xs) \<le> length xs" for xs
    by (induction xs rule: merge.induct) auto
  then have "length (merge (tiles a)) \<le> length a"
    using le_trans length_filter_le unfolding tiles_def by blast
  then show "length a = SIZE \<Longrightarrow> length (slid a) = SIZE"
    by (simp add: slid_def)
qed

definition up :: "board \<Rightarrow> board" where
  "up b = map slid b"

definition up_score :: "board \<Rightarrow> u32" where
  "up_score b = sum_list (map (\<lambda>a. gained (tiles a)) b)"

lemma square_up: "square b \<Longrightarrow> square (up b)"
  by (auto simp: square_def up_def length_slid)

lemma up_loop_eq:
  "list_all (\<lambda>x. x < length b \<and> small (b ! x)) xs \<Longrightarrow> distinct xs \<Longrightarrow>
   up_loop xs (ok, b, score) = Some (ok \<or> (\<exists>x\<in>set xs. slid (b ! x) \<noteq> b ! x),
     fold (\<lambda>x b. b[x := slid (b ! x)]) xs b, score + sum_list (map (\<lambda>x. gained (tiles (b ! x))) xs))"
proof (induction xs arbitrary: ok b score)
  case (Cons x xs)
  let ?b = "b[x := slid (b ! x)]"
  have same: "?b ! y = b ! y" if "y \<in> set xs" for y
    using that Cons.prems(2) nth_list_update_neq [of x y b] by (cases "x = y") simp_all
  then have "list_all (\<lambda>x. x < length ?b \<and> small (?b ! x)) xs"
    using Cons.prems(1) by (simp add: list_all_iff)
  from Cons.IH [OF this] Cons.prems(2)
  have "up_loop (x # xs) (ok, b, score) = Some ((ok \<or> slid (b ! x) \<noteq> b ! x) \<or> (\<exists>y\<in>set xs. slid (?b ! y) \<noteq> ?b ! y),
      fold (\<lambda>x b. b[x := slid (b ! x)]) xs ?b, score + gained (tiles (b ! x)) + sum_list (map (\<lambda>y. gained (tiles (?b ! y))) xs))"
    using Cons.prems(1) slide_small [of "b ! x" score] by simp
  moreover have "map (\<lambda>y. gained (tiles (?b ! y))) xs = map (\<lambda>y. gained (tiles (b ! y))) xs"
    using same by simp
  moreover have "(\<exists>y\<in>set xs. slid (?b ! y) \<noteq> ?b ! y) \<longleftrightarrow> (\<exists>y\<in>set xs. slid (b ! y) \<noteq> b ! y)"
    using same by auto
  ultimately show ?case
    by (simp add: add.assoc)
qed simp

lemma moveUp_eq:
  assumes "board_ok b"
  shows "moveUp b score = Some (up b \<noteq> b, up b, score + up_score b)"
proof -
  have "length b = SIZE"
    using assms by (simp add: board_ok_def)
  then obtain p q r s where b: "b = [p, q, r, s]"
    by (rule length_SIZE)
  have upt: "[0..<SIZE] = [0, Suc 0, Suc (Suc 0), Suc (Suc (Suc 0))]"
    by (simp add: SIZE_def upt_rec)
  have "moveUp b score = Some (False \<or> (\<exists>x\<in>set [0..<SIZE]. slid (b ! x) \<noteq> b ! x),
     fold (\<lambda>x b. b[x := slid (b ! x)]) [0..<SIZE] b, score + sum_list (map (\<lambda>x. gained (tiles (b ! x))) [0..<SIZE]))"
    unfolding moveUp_def using assms
    by (intro up_loop_eq) (auto simp: board_ok_def list_all_iff)
  then show ?thesis
    unfolding upt by (simp add: b up_def up_score_def)
qed

lemma moveLeft_eq:
  assumes "board_ok b"
  shows "moveLeft b score = Some (up (turned b) \<noteq> turned b, turned (turned (turned (up (turned b)))), score + up_score (turned b))"
  using moveUp_eq [OF board_turned [OF assms]] board_square [OF assms] square_up [of "turned b"]
  by (simp add: moveLeft_def rotate_turned)

lemma moveDown_eq:
  assumes "board_ok b"
  shows "moveDown b score = Some (up (turned (turned b)) \<noteq> turned (turned b), turned (turned (up (turned (turned b)))),
    score + up_score (turned (turned b)))"
  using moveUp_eq [OF board_turned [OF board_turned [OF assms]]] board_square [OF assms] square_up [of "turned (turned b)"]
  by (simp add: moveDown_def rotate_turned)

lemma moveRight_eq:
  assumes "board_ok b"
  shows "moveRight b score = Some (up (turned (turned (turned b))) \<noteq> turned (turned (turned b)),
    turned (up (turned (turned (turned b)))), score + up_score (turned (turned (turned b))))"
  using moveUp_eq [OF board_turned [OF board_turned [OF board_turned [OF assms]]]] board_square [OF assms]
    square_up [of "turned (turned (turned b))"]
  by (simp add: moveRight_def rotate_turned)

section \<open>Tiles are conserved\<close>

definition weight :: "u8 \<Rightarrow> nat" where
  "weight v = (if v = 0 then 0 else 2 ^ unat v)"

definition tile_sum :: "board \<Rightarrow> nat" where
  "tile_sum b = sum_list (map weight (concat b))"

lemma weight_0 [simp]: "weight 0 = 0"
  by (simp add: weight_def)

lemma merge_weight:
  "\<forall>v\<in>set xs. v \<noteq> 0 \<and> unat v \<le> 30 \<Longrightarrow> sum_list (map weight (merge xs)) = sum_list (map weight xs)"
proof (induction xs rule: merge.induct)
  case (1 x y zs)
  have "weight (x + 1) = weight x + weight x" if "x = y"
    using 1(3) succ_small [of x] by (simp add: weight_def)
  then show ?case
    using 1 by auto
qed simp_all

lemma slid_weight: "small a \<Longrightarrow> sum_list (map weight (slid a)) = sum_list (map weight a)"
proof -
  assume a: "small a"
  have "sum_list (map weight (tiles a)) = sum_list (map weight a)"
    unfolding tiles_def by (induction a) simp_all
  moreover have "\<forall>v\<in>set (tiles a). v \<noteq> 0 \<and> unat v \<le> 30"
    using a by (auto simp: tiles_def small_def)
  ultimately show ?thesis
    using merge_weight [of "tiles a"] by (simp add: slid_def sum_list_replicate)
qed

lemma tile_sum_turned: "square b \<Longrightarrow> tile_sum (turned b) = tile_sum b"
  by (erule square_cases) (simp add: turned_list tile_sum_def)

lemma tile_sum_up: "board_ok b \<Longrightarrow> tile_sum (up b) = tile_sum b"
proof -
  assume "board_ok b"
  then have "list_all small b"
    by (simp add: board_ok_def)
  then show ?thesis
    by (induction b) (simp_all add: tile_sum_def up_def slid_weight)
qed

section \<open>The end of the game\<close>

definition movable :: "board \<Rightarrow> bool" where
  "movable b \<longleftrightarrow> up b \<noteq> b \<or> up (turned b) \<noteq> turned b \<or> up (turned (turned b)) \<noteq> turned (turned b) \<or>
     up (turned (turned (turned b))) \<noteq> turned (turned (turned b))"

definition pair :: "u8 list \<Rightarrow> bool" where
  "pair a \<longleftrightarrow> a ! 0 = a ! 1 \<or> a ! 1 = a ! 2 \<or> a ! 2 = a ! 3"

lemma slid_full:
  assumes "small [p, q, r, s]" "p \<noteq> 0" "q \<noteq> 0" "r \<noteq> 0" "s \<noteq> 0"
  shows "slid [p, q, r, s] \<noteq> [p, q, r, s] \<longleftrightarrow> p = q \<or> q = r \<or> r = s"
  using assms by (auto simp: slid_def tiles_def SIZE_def small_def succ_small)

lemma merge_nonzero: "\<forall>v\<in>set xs. v \<noteq> 0 \<and> unat v \<le> 30 \<Longrightarrow> 0 \<notin> set (merge xs) \<and> (xs \<noteq> [] \<longrightarrow> merge xs \<noteq> [])"
  by (induction xs rule: merge.induct) (auto simp: succ_small)

lemma slid_gap:
  assumes "small a" "0 \<in> set a" "v \<in> set a" "v \<noteq> 0" "slid a = a"
  shows "slid (rev a) \<noteq> rev a"
proof
  assume r: "slid (rev a) = rev a"
  have ok: "\<forall>w\<in>set (tiles x). w \<noteq> 0 \<and> unat w \<le> 30" if "set x = set a" for x
    using assms(1) that by (simp add: tiles_def small_def)
  have ne: "tiles (rev a) \<noteq> []"
    using assms(3,4) unfolding tiles_def filter_empty_conv by auto
  have m: "0 \<notin> set (merge (tiles a))" "0 \<notin> set (merge (tiles (rev a)))" "merge (tiles (rev a)) \<noteq> []"
    using merge_nonzero [OF ok [of a]] merge_nonzero [OF ok [of "rev a"]] ne by simp_all
  have "0 \<in> set (merge (tiles a) @ replicate (SIZE - length (merge (tiles a))) 0)"
    using assms(2) assms(5) [symmetric] unfolding slid_def by simp
  then have "SIZE - length (merge (tiles a)) \<noteq> 0"
    using m(1) by (cases "SIZE - length (merge (tiles a))") simp_all
  then have "last (slid a) = 0"
    unfolding slid_def by (simp only: last_append replicate_empty if_False last_replicate not_False_eq_True)
  then have "hd (rev a) = 0"
    by (simp only: assms(5) hd_rev)
  moreover have "hd (rev a) = hd (merge (tiles (rev a)))"
    using m(3) by (subst r [symmetric]) (simp only: slid_def hd_append2 not_False_eq_True)
  ultimately show False
    using m(2,3) hd_in_set [of "merge (tiles (rev a))"] by simp
qed

lemma up_changes: "up b \<noteq> b \<longleftrightarrow> (\<exists>a\<in>set b. slid a \<noteq> a)"
  by (induction b) (auto simp: up_def)

lemma up_rev: "square b \<Longrightarrow> up (turned (turned b)) \<noteq> turned (turned b) \<longleftrightarrow> (\<exists>a\<in>set b. slid (rev a) \<noteq> rev a)"
  unfolding up_changes by (simp add: turned_2)

text \<open>A column with a tile and a gap can be moved up or down.\<close>

lemma gap_moves:
  assumes "board_ok b" "a \<in> set b" "0 \<in> set a" "v \<in> set a" "v \<noteq> 0"
  shows "up b \<noteq> b \<or> up (turned (turned b)) \<noteq> turned (turned b)"
proof -
  have "small a"
    using assms(1,2) by (simp add: board_ok_def list_all_iff)
  then consider "slid a \<noteq> a" | "slid (rev a) \<noteq> rev a"
    using slid_gap [OF _ assms(3-5)] by (cases "slid a = a") simp_all
  then show ?thesis
  proof cases
    case 1
    then have "up b \<noteq> b"
      unfolding up_changes using assms(2) by (rule bexI)
    then show ?thesis ..
  next
    case 2
    then have "up (turned (turned b)) \<noteq> turned (turned b)"
      unfolding up_rev [OF board_square [OF assms(1)]] using assms(2) by (rule bexI)
    then show ?thesis ..
  qed
qed

text \<open>The cells of a row are a column of the turned board.\<close>

lemma row_turned:
  assumes "square b" "y < SIZE"
  shows "\<exists>a\<in>set (turned b). \<forall>x<SIZE. b ! x ! y \<in> set a"
proof -
  have "map (\<lambda>j. b ! j ! y) [0..<SIZE] \<in> set (turned b)"
    unfolding turned_def using assms(2) by (simp add: image_iff) (rule bexI [of _ "SIZE - 1 - y"], simp_all)
  then show ?thesis
    by (rule bexI [rotated]) simp
qed

lemma empty_movable:
  assumes ok: "board_ok b" and e: "x < SIZE" "y < SIZE" "b ! x ! y = 0" and t: "x' < SIZE" "y' < SIZE" "b ! x' ! y' \<noteq> 0"
  shows "movable b"
proof -
  have sq: "length b = SIZE" "length (b ! x') = SIZE"
    using board_square [OF ok] t(1) by (simp_all add: square_def)
  show ?thesis
  proof (cases "0 \<in> set (b ! x')")
    case True
    have "b ! x' \<in> set b" "b ! x' ! y' \<in> set (b ! x')"
      using sq t(1,2) by simp_all
    from gap_moves [OF ok this(1) True this(2) t(3)] show ?thesis
      unfolding movable_def by (elim disjE) simp_all
  next
    case False
    have "b ! x' ! y \<in> set (b ! x')"
      using sq(2) e(2) by simp
    then have nz: "b ! x' ! y \<noteq> 0"
      using False by (cases "b ! x' ! y = 0") simp_all
    obtain a where a: "a \<in> set (turned b)" "\<forall>x<SIZE. b ! x ! y \<in> set a"
      using row_turned [OF board_square [OF ok] e(2)] by (elim bexE)
    have "0 \<in> set a" "b ! x' ! y \<in> set a"
      using a(2) e(1,3) t(1) by auto
    from gap_moves [OF board_turned [OF ok] a(1) this nz] show ?thesis
      unfolding movable_def by (elim disjE) simp_all
  qed
qed

definition full :: "board \<Rightarrow> bool" where
  "full b \<longleftrightarrow> list_all (\<lambda>a. 0 \<notin> set a) b"

lemma slid_pair:
  assumes "small a" "0 \<notin> set a"
  shows "slid a \<noteq> a \<longleftrightarrow> pair a" "slid (rev a) \<noteq> rev a \<longleftrightarrow> pair a"
proof -
  have "length a = SIZE"
    using assms(1) by (simp add: small_def)
  then obtain p q r s where a: "a = [p, q, r, s]"
    by (rule length_SIZE)
  have nz: "p \<noteq> 0" "q \<noteq> 0" "r \<noteq> 0" "s \<noteq> 0"
    using assms(2) by (auto simp: a)
  show "slid a \<noteq> a \<longleftrightarrow> pair a"
    unfolding a using slid_full [OF assms(1) [unfolded a] nz] by (simp add: pair_def numeral_2_eq_2 numeral_3_eq_3)
  have "small [s, r, q, p]"
    using assms(1) by (simp add: a small_def)
  from slid_full [OF this nz(4,3,2,1)] show "slid (rev a) \<noteq> rev a \<longleftrightarrow> pair a"
    by (auto simp: a pair_def numeral_2_eq_2 numeral_3_eq_3)
qed

lemma full_up:
  assumes "board_ok b" "full b"
  shows "up b \<noteq> b \<longleftrightarrow> list_ex pair b" "up (turned (turned b)) \<noteq> turned (turned b) \<longleftrightarrow> list_ex pair b"
proof -
  have *: "slid a \<noteq> a \<longleftrightarrow> pair a" "slid (rev a) \<noteq> rev a \<longleftrightarrow> pair a" if "a \<in> set b" for a
    using slid_pair [of a] assms that by (auto simp: board_ok_def full_def list_all_iff)
  show "up b \<noteq> b \<longleftrightarrow> list_ex pair b"
    unfolding up_changes list_ex_iff by (rule bex_cong [OF refl]) (rule *(1))
  show "up (turned (turned b)) \<noteq> turned (turned b) \<longleftrightarrow> list_ex pair b"
    unfolding up_rev [OF board_square [OF assms(1)]] list_ex_iff by (rule bex_cong [OF refl]) (rule *(2))
qed

lemma full_turned: "square b \<Longrightarrow> full b \<Longrightarrow> full (turned b)"
  by (erule square_cases) (simp add: turned_list full_def)

lemma full_movable:
  assumes "board_ok b" "full b"
  shows "movable b \<longleftrightarrow> list_ex pair b \<or> list_ex pair (turned b)"
  using full_up [OF assms] full_up [OF board_turned [OF assms(1)] full_turned [OF board_square [OF assms(1)] assms(2)]]
  unfolding movable_def by blast

lemma findPairDown_eq: "square b \<Longrightarrow> findPairDown b \<longleftrightarrow> list_ex pair b"
  by (erule square_cases) (simp add: findPairDown_def cell_def pair_def SIZE_def upt_rec numeral_2_eq_2 numeral_3_eq_3)

lemma countEmpty_eq: "square b \<Longrightarrow> countEmpty b = 0 \<longleftrightarrow> full b"
  by (erule square_cases) (simp add: countEmpty_def cell_def full_def SIZE_def upt_rec numeral_2_eq_2 numeral_3_eq_3)

lemma gameEnded_eq:
  assumes ok: "board_ok b" and t: "0 < tile_sum b"
  shows "gameEnded b = (\<not> movable b, b)"
proof -
  note sq = board_square [OF ok]
  have rot: "rotateBoard b = turned b" "rotateBoard (rotateBoard (rotateBoard (turned b))) = b"
    using sq by (simp_all add: rotate_turned turned_4)
  show ?thesis
  proof (cases "full b")
    case True
    then show ?thesis
      using full_movable [OF ok True] countEmpty_eq [OF sq] findPairDown_eq [OF sq] findPairDown_eq [OF square_turned, of b] rot
      by (simp add: gameEnded_def Let_def)
  next
    case False
    then obtain x y where e: "x < SIZE" "y < SIZE" "b ! x ! y = 0"
      using sq by (auto simp: full_def square_def list_all_iff in_set_conv_nth)
    have "\<exists>v\<in>set (concat b). weight v \<noteq> 0"
    proof (rule ccontr)
      assume "\<not> ?thesis"
      then have "map weight (concat b) = map (\<lambda>_. 0) (concat b)"
        by (intro map_cong refl) blast
      then show False
        using t unfolding tile_sum_def by (simp only: sum_list_0 less_irrefl)
    qed
    then obtain x' y' where t': "x' < SIZE" "y' < SIZE" "b ! x' ! y' \<noteq> 0"
      using sq by (auto simp: square_def in_set_conv_nth weight_def split: if_splits)
    have "countEmpty b \<noteq> 0"
      using False countEmpty_eq [OF sq] by simp
    then show ?thesis
      using empty_movable [OF ok e t'] by (simp add: gameEnded_def)
  qed
qed

end
