(* ===== verification/Game_Play.thy ===== *)
theory Game_Play
  imports Game_Slide
begin

text \<open>
  A whole game: new tiles, the loop of \<open>main\<close>, and the properties. The sum of the tiles grows by
  at most 4 with every key, which bounds every exponent and so keeps the shifts defined.
\<close>

section \<open>New tiles\<close>

lemma sum_list_update:
  "i < length xs \<Longrightarrow> sum_list (map f (xs[i := v])) + f (xs ! i) = sum_list (map f xs) + (f v :: nat)"
  by (induction xs arbitrary: i) (auto split: nat.splits)

lemma tile_sum_columns: "tile_sum b = sum_list (map (\<lambda>a. sum_list (map weight a)) b)"
  by (induction b) (simp_all add: tile_sum_def)

lemma tile_sum_put:
  assumes "square b" "x < SIZE" "y < SIZE" "b ! x ! y = 0"
  shows "tile_sum (put_cell x y v b) = tile_sum b + weight v"
proof -
  have "length b = SIZE" "length (b ! x) = SIZE"
    using assms(1,2) by (simp_all add: square_def)
  then show ?thesis
    using sum_list_update [of x b "\<lambda>a. sum_list (map weight a)" "(b ! x)[y := v]"]
      sum_list_update [of y "b ! x" weight v] assms(2-4)
    by (simp add: tile_sum_columns put_cell_def)
qed

lemma square_put: "square b \<Longrightarrow> x < SIZE \<Longrightarrow> square (put_cell x y v b)"
  by (auto simp: square_def put_cell_def dest!: subsetD [OF set_update_subset_insert])

lemma empty_cells_iff: "(x, y) \<in> set (empty_cells b) \<longleftrightarrow> x < SIZE \<and> y < SIZE \<and> b ! x ! y = 0"
  by (auto simp: empty_cells_def cell_def)

lemma addRandom_cases:
  assumes "square b"
  obtains (none) "empty_cells b = []" "addRandom rand k b = (b, k)"
    | (one) x y v where "x < SIZE" "y < SIZE" "b ! x ! y = 0" "v = 1 \<or> v = 2" "addRandom rand k b = (put_cell x y v b, k + 2)"
proof (cases "empty_cells b = []")
  case True
  then show ?thesis
    using none by (simp add: addRandom_def)
next
  case False
  let ?c = "empty_cells b ! (rand k mod length (empty_cells b))"
  obtain x y where c: "?c = (x, y)"
    by (cases ?c)
  have "?c \<in> set (empty_cells b)"
    using False by (intro nth_mem) simp
  then have xy: "x < SIZE" "y < SIZE" "b ! x ! y = 0"
    unfolding c empty_cells_iff by simp_all
  have "rand (k + 1) mod 10 div 9 \<le> 1"
    using mod_less_divisor [of 10 "rand (k + 1)"] by linarith
  then have "of_nat (rand (k + 1) mod 10 div 9 + 1) = (1 :: u8) \<or> of_nat (rand (k + 1) mod 10 div 9 + 1) = (2 :: u8)"
    by (cases "rand (k + 1) mod 10 div 9 = 0") (auto simp: le_Suc_eq)
  moreover have "addRandom rand k b = (put_cell x y (of_nat (rand (k + 1) mod 10 div 9 + 1)) b, k + 2)"
    using False by (simp add: addRandom_def c Let_def)
  ultimately show ?thesis
    by (rule one [OF xy])
qed

definition alive :: "nat \<Rightarrow> board \<Rightarrow> bool" where
  "alive n b \<longleftrightarrow> square b \<and> 0 < tile_sum b \<and> tile_sum b \<le> 4 * n"

lemma addRandom_sum:
  assumes "square b" "tile_sum b \<le> 4 * n"
  shows "square (fst (addRandom rand k b))" "tile_sum b \<le> tile_sum (fst (addRandom rand k b))"
    "tile_sum (fst (addRandom rand k b)) \<le> 4 * Suc n" "empty_cells b \<noteq> [] \<Longrightarrow> 0 < tile_sum (fst (addRandom rand k b))"
proof -
  have w: "weight 1 = 2" "weight 2 = 4"
    by (simp_all add: weight_def)
  show "square (fst (addRandom rand k b))" "tile_sum b \<le> tile_sum (fst (addRandom rand k b))"
    "tile_sum (fst (addRandom rand k b)) \<le> 4 * Suc n" "empty_cells b \<noteq> [] \<Longrightarrow> 0 < tile_sum (fst (addRandom rand k b))"
    by (rule addRandom_cases [OF assms(1), of rand k]; use assms in \<open>auto simp: square_put tile_sum_put w\<close>)+
qed

lemma init_alive: "alive 2 (fst (initBoard rand k))"
proof -
  let ?z = "replicate SIZE (replicate SIZE 0) :: board"
  have z: "square ?z" "tile_sum ?z = 0" "empty_cells ?z \<noteq> []"
    by (simp_all add: square_def tile_sum_def empty_cells_def cell_def SIZE_def numeral_eq_Suc)
  obtain b1 k1 where 1: "addRandom rand k ?z = (b1, k1)"
    by (cases "addRandom rand k ?z")
  obtain b2 k2 where 2: "addRandom rand k1 b1 = (b2, k2)"
    by (cases "addRandom rand k1 b1")
  have b1: "square b1" "0 < tile_sum b1" "tile_sum b1 \<le> 4 * Suc 0"
    using addRandom_sum [of ?z 0 rand k] z 1 by simp_all
  have "square b2" "0 < tile_sum b2" "tile_sum b2 \<le> 4 * Suc (Suc 0)"
    using addRandom_sum [OF b1(1,3), of rand k1] b1(2) 2 by simp_all
  then show ?thesis
    using 1 2 by (simp add: initBoard_def alive_def)
qed

lemma alive_ok:
  assumes "alive n b" "n < 2 ^ 29"
  shows "board_ok b"
proof -
  have sum: "tile_sum b < 2 ^ 31"
    using assms by (simp add: alive_def)
  have "unat v \<le> 30" if "a \<in> set b" "v \<in> set a" for a v
  proof (cases "v = 0")
    case False
    have "weight v \<le> tile_sum b"
      unfolding tile_sum_def using that by (intro member_le_sum_list) auto
    then have "(2 :: nat) ^ unat v < 2 ^ 31"
      using False sum by (simp add: weight_def)
    then show ?thesis
      using power_less_imp_less_exp [of "2 :: nat" "unat v" 31] by simp
  qed simp
  then show ?thesis
    using assms(1) by (auto simp: alive_def board_ok_def square_def small_def list_all_iff)
qed

section \<open>One key\<close>

lemma key_move_alive:
  assumes "alive n b" "n < 2 ^ 29"
  shows "\<exists>ok b' s'. key_move c b score = Some (ok, b', s') \<and> alive n b'"
proof -
  note ok = alive_ok [OF assms] 
  note t1 = board_turned [OF ok] 
  note t2 = board_turned [OF t1]
  note t3 = board_turned [OF t2]
  note sq = board_square [OF ok] 
  have sums: "tile_sum (up b) = tile_sum b" "tile_sum (turned (turned (turned (up (turned b))))) = tile_sum b"
      "tile_sum (turned (turned (up (turned (turned b))))) = tile_sum b"
      "tile_sum (turned (up (turned (turned (turned b))))) = tile_sum b"
    using tile_sum_up [OF ok] tile_sum_up [OF t1] tile_sum_up [OF t2] tile_sum_up [OF t3] square_up [of "turned b"]
      square_up [of "turned (turned b)"] square_up [of "turned (turned (turned b))"] sq
    by (simp_all add: tile_sum_turned)
  show ?thesis
    using assms(1) sums square_up [OF sq]
    by (auto simp: key_move_def moveUp_eq [OF ok] moveLeft_eq [OF ok] moveDown_eq [OF ok] moveRight_eq [OF ok] alive_def)
qed

section \<open>The whole game\<close>

lemma stuck_moves:
  assumes "board_ok b"
  shows "\<not> movable b \<longleftrightarrow> map_option fst (moveUp b score) = Some False \<and> map_option fst (moveDown b score) = Some False \<and>
    map_option fst (moveLeft b score) = Some False \<and> map_option fst (moveRight b score) = Some False"
  by (auto simp: movable_def moveUp_eq [OF assms] moveLeft_eq [OF assms] moveDown_eq [OF assms] moveRight_eq [OF assms])

definition finished :: "(outcome \<times> board \<times> u32) option \<Rightarrow> bool" where
  "finished r \<longleftrightarrow> (\<exists>out b score. r = Some (out, b, score) \<and> board_ok b \<and> (out = Game_over \<longrightarrow> \<not> movable b))"

lemma getchar_shorter: "snd (getchar cs) = cs \<or> length (snd (getchar cs)) < length cs"
  by (simp add: getchar_def split: list.splits)

lemma main_loop_finished:
  "alive n b \<Longrightarrow> 2 \<le> n \<Longrightarrow> n + length cs < 2 ^ 29 \<Longrightarrow> finished (main_loop rand cs k b score)"
proof (induction "length cs" arbitrary: cs n k b score rule: less_induct)
  case less
  note ok = alive_ok [OF less.prems(1)]
  show ?case
  proof (cases cs)
    case Nil
    then show ?thesis
      using ok less.prems(3) by (simp add: finished_def)
  next
    case (Cons c cs')
    obtain s1 b1 sc1 where mv: "key_move c b score = Some (s1, b1, sc1)" "alive n b1"
      using key_move_alive [OF less.prems(1), of c score] less.prems(3) by auto
    obtain b2 k2 where add: "(if s1 then addRandom rand k b1 else (b1, k)) = (b2, k2)"
      by (cases "if s1 then addRandom rand k b1 else (b1, k)")
    have b2: "alive (Suc n) b2"
      using addRandom_sum(1-3) [of b1 n rand k] mv(2) add by (auto simp: alive_def split: if_splits)
    have ok2: "board_ok b2"
      using alive_ok [OF b2] less.prems(3) Cons by simp
    have ended: "(if s1 then gameEnded b2 else (False, b2)) = (s1 \<and> \<not> movable b2, b2)"
      using gameEnded_eq [OF ok2] b2 by (simp add: alive_def)
    have rest: "finished (main_loop rand ds k' b' score')" if "length ds \<le> length cs'" "alive (Suc n) b'" for ds k' b' score'
      using less.hyps [of ds "Suc n" b' k' score'] that less.prems(2,3) Cons by simp
    have "length (snd (getchar ds)) \<le> length ds" for ds
      using getchar_shorter [of ds] by auto
    note shorter = this this [THEN le_trans, OF this]
    obtain c1 cs1 where g1: "(if c = 113 then getchar cs' else (c, cs')) = (c1, cs1)"
      by (cases "if c = 113 then getchar cs' else (c, cs')")
    obtain c2 cs2 where g2: "getchar cs1 = (c2, cs2)"
      by (cases "getchar cs1")
    obtain b3 s3 k3 where init: "initBoard rand k2 = (b3, s3, k3)"
      by (cases "initBoard rand k2") auto
    have b3: "alive (Suc n) b3"
      using init_alive [of rand k2] init less.prems(2) by (auto simp: alive_def)
    have len: "length cs1 \<le> length cs'" "length cs2 \<le> length cs'"
      using g1 g2 shorter(1) [of cs'] shorter(1) [of cs1] by (auto split: if_splits)
    show ?thesis
      using rest [OF len(1) b2] rest [OF len(2) b2] rest [OF len(2) b3] ok ok2 less.prems(3)
      by (simp add: Cons mv add ended g1 g2 init finished_def)
  qed
qed

section \<open>Colours and the built-in test\<close>

lemma color_loop_bound: "even bg \<Longrightarrow> bg < 32 \<Longrightarrow> color_loop v bg < 31"
  by (induction v arbitrary: bg) (auto elim!: evenE)

lemma getColor_defined: "scheme < 3 \<Longrightarrow> getColor scheme value \<noteq> None"
proof -
  assume "scheme < 3"
  then have "scheme = 0 \<or> scheme = 1 \<or> scheme = 2"
    by linarith
  then have "length (color_schemes ! scheme) = 32"
    by (elim disjE) (simp_all add: color_schemes_def)
  then show ?thesis
    using \<open>scheme < 3\<close> color_loop_bound [of 0 "unat value"] by (simp add: getColor_def Let_def)
qed

lemma slid_take: "slid [p, q, r, s] = take 4 (merge (tiles [p, q, r, s]) @ [0, 0, 0, 0])"
proof -
  have "[0, 0, 0, 0] = replicate 4 (0 :: u8)"
    by (simp add: numeral_eq_Suc)
  moreover have "length (slid [p, q, r, s]) = 4"
    using length_slid [of "[p, q, r, s]"] by (simp add: SIZE_def)
  ultimately show ?thesis
    by (simp only: slid_def SIZE_def take_append take_replicate length_append length_replicate) (simp add: min_def)
qed

lemma test_passes: "test score = Some 0"
proof -
  have "test_loop test_data score = Some True"
    by (simp add: test_data_def slide_small small_def SIZE_def slid_take tiles_def)
  then show ?thesis
    by (simp add: test_def)
qed

section \<open>Properties\<close>

text \<open>
  C37: \<open>slideArray\<close> computes the rule of the game on every column of exponents up to 30: the tiles keep their order and
  lose the gaps, the first of two equal neighbours doubles and the second disappears, no tile
  takes part in two mergers, the score grows by the tiles that were made, and the result tells
  whether the column changed.
\<close>

theorem slideArray_correct:
  assumes "small a"
  shows "slideArray a score = Some (slid a \<noteq> a, slid a, score + gained (tiles a))"
  by (rule slide_small [OF assms])

theorem slideArray_correct_witness: "slideArray [1, 0, 1, 1] 10 = Some (True, [2, 1, 0, 0], 14)"
  using slideArray_correct [of "[1, 0, 1, 1]" 10] by (simp add: small_def SIZE_def slid_take tiles_def)

text \<open>
  C38: \<open>gameEnded\<close> leaves the board as it was and answers yes exactly when none of the four moves
  changes the board, for every board with a tile on it and exponents up to 30, which is all that a
  game reaches.
\<close>

theorem gameEnded_correct:
  assumes "board_ok b" "0 < tile_sum b"
  shows "snd (gameEnded b) = b \<and>
    (fst (gameEnded b) \<longleftrightarrow> map_option fst (moveUp b score) = Some False \<and> map_option fst (moveDown b score) = Some False \<and>
      map_option fst (moveLeft b score) = Some False \<and> map_option fst (moveRight b score) = Some False)"
  using gameEnded_eq [OF assms] stuck_moves [OF assms(1), of score] by simp

theorem gameEnded_correct_witness:
  "fst (gameEnded [[1, 2, 1, 2], [2, 1, 2, 1], [1, 2, 1, 2], [2, 1, 2, 1]]) \<longleftrightarrow>
   map_option fst (moveUp [[1, 2, 1, 2], [2, 1, 2, 1], [1, 2, 1, 2], [2, 1, 2, 1]] 0) = Some False \<and>
   map_option fst (moveDown [[1, 2, 1, 2], [2, 1, 2, 1], [1, 2, 1, 2], [2, 1, 2, 1]] 0) = Some False \<and>
   map_option fst (moveLeft [[1, 2, 1, 2], [2, 1, 2, 1], [1, 2, 1, 2], [2, 1, 2, 1]] 0) = Some False \<and>
   map_option fst (moveRight [[1, 2, 1, 2], [2, 1, 2, 1], [1, 2, 1, 2], [2, 1, 2, 1]] 0) = Some False"
  using gameEnded_correct [of "[[1, 2, 1, 2], [2, 1, 2, 1], [1, 2, 1, 2], [2, 1, 2, 1]]" 0]
  by (simp add: board_ok_def small_def SIZE_def tile_sum_def weight_def)

text \<open>
  C39: a game of fewer than \<open>2 ^ 28\<close> keys runs without undefined behaviour whatever the keys and the
  random numbers are, and when it ends with the message that the game is over, none of the four
  moves changes the last board.
\<close>

theorem game_main_correct:
  assumes "length keys < 2 ^ 28"
  shows "\<exists>out b score. game_main rand keys = Some (out, b, score) \<and> board_ok b \<and>
    (out = Game_over \<longrightarrow> map_option fst (moveUp b score) = Some False \<and> map_option fst (moveDown b score) = Some False \<and>
      map_option fst (moveLeft b score) = Some False \<and> map_option fst (moveRight b score) = Some False)"
proof -
  obtain b score k where i: "initBoard rand 0 = (b, score, k)"
    by (cases "initBoard rand 0")
  then have "alive 2 b"
    using init_alive [of rand 0] by simp
  then have "finished (main_loop rand keys k b score)"
    by (rule main_loop_finished) (use assms in simp_all)
  then show ?thesis
    unfolding finished_def game_main_def i using stuck_moves by (simp add: Let_def) blast
qed

theorem game_main_correct_witness:
  "\<exists>out b score. game_main (\<lambda>i. i * i) [97, 119, 100, 115, 113, 121] = Some (out, b, score) \<and> board_ok b"
  using game_main_correct [of "[97, 119, 100, 115, 113, 121]" "\<lambda>i. i * i"] by auto

end
