(* ===== verification/Spec2Isabelle.thy ===== *)
theory Spec2Isabelle
  imports Linked_List Bitmap_Inline Bitmap_Arr32 Bitmap_Parse Memblock_Correct Buddy_Alloc Rb_Client Radix_Client
    Printf_Correct Game_Play
begin

text \<open>
  A verification library for the self-contained C components of HardStack: the data structures
  of \<open>src/Algorithem\<close> that run in user space, the userspace ports of kernel allocators
  below \<open>src/Memory-Allocator\<close>, and the game 2048.

  \<^bold>\<open>The program.\<close> HardStack collects many small programs. The parts that carry logic of
  their own are: the intrusive doubly linked list (\<open>Algorithem/list/bindirect-list/Basic/list.h\<close>),
  on which the allocators keep their free lists; the bitmaps (\<open>Algorithem/bitmap/Basic\<close>); the
  red-black tree (\<open>Algorithem/tree/rb-tree/Basic\<close>); the radix tree
  (\<open>Algorithem/tree/radix-tree/Basic\<close>); the boot-time allocator
  (\<open>Memory-Allocator/Memblock-allocator/memblock_userspace\<close>); the buddy page allocator with its
  per-cpu list (\<open>Memory-Allocator/Buddy/PCP_userspace\<close>), which uses the linked list; and the
  formatted printing of the slub ports
  (\<open>Memory-Allocator/HIGHMEM-MECH/highmem_userspace/mm/kasprintf.c\<close>), which names caches in memory
  it gets from the allocator; and the terminal game \<open>GAME/2048/2048.c\<close>. The other directories hold kernel modules, copies of these parts,
  and demos of kernel interfaces.

  \<^bold>\<open>Theories.\<close>
  \<^item> \<open>Prelude\<close>: machine types, \<open>memmove\<close>, shared lemmas and collections of rewrite rules.
  \<^item> \<open>Linked_List\<close>: the store of link fields, every operation of \<open>list.h\<close> as an update of it, the
    predicate \<open>dlist\<close> of a circular list in the store, and the locale \<open>intrusive_list\<close> with its
    interpretation on the operations, through which the page allocator uses the list.
  \<^item> \<open>Bitops\<close>, \<open>Bitmap\<close>, \<open>Find_Bit\<close>, \<open>Bitmap_Inline\<close>, \<open>Bitmap_Arr32\<close>, \<open>Bitmap_Parse\<close>: words of 64
    bits and arrays of them (\<open>bitmap.h\<close>, \<open>bitmap.c\<close>). Every operation is read through \<open>bm_test\<close>,
    the set of bits; the searches share the locale \<open>bit_search\<close>. \<open>Bitmap_Parse\<close> has the parser of
    hexadecimal texts with its grammar.
  \<^item> \<open>Rb_Tree\<close> (\<open>rbtree.h\<close>, \<open>rbtree.c\<close>, \<open>rb_run.c\<close> on a store of nodes with the colour in the low
    bit of the parent word), \<open>Rb_Shape\<close> (a tree in memory, a context around a place in it, the
    red-black conditions), \<open>Rb_Insert\<close>, \<open>Rb_Unlink\<close>, \<open>Rb_Erase\<close>, \<open>Rb_Walk\<close>, and \<open>Rb_Correct\<close> with
    the properties; \<open>Rb_Client\<close> has the demo's insertion over the locale \<open>node_insertion\<close>.
  \<^item> \<open>Radix_Tree\<close>, \<open>Radix_Iter\<close> (\<open>radix.h\<close>, \<open>radix.c\<close>: a memory with one root, nodes by address, and
    what \<open>malloc\<close> and \<open>free\<close> were asked for; tags and iteration included), \<open>Radix_Shape\<close> (a tree in
    memory, read as a function on indices), \<open>Radix_Insert\<close>, \<open>Radix_Correct\<close>, \<open>Radix_Delete\<close>,
    \<open>Radix_Visit\<close>; \<open>Radix_Client\<close> has the locales \<open>index_map\<close> and \<open>roomy_index_map\<close> with their
    interpretations, the program \<open>radix_run.c\<close>, and the properties.
  \<^item> \<open>Memblock_Regions\<close>, \<open>Memblock_Scan\<close>, \<open>Memblock_Alloc\<close>, \<open>Memblock_Correct\<close> (\<open>memblock.c\<close> and its
    headers, \<open>phys_addr_t\<close> of 32 bits): region arrays and their merging, the two iterators as
    interpretations of the locale \<open>mem_range_iterator\<close>, adding, removing, reserving, allocating
    and doubling, and the guarantees to clients.
  \<^item> \<open>Buddy\<close>, \<open>Buddy_Blocks\<close>, \<open>Buddy_Lists\<close>, \<open>Buddy_Correct\<close>, \<open>Buddy_Pcp\<close>, \<open>Buddy_Alloc\<close> (\<open>buddy.c\<close>,
    \<open>buddy.h\<close>): the state of the zone with its lists in the store of \<open>Linked_List\<close>, the geometry of
    blocks, the representation of free blocks, the invariant, the per-cpu list, and the guarantees.
  \<^item> \<open>Printf\<close>, \<open>Printf_Format\<close> (\<open>kasprintf.c\<close>), \<open>Printf_Digits\<close>, \<open>Printf_Text\<close>, \<open>Printf_Correct\<close>: a
    buffer with a bound inside a longer memory, the conversions, the format decoder, and the text a
    format denotes.
  \<^item> \<open>Game_2048\<close> (\<open>2048.c\<close> with the keys and the random numbers as arguments), \<open>Game_Slide\<close> (the
    rule of the game and the four moves), \<open>Game_Play\<close> (a whole game, and the properties).

  \<^bold>\<open>What the lemmas show.\<close>
  List: any sequence of operations refines the same sequence on a mathematical list; the
  traversals end and visit each entry once. Bitmaps: the operations are the set operations on
  bits on each of their paths (the weight, an \<open>int\<close>, is exact below \<open>2 ^ 31\<close>), the searches return the
  first match, the zero-area search the lowest aligned hole as long as no sum reaches \<open>2 ^ 64\<close>,
  conversions to 32-bit words round-trip up to \<open>2 ^ 32 - 32\<close> bits, and the parser accepts exactly its
  grammar and stores the number written. Red-black tree: insertion and erasure return, keep the red-black
  conditions and change the in-order list by exactly the one node; walks and the post-order loop
  visit the nodes in order; the demo's insertion keeps the tree sorted for keys below \<open>2 ^ 31\<close>. Radix
  tree, without tags: insertion, lookup and deletion are those of a finite map, insertion provided that
  the nodes from \<open>malloc\<close> are zero (\<open>zeroed\<close>, which the code relies on and \<open>malloc\<close> does not promise)
  and the index is below \<open>2 ^ 36\<close> or the tree empty; nodes are freed exactly once, insertion fails for
  want of memory only when there is none, the iteration visits the items in order, and the demo prints
  its indices; two theorems show how insertion goes wrong on memory that is not zero, and how it runs
  into the endless loop of a \<open>BUG_ON\<close> on larger indices whatever the new nodes contain. Memblock:
  searches return a free block exactly when there is one, without regard to node and attributes, as in
  the code; with spare entries in the array, adding and removing change exactly the addresses of
  the range, an allocation reserves exactly its block, and the blocks held by clients are disjoint in
  every state they reach; doubling an array fails exactly when it is not allowed or has no place, and
  when it succeeds it reserves less than the new array needs. Buddy: initialisation establishes the
  invariant, allocation keeps it, and so does freeing if \<open>page_is_buddy\<close> leaves 0 where it has no
  \<open>return\<close>; blocks are then aligned, disjoint and inside the memory, and no page is lost. Printing:
  decimal conversion by multiplication is exact, integer conversions have the layout \<open>number_text\<close> of
  the kernel (which differs from the C standard in details listed there), \<open>vsnprintf\<close> stores the longest
  prefix that fits and touches nothing else, is defined for exactly the argument lists its format types
  within the limits stated below, and \<open>kasprintf\<close> returns the whole text. Game: sliding a column
  is the rule of the game, the game ends exactly when no move is left, and no run of fewer than
  \<open>2 ^ 28\<close> keys has undefined behaviour.

  \<^bold>\<open>Termination, fuel and bounds.\<close> Loops are structural recursion or functions with a
  termination proof where a measure exists in the code. The loops over pointers of the
  red-black tree and of the radix tree are partial functions into \<open>option\<close>, and the theorems
  prove that they return. A radix tree has at most 11 levels of 6 bits, so that an insertion
  needs at most 22 nodes; the iteration is proved up to 10 levels, where no index wraps.
  \<open>list_for_each\<close> and the loops that free a list take fuel, and the theorems give enough: the
  length of the list. The searches of memblock take \<open>scan_fuel\<close>, a bound computed from the two
  region counts and proved sufficient. \<open>DOUBLE_FUEL\<close> is 3, because doubling an array may reserve
  memory and thereby double the other array once; theorems about allocation assume spare entries
  or follow the doubling explicitly. The sum of the tiles of 2048 grows by at most 4 with a
  key, so that \<open>2 ^ 28\<close> keys keep every exponent below the width of the shift. Addresses, keys, indices, the
  words of bitmaps and the values printed are words of the width they have in the code. Bit numbers and sizes of
  bitmaps are natural numbers, with the wrap-around of the code's 32-bit and 64-bit sums written
  out where it changes a result (\<open>ulong_add\<close>, \<open>ulong_sub\<close>, \<open>raw_ALIGN_MASK\<close>, \<open>arr32_halfwords\<close>); positions in a printing buffer are
  natural numbers, and a text that reaches \<open>2 ^ 31\<close> characters or the end of the address space has no
  result. A theorem that needs a value not to wrap says so in a hypothesis.

  \<^bold>\<open>Undefined behaviour.\<close> Where the source uses the value of a function that falls off its end
  (\<open>page_is_buddy\<close>, \<open>pointer\<close>), the model takes the value as an argument, the same for every call, or has
  no result; indexing out of range, missing variable arguments, a width or precision that overflows an
  \<open>int\<close>, the negation of the smallest \<open>long long\<close> and a text over the end of the address space have no
  result.

  \<^bold>\<open>Not modelled.\<close> Code that only prints, reads device registers or calls the running kernel: the
  kernel modules, drivers, system-call patches and architecture code. The entry-cursor and
  \<open>_safe\<close> iteration macros of \<open>list.h\<close> are the modelled traversals with \<open>container_of\<close>. Of
  memblock and buddy, \<open>memory_exit\<close> and the parsing of the command line are calls of \<open>free\<close>,
  \<open>malloc\<close> and \<open>printf\<close>. The region arrays of memblock are lists: the contents of an array that doubling
  has moved are not placed in the modelled memory. Of the output of \<open>radix_run.c\<close> only the indices are
  modelled. The memory allocator below \<open>kasprintf\<close> is an argument. Nothing is
  proved about tagged radix trees, which no code of the program uses. IDR, IDA, XArray, the 2-3
  tree, the object caches of slub, snake and tetris are left out, and of 2048 the drawing, the terminal
  settings, the signal handler and the arguments of the command line.
\<close>

end
